(* ===== verification/Prelude.thy ===== *)
theory Prelude
  imports Main "HOL-Library.Word"
begin

text \<open>
  Shared vocabulary of the development: the machine integers of the Rust sources, the saturating
  operations of the standard library on them, durations, and list lemmas the components share.

  \<^item> \<open>u64\<close>, \<open>u32\<close>, \<open>u8\<close> are words of that width, so \<open>+\<close> wraps as it does in the release
    profile; counters that the sources bump with a plain \<open>+ 1\<close> are bumped so here.
  \<^item> \<open>sat_add\<close>, \<open>sat_sub\<close>, \<open>sat_mul\<close> are \<open>saturating_add\<close>, \<open>saturating_sub\<close>,
    \<open>saturating_mul\<close>.
  \<^item> \<open>usize\<close> values are natural numbers; \<open>usize_add\<close> and \<open>usize_mul\<close> saturate at the
    64-bit maximum.
  \<^item> a \<open>Duration\<close> is its number of nanoseconds, and \<open>duration_ns\<close> is the source's
    \<open>as_nanos() as u64\<close>, which keeps the low 64 bits.
\<close>

section \<open>Machine integers\<close>

type_synonym u8 = "8 word"
type_synonym u32 = "32 word"
type_synonym u64 = "64 word"
type_synonym usize = nat
type_synonym duration = nat

named_theorems sat_simps

definition sat_add :: "'a::len word \<Rightarrow> 'a word \<Rightarrow> 'a word" where
  "sat_add a b = (if unat a + unat b < 2 ^ LENGTH('a) then a + b else - 1)"

definition sat_sub :: "'a::len word \<Rightarrow> 'a word \<Rightarrow> 'a word" where
  "sat_sub a b = (if b \<le> a then a - b else 0)"

definition sat_mul :: "'a::len word \<Rightarrow> 'a word \<Rightarrow> 'a word" where
  "sat_mul a b = (if unat a * unat b < 2 ^ LENGTH('a) then a * b else - 1)"

definition duration_ns :: "duration \<Rightarrow> u64" where
  "duration_ns d = of_nat d"

definition usize_max :: usize where
  "usize_max = 2 ^ 64 - 1"

definition usize_add :: "usize \<Rightarrow> usize \<Rightarrow> usize" where
  "usize_add a b = min (a + b) usize_max"

definition usize_mul :: "usize \<Rightarrow> usize \<Rightarrow> usize" where
  "usize_mul a b = min (a * b) usize_max"

lemma unat_lt_2p: "unat (x :: 'a::len word) < 2 ^ LENGTH('a)"
  by (rule unsigned_less)

lemma unat_max_word: "unat (- 1 :: 'a::len word) = 2 ^ LENGTH('a) - 1"
  by (simp add: unsigned_minus_1_eq_mask mask_eq_exp_minus_1)

lemma unat_sat_add [sat_simps]:
  "unat (sat_add a b) = min (unat a + unat b) (2 ^ LENGTH('a) - 1)"
  for a b :: "'a::len word"
  by (auto simp: sat_add_def unat_max_word unat_word_ariths)

lemma unat_sat_sub [sat_simps]: "unat (sat_sub a b) = unat a - unat b"
  by (auto simp: sat_sub_def unat_sub word_le_nat_alt)

lemma unat_sat_mul [sat_simps]:
  "unat (sat_mul a b) = min (unat a * unat b) (2 ^ LENGTH('a) - 1)"
  for a b :: "'a::len word"
  by (auto simp: sat_mul_def unat_max_word unat_word_ariths)

lemma sat_add_ge: "a \<le> sat_add a b"
  for a b :: "'a::len word"
proof -
  have "unat a \<le> 2 ^ LENGTH('a) - 1" for a :: "'a word"
    using unat_lt_2p [of a] by linarith
  then show ?thesis by (simp add: word_le_nat_alt unat_sat_add)
qed

lemma unat_add_1: "unat a + 1 < 2 ^ LENGTH('a) \<Longrightarrow> unat (a + 1) = unat a + 1"
  for a :: "'a::len word"
  by (simp add: unat_word_ariths)

lemma unat_u64_lt: "unat (x :: u64) < 2 ^ 64"
  using unat_lt_2p [of x] by simp

lemma unat_of_nat_eq: "n < 2 ^ LENGTH('a) \<Longrightarrow> unat (of_nat n :: 'a::len word) = n"
  by (simp add: unsigned_of_nat take_bit_nat_eq_self)

lemma unat_ucast_mod: "unat (ucast x :: 'b::len word) = unat x mod 2 ^ LENGTH('b)"
  by (simp add: unsigned_ucast_eq take_bit_eq_mod)

section \<open>Spans of a list of stamps\<close>

text \<open>The pairwise reading of ``largest minus smallest is at most \<open>w\<close>''.\<close>

definition within_span :: "u64 list \<Rightarrow> u64 \<Rightarrow> bool" where
  "within_span ts w \<longleftrightarrow> (\<forall>a\<in>set ts. \<forall>b\<in>set ts. unat a \<le> unat b + unat w)"

lemma within_span_extrema:
  assumes "lo \<in> set ts" "hi \<in> set ts" "\<forall>t\<in>set ts. lo \<le> t \<and> t \<le> hi"
  shows "within_span ts w \<longleftrightarrow> hi - lo \<le> w"
proof -
  from assms have "lo \<le> hi" by auto
  then have *: "hi - lo \<le> w \<longleftrightarrow> unat hi \<le> unat lo + unat w"
    by (auto simp: word_le_nat_alt unat_sub)
  show ?thesis
    unfolding *
  proof
    assume "within_span ts w"
    with assms(1,2) show "unat hi \<le> unat lo + unat w"
      by (auto simp: within_span_def)
  next
    assume hl: "unat hi \<le> unat lo + unat w"
    show "within_span ts w"
      unfolding within_span_def
    proof (intro ballI)
      fix a b
      assume "a \<in> set ts" "b \<in> set ts"
      with assms(3) have "unat a \<le> unat hi" "unat lo \<le> unat b"
        by (auto simp: word_le_nat_alt)
      with hl show "unat a \<le> unat b + unat w" by linarith
    qed
  qed
qed

section \<open>Lists\<close>

lemma foldl_min_le: "foldl min (a::'a::linorder) xs \<le> a"
proof (induction xs arbitrary: a)
  case (Cons x xs)
  have "foldl min (min a x) xs \<le> min a x" by (rule Cons.IH)
  then show ?case by simp
qed simp

lemma foldl_max_ge: "(a::'a::linorder) \<le> foldl max a xs"
proof (induction xs arbitrary: a)
  case (Cons x xs)
  have "max a x \<le> foldl max (max a x) xs" by (rule Cons.IH)
  then show ?case by simp
qed simp

lemma foldl_min_lower: "x \<in> set xs \<Longrightarrow> foldl min (a::'a::linorder) xs \<le> x"
proof (induction xs arbitrary: a)
  case (Cons y ys)
  show ?case
  proof (cases "x = y")
    case True
    then show ?thesis using foldl_min_le [of "min a y" ys] by simp
  qed (use Cons in simp)
qed simp

lemma foldl_max_upper: "x \<in> set xs \<Longrightarrow> x \<le> foldl max (a::'a::linorder) xs"
proof (induction xs arbitrary: a)
  case (Cons y ys)
  show ?case
  proof (cases "x = y")
    case True
    then show ?thesis using foldl_max_ge [of "max a y" ys] by simp
  qed (use Cons in simp)
qed simp

lemma foldl_min_mem: "foldl min (a::'a::linorder) xs \<in> insert a (set xs)"
proof (induction xs arbitrary: a)
  case (Cons y ys)
  have "foldl min (min a y) ys \<in> insert (min a y) (set ys)" by (rule Cons.IH)
  moreover have "min a y = a \<or> min a y = y" by (simp add: min_def)
  ultimately show ?case by auto
qed simp

lemma foldl_max_mem: "foldl max (a::'a::linorder) xs \<in> insert a (set xs)"
proof (induction xs arbitrary: a)
  case (Cons y ys)
  have "foldl max (max a y) ys \<in> insert (max a y) (set ys)" by (rule Cons.IH)
  moreover have "max a y = a \<or> max a y = y" by (simp add: max_def)
  ultimately show ?case by auto
qed simp

text \<open>The scans start at the greatest and least word, so on a non-empty list they are its extrema.\<close>

lemma scan_min_mem: "xs \<noteq> [] \<Longrightarrow> foldl min (- 1) xs \<in> set (xs :: 'a::len word list)"
  using foldl_min_mem [of "- 1" xs] foldl_min_lower [of "hd xs" xs "- 1"]
  by (cases xs) (auto simp: word_order.extremum_unique)

lemma scan_max_mem: "xs \<noteq> [] \<Longrightarrow> foldl max 0 xs \<in> set (xs :: 'a::len word list)"
  using foldl_max_mem [of 0 xs] foldl_max_upper [of "hd xs" xs 0]
  by (cases xs) (auto simp: word_le_0_iff)

text \<open>The position of the first occurrence, as an insertion-ordered map answers it.\<close>

fun index_in :: "'a \<Rightarrow> 'a list \<Rightarrow> nat option" where
  "index_in i [] = None"
| "index_in i (x # xs) = (if x = i then Some 0 else map_option Suc (index_in i xs))"

lemma index_in_Some: "index_in i xs = Some j \<Longrightarrow> j < length xs \<and> xs ! j = i"
  by (induction xs arbitrary: j) (auto split: if_splits)

lemma index_in_None: "index_in i xs = None \<longleftrightarrow> i \<notin> set xs"
  by (induction xs) auto

lemma index_in_nth: "distinct xs \<Longrightarrow> j < length xs \<Longrightarrow> index_in (xs ! j) xs = Some j"
  by (induction xs arbitrary: j) (auto simp: nth_Cons split: nat.splits)

text \<open>An insertion-ordered set: a value enters once, at the end.\<close>

definition push_new :: "'a list \<Rightarrow> 'a \<Rightarrow> 'a list" where
  "push_new xs x = (if x \<in> set xs then xs else xs @ [x])"

definition first_seen :: "'a list \<Rightarrow> 'a list" where
  "first_seen xs = foldl push_new [] xs"

lemma push_new_set [simp]: "set (push_new xs x) = insert x (set xs)"
  by (auto simp: push_new_def)

lemma foldl_push_new: "set (foldl push_new acc xs) = set acc \<union> set xs \<and>
    (distinct acc \<longrightarrow> distinct (foldl push_new acc xs))"
  by (induction xs arbitrary: acc) (auto simp: push_new_def)

lemma first_seen_set [simp]: "set (first_seen xs) = set xs" "distinct (first_seen xs)"
  using foldl_push_new [of "[]" xs] by (simp_all add: first_seen_def)

lemma first_seen_distinct: "distinct xs \<Longrightarrow> first_seen xs = xs"
proof -
  have "distinct (acc @ xs) \<Longrightarrow> foldl push_new acc xs = acc @ xs" for acc
    by (induction xs arbitrary: acc) (auto simp: push_new_def)
  from this [of "[]"] show "distinct xs \<Longrightarrow> first_seen xs = xs" by (simp add: first_seen_def)
qed

end
