(* ===== verification/PeriodClamp.thy ===== *)
theory PeriodClamp
  imports Prelude
begin

text \<open>
  The catch-up clamp of \<open>Period\<close> nodes (\<open>scheduler/catchup_clamp.rs\<close>).

  \<open>arm_onset\<close> is one reading of the recorder's arm word, \<open>derive_catchup_cap_override\<close> the
  per-step cap it implies, \<open>effective_max_catchup\<close> the precedence of a declared cap over the
  override, and \<open>period_advance\<close> the closed form of one step of a \<open>Period\<close> schedule.
  \<open>period_loop\<close> is the loop that the closed form replaced (the oracle of the file's own tests);
  it is fuelled, because with a zero interval it does not end. The lemmas show that the two agree
  wherever the loop ends without wrapping, and that the deadline always lands past the clock
  (or saturates).
\<close>

section \<open>The arm and the effective cap\<close>

record arm_onset =
  armed :: bool
  first_anchor_step :: u64

definition arm_detached :: arm_onset where
  "arm_detached = \<lparr>armed = False, first_anchor_step = 0\<rparr>"

definition static_arm_armed_from :: "u64 \<Rightarrow> arm_onset" where
  "static_arm_armed_from s = \<lparr>armed = True, first_anchor_step = s\<rparr>"

definition ARMED_MAX_CATCHUP_DEFAULT :: u32 where
  "ARMED_MAX_CATCHUP_DEFAULT = 4"

definition derive_catchup_cap_override :: "arm_onset \<Rightarrow> u64 \<Rightarrow> u32 option" where
  "derive_catchup_cap_override onset step =
     (if armed onset \<and> first_anchor_step onset \<le> step then Some ARMED_MAX_CATCHUP_DEFAULT
      else None)"

definition effective_max_catchup :: "u32 option \<Rightarrow> u32 option \<Rightarrow> u32" where
  "effective_max_catchup declared override_cap =
     (case declared of
        Some n \<Rightarrow> n
      | None \<Rightarrow> (case override_cap of Some c \<Rightarrow> c | None \<Rightarrow> - 1))"

section \<open>One step of a schedule\<close>

record period_adv =
  adv_fire_count :: u32
  adv_first_fire_ns :: u64
  adv_next_fire_ns :: u64

definition period_advance :: "u64 \<Rightarrow> u64 \<Rightarrow> u64 \<Rightarrow> u32 \<Rightarrow> period_adv" where
  "period_advance next_fire_ns now_ns interval_ns cap =
     (if interval_ns = 0 \<or> now_ns < next_fire_ns then
        \<lparr>adv_fire_count = 0, adv_first_fire_ns = 0, adv_next_fire_ns = next_fire_ns\<rparr>
      else
        let behind = now_ns - next_fire_ns;
            uncapped = sat_add (behind div interval_ns) 1
        in \<lparr>adv_fire_count = ucast (min uncapped (ucast cap)),
            adv_first_fire_ns = next_fire_ns,
            adv_next_fire_ns = sat_add next_fire_ns (sat_mul uncapped interval_ns)\<rparr>)"

text \<open>The number of whole intervals that carries the deadline past \<open>now\<close>.\<close>

definition due_intervals :: "u64 \<Rightarrow> u64 \<Rightarrow> u64 \<Rightarrow> nat" where
  "due_intervals next_fire now interval =
     (if interval \<noteq> 0 \<and> next_fire \<le> now
      then (unat now - unat next_fire) div unat interval + 1 else 0)"

text \<open>
  The loop form, from the oracle in the file's tests: fire while the deadline is due and the cap
  is not spent, then skip ahead without firing. One unit of fuel per iteration.
\<close>

fun fire_loop :: "nat \<Rightarrow> u64 \<Rightarrow> u64 \<Rightarrow> u64 \<Rightarrow> nat \<Rightarrow> nat \<Rightarrow> (nat \<times> u64) option" where
  "fire_loop 0 next_fire now interval cap fired = None"
| "fire_loop (Suc fuel) next_fire now interval cap fired =
     (if next_fire \<le> now \<and> fired < cap
      then fire_loop fuel (next_fire + interval) now interval cap (Suc fired)
      else Some (fired, next_fire))"

fun skip_loop :: "nat \<Rightarrow> u64 \<Rightarrow> u64 \<Rightarrow> u64 \<Rightarrow> u64 option" where
  "skip_loop 0 next_fire now interval = None"
| "skip_loop (Suc fuel) next_fire now interval =
     (if next_fire \<le> now then skip_loop fuel (next_fire + interval) now interval
      else Some next_fire)"

definition period_loop :: "nat \<Rightarrow> u64 \<Rightarrow> u64 \<Rightarrow> u64 \<Rightarrow> u32 \<Rightarrow> period_adv option" where
  "period_loop fuel next_fire now interval cap =
     (case fire_loop fuel next_fire now interval (unat cap) 0 of
        None \<Rightarrow> None
      | Some (fired, nf) \<Rightarrow>
          (case (if unat cap \<le> fired then skip_loop fuel nf now interval else Some nf) of
             None \<Rightarrow> None
           | Some nf' \<Rightarrow>
               Some \<lparr>adv_fire_count = of_nat fired,
                     adv_first_fire_ns = (if fired = 0 then 0 else next_fire),
                     adv_next_fire_ns = nf'\<rparr>))"

section \<open>The closed form in natural numbers\<close>

lemma period_advance_not_due:
  "interval = 0 \<or> now < next_fire \<Longrightarrow>
   period_advance next_fire now interval cap =
     \<lparr>adv_fire_count = 0, adv_first_fire_ns = 0, adv_next_fire_ns = next_fire\<rparr>"
  by (simp add: period_advance_def)

lemma due_intervals_bound: "due_intervals nf now iv \<le> 2 ^ 64"
proof -
  have "unat now - unat nf \<le> 2 ^ 64 - 1"
    using unat_u64_lt [of now] by linarith
  then have "(unat now - unat nf) div unat iv \<le> 2 ^ 64 - 1"
    by (meson div_le_dividend le_trans)
  then show ?thesis by (simp add: due_intervals_def)
qed

lemma unat_uncapped:
  assumes "iv \<noteq> 0" "nf \<le> now"
  shows "unat (sat_add ((now - nf) div iv) 1) = min (due_intervals nf now iv) (2 ^ 64 - 1)"
  using assms
  by (simp add: unat_sat_add due_intervals_def unat_div unat_sub)


lemma due_intervals_pos: "iv \<noteq> 0 \<Longrightarrow> nf \<le> now \<Longrightarrow> 0 < due_intervals nf now iv"
  by (simp add: due_intervals_def)

lemma unat_cap_lt: "unat (cap :: u32) < 2 ^ 32"
  using unat_lt_2p [of cap] by simp

lemma unat_cap_le: "unat (cap :: u32) \<le> 4294967295"
  using unat_cap_lt [of cap] by simp

lemma unat_min_cap:
  fixes x :: u64 and cap :: u32
  shows "unat (ucast (min x (ucast cap)) :: u32) = min (unat x) (unat cap)"
proof -
  have c: "unat (ucast cap :: u64) = unat cap"
    using unat_cap_lt [of cap] by (simp add: unat_ucast_mod)
  have "unat (min x (ucast cap)) = min (unat x) (unat cap)"
    by (simp add: min_def word_le_nat_alt c)
  moreover have "min (unat x) (unat cap) < 2 ^ 32"
    using unat_cap_lt [of cap] by simp
  ultimately show ?thesis by (simp add: unat_ucast_mod)
qed

lemma unat_fire_count:
  "unat (adv_fire_count (period_advance nf now iv cap)) = min (due_intervals nf now iv) (unat cap)"
proof (cases "iv = 0 \<or> now < nf")
  case True
  then show ?thesis by (auto simp: period_advance_def due_intervals_def not_le)
next
  case False
  then have "iv \<noteq> 0" "nf \<le> now" by (auto simp: not_less)
  then have "unat (adv_fire_count (period_advance nf now iv cap)) =
      min (min (due_intervals nf now iv) (2 ^ 64 - 1)) (unat cap)"
    using False by (simp add: period_advance_def Let_def unat_min_cap unat_uncapped)
  then show ?thesis using unat_cap_lt [of cap] by simp
qed

lemma unat_next_fire:
  assumes "iv \<noteq> 0" "nf \<le> now"
  shows "unat (adv_next_fire_ns (period_advance nf now iv cap)) =
     min (unat nf + due_intervals nf now iv * unat iv) (2 ^ 64 - 1)"
proof -
  let ?d = "due_intervals nf now iv" and ?M = "2 ^ 64 - 1 :: nat"
  have iv: "1 \<le> unat iv" using assms(1) by (simp add: Suc_leI unat_gt_0)
  have "unat (adv_next_fire_ns (period_advance nf now iv cap)) =
      min (unat nf + min (min ?d ?M * unat iv) ?M) ?M"
    using assms
    by (simp add: period_advance_def Let_def unat_sat_add [of nf] unat_sat_mul unat_uncapped
        del: One_nat_def flip: not_less)
  also have "\<dots> = min (unat nf + ?d * unat iv) ?M"
  proof (cases "?d \<le> ?M")
    case True
    then show ?thesis by (simp add: min_def)
  next
    case False
    then have "?M \<le> ?d * unat iv" "?M \<le> ?M * unat iv"
      using iv by (auto intro: order_trans [of _ "?d * 1"] mult_le_mono)
    with False show ?thesis by (simp add: min_def)
  qed
  finally show ?thesis .
qed

lemma due_intervals_reach:
  assumes "iv \<noteq> 0" "nf \<le> now"
  shows "unat now < unat nf + due_intervals nf now iv * unat iv"
proof -
  have "0 < unat iv" using assms(1) by (simp add: unat_gt_0)
  then have "unat now - unat nf < ((unat now - unat nf) div unat iv + 1) * unat iv"
    using dividend_less_div_times [of "unat iv" "unat now - unat nf"] by simp
  with assms show ?thesis by (simp add: due_intervals_def word_le_nat_alt)
qed

lemma due_intervals_le:
  assumes "k < due_intervals nf now iv"
  shows "unat nf + k * unat iv \<le> unat now"
proof -
  from assms have nz: "iv \<noteq> 0" "nf \<le> now"
    by (auto simp: due_intervals_def split: if_splits)
  with assms have "k \<le> (unat now - unat nf) div unat iv"
    by (simp add: due_intervals_def)
  then have "k * unat iv \<le> unat now - unat nf"
    by (metis div_times_less_eq_dividend le_trans mult_le_mono1)
  with nz show ?thesis by (simp add: word_le_nat_alt)
qed

section \<open>The loop form\<close>

lemma unat_plus_small: "unat (a :: u64) + unat b < 2 ^ 64 \<Longrightarrow> unat (a + b) = unat a + unat b"
  by (simp add: unat_word_ariths)

lemma due_intervals_step:
  assumes "iv \<noteq> 0" "nf \<le> now" "unat nf + unat iv < 2 ^ 64"
  shows "due_intervals nf now iv = Suc (due_intervals (nf + iv) now iv)"
proof -
  have u: "unat (nf + iv) = unat nf + unat iv"
    using assms(3) by (rule unat_plus_small)
  show ?thesis
  proof (cases "now < nf + iv")
    case True
    then have "unat now - unat nf < unat iv"
      using assms(2) u by (auto simp: word_less_nat_alt word_le_nat_alt)
    with assms True show ?thesis by (simp add: due_intervals_def flip: not_less)
  next
    case False
    then have "unat now - unat nf = (unat now - unat (nf + iv)) + unat iv"
      using u by (auto simp: word_less_nat_alt)
    moreover have "0 < unat iv" using assms(1) by (simp add: unat_gt_0)
    ultimately have "(unat now - unat nf) div unat iv =
        Suc ((unat now - unat (nf + iv)) div unat iv)" by (simp only: div_add_self2)
    with assms False show ?thesis by (simp add: due_intervals_def not_less)
  qed
qed

lemma due_intervals_0: "iv \<noteq> 0 \<Longrightarrow> due_intervals nf now iv = 0 \<longleftrightarrow> now < nf"
  by (auto simp: due_intervals_def not_le)

lemma no_wrap_step:
  assumes "iv \<noteq> 0" "nf \<le> now" "unat nf + due_intervals nf now iv * unat iv < 2 ^ 64"
  shows "unat nf + unat iv < 2 ^ 64"
    and "unat (nf + iv) + due_intervals (nf + iv) now iv * unat iv < 2 ^ 64"
    and "unat (nf + iv) + due_intervals (nf + iv) now iv * unat iv =
      unat nf + due_intervals nf now iv * unat iv"
proof -
  have "1 \<le> due_intervals nf now iv" using assms by (simp add: due_intervals_def)
  then have "1 * unat iv \<le> due_intervals nf now iv * unat iv" by (rule mult_le_mono1)
  then show 1: "unat nf + unat iv < 2 ^ 64" using assms(3) by linarith
  show 2: "unat (nf + iv) + due_intervals (nf + iv) now iv * unat iv =
      unat nf + due_intervals nf now iv * unat iv"
    using due_intervals_step [OF assms(1,2) 1] unat_plus_small [OF 1] by simp
  then show "unat (nf + iv) + due_intervals (nf + iv) now iv * unat iv < 2 ^ 64"
    using assms(3) by simp
qed

lemma skip_loop_result:
  assumes "iv \<noteq> 0" "unat nf + due_intervals nf now iv * unat iv < 2 ^ 64"
    and "due_intervals nf now iv < fuel"
  shows "skip_loop fuel nf now iv = Some (of_nat (unat nf + due_intervals nf now iv * unat iv))"
  using assms(2,3)
proof (induction fuel arbitrary: nf)
  case (Suc fuel)
  show ?case
  proof (cases "nf \<le> now")
    case True
    note step = no_wrap_step [OF assms(1) True Suc.prems(1)]
    have "due_intervals (nf + iv) now iv < fuel"
      using Suc.prems(2) due_intervals_step [OF assms(1) True step(1)] by simp
    with Suc.IH [OF step(2)] True step(3) show ?thesis by simp
  next
    case False
    then have "due_intervals nf now iv = 0" by (simp add: due_intervals_def)
    with False show ?thesis by simp
  qed
qed simp

lemma fire_loop_result:
  assumes "iv \<noteq> 0" "unat nf + due_intervals nf now iv * unat iv < 2 ^ 64"
    and "due_intervals nf now iv < fuel" "fired \<le> cap"
  shows "\<exists>nf'. fire_loop fuel nf now iv cap fired =
           Some (fired + min (due_intervals nf now iv) (cap - fired), nf') \<and>
         unat nf' + due_intervals nf' now iv * unat iv =
           unat nf + due_intervals nf now iv * unat iv \<and>
         due_intervals nf' now iv = due_intervals nf now iv - (cap - fired)"
  using assms(2,3,4)
proof (induction fuel arbitrary: nf fired)
  case (Suc fuel)
  show ?case
  proof (cases "nf \<le> now \<and> fired < cap")
    case True
    then have le: "nf \<le> now" and lt: "fired < cap" by simp_all
    note step = no_wrap_step [OF assms(1) le Suc.prems(1)]
    note due = due_intervals_step [OF assms(1) le step(1)]
    have "due_intervals (nf + iv) now iv < fuel" "Suc fired \<le> cap"
      using Suc.prems(2) due lt by simp_all
    from Suc.IH [OF step(2) this] obtain nf' where
      "fire_loop fuel (nf + iv) now iv cap (Suc fired) =
         Some (Suc fired + min (due_intervals (nf + iv) now iv) (cap - Suc fired), nf')"
      "unat nf' + due_intervals nf' now iv * unat iv =
         unat (nf + iv) + due_intervals (nf + iv) now iv * unat iv"
      "due_intervals nf' now iv = due_intervals (nf + iv) now iv - (cap - Suc fired)"
      by blast
    with le lt due step(3) show ?thesis by (intro exI [of _ nf']) (auto simp: min_def)
  next
    case False
    then have "due_intervals nf now iv = 0 \<or> cap = fired"
      using Suc.prems(3) by (auto simp: due_intervals_def)
    with False show ?thesis by auto
  qed
qed simp


lemma due_no_wrap:
  assumes "unat now + unat iv < 2 ^ 64"
  shows "nf \<le> now \<Longrightarrow> unat nf + due_intervals nf now iv * unat iv < 2 ^ 64"
proof -
  assume le: "nf \<le> now"
  show ?thesis
  proof (cases "due_intervals nf now iv")
    case 0
    then show ?thesis using unat_u64_lt [of nf] by simp
  next
    case (Suc k)
    then have "unat nf + k * unat iv \<le> unat now" by (intro due_intervals_le) simp
    with assms Suc show ?thesis by simp
  qed
qed

lemma due_le_now: "due_intervals nf now iv \<le> unat now + 1"
proof -
  have "(unat now - unat nf) div unat iv \<le> unat now"
    by (meson diff_le_self div_le_dividend le_trans)
  then show ?thesis by (simp add: due_intervals_def)
qed

section \<open>Properties\<close>

text \<open>
  C14. The closed form answers exactly what the loop it replaced answers: for a positive interval,
  a clock at least one interval below the 64-bit limit and enough fuel (the loop runs at most one
  iteration per due interval), the fire-then-skip loop returns, with the burst, the first instant
  (0 when nothing fires) and the new deadline of \<open>period_advance\<close>.
\<close>

theorem period_advance_matches_loop:
  assumes "iv \<noteq> 0" and "unat now + unat iv < 2 ^ 64" and "unat now + 1 < fuel"
  shows "period_loop fuel nf now iv cap =
    Some (let a = period_advance nf now iv cap
          in a\<lparr>adv_first_fire_ns := (if adv_fire_count a = 0 then 0 else adv_first_fire_ns a)\<rparr>)"
proof (cases "nf \<le> now")
  case False
  with assms show ?thesis
    by (cases fuel) (auto simp: period_loop_def period_advance_def not_le split: if_splits)
next
  case True
  let ?d = "due_intervals nf now iv" and ?a = "period_advance nf now iv cap"
  let ?nf = "of_nat (unat nf + ?d * unat iv) :: u64" and ?m = "min ?d (unat cap)"
  have nw: "unat nf + ?d * unat iv < 2 ^ 64" and fuel: "?d < fuel"
    using due_no_wrap [OF assms(2) True] due_le_now [of nf now iv] assms(3) by simp_all
  obtain nf' where fire: "fire_loop fuel nf now iv (unat cap) 0 = Some (?m, nf')"
    and sum: "unat nf' + due_intervals nf' now iv * unat iv = unat nf + ?d * unat iv"
    and left: "due_intervals nf' now iv = ?d - unat cap"
    using fire_loop_result [OF assms(1) nw fuel, of 0 "unat cap"] by auto
  have skip: "(if unat cap \<le> ?m then skip_loop fuel nf' now iv else Some nf') = Some ?nf"
  proof (cases "unat cap \<le> ?m")
    case c: True
    have "skip_loop fuel nf' now iv = Some (of_nat (unat nf' + due_intervals nf' now iv * unat iv))"
    proof (rule skip_loop_result [OF assms(1)])
      show "unat nf' + due_intervals nf' now iv * unat iv < 2 ^ 64"
        using nw by (simp only: sum)
      show "due_intervals nf' now iv < fuel"
        using fuel by (simp add: left)
    qed
    with c show ?thesis by (simp only: sum if_True)
  next
    case False
    then show ?thesis using sum left by (simp flip: sum)
  qed
  have cnt: "adv_fire_count ?a = of_nat ?m"
    by (rule word_unat_eq_iff [THEN iffD2])
      (use unat_cap_lt [of cap] in \<open>simp add: unat_fire_count unat_of_nat_eq\<close>)
  have nxt: "adv_next_fire_ns ?a = ?nf"
    by (rule word_unat_eq_iff [THEN iffD2])
      (use nw in \<open>simp add: unat_next_fire [OF assms(1) True] unat_of_nat_eq del: of_nat_add\<close>)
  have fst: "adv_first_fire_ns ?a = nf"
    using True assms(1) by (simp add: period_advance_def Let_def not_less [symmetric] del: not_less)
  have z: "of_nat ?m = (0 :: u32) \<longleftrightarrow> ?m = 0"
    using unat_cap_lt [of cap] by (simp add: word_unat_eq_iff unat_of_nat_eq)
  have a: "?a = \<lparr>adv_fire_count = of_nat ?m, adv_first_fire_ns = nf, adv_next_fire_ns = ?nf\<rparr>"
    by (rule period_adv.equality) (simp_all only: cnt nxt fst period_adv.simps, simp)
  show ?thesis
    unfolding period_loop_def fire option.case prod.case skip a Let_def
    by (simp only: z period_adv.simps)
qed


theorem period_advance_matches_loop_witness:
  "period_loop 1050 100 1000 10 5 =
   Some \<lparr>adv_fire_count = 5, adv_first_fire_ns = 100, adv_next_fire_ns = 1010\<rparr>"
proof -
  have h: "(10 :: u64) \<noteq> 0" "unat (1000 :: u64) + unat (10 :: u64) < 2 ^ 64"
    "unat (1000 :: u64) + 1 < 1050" by simp_all
  have a: "period_advance 100 1000 10 5 =
      \<lparr>adv_fire_count = 5, adv_first_fire_ns = 100, adv_next_fire_ns = 1010\<rparr>"
    by (simp add: period_advance_def Let_def sat_add_def sat_mul_def)
  show ?thesis using period_advance_matches_loop [OF h, of 100 5] by (simp add: a)
qed

text \<open>
  After a step of a due \<open>Period\<close> node the deadline is strictly past the clock unless it
  saturated at the 64-bit limit, every fire of the burst is due (its instant, reconstructed as
  \<open>next_fire + k * interval\<close>, is at most the clock), and the burst is as long as the cap allows:
  it is the cap or exhausts the due intervals.
\<close>

theorem period_advance_catches_up:
  assumes "iv \<noteq> 0" and "nf \<le> now"
  shows "(now < adv_next_fire_ns (period_advance nf now iv cap) \<or>
          adv_next_fire_ns (period_advance nf now iv cap) = - 1) \<and>
    (\<forall>k < unat (adv_fire_count (period_advance nf now iv cap)).
        unat nf + k * unat iv \<le> unat now) \<and>
    (adv_fire_count (period_advance nf now iv cap) = cap \<or>
     unat now < unat nf + unat (adv_fire_count (period_advance nf now iv cap)) * unat iv)"
proof (intro conjI)
  let ?a = "period_advance nf now iv cap"
  have nx: "unat (adv_next_fire_ns ?a) = min (unat nf + due_intervals nf now iv * unat iv) (2 ^ 64 - 1)"
    by (rule unat_next_fire [OF assms])
  show "now < adv_next_fire_ns ?a \<or> adv_next_fire_ns ?a = - 1"
    using nx due_intervals_reach [OF assms]
    by (simp add: word_less_nat_alt word_unat_eq_iff unat_max_word min_def split: if_splits)
  show "\<forall>k < unat (adv_fire_count ?a). unat nf + k * unat iv \<le> unat now"
    by (auto simp: unat_fire_count intro: due_intervals_le)
  show "adv_fire_count ?a = cap \<or> unat now < unat nf + unat (adv_fire_count ?a) * unat iv"
    using due_intervals_reach [OF assms]
    by (simp add: word_unat_eq_iff unat_fire_count min_def)
qed

theorem period_advance_catches_up_witness:
  "adv_fire_count (period_advance 100 135 10 3) = 3 \<and>
   unat (100 :: u64) + 2 * unat (10 :: u64) \<le> unat (135 :: u64)"
proof -
  have h: "(10 :: u64) \<noteq> 0" "(100 :: u64) \<le> 135" by simp_all
  have c: "adv_fire_count (period_advance 100 135 10 3) = 3"
    by (simp add: period_advance_def Let_def sat_add_def sat_mul_def)
  have "\<forall>k < unat (adv_fire_count (period_advance 100 135 10 3)).
      unat (100 :: u64) + k * unat (10 :: u64) \<le> unat (135 :: u64)"
    using period_advance_catches_up [OF h, of 3] by blast
  then show ?thesis using c by simp
qed

text \<open>
  The clamp bounds the burst of a node that declared no cap, and nothing else: once the arm
  is armed and its onset step reached, such a node fires at most \<open>ARMED_MAX_CATCHUP_DEFAULT\<close>
  times in a step; before the onset, disarmed, or with a declared cap, the cap is what it is
  without an arm; and the clamp never moves a deadline, which is the same under every cap.
\<close>

theorem catchup_clamp_contract:
  fixes onset :: arm_onset and step nf now iv :: u64 and declared :: "u32 option"
  defines "eff \<equiv> effective_max_catchup declared (derive_catchup_cap_override onset step)"
  shows "(declared = None \<and> armed onset \<and> first_anchor_step onset \<le> step \<longrightarrow>
           adv_fire_count (period_advance nf now iv eff) \<le> ARMED_MAX_CATCHUP_DEFAULT) \<and>
    (declared \<noteq> None \<or> \<not> armed onset \<or> step < first_anchor_step onset \<longrightarrow>
           eff = effective_max_catchup declared None) \<and>
    eff \<le> effective_max_catchup declared None \<and>
    adv_next_fire_ns (period_advance nf now iv eff) =
      adv_next_fire_ns (period_advance nf now iv (effective_max_catchup declared None))"
proof (intro conjI impI)
  show "adv_fire_count (period_advance nf now iv eff) \<le> ARMED_MAX_CATCHUP_DEFAULT"
    if "declared = None \<and> armed onset \<and> first_anchor_step onset \<le> step"
    using that
    by (simp add: eff_def effective_max_catchup_def derive_catchup_cap_override_def
        word_le_nat_alt unat_fire_count ARMED_MAX_CATCHUP_DEFAULT_def)
  show "eff = effective_max_catchup declared None"
    if "declared \<noteq> None \<or> \<not> armed onset \<or> step < first_anchor_step onset"
    using that
    by (auto simp: eff_def effective_max_catchup_def derive_catchup_cap_override_def
        split: option.splits)
  show "eff \<le> effective_max_catchup declared None"
    by (auto simp: eff_def effective_max_catchup_def word_le_nat_alt unat_max_word
        unat_cap_le split: option.splits)
  show "adv_next_fire_ns (period_advance nf now iv eff) =
      adv_next_fire_ns (period_advance nf now iv (effective_max_catchup declared None))"
    by (simp add: period_advance_def Let_def)
qed

theorem catchup_clamp_contract_witness:
  "adv_fire_count (period_advance 0 1000 10
     (effective_max_catchup None (derive_catchup_cap_override (static_arm_armed_from 7) 7))) \<le> 4"
  using catchup_clamp_contract [of None "static_arm_armed_from 7" 7 0 1000 10]
  by (simp add: static_arm_armed_from_def ARMED_MAX_CATCHUP_DEFAULT_def)

end
