(* ===== verification/SyncMatch.thy ===== *)
theory SyncMatch
  imports Prelude
begin

text \<open>
  The per-set Sync matcher (\<open>scheduler/sync_match.rs\<close>) and the fire predicate it replaced
  (\<open>sync_aligned\<close> of \<open>scheduler/mod.rs\<close>).

  \<open>next_sync_step\<close> is a pure function of the heads (one per trigger input, in declaration order),
  of what is known about the frame behind each head, and of the window; its verdict is to wait, to
  fire, or a transport operation to perform before it runs again. \<open>scan_heads\<close>, \<open>argmin_scan\<close> and
  \<open>gate_scan\<close> are the three loops of its body. The lemmas characterise each verdict in terms of
  the list of head stamps; \<open>SyncAlign\<close> builds the driver on them.
\<close>

section \<open>Heads, knowledge and verdicts\<close>

datatype head_state =
    Filled (backed: bool)
  | Emitted

record sync_head =
  head_ts :: u64
  head_st :: head_state

definition filled_head :: "u64 \<Rightarrow> sync_head" where
  "filled_head t = \<lparr>head_ts = t, head_st = Filled True\<rparr>"

definition restored_head :: "u64 \<Rightarrow> sync_head" where
  "restored_head t = \<lparr>head_ts = t, head_st = Filled False\<rparr>"

definition emitted_head :: "u64 \<Rightarrow> sync_head" where
  "emitted_head t = \<lparr>head_ts = t, head_st = Emitted\<rparr>"

definition is_filled :: "sync_head \<Rightarrow> bool" where
  "is_filled h = (case head_st h of Filled _ \<Rightarrow> True | Emitted \<Rightarrow> False)"

definition is_unbacked :: "sync_head \<Rightarrow> bool" where
  "is_unbacked h = (case head_st h of Filled b \<Rightarrow> \<not> b | Emitted \<Rightarrow> False)"

datatype next_info = NxUnknown | NxNone | NxPresent | NxStamp u64

datatype probe_site = Argmin | Gate

datatype sync_step =
    Wait
  | Fire
  | DiscardTie "nat list"
  | NeedNext nat probe_site
  | NeedStamp nat
  | Advance nat

section \<open>The matcher\<close>

text \<open>Completeness and span in one pass: \<open>None\<close> is the early return on a missing or emitted head.\<close>

fun scan_heads :: "sync_head option list \<Rightarrow> u64 \<Rightarrow> u64 \<Rightarrow> bool \<Rightarrow> (u64 \<times> u64 \<times> bool) option" where
  "scan_heads [] lo hi any_unbacked = Some (lo, hi, any_unbacked)"
| "scan_heads (None # hs) lo hi any_unbacked = None"
| "scan_heads (Some h # hs) lo hi any_unbacked =
     (case head_st h of
        Filled b \<Rightarrow>
          scan_heads hs (min lo (head_ts h)) (max hi (head_ts h)) (if \<not> b then True else any_unbacked)
      | Emitted \<Rightarrow> None)"

text \<open>The first index at the minimum and how many heads sit there.\<close>

fun argmin_scan :: "sync_head option list \<Rightarrow> u64 \<Rightarrow> nat \<Rightarrow> nat \<Rightarrow> nat \<Rightarrow> nat \<times> nat" where
  "argmin_scan [] lo i argmin lo_count = (argmin, lo_count)"
| "argmin_scan (h # hs) lo i argmin lo_count =
     (if (case h of Some x \<Rightarrow> head_ts x = lo | None \<Rightarrow> False)
      then argmin_scan hs lo (Suc i) (if lo_count = 0 then i else argmin) (Suc lo_count)
      else argmin_scan hs lo (Suc i) argmin lo_count)"

datatype gate_verdict = GatePassed | GateProbe nat | GateRefused

fun gate_scan :: "next_info list \<Rightarrow> nat \<Rightarrow> nat \<Rightarrow> gate_verdict" where
  "gate_scan [] j i = GateRefused"
| "gate_scan (x # xs) j i =
     (if j = i then gate_scan xs (Suc j) i
      else case x of
             NxNone \<Rightarrow> GatePassed
           | NxUnknown \<Rightarrow> GateProbe j
           | NxPresent \<Rightarrow> gate_scan xs (Suc j) i
           | NxStamp _ \<Rightarrow> gate_scan xs (Suc j) i)"

definition lo_tie_set :: "sync_head option list \<Rightarrow> u64 \<Rightarrow> nat list" where
  "lo_tie_set heads lo =
     map fst (filter (\<lambda>(i, h). case h of Some x \<Rightarrow> head_ts x = lo | None \<Rightarrow> False)
       (enumerate 0 heads))"

definition second_smallest :: "sync_head option list \<Rightarrow> nat \<Rightarrow> u64" where
  "second_smallest heads skip =
     foldl min (- 1) (List.map_filter (\<lambda>(i, h). if i \<noteq> skip then map_option head_ts h else None)
       (enumerate 0 heads))"

text \<open>The walk towards a tighter tuple, from the lone least head \<open>i\<close>.\<close>

definition descend ::
  "sync_head option list \<Rightarrow> next_info list \<Rightarrow> nat \<Rightarrow> u64 \<Rightarrow> u64 \<Rightarrow> sync_step" where
  "descend heads next i lo hi =
     (case next ! i of
        NxUnknown \<Rightarrow> NeedNext i Argmin
      | NxNone \<Rightarrow> Fire
      | ni \<Rightarrow>
          (case gate_scan next 0 i of
             GateProbe j \<Rightarrow> NeedNext j Gate
           | GateRefused \<Rightarrow> Fire
           | GatePassed \<Rightarrow>
               (case ni of
                  NxStamp p \<Rightarrow>
                    (let lo2 = second_smallest heads i;
                         new_span = max hi p - min lo2 p
                     in if new_span < hi - lo then Advance i else Fire)
                | _ \<Rightarrow> NeedStamp i)))"

definition next_sync_step ::
  "sync_head option list \<Rightarrow> next_info list \<Rightarrow> duration option \<Rightarrow> sync_step" where
  "next_sync_step heads next window =
     (if heads = [] \<or> length heads \<noteq> length next then Wait
      else case scan_heads heads (- 1) 0 False of
        None \<Rightarrow> Wait
      | Some (lo, hi, any_unbacked) \<Rightarrow>
          if (case window of Some w \<Rightarrow> duration_ns w < hi - lo | None \<Rightarrow> False)
          then DiscardTie (lo_tie_set heads lo)
          else if any_unbacked then Fire
          else
            let (i, lo_count) = argmin_scan heads lo 0 0 0
            in if 1 < lo_count then Fire else descend heads next i lo hi)"

text \<open>The predicate the matcher replaced, over a lookup of stamps.\<close>

fun stamp_scan :: "('i \<Rightarrow> u64 option) \<Rightarrow> 'i list \<Rightarrow> u64 \<Rightarrow> u64 \<Rightarrow> (u64 \<times> u64) option" where
  "stamp_scan stamp_of [] lo hi = Some (lo, hi)"
| "stamp_scan stamp_of (x # xs) lo hi =
     (case stamp_of x of
        None \<Rightarrow> None
      | Some t \<Rightarrow> stamp_scan stamp_of xs (min lo t) (max hi t))"

definition sync_aligned :: "('i \<Rightarrow> u64 option) \<Rightarrow> 'i list \<Rightarrow> u64 option \<Rightarrow> bool" where
  "sync_aligned stamp_of trigger_inputs window_ns =
     (case stamp_scan stamp_of trigger_inputs (- 1) 0 of
        None \<Rightarrow> False
      | Some (lo, hi) \<Rightarrow>
          (case window_ns of
             None \<Rightarrow> True
           | Some w \<Rightarrow> trigger_inputs = [] \<or> sat_sub hi lo \<le> w))"


section \<open>Head tuples\<close>

definition all_filled :: "sync_head option list \<Rightarrow> bool" where
  "all_filled heads = list_all (\<lambda>h. case h of Some x \<Rightarrow> is_filled x | None \<Rightarrow> False) heads"

definition stamps :: "sync_head option list \<Rightarrow> u64 list" where
  "stamps heads = map (\<lambda>h. case h of Some x \<Rightarrow> head_ts x | None \<Rightarrow> 0) heads"

definition some_unbacked :: "sync_head option list \<Rightarrow> bool" where
  "some_unbacked heads = list_ex (\<lambda>h. case h of Some x \<Rightarrow> is_unbacked x | None \<Rightarrow> False) heads"

definition in_window :: "sync_head option list \<Rightarrow> duration option \<Rightarrow> bool" where
  "in_window heads window =
     (case window of None \<Rightarrow> True | Some w \<Rightarrow> within_span (stamps heads) (duration_ns w))"

definition complete_set :: "sync_head option list \<Rightarrow> duration option \<Rightarrow> bool" where
  "complete_set heads window \<longleftrightarrow> heads \<noteq> [] \<and> all_filled heads \<and> in_window heads window"

lemma all_filled_simps [simp]:
  "all_filled []"
  "all_filled (h # hs) \<longleftrightarrow> (\<exists>x. h = Some x \<and> is_filled x) \<and> all_filled hs"
  by (auto simp: all_filled_def split: option.splits)

lemma length_stamps [simp]: "length (stamps heads) = length heads"
  by (simp add: stamps_def)

lemma stamps_simps [simp]:
  "stamps [] = []"
  "stamps (Some x # hs) = head_ts x # stamps hs"
  by (simp_all add: stamps_def)

lemma stamps_eq_Nil [simp]: "stamps heads = [] \<longleftrightarrow> heads = []"
  by (simp add: stamps_def)

lemma some_unbacked_simps [simp]:
  "\<not> some_unbacked []"
  "some_unbacked (Some x # hs) \<longleftrightarrow> is_unbacked x \<or> some_unbacked hs"
  by (simp_all add: some_unbacked_def)

lemma all_filled_nth:
  "all_filled heads \<Longrightarrow> i < length heads \<Longrightarrow>
   \<exists>x. heads ! i = Some x \<and> is_filled x \<and> stamps heads ! i = head_ts x"
  by (auto simp: all_filled_def list_all_length stamps_def split: option.splits)

lemma scan_heads_filled:
  "all_filled heads \<Longrightarrow>
   scan_heads heads lo hi u =
     Some (foldl min lo (stamps heads), foldl max hi (stamps heads), u \<or> some_unbacked heads)"
  by (induction heads lo hi u rule: scan_heads.induct)
    (auto simp: is_filled_def is_unbacked_def split: head_state.splits)

lemma scan_heads_not_filled: "\<not> all_filled heads \<Longrightarrow> scan_heads heads lo hi u = None"
  by (induction heads lo hi u rule: scan_heads.induct)
    (auto simp: is_filled_def split: head_state.splits)

text \<open>The extrema the scan computes, and the window test read on the tuple.\<close>

definition span_lo :: "sync_head option list \<Rightarrow> u64" where
  "span_lo heads = foldl min (- 1) (stamps heads)"

definition span_hi :: "sync_head option list \<Rightarrow> u64" where
  "span_hi heads = foldl max 0 (stamps heads)"

lemma span_facts:
  assumes "heads \<noteq> []"
  shows "span_lo heads \<in> set (stamps heads)" "span_hi heads \<in> set (stamps heads)"
    and "\<forall>t\<in>set (stamps heads). span_lo heads \<le> t \<and> t \<le> span_hi heads"
  using assms
  by (auto simp: span_lo_def span_hi_def intro: scan_min_mem scan_max_mem foldl_min_lower
      foldl_max_upper)

lemma span_test:
  "heads \<noteq> [] \<Longrightarrow> within_span (stamps heads) w \<longleftrightarrow> span_hi heads - span_lo heads \<le> w"
  by (rule within_span_extrema [OF span_facts])

lemma in_window_test:
  "heads \<noteq> [] \<Longrightarrow> in_window heads window \<longleftrightarrow>
   \<not> (case window of Some w \<Rightarrow> duration_ns w < span_hi heads - span_lo heads | None \<Rightarrow> False)"
  by (simp add: in_window_def span_test not_less split: option.splits)

section \<open>The three scans\<close>

lemma argmin_scan_spec:
  assumes "argmin_scan hs lo k a c = (a', c')"
  shows "c' = c + length (filter (\<lambda>h. case h of Some x \<Rightarrow> head_ts x = lo | None \<Rightarrow> False) hs)"
    and "(a' = a \<and> c' = c) \<or> (0 < c \<and> a' = a) \<or>
      (\<exists>i < length hs. a' = k + i \<and> (case hs ! i of Some x \<Rightarrow> head_ts x = lo | None \<Rightarrow> False))"
  using assms
proof (induction hs lo k a c arbitrary: a' c' rule: argmin_scan.induct)
  case (2 h hs lo k a c)
  let ?at = "\<lambda>h. case h of Some x \<Rightarrow> head_ts x = lo | None \<Rightarrow> False"
  {
    case 1
    then show ?case using 2 by (cases "?at h") (auto split: if_splits)
  next
    case 2
    show ?case
    proof (cases "?at h")
      case True
      with 2 have "argmin_scan hs lo (Suc k) (if c = 0 then k else a) (Suc c) = (a', c')" by simp
      then have "a' = (if c = 0 then k else a) \<or> (\<exists>i < length hs. a' = Suc k + i \<and> ?at (hs ! i))"
        using "2.IH"(2) [OF True] by auto
      then show ?thesis
        using True by (auto split: if_splits intro: exI [of _ 0] exI [of _ "Suc _"])
    next
      case False
      with 2 have "argmin_scan hs lo (Suc k) a c = (a', c')" by simp
      then show ?thesis
        using "2.IH"(4) [OF False] by (auto intro: exI [of _ "Suc _"])
    qed
  }
qed auto


lemma filter_single:
  assumes "length (filter P xs) \<le> 1" "i < length xs" "j < length xs" "P (xs ! i)" "P (xs ! j)"
  shows "i = j"
proof (rule ccontr)
  assume "i \<noteq> j"
  have "card {k. k < length xs \<and> P (xs ! k)} \<le> 1"
    using assms(1) by (simp add: length_filter_conv_card)
  moreover have "{i, j} \<subseteq> {k. k < length xs \<and> P (xs ! k)}" using assms by auto
  then have "card {i, j} \<le> card {k. k < length xs \<and> P (xs ! k)}"
    by (intro card_mono) auto
  ultimately show False using \<open>i \<noteq> j\<close> by simp
qed

text \<open>With all heads present the scan finds the least head, and a count of one says it is alone.\<close>

lemma argmin_found:
  assumes "heads \<noteq> []" "all_filled heads"
    and "argmin_scan heads (span_lo heads) 0 0 0 = (i, c)" "c \<le> 1"
  shows "i < length heads" "stamps heads ! i = span_lo heads"
    and "\<And>j. j < length heads \<Longrightarrow> j \<noteq> i \<Longrightarrow> span_lo heads < stamps heads ! j"
proof -
  let ?at = "\<lambda>h. case h of Some x \<Rightarrow> head_ts x = span_lo heads | None \<Rightarrow> False"
  have at: "?at (heads ! k) \<longleftrightarrow> stamps heads ! k = span_lo heads" if "k < length heads" for k
    using all_filled_nth [OF assms(2) that] by auto
  obtain k where k: "k < length heads" "stamps heads ! k = span_lo heads"
    using span_facts(1) [OF assms(1)] by (auto simp: in_set_conv_nth)
  then have "heads ! k \<in> set (filter ?at heads)" using at by simp
  then have pos: "0 < length (filter ?at heads)" by (cases "filter ?at heads") auto
  note spec = argmin_scan_spec [OF assms(3)]
  have le1: "length (filter ?at heads) \<le> 1" using spec(1) assms(4) by simp
  from spec pos obtain m where "m < length heads" "i = m" "?at (heads ! m)" by auto
  then show i: "i < length heads" "stamps heads ! i = span_lo heads" using at by auto
  fix j
  assume j: "j < length heads" "j \<noteq> i"
  have "stamps heads ! j \<noteq> span_lo heads"
  proof
    assume "stamps heads ! j = span_lo heads"
    then have "i = j"
      using filter_single [OF le1, of i j] i j(1) at by simp
    with j(2) show False by simp
  qed
  moreover have "span_lo heads \<le> stamps heads ! j"
    using span_facts(3) [OF assms(1)] j(1) by simp
  ultimately show "span_lo heads < stamps heads ! j" by simp
qed

lemma gate_scan_passed:
  "gate_scan xs j i = GatePassed \<Longrightarrow> \<exists>k < length xs. j + k \<noteq> i \<and> xs ! k = NxNone"
  by (induction xs j i rule: gate_scan.induct)
    (force split: if_splits next_info.splits intro: exI [of _ 0] exI [of _ "Suc _"])+

lemma gate_scan_probe:
  "gate_scan xs j i = GateProbe m \<Longrightarrow>
   \<exists>k < length xs. m = j + k \<and> m \<noteq> i \<and> xs ! k = NxUnknown"
  by (induction xs j i rule: gate_scan.induct)
    (force split: if_splits next_info.splits intro: exI [of _ 0] exI [of _ "Suc _"])+

lemma gate_scan_refused:
  "gate_scan xs j i = GateRefused \<Longrightarrow> k < length xs \<Longrightarrow> j + k \<noteq> i \<Longrightarrow>
   xs ! k = NxPresent \<or> (\<exists>t. xs ! k = NxStamp t)"
proof (induction xs j i arbitrary: k rule: gate_scan.induct)
  case (2 x xs j i)
  then show ?case by (cases k; cases x) (auto split: if_splits)
qed simp

lemma second_smallest_lower:
  assumes "all_filled heads" "j < length heads" "j \<noteq> i"
  shows "second_smallest heads i \<le> stamps heads ! j"
proof -
  obtain x where x: "heads ! j = Some x" "stamps heads ! j = head_ts x"
    using all_filled_nth [OF assms(1,2)] by auto
  have "(j, Some x) \<in> set (enumerate 0 heads)"
    using assms(2) x by (auto simp: in_set_enumerate_eq)
  then have "head_ts x \<in> set (List.map_filter
      (\<lambda>(i', h). if i' \<noteq> i then map_option head_ts h else None) (enumerate 0 heads))"
    using assms(3) by (force simp: List.map_filter_def)
  then show ?thesis by (simp add: second_smallest_def x foldl_min_lower)
qed

section \<open>Verdicts\<close>

lemma not_filled_waits: "\<not> all_filled heads \<Longrightarrow> next_sync_step heads next window = Wait"
  by (simp add: next_sync_step_def scan_heads_not_filled)

lemma step_unfold:
  assumes "heads \<noteq> []" "all_filled heads" "length heads = length next"
  shows "next_sync_step heads next window =
     (if \<not> in_window heads window then DiscardTie (lo_tie_set heads (span_lo heads))
      else if some_unbacked heads then Fire
      else
        let (i, lo_count) = argmin_scan heads (span_lo heads) 0 0 0
        in if 1 < lo_count then Fire
           else descend heads next i (span_lo heads) (span_hi heads))"
  using assms in_window_test [OF assms(1), of window]
  by (simp add: next_sync_step_def scan_heads_filled flip: span_lo_def span_hi_def)

lemma step_not_wait_filled:
  assumes "next_sync_step heads next window \<noteq> Wait"
  shows "heads \<noteq> []" "all_filled heads" "length heads = length next"
  using assms not_filled_waits [of heads "next" window]
  by (auto simp: next_sync_step_def split: if_splits)


lemma step_fire:
  assumes "next_sync_step heads next window = Fire"
  shows "complete_set heads window"
proof -
  have nw: "next_sync_step heads next window \<noteq> Wait" using assms by simp
  note pre = step_not_wait_filled [OF nw]
  show ?thesis
    using assms pre by (auto simp: complete_set_def step_unfold [OF pre] split: if_splits)
qed

lemma descend_not_discard: "descend heads next i lo hi \<noteq> DiscardTie is"
  by (simp add: descend_def Let_def split: next_info.splits gate_verdict.splits)

lemma step_discard:
  assumes "next_sync_step heads next window = DiscardTie is"
  shows "heads \<noteq> []" "all_filled heads" "\<not> in_window heads window"
    "is = lo_tie_set heads (span_lo heads)"
proof -
  have nw: "next_sync_step heads next window \<noteq> Wait" using assms by simp
  note pre = step_not_wait_filled [OF nw]
  from assms have *: "\<not> in_window heads window \<and> is = lo_tie_set heads (span_lo heads)"
    unfolding step_unfold [OF pre]
    by (auto simp: descend_not_discard split: if_splits prod.splits)
  then show "\<not> in_window heads window" "is = lo_tie_set heads (span_lo heads)" by auto
  show "heads \<noteq> []" "all_filled heads" by (fact pre)+
qed

text \<open>The common part of the verdicts that walk towards a tighter tuple.\<close>

definition descent_site :: "sync_head option list \<Rightarrow> duration option \<Rightarrow> nat \<Rightarrow> bool" where
  "descent_site heads window i \<longleftrightarrow>
     complete_set heads window \<and> \<not> some_unbacked heads \<and> i < length heads \<and>
     (\<forall>j < length heads. j \<noteq> i \<longrightarrow> stamps heads ! i < stamps heads ! j)"

text \<open>A verdict that asks for a transport operation was given by \<open>descend\<close> at the lone least head.\<close>

lemma step_descends:
  assumes "next_sync_step heads next window = v"
    and "v \<noteq> Wait" "v \<noteq> Fire" "\<And>is. v \<noteq> DiscardTie is"
  obtains i where "descent_site heads window i" "stamps heads ! i = span_lo heads"
    "length heads = length next"
    "descend heads next i (span_lo heads) (span_hi heads) = v"
proof -
  have nw: "next_sync_step heads next window \<noteq> Wait" using assms by simp
  note pre = step_not_wait_filled [OF nw]
  obtain i c where am: "argmin_scan heads (span_lo heads) 0 0 0 = (i, c)"
    by (cases "argmin_scan heads (span_lo heads) 0 0 0")
  from assms have *: "in_window heads window" "\<not> some_unbacked heads" "c \<le> 1"
    "descend heads next i (span_lo heads) (span_hi heads) = v"
    by (auto simp: step_unfold [OF pre] am split: if_splits)
  note found = argmin_found [OF pre(1,2) am *(3)]
  show ?thesis
    using that [of i] pre * found by (auto simp: descent_site_def complete_set_def)
qed

lemma descend_need_next:
  "descend heads next i lo hi = NeedNext j s \<Longrightarrow> i < length next \<Longrightarrow>
   j < length next \<and> next ! j = NxUnknown \<and> (s = Argmin \<longleftrightarrow> j = i)"
  by (auto simp: descend_def Let_def dest!: gate_scan_probe
      split: next_info.splits gate_verdict.splits if_splits)

lemma descend_need_stamp:
  "descend heads next i lo hi = NeedStamp j \<Longrightarrow>
   j = i \<and> next ! i = NxPresent \<and> (\<exists>k < length next. k \<noteq> i \<and> next ! k = NxNone)"
  by (auto simp: descend_def Let_def dest!: gate_scan_passed
      split: next_info.splits gate_verdict.splits if_splits)

lemma descend_advance:
  "descend heads next i lo hi = Advance j \<Longrightarrow>
   j = i \<and> (\<exists>p. next ! i = NxStamp p \<and>
     max hi p - min (second_smallest heads i) p < hi - lo) \<and>
   (\<exists>k < length next. k \<noteq> i \<and> next ! k = NxNone)"
  by (auto simp: descend_def Let_def dest!: gate_scan_passed
      split: next_info.splits gate_verdict.splits if_splits)


section \<open>Tie sets and FIFO futures\<close>

lemma mem_lo_tie_set:
  assumes "all_filled heads"
  shows "i \<in> set (lo_tie_set heads lo) \<longleftrightarrow> i < length heads \<and> stamps heads ! i = lo"
proof -
  have "i \<in> set (lo_tie_set heads lo) \<longleftrightarrow>
      i < length heads \<and> (case heads ! i of Some x \<Rightarrow> head_ts x = lo | None \<Rightarrow> False)"
    by (force simp: lo_tie_set_def in_set_enumerate_eq)
  moreover have "(case heads ! i of Some x \<Rightarrow> head_ts x = lo | None \<Rightarrow> False) \<longleftrightarrow>
      stamps heads ! i = lo" if "i < length heads"
    using all_filled_nth [OF assms that] by auto
  ultimately show ?thesis by blast
qed

lemma distinct_lo_tie_set: "distinct (lo_tie_set heads lo)"
proof -
  have "distinct (map fst (enumerate 0 heads))"
    by simp
  then show ?thesis
    unfolding lo_tie_set_def by (rule distinct_map_filter)
qed

text \<open>
  What an input can still contribute to a set: its head, or a later frame, whose stamp is at least
  the head's because a stream's stamps do not decrease.
\<close>

definition fifo_future :: "sync_head option list \<Rightarrow> u64 list \<Rightarrow> bool" where
  "fifo_future heads ts \<longleftrightarrow>
     length ts = length heads \<and> (\<forall>i < length heads. stamps heads ! i \<le> ts ! i)"

lemma discard_future_out:
  assumes "heads \<noteq> []" "all_filled heads" "\<not> in_window heads (Some w)"
    and "i \<in> set (lo_tie_set heads (span_lo heads))"
    and "fifo_future heads ts" "ts ! i = stamps heads ! i"
  shows "\<not> within_span ts (duration_ns w)"
proof
  assume ok: "within_span ts (duration_ns w)"
  obtain k where k: "k < length heads" "stamps heads ! k = span_hi heads"
    using span_facts(2) [OF assms(1)] by (auto simp: in_set_conv_nth)
  have i: "i < length heads" "stamps heads ! i = span_lo heads"
    using assms(4) by (simp_all add: mem_lo_tie_set [OF assms(2)])
  have "ts ! k \<in> set ts" "ts ! i \<in> set ts"
    using k(1) i(1) assms(5) by (simp_all add: fifo_future_def)
  then have "unat (ts ! k) \<le> unat (span_lo heads) + unat (duration_ns w)"
    using ok assms(6) i(2) by (auto simp: within_span_def)
  moreover have "unat (span_hi heads) \<le> unat (ts ! k)"
    using assms(5) k by (auto simp: fifo_future_def word_le_nat_alt)
  moreover have "duration_ns w < span_hi heads - span_lo heads"
    using assms(1,3) by (simp add: in_window_test)
  then have "unat (span_lo heads) + unat (duration_ns w) < unat (span_hi heads)"
    using span_facts [OF assms(1)]
    by (auto simp: word_less_nat_alt word_le_nat_alt unat_sub)
  ultimately show False by linarith
qed

section \<open>Properties\<close>

text \<open>
  C8. The matcher never fires a wrong set: a \<open>Fire\<close> verdict means that there is at least one
  trigger input, that every head is present and not spent, and that any two head stamps lie
  within the window of each other (when there is one), whatever is claimed about later frames.
\<close>

theorem fire_only_complete_sets:
  assumes "next_sync_step heads nx window = Fire"
  shows "heads \<noteq> [] \<and> (\<forall>h\<in>set heads. \<exists>x. h = Some x \<and> is_filled x) \<and>
    (\<forall>w x y. window = Some w \<and> Some x \<in> set heads \<and> Some y \<in> set heads \<longrightarrow>
       unat (head_ts x) \<le> unat (head_ts y) + unat (duration_ns w))"
proof -
  have c: "complete_set heads window" using assms by (rule step_fire)
  have st: "head_ts x \<in> set (stamps heads)" if "Some x \<in> set heads" for x
    using that by (force simp: stamps_def)
  have filled: "\<forall>h\<in>set heads. \<exists>x. h = Some x \<and> is_filled x"
    using c by (auto simp: complete_set_def all_filled_def list_all_iff split: option.splits)
  show ?thesis
    using c filled st by (auto simp: complete_set_def in_window_def within_span_def)
qed

theorem fire_only_complete_sets_witness:
  "next_sync_step [Some (filled_head 10), Some (filled_head 40)] [NxNone, NxUnknown] (Some 50) = Fire
   \<and> unat (40 :: u64) \<le> unat (10 :: u64) + unat (duration_ns 50)"
proof -
  have h: "next_sync_step [Some (filled_head 10), Some (filled_head 40)] [NxNone, NxUnknown]
      (Some 50) = Fire"
    by (simp add: next_sync_step_def filled_head_def duration_ns_def Let_def descend_def)
  have "unat (head_ts (filled_head 40)) \<le> unat (head_ts (filled_head 10)) + unat (duration_ns 50)"
    using fire_only_complete_sets [OF h] by force
  with h show ?thesis by (simp add: filled_head_def)
qed

text \<open>
  A discarded head is in no set: when the matcher answers \<open>DiscardTie\<close>, the listed inputs
  are exactly those tied at the least stamp, each listed once and at least one, and no choice of
  one frame per input (the head or any later frame of a stream whose stamps do not decrease)
  that uses the head of a listed input fits the window.
\<close>

theorem discarded_heads_are_unmatchable:
  assumes "next_sync_step heads nx (Some w) = DiscardTie is"
  shows "is \<noteq> [] \<and> distinct is \<and>
    (\<forall>i. i \<in> set is \<longleftrightarrow> i < length heads \<and> (\<forall>j < length heads. stamps heads ! i \<le> stamps heads ! j)) \<and>
    (\<forall>i\<in>set is. \<forall>ts. fifo_future heads ts \<and> ts ! i = stamps heads ! i \<longrightarrow>
       \<not> within_span ts (duration_ns w))"
proof -
  note d = step_discard [OF assms]
  have lo: "i \<in> set is \<longleftrightarrow> i < length heads \<and> stamps heads ! i = span_lo heads" for i
    by (simp add: d(4) mem_lo_tie_set [OF d(2)])
  obtain k where k: "k < length heads" "stamps heads ! k = span_lo heads"
    using span_facts(1) [OF d(1)] by (auto simp: in_set_conv_nth)
  then have ne: "is \<noteq> []" using lo by force
  have least: "i \<in> set is \<longleftrightarrow>
      i < length heads \<and> (\<forall>j < length heads. stamps heads ! i \<le> stamps heads ! j)" for i
  proof -
    have "stamps heads ! i = span_lo heads"
      if "i < length heads" "\<forall>j < length heads. stamps heads ! i \<le> stamps heads ! j"
      using that k span_facts(3) [OF d(1)] by (metis antisym length_stamps nth_mem)
    then show ?thesis
      using lo [of i] span_facts(3) [OF d(1)] by auto
  qed
  show ?thesis
    using ne least discard_future_out [OF d(1,2,3)] d(4)
    by (auto simp: distinct_lo_tie_set)
qed

theorem discarded_heads_are_unmatchable_witness:
  "next_sync_step [Some (filled_head 10), Some (filled_head 100)] [NxUnknown, NxUnknown] (Some 50)
     = DiscardTie [0] \<and> \<not> within_span [10, 120] (duration_ns 50)"
proof -
  have h: "next_sync_step [Some (filled_head 10), Some (filled_head 100)] [NxUnknown, NxUnknown]
      (Some 50) = DiscardTie [0]"
    by (simp add: next_sync_step_def filled_head_def duration_ns_def lo_tie_set_def)
  have f: "fifo_future [Some (filled_head 10), Some (filled_head 100)] [10, 120]"
    by (simp add: fifo_future_def filled_head_def less_Suc_eq)
  show ?thesis
    using h discarded_heads_are_unmatchable [OF h] f by (auto simp: filled_head_def)
qed


lemma within_span_swap:
  assumes "i < length ts" "\<forall>t\<in>set ts. t \<le> hi"
    and "\<forall>j < length ts. j \<noteq> i \<longrightarrow> lo2 \<le> ts ! j"
  shows "within_span (ts[i := p]) (max hi p - min lo2 p)"
proof -
  have b: "min lo2 p \<le> t \<and> t \<le> max hi p" if "t \<in> set (ts[i := p])" for t
  proof -
    from that obtain j where "j < length ts" "t = ts[i := p] ! j"
      by (auto simp: in_set_conv_nth)
    with assms show ?thesis
      by (cases "j = i") (auto simp: min_le_iff_disj le_max_iff_disj)
  qed
  have "min lo2 p \<le> max hi p" by (simp add: min_le_iff_disj le_max_iff_disj)
  then have d: "unat (max hi p - min lo2 p) = unat (max hi p) - unat (min lo2 p)"
    by (simp add: unat_sub)
  show ?thesis
    unfolding within_span_def
  proof (intro ballI)
    fix x y
    assume "x \<in> set (ts[i := p])" "y \<in> set (ts[i := p])"
    then have "unat x \<le> unat (max hi p)" "unat (min lo2 p) \<le> unat y"
      using b by (auto simp: word_le_nat_alt)
    then show "unat x \<le> unat y + unat (max hi p - min lo2 p)"
      unfolding d by linarith
  qed
qed

text \<open>
  Descent is gated and strictly improving: an \<open>Advance\<close> verdict is given only on a complete
  set in the window whose heads are all backed by live frames, for the input whose stamp is
  strictly least; its next frame's stamp is known, some other input is known to have no second
  frame, and putting the next frame in the head's place gives a tuple that fits a span the
  current tuple does not fit.
\<close>

theorem descent_is_gated_and_tightens:
  assumes "next_sync_step heads nx window = Advance i"
  shows "descent_site heads window i \<and>
    (\<exists>k < length heads. k \<noteq> i \<and> nx ! k = NxNone) \<and>
    (\<exists>p w. nx ! i = NxStamp p \<and> within_span ((stamps heads)[i := p]) w \<and>
       \<not> within_span (stamps heads) w)"
proof -
  obtain i' where i': "descent_site heads window i'" "stamps heads ! i' = span_lo heads"
    "length heads = length nx" "descend heads nx i' (span_lo heads) (span_hi heads) = Advance i"
    using step_descends [OF assms] by auto
  note adv = descend_advance [OF i'(4)]
  then have i: "i' = i" by simp
  from adv obtain p where p: "nx ! i = NxStamp p"
    "max (span_hi heads) p - min (second_smallest heads i) p < span_hi heads - span_lo heads"
    by auto
  have ne: "heads \<noteq> []" and af: "all_filled heads" and il: "i < length heads"
    using i'(1) i by (auto simp: descent_site_def complete_set_def)
  have "within_span ((stamps heads)[i := p])
      (max (span_hi heads) p - min (second_smallest heads i) p)"
    using il span_facts(3) [OF ne] second_smallest_lower [OF af]
    by (intro within_span_swap) auto
  moreover have "\<not> within_span (stamps heads)
      (max (span_hi heads) p - min (second_smallest heads i) p)"
    using p(2) by (simp add: span_test [OF ne])
  moreover have "\<exists>k < length heads. k \<noteq> i \<and> nx ! k = NxNone" "descent_site heads window i"
    using adv i'(1,3) i by simp_all
  ultimately show ?thesis using p(1) by blast
qed

theorem descent_is_gated_and_tightens_witness:
  "descent_site [Some (filled_head 10), Some (filled_head 40)] (Some 50) 0 \<and>
   (\<exists>w. within_span [38, 40] w \<and> \<not> within_span [10, 40] w)"
proof -
  have h: "next_sync_step [Some (filled_head 10), Some (filled_head 40)] [NxStamp 38, NxNone]
      (Some 50) = Advance 0"
    by (simp add: next_sync_step_def filled_head_def duration_ns_def Let_def descend_def
        second_smallest_def List.map_filter_def)
  have st: "stamps [Some (filled_head 10), Some (filled_head 40)] = [10, 40]"
    by (simp add: filled_head_def)
  obtain p w where pw: "[NxStamp 38, NxNone] ! 0 = NxStamp p" "within_span ([10, 40][0 := p]) w"
    "\<not> within_span [10, 40] w" and site: "descent_site [Some (filled_head 10), Some (filled_head 40)]
      (Some 50) 0"
    using descent_is_gated_and_tightens [OF h] unfolding st by blast
  then have "p = 38" by simp
  with pw have "within_span [38, 40] w" by simp
  with pw(3) site show ?thesis by blast
qed

section \<open>The predicate it replaced\<close>

lemma stamp_scan_Some:
  "stamp_scan f xs lo hi =
     (if \<forall>x\<in>set xs. f x \<noteq> None
      then Some (foldl min lo (map (the \<circ> f) xs), foldl max hi (map (the \<circ> f) xs)) else None)"
  by (induction xs arbitrary: lo hi) (auto split: option.splits)

text \<open>The stamp of a head as the old predicate looked it up: present and not spent.\<close>

definition head_stamp :: "sync_head option list \<Rightarrow> nat \<Rightarrow> u64 option" where
  "head_stamp heads i =
     (case heads ! i of Some x \<Rightarrow> if is_filled x then Some (head_ts x) else None | None \<Rightarrow> None)"

lemma head_stamp_all:
  "(\<forall>x\<in>set [0..<length heads]. head_stamp heads x \<noteq> None) \<longleftrightarrow> all_filled heads"
  by (force simp: head_stamp_def all_filled_def list_all_length split: option.splits)

lemma head_stamp_map:
  assumes "all_filled heads"
  shows "map (the \<circ> head_stamp heads) [0..<length heads] = stamps heads"
proof (rule nth_equalityI)
  fix i
  assume "i < length (map (the \<circ> head_stamp heads) [0..<length heads])"
  then have i: "i < length heads" by simp
  from all_filled_nth [OF assms this] i
  show "map (the \<circ> head_stamp heads) [0..<length heads] ! i = stamps heads ! i"
    by (auto simp: head_stamp_def)
qed simp

text \<open>
  With nothing known about later frames (every entry \<open>None\<close>, what the decide path and a
  hand-driven scheduler pass), the matcher fires exactly when the predicate it replaced holds:
  every input has a stamp and, in bounded mode, the largest minus the smallest is at most the
  window. Completeness and window semantics were preserved exactly.
\<close>

theorem matcher_without_lookahead_is_sync_aligned:
  "next_sync_step heads (replicate (length heads) NxNone) window = Fire \<longleftrightarrow>
     heads \<noteq> [] \<and>
     sync_aligned (head_stamp heads) [0..<length heads] (map_option duration_ns window)"
proof (cases "heads \<noteq> [] \<and> all_filled heads")
  case False
  have "heads = [] \<Longrightarrow> next_sync_step heads (replicate (length heads) NxNone) window = Wait"
    by (simp add: next_sync_step_def)
  moreover have "\<not> all_filled heads \<Longrightarrow>
      \<not> sync_aligned (head_stamp heads) [0..<length heads] (map_option duration_ns window)"
    unfolding sync_aligned_def stamp_scan_Some head_stamp_all by simp
  ultimately show ?thesis
    using False not_filled_waits by fastforce
next
  case True
  then have ne: "heads \<noteq> []" and af: "all_filled heads" by auto
  have scan: "stamp_scan (head_stamp heads) [0..<length heads] (- 1) 0 =
      Some (span_lo heads, span_hi heads)"
    using af unfolding stamp_scan_Some head_stamp_all
    by (simp add: head_stamp_map [OF af] span_lo_def span_hi_def)
  have le: "span_lo heads \<le> span_hi heads"
    using span_facts [OF ne] by auto
  then have al: "sync_aligned (head_stamp heads) [0..<length heads] (map_option duration_ns window)
      \<longleftrightarrow> in_window heads window"
    using ne by (simp add: sync_aligned_def scan sat_sub_def in_window_def span_test
        split: option.splits)
  obtain i c where am: "argmin_scan heads (span_lo heads) 0 0 0 = (i, c)"
    by (cases "argmin_scan heads (span_lo heads) 0 0 0")
  have "next_sync_step heads (replicate (length heads) NxNone) window = Fire \<longleftrightarrow>
      in_window heads window"
    using argmin_found(1) [OF ne af am]
    by (auto simp: step_unfold [OF ne af] am descend_def)
  with ne al show ?thesis by simp
qed

end
