(* ===== verification/Wire.thy ===== *)
theory Wire
  imports Prelude
begin

text \<open>
  The wire format: the 40-byte \<open>WireHeader\<close> with its little-endian fields, the packed \<open>StepTag\<close>,
  the version 1 frame upgrade and the size rules (\<open>cerulion_core/src/wire.rs\<close>), and the
  schema-free frame view over untrusted bytes of the \<open>cerulion_wire\<close> crate (\<open>header.rs\<close>,
  \<open>offset.rs\<close>, \<open>frame.rs\<close>).

  A byte buffer is a \<open>u8 list\<close>; \<open>slice\<close> is Rust's \<open>&b[i..j]\<close> on a range known to be in
  bounds. The two crates declare the same header; the model has one record, with the raw tag.
\<close>

section \<open>Little-endian integers\<close>

type_synonym bytes = "u8 list"
type_synonym u16 = "16 word"

primrec to_le :: "nat \<Rightarrow> nat \<Rightarrow> bytes" where
  "to_le 0 v = []"
| "to_le (Suc n) v = of_nat (v mod 256) # to_le n (v div 256)"

primrec from_le :: "bytes \<Rightarrow> nat" where
  "from_le [] = 0"
| "from_le (b # bs) = unat b + 256 * from_le bs"

definition slice :: "'a list \<Rightarrow> nat \<Rightarrow> nat \<Rightarrow> 'a list" where
  "slice xs i j = take (j - i) (drop i xs)"

definition le32 :: "u32 \<Rightarrow> bytes" where
  "le32 w = to_le 4 (unat w)"

definition le64 :: "u64 \<Rightarrow> bytes" where
  "le64 w = to_le 8 (unat w)"

definition get32 :: "bytes \<Rightarrow> nat \<Rightarrow> u32" where
  "get32 bs i = of_nat (from_le (slice bs i (i + 4)))"

definition get64 :: "bytes \<Rightarrow> nat \<Rightarrow> u64" where
  "get64 bs i = of_nat (from_le (slice bs i (i + 8)))"

lemma length_to_le [simp]: "length (to_le n v) = n"
  by (induction n arbitrary: v) simp_all

lemma length_le [simp]: "length (le32 w) = 4" "length (le64 x) = 8"
  by (simp_all add: le32_def le64_def)

lemma from_le_to_le: "from_le (to_le n v) = v mod 256 ^ n"
proof (induction n arbitrary: v)
  case (Suc n)
  have "unat (of_nat (v mod 256) :: u8) = v mod 256" by (intro unat_of_nat_eq) simp
  then show ?case using Suc by (simp add: mod_mult2_eq)
qed simp

lemma slice_append_left: "length xs = i \<Longrightarrow> length ys = j - i \<Longrightarrow> slice (xs @ ys @ zs) i j = ys"
  by (simp add: slice_def)

lemma slice_append_skip: "length xs \<le> i \<Longrightarrow> slice (xs @ ys) i j = slice ys (i - length xs) (j - length xs)"
  by (simp add: slice_def)

lemma slice_append_take: "j \<le> length xs \<Longrightarrow> slice (xs @ ys) i j = slice xs i j"
  by (simp add: slice_def)

lemma slice_take: "j \<le> n \<Longrightarrow> slice (take n xs) i j = slice xs i j"
  by (simp add: slice_def drop_take min_def)

lemma get32_le32: "slice bs i (i + 4) = le32 w \<Longrightarrow> get32 bs i = w"
proof -
  assume "slice bs i (i + 4) = le32 w"
  moreover have "unat w < 256 ^ 4" using unat_lt_2p [of w] by simp
  ultimately show ?thesis by (simp add: get32_def le32_def from_le_to_le)
qed

lemma get64_le64: "slice bs i (i + 8) = le64 w \<Longrightarrow> get64 bs i = w"
proof -
  assume "slice bs i (i + 8) = le64 w"
  moreover have "unat w < 256 ^ 8" using unat_lt_2p [of w] by simp
  ultimately show ?thesis by (simp add: get64_def le64_def from_le_to_le)
qed

section \<open>Step tags\<close>

definition STEP_BITS :: nat where "STEP_BITS = 48"

definition STEP_MASK :: u64 where "STEP_MASK = push_bit STEP_BITS 1 - 1"

definition MAX_STEP :: u64 where "MAX_STEP = STEP_MASK - 1"

definition UNTAGGED :: u64 where "UNTAGGED = 0"

unbundle bit_operations_syntax

text \<open>\<open>StepTag::new\<close>; the error carries the step that did not fit.\<close>

definition step_tag_new :: "u16 \<Rightarrow> u64 \<Rightarrow> u64 + u64" where
  "step_tag_new rank step =
     (if step > MAX_STEP then Inl step
      else Inr (push_bit STEP_BITS (ucast rank) OR (step + 1)))"

definition step_tag_rank :: "u64 \<Rightarrow> u16" where
  "step_tag_rank tag = ucast (drop_bit STEP_BITS tag)"

definition step_tag_step :: "u64 \<Rightarrow> u64 option" where
  "step_tag_step tag =
     (let f = tag AND STEP_MASK in if f = 0 then None else Some (f - 1))"

definition step_tag_is_untagged :: "u64 \<Rightarrow> bool" where
  "step_tag_is_untagged tag = (tag = 0)"

lemma STEP_MASK_mask: "STEP_MASK = mask 48"
  by (simp add: STEP_MASK_def STEP_BITS_def mask_eq_exp_minus_1)

lemma step_plus_one_masked:
  assumes "\<not> step > MAX_STEP"
  shows "(step + 1) AND mask 48 = step + 1" and "drop_bit 48 (step + 1) = 0" and "step + 1 \<noteq> 0"
proof -
  have "unat step \<le> 2 ^ 48 - 2"
    using assms by (simp add: MAX_STEP_def STEP_MASK_def STEP_BITS_def word_le_nat_alt not_less)
  then have u: "unat (step + 1) = unat step + 1" "unat (step + 1) < 2 ^ 48"
    by (simp_all add: unat_add_1)
  show "step + 1 \<noteq> 0" using u(1) by (auto simp: word_unat_eq_iff)
  have "unat (take_bit 48 (step + 1)) = unat (step + 1)"
    unfolding unsigned_take_bit_eq using u(2) by (simp add: take_bit_nat_eq_self)
  then show "(step + 1) AND mask 48 = step + 1"
    unfolding take_bit_eq_mask [symmetric] by (simp only: word_unat_eq_iff)
  then have "drop_bit 48 (step + 1) = drop_bit 48 (take_bit 48 (step + 1))"
    unfolding take_bit_eq_mask by (simp only:)
  then show "drop_bit 48 (step + 1) = 0" by (simp add: drop_bit_take_bit)
qed

lemma step_tag_new_fields:
  assumes "step_tag_new rank step = Inr tag"
  shows "tag AND mask 48 = step + 1" and "step_tag_rank tag = rank" and "step + 1 \<noteq> 0"
proof -
  from assms have le: "\<not> step > MAX_STEP"
    and tag: "tag = push_bit 48 (ucast rank) OR (step + 1)"
    by (auto simp: step_tag_new_def STEP_BITS_def split: if_splits)
  note s = step_plus_one_masked [OF le]
  show "step + 1 \<noteq> 0" by (rule s(3))
  have "take_bit 48 (push_bit 48 (ucast rank) :: u64) = 0"
    by (simp add: take_bit_push_bit)
  then show "tag AND mask 48 = step + 1"
    using s(1) unfolding tag by (simp flip: take_bit_eq_mask add: take_bit_or)
  have "drop_bit 48 tag = ucast rank"
  proof (rule bit_word_eqI)
    fix n :: nat
    assume "n < LENGTH(64)"
    have "bit (drop_bit 48 (step + 1)) n = False" using s(2) by simp
    then show "bit (drop_bit 48 tag) n = bit (ucast rank :: u64) n"
      unfolding tag by (auto simp: bit_simps dest: bit_imp_le_length)
  qed
  moreover have "ucast (ucast rank :: u64) = rank"
    using unat_lt_2p [of rank] by (simp add: word_unat_eq_iff unat_ucast_mod)
  ultimately show "step_tag_rank tag = rank"
    by (simp only: step_tag_rank_def STEP_BITS_def)
qed

section \<open>The header\<close>

record wire_header =
  wh_schema_hash :: u64
  wh_total_size :: u32
  wh_offset_table_offset :: u32
  wh_offset_table_count :: u32
  wh_sequence :: u32
  wh_timestamp_ns :: u64
  wh_step_tag :: u64

definition HEADER_SIZE :: usize where "HEADER_SIZE = 40"

definition V1_HEADER_SIZE :: usize where "V1_HEADER_SIZE = 32"

definition header_bytes :: "wire_header \<Rightarrow> bytes" where
  "header_bytes h =
     le64 (wh_schema_hash h) @ le32 (wh_total_size h) @ le32 (wh_offset_table_offset h) @
     le32 (wh_offset_table_count h) @ le32 (wh_sequence h) @ le64 (wh_timestamp_ns h) @
     le64 (wh_step_tag h)"

text \<open>\<open>WireHeader::write_to_buf\<close>: \<open>None\<close> is its panic on a short buffer.\<close>

definition write_to_buf :: "wire_header \<Rightarrow> bytes \<Rightarrow> bytes option" where
  "write_to_buf h buf =
     (if length buf < HEADER_SIZE then None else Some (header_bytes h @ drop HEADER_SIZE buf))"

definition header_fields :: "bytes \<Rightarrow> wire_header" where
  "header_fields buf =
     \<lparr>wh_schema_hash = get64 buf 0, wh_total_size = get32 buf 8,
      wh_offset_table_offset = get32 buf 12, wh_offset_table_count = get32 buf 16,
      wh_sequence = get32 buf 20, wh_timestamp_ns = get64 buf 24, wh_step_tag = get64 buf 32\<rparr>"

definition read_from_buf :: "bytes \<Rightarrow> wire_header option" where
  "read_from_buf buf = (if length buf < HEADER_SIZE then None else Some (header_fields buf))"

lemma length_header_bytes [simp]: "length (header_bytes h) = HEADER_SIZE"
  by (simp add: header_bytes_def HEADER_SIZE_def)

lemma header_fields_bytes: "header_fields (header_bytes h @ rest) = h"
proof -
  note * = header_bytes_def slice_append_skip slice_append_take
  have "get64 (header_bytes h @ rest) 0 = wh_schema_hash h"
    "get64 (header_bytes h @ rest) 24 = wh_timestamp_ns h"
    "get64 (header_bytes h @ rest) 32 = wh_step_tag h"
    by (rule get64_le64; simp add: header_bytes_def slice_def)+
  moreover have "get32 (header_bytes h @ rest) 8 = wh_total_size h"
    "get32 (header_bytes h @ rest) 12 = wh_offset_table_offset h"
    "get32 (header_bytes h @ rest) 16 = wh_offset_table_count h"
    "get32 (header_bytes h @ rest) 20 = wh_sequence h"
    by (rule get32_le32; simp add: header_bytes_def slice_def)+
  ultimately show ?thesis by (simp add: header_fields_def)
qed

lemma get32_append: "i + 4 \<le> length xs \<Longrightarrow> get32 (xs @ ys) i = get32 xs i"
  by (simp add: get32_def slice_append_take)

lemma get64_append: "i + 8 \<le> length xs \<Longrightarrow> get64 (xs @ ys) i = get64 xs i"
  by (simp add: get64_def slice_append_take)

section \<open>Version 1 frames\<close>

datatype upgrade_error =
    TooShort (ue_len: usize)
  | SizeMismatch (ue_declared: u32) (ue_len: usize)
  | TooLarge
  | DestinationTooSmall (ue_required: usize) (ue_available: usize)

definition u32_max :: nat where "u32_max = 2 ^ 32 - 1"

definition upgraded_header :: "bytes \<Rightarrow> wire_header" where
  "upgraded_header src =
     (let grow = of_nat (HEADER_SIZE - V1_HEADER_SIZE);
          offset = get32 src 12
      in \<lparr>wh_schema_hash = get64 src 0, wh_total_size = get32 src 8 + grow,
          wh_offset_table_offset = (if V1_HEADER_SIZE \<le> unat offset then offset + grow else offset),
          wh_offset_table_count = get32 src 16, wh_sequence = get32 src 20,
          wh_timestamp_ns = get64 src 24, wh_step_tag = UNTAGGED\<rparr>)"

text \<open>The result is the returned length with the destination as the call leaves it.\<close>

definition upgrade_v1_frame_into :: "bytes \<Rightarrow> bytes \<Rightarrow> upgrade_error + usize \<times> bytes" where
  "upgrade_v1_frame_into src dst =
     (let declared = get32 src 8;
          required = length src + (HEADER_SIZE - V1_HEADER_SIZE)
      in if length src < V1_HEADER_SIZE then Inl (TooShort (length src))
         else if unat declared > length src \<or> unat declared < V1_HEADER_SIZE
         then Inl (SizeMismatch declared (length src))
         else if required > u32_max then Inl TooLarge
         else if length dst < required then Inl (DestinationTooSmall required (length dst))
         else Inr (required,
                   header_bytes (upgraded_header src) @ drop V1_HEADER_SIZE src @
                   drop required dst))"

definition upgrade_v1_frame :: "bytes \<Rightarrow> upgrade_error + bytes" where
  "upgrade_v1_frame src =
     (case upgrade_v1_frame_into src
             (replicate (usize_add (length src) (HEADER_SIZE - V1_HEADER_SIZE)) 0) of
        Inl e \<Rightarrow> Inl e
      | Inr (n, out) \<Rightarrow> Inr (take n out))"

section \<open>Sizes\<close>

text \<open>\<open>MaxSliceLen\<close> and \<open>MaxPayloadCapacity\<close> are their \<open>u32\<close>; the constructors are fallible.\<close>

definition max_slice_len_try_new :: "u32 \<Rightarrow> u32 option" where
  "max_slice_len_try_new n = (if n < of_nat HEADER_SIZE then None else if n \<noteq> 0 then Some n else None)"

definition payload_capacity_from :: "u32 \<Rightarrow> u32" where
  "payload_capacity_from max_slice_len = max_slice_len - of_nat HEADER_SIZE"

definition payload_capacity_try_new :: "u32 \<Rightarrow> u32 option" where
  "payload_capacity_try_new n = (if n > - 1 - of_nat HEADER_SIZE then None else Some n)"

definition ENTRY_SIZE :: usize where "ENTRY_SIZE = 8"

definition checked_add :: "usize \<Rightarrow> usize \<Rightarrow> usize option" where
  "checked_add a b = (if a + b \<le> usize_max then Some (a + b) else None)"

definition checked_mul :: "usize \<Rightarrow> usize \<Rightarrow> usize option" where
  "checked_mul a b = (if a * b \<le> usize_max then Some (a * b) else None)"

definition frame_prefix_size :: "usize \<Rightarrow> usize \<Rightarrow> usize option" where
  "frame_prefix_size fixed_size entries =
     (case checked_mul entries ENTRY_SIZE of
        None \<Rightarrow> None
      | Some table \<Rightarrow>
          (case checked_add fixed_size table of
             None \<Rightarrow> None
           | Some payload \<Rightarrow> checked_add payload HEADER_SIZE))"

definition frame_prefix_exceeds_wire :: "usize \<Rightarrow> usize \<Rightarrow> bool" where
  "frame_prefix_exceeds_wire fixed_size entries =
     (case frame_prefix_size fixed_size entries of
        Some prefix \<Rightarrow> prefix > u32_max | None \<Rightarrow> True)"

definition max_wire_fixed_size :: "usize \<Rightarrow> usize" where
  "max_wire_fixed_size entries = u32_max - HEADER_SIZE - usize_mul entries ENTRY_SIZE"

section \<open>The untrusted frame view\<close>

datatype wire_error =
    FrameTooShort usize usize
  | InvalidTotalSize u32 u32
  | TruncatedFrame usize usize
  | OffsetTableOutOfBounds usize usize usize usize
  | VariableFieldOutOfBounds usize usize usize usize

record frame =
  fr_header :: wire_header
  fr_bytes :: bytes

record offset_entry =
  oe_offset :: u32
  oe_length :: u32

definition header_parse :: "bytes \<Rightarrow> wire_error + wire_header" where
  "header_parse buf =
     (if length buf < HEADER_SIZE then Inl (FrameTooShort (length buf) HEADER_SIZE)
      else Inr (header_fields buf))"

definition header_encode :: "wire_header \<Rightarrow> bytes \<Rightarrow> wire_error + bytes" where
  "header_encode h buf =
     (if length buf < HEADER_SIZE then Inl (FrameTooShort (length buf) HEADER_SIZE)
      else Inr (header_bytes h @ drop HEADER_SIZE buf))"

definition entry_parse :: "bytes \<Rightarrow> offset_entry option" where
  "entry_parse buf =
     (if length buf < ENTRY_SIZE then None
      else Some \<lparr>oe_offset = get32 buf 0, oe_length = get32 buf 4\<rparr>)"

definition entry_encode :: "offset_entry \<Rightarrow> bytes \<Rightarrow> wire_error + bytes" where
  "entry_encode e buf =
     (if length buf < ENTRY_SIZE then Inl (FrameTooShort (length buf) ENTRY_SIZE)
      else Inr (le32 (oe_offset e) @ le32 (oe_length e) @ drop ENTRY_SIZE buf))"

text \<open>The offset-table check of \<open>Frame::parse\<close>: \<open>None\<close> when the table is accepted.\<close>

definition table_error :: "nat \<Rightarrow> nat \<Rightarrow> nat \<Rightarrow> wire_error option" where
  "table_error table_off count tot =
     (if count = 0 then None
      else case checked_mul count ENTRY_SIZE of
        None \<Rightarrow> Some (OffsetTableOutOfBounds table_off count usize_max tot)
      | Some table_bytes \<Rightarrow>
          (case checked_add table_off table_bytes of
             None \<Rightarrow> Some (OffsetTableOutOfBounds table_off count table_bytes tot)
           | Some table_end \<Rightarrow>
               (if table_off < HEADER_SIZE \<or> table_end > tot
                then Some (OffsetTableOutOfBounds table_off count table_bytes tot)
                else None)))"

definition frame_parse :: "bytes \<Rightarrow> wire_error + frame" where
  "frame_parse buf =
     (case header_parse buf of
        Inl e \<Rightarrow> Inl e
      | Inr h \<Rightarrow>
          let tot = unat (wh_total_size h)
          in if tot < HEADER_SIZE then Inl (InvalidTotalSize (wh_total_size h) (of_nat HEADER_SIZE))
             else if length buf < tot then Inl (TruncatedFrame tot (length buf))
             else case table_error (unat (wh_offset_table_offset h))
                         (unat (wh_offset_table_count h)) tot of
                    Some e \<Rightarrow> Inl e
                  | None \<Rightarrow> Inr \<lparr>fr_header = h, fr_bytes = take tot buf\<rparr>)"

text \<open>The accessors index the frame's bytes; an outer \<open>None\<close> is Rust's out-of-range panic.\<close>

definition index_range :: "bytes \<Rightarrow> nat \<Rightarrow> nat \<Rightarrow> bytes option" where
  "index_range bs i j = (if i \<le> j \<and> j \<le> length bs then Some (slice bs i j) else None)"

definition frame_payload :: "frame \<Rightarrow> bytes option" where
  "frame_payload f = index_range (fr_bytes f) HEADER_SIZE (length (fr_bytes f))"

definition entry_count :: "frame \<Rightarrow> usize" where
  "entry_count f = unat (wh_offset_table_count (fr_header f))"

definition fixed_section :: "frame \<Rightarrow> bytes option" where
  "fixed_section f =
     (if wh_offset_table_count (fr_header f) = 0 then frame_payload f
      else index_range (fr_bytes f) HEADER_SIZE (unat (wh_offset_table_offset (fr_header f))))"

definition frame_entry :: "frame \<Rightarrow> usize \<Rightarrow> offset_entry option option" where
  "frame_entry f idx =
     (if idx \<ge> entry_count f then Some None
      else case index_range (fr_bytes f)
                  (unat (wh_offset_table_offset (fr_header f)) + idx * ENTRY_SIZE)
                  (length (fr_bytes f)) of
             None \<Rightarrow> None
           | Some bs \<Rightarrow> Some (entry_parse bs))"

definition data_floor_of :: "frame \<Rightarrow> usize" where
  "data_floor_of f = unat (wh_offset_table_offset (fr_header f)) + entry_count f * ENTRY_SIZE"

definition slice_variable :: "frame \<Rightarrow> usize \<Rightarrow> offset_entry \<Rightarrow> (wire_error + bytes) option" where
  "slice_variable f idx e =
     (let len = unat (oe_length e); off = unat (oe_offset e);
          tot = unat (wh_total_size (fr_header f));
          oob = Some (Inl (VariableFieldOutOfBounds idx off len tot))
      in if len = 0 then Some (Inr [])
         else case checked_add HEADER_SIZE off of
                None \<Rightarrow> oob
              | Some start \<Rightarrow>
                  (case checked_add start len of
                     None \<Rightarrow> oob
                   | Some fin \<Rightarrow>
                       (if start \<ge> data_floor_of f \<and> fin \<le> tot
                        then map_option Inr (index_range (fr_bytes f) start fin)
                        else oob)))"

definition variable_field :: "frame \<Rightarrow> usize \<Rightarrow> (wire_error + bytes) option option" where
  "variable_field f idx =
     (case frame_entry f idx of
        None \<Rightarrow> None
      | Some None \<Rightarrow> Some None
      | Some (Some e) \<Rightarrow> map_option Some (slice_variable f idx e))"

lemmas panic_free_defs =
  index_range_def checked_add_def checked_mul_def HEADER_SIZE_def ENTRY_SIZE_def usize_max_def

lemma table_error_None:
  "table_error off count tot = None \<longleftrightarrow> count = 0 \<or>
     (count * 8 \<le> usize_max \<and> off + count * 8 \<le> usize_max \<and> HEADER_SIZE \<le> off \<and> off + count * 8 \<le> tot)"
  by (auto simp: table_error_def panic_free_defs split: option.splits if_splits)

lemma frame_parse_Inr:
  assumes "frame_parse buf = Inr f"
  shows "fr_header f = header_fields buf" "fr_bytes f = take (unat (wh_total_size (fr_header f))) buf"
    "length (fr_bytes f) = unat (wh_total_size (fr_header f))" "HEADER_SIZE \<le> length (fr_bytes f)"
    "entry_count f = 0 \<or> HEADER_SIZE \<le> unat (wh_offset_table_offset (fr_header f)) \<and>
       data_floor_of f \<le> length (fr_bytes f)"
  using assms
  by (auto simp: frame_parse_def header_parse_def Let_def table_error_None data_floor_of_def
      entry_count_def ENTRY_SIZE_def split: if_splits option.splits sum.splits)

lemma frame_entry_parsed:
  assumes "frame_parse buf = Inr f"
  shows "frame_entry f idx \<noteq> None"
    and "idx < entry_count f \<Longrightarrow> \<exists>e. frame_entry f idx = Some (Some e)"
    and "entry_count f \<le> idx \<Longrightarrow> frame_entry f idx = Some None"
proof -
  note p = frame_parse_Inr [OF assms]
  show "entry_count f \<le> idx \<Longrightarrow> frame_entry f idx = Some None"
    by (simp add: frame_entry_def)
  show e: "idx < entry_count f \<Longrightarrow> \<exists>e. frame_entry f idx = Some (Some e)"
  proof -
    assume i: "idx < entry_count f"
    let ?start = "unat (wh_offset_table_offset (fr_header f)) + idx * 8"
    have "?start + 8 \<le> length (fr_bytes f)"
      using p(5) i by (auto simp: data_floor_of_def ENTRY_SIZE_def)
    then show ?thesis
      using i by (simp add: frame_entry_def index_range_def ENTRY_SIZE_def entry_parse_def slice_def)
  qed
  show "frame_entry f idx \<noteq> None"
    using e by (cases "idx < entry_count f") (auto simp: frame_entry_def)
qed

lemma slice_variable_parsed:
  assumes "frame_parse buf = Inr f"
  shows "case slice_variable f idx e of
      None \<Rightarrow> False
    | Some (Inl err) \<Rightarrow> (\<exists>off len. err = VariableFieldOutOfBounds idx off len (length (fr_bytes f)))
    | Some (Inr bs) \<Rightarrow> length bs = unat (oe_length e) \<and>
        (bs = [] \<or> (data_floor_of f \<le> HEADER_SIZE + unat (oe_offset e) \<and>
          HEADER_SIZE + unat (oe_offset e) + length bs \<le> length (fr_bytes f) \<and>
          bs = slice buf (HEADER_SIZE + unat (oe_offset e))
            (HEADER_SIZE + unat (oe_offset e) + length bs)))"
proof -
  note p = frame_parse_Inr [OF assms]
  have sl: "slice (fr_bytes f) i j = slice buf i j" if "j \<le> length (fr_bytes f)" for i j
    using that unfolding p(3) by (subst p(2)) (rule slice_take)
  let ?len = "unat (oe_length e)" and ?off = "unat (oe_offset e)"
  have "?len < 2 ^ 32" "?off < 2 ^ 32"
    using unat_lt_2p [of "oe_length e"] unat_lt_2p [of "oe_offset e"] by simp_all
  then have add: "checked_add HEADER_SIZE ?off = Some (HEADER_SIZE + ?off)"
    "checked_add (HEADER_SIZE + ?off) ?len = Some (HEADER_SIZE + ?off + ?len)"
    by (simp_all add: checked_add_def usize_max_def HEADER_SIZE_def)
  have val: "slice_variable f idx e =
     (if ?len = 0 then Some (Inr [])
      else if data_floor_of f \<le> HEADER_SIZE + ?off \<and> HEADER_SIZE + ?off + ?len \<le> length (fr_bytes f)
      then Some (Inr (slice buf (HEADER_SIZE + ?off) (HEADER_SIZE + ?off + ?len)))
      else Some (Inl (VariableFieldOutOfBounds idx ?off ?len (length (fr_bytes f)))))"
    by (simp add: slice_variable_def add p(3) [symmetric] index_range_def sl Let_def)
  have "length (slice buf (HEADER_SIZE + ?off) (HEADER_SIZE + ?off + ?len)) = ?len"
    if "HEADER_SIZE + ?off + ?len \<le> length (fr_bytes f)"
    unfolding sl [OF that, symmetric] using that by (simp add: slice_def)
  then show ?thesis unfolding val by simp
qed

section \<open>Properties\<close>

text \<open>
  Writing a header and reading it back is the identity on all seven fields, in both crates, the
  bytes after the header are untouched, and a buffer below 40 bytes is the writer's panic and the
  \<open>cerulion_wire\<close> encoder's \<open>FrameTooShort\<close>.
\<close>

theorem header_roundtrip:
  "(case write_to_buf h buf of
      None \<Rightarrow> length buf < 40 \<and> header_encode h buf = Inl (FrameTooShort (length buf) 40)
    | Some out \<Rightarrow> length out = length buf \<and> drop 40 out = drop 40 buf \<and>
        read_from_buf out = Some h \<and> header_parse out = Inr h \<and> header_encode h buf = Inr out)"
  by (auto simp: write_to_buf_def read_from_buf_def header_parse_def header_encode_def
      header_fields_bytes HEADER_SIZE_def)

text \<open>
  A step tag carries its rank and step exactly: the constructor refuses precisely the steps
  past \<open>MAX_STEP = 2 ^ 48 - 2\<close>, and any tag it returns reads back the rank and the step and is
  never the untagged value.
\<close>

theorem step_tag_roundtrip:
  "case step_tag_new rank step of
     Inl s \<Rightarrow> s = step \<and> 2 ^ 48 - 2 < unat step
   | Inr tag \<Rightarrow> unat step \<le> 2 ^ 48 - 2 \<and> step_tag_rank tag = rank \<and>
       step_tag_step tag = Some step \<and> \<not> step_tag_is_untagged tag"
proof (cases "step_tag_new rank step")
  case (Inl s)
  then show ?thesis
    by (auto simp: step_tag_new_def MAX_STEP_def STEP_MASK_def STEP_BITS_def word_less_nat_alt
        split: if_splits)
next
  case (Inr tag)
  note t = step_tag_new_fields [OF Inr]
  have "unat step \<le> 2 ^ 48 - 2"
    using Inr by (simp add: step_tag_new_def MAX_STEP_def STEP_MASK_def STEP_BITS_def
        word_le_nat_alt not_less split: if_splits)
  moreover have "step_tag_step tag = Some step"
    using t(1,3) unfolding step_tag_step_def STEP_MASK_mask Let_def t(1) by simp
  moreover have "tag \<noteq> 0" using t(1,3) by auto
  ultimately show ?thesis using Inr t(2) by (simp add: step_tag_is_untagged_def)
qed

text \<open>
  C10. A frame accepted from untrusted bytes is safe to read: every accessor returns (no index is
  out of range), each entry below the count is present and none at or above it, and a variable
  field is the empty slice or exactly the bytes of the buffer its entry names, wholly between the
  data floor and the declared end of the frame.
\<close>

theorem parsed_frame_is_safe:
  assumes "frame_parse buf = Inr f"
  shows "fixed_section f \<noteq> None \<and> frame_payload f \<noteq> None \<and>
    (case variable_field f idx of
       None \<Rightarrow> False
     | Some None \<Rightarrow> entry_count f \<le> idx
     | Some (Some (Inl err)) \<Rightarrow> idx < entry_count f
     | Some (Some (Inr bs)) \<Rightarrow> idx < entry_count f \<and>
         (bs = [] \<or> (\<exists>start. data_floor_of f \<le> start \<and>
            start + length bs \<le> unat (wh_total_size (header_fields buf)) \<and>
            bs = slice buf start (start + length bs))))"
proof -
  note p = frame_parse_Inr [OF assms]
  have "frame_payload f \<noteq> None" using p(4) by (simp add: frame_payload_def index_range_def)
  moreover have "fixed_section f \<noteq> None"
    using p(4,5) \<open>frame_payload f \<noteq> None\<close>
    by (auto simp: fixed_section_def index_range_def data_floor_of_def entry_count_def unat_eq_0)
  moreover have "case variable_field f idx of
       None \<Rightarrow> False
     | Some None \<Rightarrow> entry_count f \<le> idx
     | Some (Some (Inl err)) \<Rightarrow> idx < entry_count f
     | Some (Some (Inr bs)) \<Rightarrow> idx < entry_count f \<and>
         (bs = [] \<or> (\<exists>start. data_floor_of f \<le> start \<and>
            start + length bs \<le> unat (wh_total_size (header_fields buf)) \<and>
            bs = slice buf start (start + length bs)))"
  proof (cases "idx < entry_count f")
    case False
    then show ?thesis using frame_entry_parsed(3) [OF assms] by (simp add: variable_field_def)
  next
    case True
    then obtain e where e: "frame_entry f idx = Some (Some e)"
      using frame_entry_parsed(2) [OF assms] by blast
    show ?thesis
      using slice_variable_parsed [OF assms, of idx e] True p(1,3)
      by (auto simp: variable_field_def e split: option.splits sum.splits)
  qed
  ultimately show ?thesis by blast
qed

theorem parsed_frame_is_safe_witness:
  "fixed_section \<lparr>fr_header = \<lparr>wh_schema_hash = 7, wh_total_size = 40, wh_offset_table_offset = 0,
      wh_offset_table_count = 0, wh_sequence = 1, wh_timestamp_ns = 2, wh_step_tag = 0\<rparr>,
     fr_bytes = header_bytes \<lparr>wh_schema_hash = 7, wh_total_size = 40, wh_offset_table_offset = 0,
      wh_offset_table_count = 0, wh_sequence = 1, wh_timestamp_ns = 2, wh_step_tag = 0\<rparr>\<rparr> \<noteq> None"
proof -
  let ?h = "\<lparr>wh_schema_hash = 7, wh_total_size = 40, wh_offset_table_offset = 0,
      wh_offset_table_count = 0, wh_sequence = 1, wh_timestamp_ns = 2, wh_step_tag = 0\<rparr>"
  have "header_parse (header_bytes ?h) = Inr ?h"
    using header_fields_bytes [of ?h "[]"] by (simp add: header_parse_def)
  then have "frame_parse (header_bytes ?h) = Inr \<lparr>fr_header = ?h, fr_bytes = header_bytes ?h\<rparr>"
    by (simp add: frame_parse_def table_error_def HEADER_SIZE_def)
  from parsed_frame_is_safe [OF this, of 0] show ?thesis by blast
qed

text \<open>
  Upgrading a version 1 frame keeps what it says: on success the returned length is the
  source's plus 8, the destination beyond it is untouched, the header carries the six version 1
  fields with the tag untagged and a \<open>total_size\<close> grown by exactly 8 (no wrap), and every byte from
  offset 32 of the source, trailing bytes included, stands 8 later.
\<close>

theorem upgrade_preserves_the_frame:
  assumes "upgrade_v1_frame_into src dst = Inr (n, out)"
  shows "n = length src + 8 \<and> length out = length dst \<and> drop n out = drop n dst \<and>
    (\<exists>h. read_from_buf out = Some h \<and> wh_schema_hash h = get64 src 0 \<and>
       unat (wh_total_size h) = unat (get32 src 8) + 8 \<and> unat (wh_total_size h) \<le> n \<and>
       wh_offset_table_offset h =
         (if 32 \<le> unat (get32 src 12) then get32 src 12 + 8 else get32 src 12) \<and>
       wh_offset_table_count h = get32 src 16 \<and> wh_sequence h = get32 src 20 \<and>
       wh_timestamp_ns h = get64 src 24 \<and> step_tag_is_untagged (wh_step_tag h)) \<and>
    drop 40 (take n out) = drop 32 src"
proof -
  let ?h = "upgraded_header src"
  from assms have len: "32 \<le> length src" "unat (get32 src 8) \<le> length src"
    "length src + 8 \<le> u32_max" "length src + 8 \<le> length dst"
    and n: "n = length src + 8"
    and out: "out = header_bytes ?h @ drop 32 src @ drop (length src + 8) dst"
    by (auto simp: upgrade_v1_frame_into_def Let_def HEADER_SIZE_def V1_HEADER_SIZE_def split: if_splits)
  have "unat (get32 src 8 + 8) = unat (get32 src 8) + 8"
    using len(2,3) by (subst unat_add_lem [THEN iffD1]) (simp_all add: u32_max_def)
  then have "unat (wh_total_size ?h) = unat (get32 src 8) + 8"
    by (simp add: upgraded_header_def Let_def HEADER_SIZE_def V1_HEADER_SIZE_def)
  moreover have "read_from_buf out = Some ?h"
    using len by (simp add: read_from_buf_def out header_fields_bytes)
  moreover have "drop 40 (take n out) = drop 32 src" "drop n out = drop n dst" "length out = length dst"
    using len by (simp_all add: out n HEADER_SIZE_def)
  ultimately show ?thesis
    using n len(2) by (auto simp: upgraded_header_def Let_def step_tag_is_untagged_def UNTAGGED_def
        HEADER_SIZE_def V1_HEADER_SIZE_def)
qed

text \<open>A bare version 1 header whose \<open>total_size\<close> is 32.\<close>

definition v1_sample :: bytes where
  "v1_sample = to_le 8 0 @ le32 32 @ to_le 20 0"

theorem upgrade_preserves_the_frame_witness:
  "\<exists>out. upgrade_v1_frame_into v1_sample (replicate 41 9) = Inr (40, out) \<and> length out = 41"
proof -
  have "get32 v1_sample 8 = 32"
    by (rule get32_le32) (simp add: v1_sample_def slice_def)
  then have "upgrade_v1_frame_into v1_sample (replicate 41 9) =
      Inr (40, header_bytes (upgraded_header v1_sample) @ [] @ [9])"
    by (simp add: upgrade_v1_frame_into_def Let_def HEADER_SIZE_def V1_HEADER_SIZE_def u32_max_def)
      (simp add: v1_sample_def)
  from upgrade_preserves_the_frame [OF this] this show ?thesis by auto
qed

text \<open>
  One number decides which schemas a frame can carry: for every entry count whose table fits
  the wire, the largest representable fixed section is \<open>max_wire_fixed_size\<close> exactly (the size
  itself is accepted, one byte more is refused); a table that does not fit refuses every size.
\<close>

theorem wire_size_boundary:
  "frame_prefix_exceeds_wire fixed_size entries \<longleftrightarrow>
     (u32_max < 40 + 8 * entries \<or> max_wire_fixed_size entries < fixed_size)"
  by (auto simp: frame_prefix_exceeds_wire_def frame_prefix_size_def checked_add_def checked_mul_def
      max_wire_fixed_size_def usize_mul_def usize_max_def u32_max_def HEADER_SIZE_def ENTRY_SIZE_def
      split: option.splits if_splits)

text \<open>The bound of \<open>MaxPayloadCapacity::try_new\<close> is what \<open>from_max_slice_len\<close> reaches.\<close>

lemma payload_capacity_bound:
  "max_slice_len_try_new n = Some m \<Longrightarrow>
     payload_capacity_try_new (payload_capacity_from m) = Some (payload_capacity_from m) \<and>
     payload_capacity_from (- 1) = - 1 - 40"
  using unat_lt_2p [of m]
  by (auto simp: max_slice_len_try_new_def payload_capacity_try_new_def payload_capacity_from_def
      HEADER_SIZE_def word_less_nat_alt unat_sub word_le_nat_alt not_less unat_max_word
      split: if_splits)

end
