(* ===== verification/SyncTransport.thy ===== *)
theory SyncTransport
  imports Wire
begin

text \<open>
  One Sync trigger input on the transport side: the two frame slots of the subscriber (the frozen
  head and the staged next frame, \<open>transport/subscriber.rs\<close>), the scheduler's head operations
  (\<open>scheduler/mod.rs\<close>) and the dispatcher that performs one operation on one input
  (\<open>graph/node.rs\<close>).

  The receive queue is a parameter here, a state with a drain pass (\<open>drain_one\<close>: pop
  the next parseable frame and account for it) and a non-consuming probe. The locale
  \<open>frame_queue\<close> says what a FIFO queue promises and is interpreted on the plain list of arrived
  frames. The read-log records the operations stage are not modelled.
\<close>

section \<open>Head operations\<close>

datatype sync_align_site = Boundary | Refill

datatype sync_head_op =
    FillBoundary
  | FillRefill
  | ProbeNext
  | PeekNext sync_align_site
  | Advance sync_align_site
  | Void

datatype sync_op_answer =
    AnsHead u64
  | AnsNothing
  | AnsPresent
  | AnsStamp u64
  | AnsFailed

datatype align_outcome = Complete | Incomplete

section \<open>The two slots of an input\<close>

datatype frozen_slot = FzSample bytes | FzHeld | FzEmpty | FzErr

datatype consume_mode = Latest | EachFifo

record drain_outcome =
  do_slot :: frozen_slot
  do_popped :: u64
  do_latest_ts :: "u64 option"

type_synonym 'q drain = "consume_mode \<Rightarrow> 'q \<Rightarrow> drain_outcome \<times> 'q"

text \<open>The probe's \<open>None\<close> is its error.\<close>

type_synonym 'q probe = "'q \<Rightarrow> bool option"

record 'q sync_slot =
  sl_frozen :: "frozen_slot option"
  sl_next_head :: "bytes option"
  sl_consume_mode :: consume_mode
  sl_reoffers :: u64
  sl_warned :: bool
  sl_queue :: 'q

definition wire_timestamp_ns :: "bytes \<Rightarrow> u64 option" where
  "wire_timestamp_ns raw = (if HEADER_SIZE \<le> length raw then Some (get64 raw 24) else None)"

definition HELD_HEAD_WARN_BOUNDARIES :: u64 where
  "HELD_HEAD_WARN_BOUNDARIES = 1024"

definition note_head_reoffered :: "'q sync_slot \<Rightarrow> 'q sync_slot" where
  "note_head_reoffered s =
     (let n = sat_add (sl_reoffers s) 1
      in s\<lparr>sl_reoffers := n, sl_warned := (sl_warned s \<or> HELD_HEAD_WARN_BOUNDARIES \<le> n)\<rparr>)"

definition note_head_served :: "'q sync_slot \<Rightarrow> 'q sync_slot" where
  "note_head_served s = s\<lparr>sl_warned := False, sl_reoffers := 0\<rparr>"

definition sync_next_arrived :: "'q probe \<Rightarrow> 'q sync_slot \<Rightarrow> bool option" where
  "sync_next_arrived probe s =
     (if sl_next_head s \<noteq> None then Some True else probe (sl_queue s))"

datatype sync_frame_slot = SlotHead | SlotNext

definition sync_frame :: "'q sync_slot \<Rightarrow> sync_frame_slot \<Rightarrow> bytes option" where
  "sync_frame s slot =
     (case slot of
        SlotHead \<Rightarrow> (case sl_frozen s of Some (FzSample f) \<Rightarrow> Some f | _ \<Rightarrow> None)
      | SlotNext \<Rightarrow> sl_next_head s)"

text \<open>
  \<open>sync_peek_next_stamp\<close>: the outer \<open>None\<close> is its error, the inner one ``nothing valid to descend
  to''. The site only decides what the read log stages.
\<close>

definition sync_peek_next_stamp :: "'q drain \<Rightarrow> 'q sync_slot \<Rightarrow> u64 option option \<times> 'q sync_slot" where
  "sync_peek_next_stamp drain s =
     (case sl_next_head s of
        Some staged \<Rightarrow> (Some (wire_timestamp_ns staged), s)
      | None \<Rightarrow>
          (case sl_frozen s of
             Some (FzSample _) \<Rightarrow>
               (let (out, q) = drain EachFifo (sl_queue s); s1 = s\<lparr>sl_queue := q\<rparr>
                in case do_slot out of
                     FzSample f \<Rightarrow> (Some (wire_timestamp_ns f), s1\<lparr>sl_next_head := Some f\<rparr>)
                   | FzEmpty \<Rightarrow> (Some None, s1)
                   | FzErr \<Rightarrow> (None, s1)
                   | FzHeld \<Rightarrow> (Some None, s1))
           | _ \<Rightarrow> (Some None, s)))"

definition sync_discard_head :: "'q drain \<Rightarrow> 'q sync_slot \<Rightarrow> u64 option \<times> 'q sync_slot" where
  "sync_discard_head drain s =
     (let s0 = note_head_served (s\<lparr>sl_frozen := None\<rparr>)
      in case sl_next_head s0 of
           Some promoted \<Rightarrow>
             (wire_timestamp_ns promoted,
              s0\<lparr>sl_next_head := None, sl_frozen := Some (FzSample promoted)\<rparr>)
         | None \<Rightarrow>
             (let (out, q) = drain EachFifo (sl_queue s0)
              in (do_latest_ts out, s0\<lparr>sl_queue := q, sl_frozen := Some (do_slot out)\<rparr>)))"

definition sync_void_head :: "'q sync_slot \<Rightarrow> 'q sync_slot" where
  "sync_void_head s = s\<lparr>sl_frozen := Some FzEmpty\<rparr>"

text \<open>\<open>drain_for_trigger\<close>: the re-offer guard, the promotion of a staged frame, the drain.\<close>

definition held_head :: "'q sync_slot \<Rightarrow> bytes option" where
  "held_head s =
     (if sl_consume_mode s = EachFifo
      then (case sl_frozen s of Some (FzSample f) \<Rightarrow> Some f | _ \<Rightarrow> None) else None)"

definition drain_for_trigger :: "'q drain \<Rightarrow> sync_align_site \<Rightarrow> 'q sync_slot \<Rightarrow>
    (u64 \<times> u64 option) \<times> 'q sync_slot" where
  "drain_for_trigger drain site s =
     (case held_head s of
        Some f \<Rightarrow>
          (case site of
             Boundary \<Rightarrow> ((1, wire_timestamp_ns f), note_head_reoffered s)
           | Refill \<Rightarrow> ((0, None), s))
      | None \<Rightarrow>
          (let s0 = (note_head_served s)\<lparr>sl_frozen := None\<rparr>
           in case sl_next_head s0 of
                Some promoted \<Rightarrow>
                  ((1, wire_timestamp_ns promoted),
                   s0\<lparr>sl_next_head := None, sl_frozen := Some (FzSample promoted)\<rparr>)
              | None \<Rightarrow>
                  (let (out, q) = drain (sl_consume_mode s0) (sl_queue s0)
                   in ((do_popped out, do_latest_ts out),
                       s0\<lparr>sl_queue := q, sl_frozen := Some (do_slot out)\<rparr>))))"

text \<open>\<open>select_slot\<close>: what a tick's read serves.\<close>

definition select_slot :: "'q drain \<Rightarrow> 'q sync_slot \<Rightarrow> frozen_slot \<times> 'q sync_slot" where
  "select_slot drain s =
     (case sl_frozen s of
        Some FzHeld \<Rightarrow> (FzHeld, s)
      | Some FzEmpty \<Rightarrow> (FzEmpty, s)
      | Some slot \<Rightarrow> (slot, s\<lparr>sl_frozen := None\<rparr>)
      | None \<Rightarrow>
          (case (if sl_consume_mode s = EachFifo then sl_next_head s else None) of
             Some f \<Rightarrow> (FzSample f, s\<lparr>sl_next_head := None\<rparr>)
           | None \<Rightarrow>
               (let (out, q) = drain (sl_consume_mode s) (sl_queue s)
                in (do_slot out, s\<lparr>sl_queue := q\<rparr>))))"

section \<open>The dispatcher\<close>

definition sync_fill_answer :: "u64 \<Rightarrow> u64 option \<Rightarrow> sync_op_answer" where
  "sync_fill_answer popped latest_ts =
     (if popped = 0 then AnsNothing
      else case latest_ts of Some ts \<Rightarrow> AnsHead ts | None \<Rightarrow> AnsNothing)"

text \<open>
  \<open>NodeEntry::sync_head_op\<close> over the node's subscribers, a map from input names; an unknown name
  answers \<open>AnsFailed\<close>.
\<close>

type_synonym 'q subscribers = "string \<Rightarrow> 'q sync_slot option"

definition slot_head_op :: "'q drain \<Rightarrow> 'q probe \<Rightarrow> sync_head_op \<Rightarrow> 'q sync_slot \<Rightarrow>
    sync_op_answer \<times> 'q sync_slot" where
  "slot_head_op drain probe op s =
     (case op of
        FillBoundary \<Rightarrow>
          (let ((popped, ts), s1) = drain_for_trigger drain Boundary s in (sync_fill_answer popped ts, s1))
      | FillRefill \<Rightarrow>
          (let ((popped, ts), s1) = drain_for_trigger drain Refill s in (sync_fill_answer popped ts, s1))
      | ProbeNext \<Rightarrow>
          (case sync_next_arrived probe s of
             Some True \<Rightarrow> (AnsPresent, s) | Some False \<Rightarrow> (AnsNothing, s) | None \<Rightarrow> (AnsFailed, s))
      | PeekNext _ \<Rightarrow>
          (let (r, s1) = sync_peek_next_stamp drain s
           in (case r of
                 Some (Some ts) \<Rightarrow> AnsStamp ts | Some None \<Rightarrow> AnsNothing | None \<Rightarrow> AnsFailed, s1))
      | Advance _ \<Rightarrow>
          (let (ts, s1) = sync_discard_head drain s
           in (case ts of Some t \<Rightarrow> AnsHead t | None \<Rightarrow> AnsNothing, s1))
      | Void \<Rightarrow> (AnsNothing, sync_void_head s))"

definition node_head_op :: "'q drain \<Rightarrow> 'q probe \<Rightarrow> string \<Rightarrow> sync_head_op \<Rightarrow> 'q subscribers \<Rightarrow>
    sync_op_answer \<times> 'q subscribers" where
  "node_head_op drain probe input op subs =
     (case subs input of
        None \<Rightarrow> (AnsFailed, subs)
      | Some s \<Rightarrow> (let (ans, s1) = slot_head_op drain probe op s in (ans, subs(input \<mapsto> s1))))"

section \<open>What a FIFO queue promises\<close>

definition whole :: "bytes \<Rightarrow> bool" where
  "whole f \<longleftrightarrow> HEADER_SIZE \<le> length f"

definition head_frame :: "'q sync_slot \<Rightarrow> bytes list" where
  "head_frame s = (case sl_frozen s of Some (FzSample f) \<Rightarrow> [f] | _ \<Rightarrow> [])"

definition staged_frame :: "'q sync_slot \<Rightarrow> bytes list" where
  "staged_frame s = (case sl_next_head s of Some f \<Rightarrow> [f] | None \<Rightarrow> [])"

text \<open>The frames an input still has to deliver, oldest first.\<close>

definition waiting :: "('q \<Rightarrow> bytes list) \<Rightarrow> 'q sync_slot \<Rightarrow> bytes list" where
  "waiting arrived s = head_frame s @ staged_frame s @ arrived (sl_queue s)"

definition slot_ok :: "'q sync_slot \<Rightarrow> bool" where
  "slot_ok s \<longleftrightarrow> sl_consume_mode s = EachFifo \<and> (\<forall>f \<in> set (head_frame s @ staged_frame s). whole f)"

text \<open>What happens to one input: the scheduler's operations, the tick's reads, and arrivals.\<close>

datatype slot_event = HeadOp sync_head_op | Serve | Arrive bytes

fun left_by :: "'q drain \<Rightarrow> slot_event \<Rightarrow> 'q sync_slot \<Rightarrow> bytes list" where
  "left_by drain (HeadOp (Advance _)) s = head_frame s"
| "left_by drain (HeadOp Void) s = head_frame s"
| "left_by drain (HeadOp _) s = []"
| "left_by drain Serve s = (case fst (select_slot drain s) of FzSample f \<Rightarrow> [f] | _ \<Rightarrow> [])"
| "left_by drain (Arrive _) s = []"

fun slot_event_step :: "'q drain \<Rightarrow> 'q probe \<Rightarrow> (bytes \<Rightarrow> 'q \<Rightarrow> 'q) \<Rightarrow> slot_event \<Rightarrow> 'q sync_slot \<Rightarrow>
    'q sync_slot" where
  "slot_event_step drain probe push (HeadOp op) s = snd (slot_head_op drain probe op s)"
| "slot_event_step drain probe push Serve s = snd (select_slot drain s)"
| "slot_event_step drain probe push (Arrive f) s = s\<lparr>sl_queue := push f (sl_queue s)\<rparr>"

fun slot_run :: "'q drain \<Rightarrow> 'q probe \<Rightarrow> (bytes \<Rightarrow> 'q \<Rightarrow> 'q) \<Rightarrow> slot_event list \<Rightarrow> 'q sync_slot \<Rightarrow>
    bytes list \<times> 'q sync_slot" where
  "slot_run drain probe push [] s = ([], s)"
| "slot_run drain probe push (e # es) s =
     (let (ls, s') = slot_run drain probe push es (slot_event_step drain probe push e s)
      in (left_by drain e s @ ls, s'))"

fun arrivals :: "slot_event list \<Rightarrow> bytes list" where
  "arrivals [] = []"
| "arrivals (Arrive f # es) = (if whole f then [f] else []) @ arrivals es"
| "arrivals (_ # es) = arrivals es"

lemmas slot_frame_defs = head_frame_def staged_frame_def waiting_def

lemma whole_stamp: "whole f \<Longrightarrow> wire_timestamp_ns f = Some (get64 f 24)"
  by (simp add: whole_def wire_timestamp_ns_def)

locale frame_queue =
  fixes drain :: "'q drain" and probe :: "'q probe" and push :: "bytes \<Rightarrow> 'q \<Rightarrow> 'q"
    and arrived :: "'q \<Rightarrow> bytes list"
  assumes arrived_whole: "f \<in> set (arrived q) \<Longrightarrow> whole f"
    and pop_empty: "arrived q = [] \<Longrightarrow>
      \<exists>q'. drain EachFifo q = (\<lparr>do_slot = FzEmpty, do_popped = 0, do_latest_ts = None\<rparr>, q') \<and>
        arrived q' = []"
    and pop_head: "arrived q = f # fs \<Longrightarrow>
      \<exists>q'. drain EachFifo q =
        (\<lparr>do_slot = FzSample f, do_popped = 1, do_latest_ts = wire_timestamp_ns f\<rparr>, q') \<and>
        arrived q' = fs"
    and probe_counts: "arrived q \<noteq> [] \<Longrightarrow> probe q = Some True"
    and push_arrives: "arrived (push f q) = arrived q @ (if whole f then [f] else [])"
begin

lemma drain_cases:
  obtains (Empty) q' where "arrived q = []" "arrived q' = []"
      "drain EachFifo q = (\<lparr>do_slot = FzEmpty, do_popped = 0, do_latest_ts = None\<rparr>, q')"
  | (Frame) f q' where "arrived q = f # arrived q'" "whole f" "wire_timestamp_ns f = Some (get64 f 24)"
      "drain EachFifo q =
         (\<lparr>do_slot = FzSample f, do_popped = 1, do_latest_ts = wire_timestamp_ns f\<rparr>, q')"
proof (cases "arrived q")
  case Nil
  then show thesis using pop_empty that(1) by blast
next
  case (Cons f fs)
  then have "whole f" using arrived_whole [of f q] by simp
  with Cons show thesis using pop_head [OF Cons] that(2) whole_stamp by metis
qed

lemma peek_waiting:
  assumes "slot_ok s" "sync_peek_next_stamp drain s = (r, s')"
  shows "slot_ok s'" "waiting arrived s' = waiting arrived s" "r \<noteq> None" "head_frame s' = head_frame s"
    "r = Some (Some ts) \<Longrightarrow> \<exists>f. staged_frame s' = [f] \<and> ts = get64 f 24 \<and> whole f"
  using assms
  by (atomize (full), cases rule: drain_cases [of "sl_queue s"])
    (auto simp: sync_peek_next_stamp_def slot_frame_defs slot_ok_def whole_stamp
      split: option.splits frozen_slot.splits)

lemma discard_waiting:
  assumes "slot_ok s" "sync_discard_head drain s = (r, s')"
  shows "slot_ok s'" "waiting arrived s = head_frame s @ waiting arrived s'"
    "r = (case waiting arrived s' of [] \<Rightarrow> None | f # _ \<Rightarrow> Some (get64 f 24))"
    "head_frame s' = (case waiting arrived s' of [] \<Rightarrow> [] | f # _ \<Rightarrow> [f])"
proof -
  have "slot_ok s' \<and> waiting arrived s = head_frame s @ waiting arrived s' \<and>
    r = (case waiting arrived s' of [] \<Rightarrow> None | f # _ \<Rightarrow> Some (get64 f 24)) \<and>
    head_frame s' = (case waiting arrived s' of [] \<Rightarrow> [] | f # _ \<Rightarrow> [f])"
  proof (cases "sl_next_head s")
    case (Some f)
    with assms(1) have "whole f" by (simp add: slot_ok_def staged_frame_def)
    with assms Some show ?thesis
      by (auto simp: sync_discard_head_def slot_frame_defs slot_ok_def whole_stamp note_head_served_def
          Let_def)
  next
    case None
    with assms show ?thesis
      by (cases rule: drain_cases [of "sl_queue s"])
        (auto simp: sync_discard_head_def slot_frame_defs slot_ok_def note_head_served_def Let_def)
  qed
  then show "slot_ok s'" "waiting arrived s = head_frame s @ waiting arrived s'"
    "r = (case waiting arrived s' of [] \<Rightarrow> None | f # _ \<Rightarrow> Some (get64 f 24))"
    "head_frame s' = (case waiting arrived s' of [] \<Rightarrow> [] | f # _ \<Rightarrow> [f])"
    by blast+
qed

lemma fill_waiting:
  assumes "slot_ok s" "drain_for_trigger drain site s = ((p, t), s')"
  shows "slot_ok s'" "waiting arrived s' = waiting arrived s"
    "site = Boundary \<or> head_frame s = [] \<Longrightarrow> sync_fill_answer p t =
       (case waiting arrived s of [] \<Rightarrow> AnsNothing | f # _ \<Rightarrow> AnsHead (get64 f 24))"
    "head_frame s' = (case waiting arrived s of [] \<Rightarrow> [] | f # _ \<Rightarrow> [f])"
    "site = Refill \<and> head_frame s \<noteq> [] \<Longrightarrow> sync_fill_answer p t = AnsNothing"
proof -
  let ?Q = "slot_ok s' \<and> waiting arrived s' = waiting arrived s \<and>
    (site = Boundary \<or> head_frame s = [] \<longrightarrow> sync_fill_answer p t =
       (case waiting arrived s of [] \<Rightarrow> AnsNothing | f # _ \<Rightarrow> AnsHead (get64 f 24))) \<and>
    head_frame s' = (case waiting arrived s of [] \<Rightarrow> [] | f # _ \<Rightarrow> [f]) \<and>
    (site = Refill \<and> head_frame s \<noteq> [] \<longrightarrow> sync_fill_answer p t = AnsNothing)"
  have mode: "sl_consume_mode s = EachFifo" using assms(1) by (simp add: slot_ok_def)
  have ?Q
  proof (cases "held_head s")
    case (Some f)
    then have fz: "sl_frozen s = Some (FzSample f)"
      by (auto simp: held_head_def split: if_splits option.splits frozen_slot.splits)
    with assms(1) have "whole f" by (simp add: slot_ok_def head_frame_def)
    with assms fz Some show ?thesis
      by (cases site) (auto simp: drain_for_trigger_def note_head_reoffered_def Let_def slot_ok_def
          slot_frame_defs sync_fill_answer_def whole_stamp)
  next
    case None
    then have hf: "head_frame s = []"
      using mode by (auto simp: held_head_def head_frame_def split: option.splits frozen_slot.splits)
    show ?thesis
    proof (cases "sl_next_head s")
      case (Some f)
      with assms(1) have "whole f" by (simp add: slot_ok_def staged_frame_def)
      with assms None hf Some show ?thesis
        by (auto simp: drain_for_trigger_def note_head_served_def Let_def slot_ok_def
            slot_frame_defs sync_fill_answer_def whole_stamp)
    next
      case nx: None
      show ?thesis
        using assms None hf nx mode
        by (cases rule: drain_cases [of "sl_queue s"])
          (auto simp: drain_for_trigger_def note_head_served_def Let_def slot_ok_def
            slot_frame_defs sync_fill_answer_def whole_stamp)
    qed
  qed
  then show "slot_ok s'" "waiting arrived s' = waiting arrived s"
    "site = Boundary \<or> head_frame s = [] \<Longrightarrow> sync_fill_answer p t =
       (case waiting arrived s of [] \<Rightarrow> AnsNothing | f # _ \<Rightarrow> AnsHead (get64 f 24))"
    "head_frame s' = (case waiting arrived s of [] \<Rightarrow> [] | f # _ \<Rightarrow> [f])"
    "site = Refill \<and> head_frame s \<noteq> [] \<Longrightarrow> sync_fill_answer p t = AnsNothing"
    by blast+
qed

lemma serve_waiting:
  assumes "slot_ok s" "select_slot drain s = (r, s')"
  shows "slot_ok s'"
    "waiting arrived s = (case r of FzSample f \<Rightarrow> [f] | _ \<Rightarrow> []) @ waiting arrived s'"
proof -
  have mode: "sl_consume_mode s = EachFifo" using assms(1) by (simp add: slot_ok_def)
  have "slot_ok s' \<and> waiting arrived s = (case r of FzSample f \<Rightarrow> [f] | _ \<Rightarrow> []) @ waiting arrived s'"
  proof (cases "sl_frozen s")
    case (Some z)
    then show ?thesis
      using assms by (cases z) (auto simp: select_slot_def slot_frame_defs slot_ok_def)
  next
    case None
    show ?thesis
    proof (cases "sl_next_head s")
      case (Some f)
      with None assms mode show ?thesis
        by (auto simp: select_slot_def slot_frame_defs slot_ok_def)
    next
      case nx: None
      from None assms nx mode show ?thesis
        by (cases rule: drain_cases [of "sl_queue s"])
          (auto simp: select_slot_def slot_frame_defs slot_ok_def)
    qed
  qed
  then show "slot_ok s'"
    "waiting arrived s = (case r of FzSample f \<Rightarrow> [f] | _ \<Rightarrow> []) @ waiting arrived s'"
    by blast+
qed

lemma event_waiting:
  assumes "slot_ok s"
  shows "slot_ok (slot_event_step drain probe push e s) \<and>
    left_by drain e s @ waiting arrived (slot_event_step drain probe push e s) =
      waiting arrived s @ arrivals [e]"
proof (cases e)
  case (HeadOp op)
  show ?thesis
  proof (cases op)
    case FillBoundary
    obtain p t s' where "drain_for_trigger drain Boundary s = ((p, t), s')"
      by (metis prod.collapse)
    with fill_waiting [OF assms this] HeadOp FillBoundary show ?thesis by (simp add: slot_head_op_def)
  next
    case FillRefill
    obtain p t s' where "drain_for_trigger drain Refill s = ((p, t), s')"
      by (metis prod.collapse)
    with fill_waiting [OF assms this] HeadOp FillRefill show ?thesis by (simp add: slot_head_op_def)
  next
    case ProbeNext
    with HeadOp assms show ?thesis
      by (simp add: slot_head_op_def split: option.splits bool.splits)
  next
    case (PeekNext site)
    obtain r s' where "sync_peek_next_stamp drain s = (r, s')" by (metis prod.collapse)
    with peek_waiting [OF assms this] HeadOp PeekNext show ?thesis by (simp add: slot_head_op_def)
  next
    case (Advance site)
    obtain r s' where "sync_discard_head drain s = (r, s')" by (metis prod.collapse)
    with discard_waiting [OF assms this] HeadOp Advance show ?thesis by (simp add: slot_head_op_def)
  next
    case Void
    with HeadOp assms show ?thesis
      by (simp add: slot_head_op_def sync_void_head_def slot_frame_defs slot_ok_def)
  qed
next
  case Serve
  obtain r s' where "select_slot drain s = (r, s')" by (metis prod.collapse)
  with serve_waiting [OF assms this] Serve show ?thesis by simp
next
  case (Arrive f)
  with assms push_arrives show ?thesis by (simp add: slot_frame_defs slot_ok_def)
qed

lemma arrivals_Cons: "arrivals (e # es) = arrivals [e] @ arrivals es"
  by (cases e) simp_all

lemma run_waiting:
  "slot_ok s \<Longrightarrow> slot_run drain probe push es s = (ls, s') \<Longrightarrow>
   slot_ok s' \<and> ls @ waiting arrived s' = waiting arrived s @ arrivals es"
proof (induction es arbitrary: s ls)
  case (Cons e es)
  let ?s = "slot_event_step drain probe push e s"
  from Cons.prems(2) obtain ls' where ls: "slot_run drain probe push es ?s = (ls', s')"
    "ls = left_by drain e s @ ls'"
    by (auto split: prod.splits)
  note e = event_waiting [OF Cons.prems(1), of e]
  with Cons.IH [OF _ ls(1)] have "slot_ok s'" "ls' @ waiting arrived s' = waiting arrived ?s @ arrivals es"
    by blast+
  with e ls(2) show ?case
    by (metis append_assoc arrivals_Cons)
qed simp

lemma peek_then_advance:
  assumes "slot_ok s" "slot_head_op drain probe (PeekNext site) s = (AnsStamp ts, s')"
  shows "fst (slot_head_op drain probe (Advance site') s') = AnsHead ts"
    and "sl_queue (snd (slot_head_op drain probe (Advance site') s')) = sl_queue s'"
proof -
  obtain r where r: "sync_peek_next_stamp drain s = (r, s')" "r = Some (Some ts)"
    using assms(2) by (auto simp: slot_head_op_def split: prod.splits option.splits)
  from peek_waiting(5) [OF assms(1) r] obtain f where f: "sl_next_head s' = Some f" "ts = get64 f 24" "whole f"
    by (auto simp: staged_frame_def split: option.splits)
  then show "fst (slot_head_op drain probe (Advance site') s') = AnsHead ts"
    "sl_queue (snd (slot_head_op drain probe (Advance site') s')) = sl_queue s'"
    by (auto simp: slot_head_op_def sync_discard_head_def note_head_served_def Let_def whole_stamp
        split: prod.splits)
qed

end

text \<open>
  The plain queue of arrived frames, a corrupt (too short) one popped past by the one-frame drain. The drain itself,
  with its bounds, gates, evictions and errors, is modelled in \<open>ReceivePath\<close>, which shows that it is this one for an
  input that holds nothing back (\<open>plain_drain_is_fifo\<close>).
\<close>

fun fifo_drain :: "bytes list drain" where
  "fifo_drain EachFifo q =
     (case dropWhile (\<lambda>f. \<not> whole f) q of
        [] \<Rightarrow> (\<lparr>do_slot = FzEmpty, do_popped = 0, do_latest_ts = None\<rparr>, [])
      | f # fs \<Rightarrow> (\<lparr>do_slot = FzSample f, do_popped = 1, do_latest_ts = wire_timestamp_ns f\<rparr>, fs))"
| "fifo_drain Latest q =
     (if q = [] then (\<lparr>do_slot = FzEmpty, do_popped = 0, do_latest_ts = None\<rparr>, [])
      else (\<lparr>do_slot = FzSample (last q), do_popped = of_nat (length q),
             do_latest_ts = wire_timestamp_ns (last q)\<rparr>, []))"

definition fifo_probe :: "bytes list probe" where
  "fifo_probe q = Some (q \<noteq> [])"

definition fifo_push :: "bytes \<Rightarrow> bytes list \<Rightarrow> bytes list" where
  "fifo_push f q = q @ [f]"

definition fifo_arrived :: "bytes list \<Rightarrow> bytes list" where
  "fifo_arrived q = filter whole q"

lemma filter_dropWhile: "filter P xs = (case dropWhile (\<lambda>x. \<not> P x) xs of [] \<Rightarrow> [] | y # ys \<Rightarrow> y # filter P ys)"
  by (induction xs) auto

interpretation fifo: frame_queue fifo_drain fifo_probe fifo_push fifo_arrived
proof
  fix f q
  assume "f \<in> set (fifo_arrived q)"
  then show "whole f" by (simp add: fifo_arrived_def)
next
  fix q
  assume "fifo_arrived q = []"
  then have e: "dropWhile (\<lambda>f. \<not> whole f) q = []"
    by (simp add: fifo_arrived_def filter_dropWhile [of whole q] split: list.splits)
  show "\<exists>q'. fifo_drain EachFifo q = (\<lparr>do_slot = FzEmpty, do_popped = 0, do_latest_ts = None\<rparr>, q') \<and>
      fifo_arrived q' = []"
    by (simp only: fifo_drain.simps e list.case) (simp add: fifo_arrived_def)
next
  fix q f fs
  assume "fifo_arrived q = f # fs"
  then obtain rest where "dropWhile (\<lambda>f. \<not> whole f) q = f # rest" "filter whole rest = fs"
    by (auto simp: fifo_arrived_def filter_dropWhile [of whole q] split: list.splits)
  then show "\<exists>q'. fifo_drain EachFifo q =
      (\<lparr>do_slot = FzSample f, do_popped = 1, do_latest_ts = wire_timestamp_ns f\<rparr>, q') \<and>
      fifo_arrived q' = fs"
    by (simp add: fifo_arrived_def)
next
  fix q
  assume "fifo_arrived q \<noteq> []"
  then show "fifo_probe q = Some True" by (auto simp: fifo_arrived_def fifo_probe_def)
next
  fix f q
  show "fifo_arrived (fifo_push f q) = fifo_arrived q @ (if whole f then [f] else [])"
    by (simp add: fifo_arrived_def fifo_push_def)
qed

section \<open>Properties\<close>

text \<open>The slot of a newly bound trigger input over a queue.\<close>

definition new_slot :: "'q \<Rightarrow> 'q sync_slot" where
  "new_slot q = \<lparr>sl_frozen = None, sl_next_head = None, sl_consume_mode = EachFifo,
     sl_reoffers = 0, sl_warned = False, sl_queue = q\<rparr>"

text \<open>
  Over a plain queue no frame is lost, duplicated or reordered between the queue and the node: over any
  interleaving of the scheduler's head operations, the tick's reads and arrivals, the frames that
  left the input (served, advanced past or voided) followed by those still waiting are exactly the
  frames that were waiting followed by the whole frames that arrived, in order.
\<close>

theorem head_delivery_is_fifo:
  assumes "slot_ok s" and "slot_run fifo_drain fifo_probe fifo_push events s = (out, s')"
  shows "slot_ok s' \<and>
    out @ waiting fifo_arrived s' = waiting fifo_arrived s @ arrivals events"
  using fifo.run_waiting [OF assms] .

theorem head_delivery_is_fifo_witness:
  "fst (slot_run fifo_drain fifo_probe fifo_push
     [Arrive (to_le 40 1), Arrive [7], Arrive (to_le 40 2), HeadOp FillBoundary,
      HeadOp (PeekNext Boundary), HeadOp (Advance Boundary), Serve] (new_slot []))
   = [to_le 40 1, to_le 40 2]"
proof -
  have w: "whole (to_le 40 n)" for n by (simp add: whole_def HEADER_SIZE_def)
  have nw: "\<not> whole [7]" by (simp add: whole_def HEADER_SIZE_def)
  let ?es = "[Arrive (to_le 40 1), Arrive [7], Arrive (to_le 40 2), HeadOp FillBoundary,
      HeadOp (PeekNext Boundary), HeadOp (Advance Boundary), Serve]"
  obtain ls s' where r: "slot_run fifo_drain fifo_probe fifo_push ?es (new_slot []) = (ls, s')"
    by (metis prod.collapse)
  have ok: "slot_ok (new_slot [])"
    by (simp add: slot_ok_def new_slot_def slot_frame_defs)
  have "ls @ waiting fifo_arrived s' = [to_le 40 1, to_le 40 2]"
    using head_delivery_is_fifo [OF ok r] w nw
    by (simp add: slot_frame_defs new_slot_def fifo_arrived_def)
  moreover have "waiting fifo_arrived s' = []"
    using r w nw
    by (auto simp: slot_frame_defs new_slot_def fifo_arrived_def fifo_push_def slot_head_op_def
        drain_for_trigger_def held_head_def note_head_served_def sync_peek_next_stamp_def
        sync_discard_head_def select_slot_def Let_def simp del: to_le.simps)
  ultimately show ?thesis using r by simp
qed

text \<open>
  A peek tells the truth about the next head: once \<open>PeekNext\<close> answered a stamp, advancing past
  the head answers exactly that stamp, and takes nothing further from the queue.
\<close>

theorem peeked_stamp_becomes_the_head:
  assumes "slot_ok s" and "slot_head_op fifo_drain fifo_probe (PeekNext site) s = (AnsStamp ts, s')"
  shows "fst (slot_head_op fifo_drain fifo_probe (Advance site') s') = AnsHead ts \<and>
    sl_queue (snd (slot_head_op fifo_drain fifo_probe (Advance site') s')) = sl_queue s'"
  using fifo.peek_then_advance [OF assms] by blast

theorem peeked_stamp_becomes_the_head_witness:
  "fst (slot_head_op fifo_drain fifo_probe (Advance Boundary)
     (snd (slot_head_op fifo_drain fifo_probe (PeekNext Boundary)
       ((new_slot [replicate 40 0])\<lparr>sl_frozen := Some (FzSample (replicate 40 0))\<rparr>)))) = AnsHead 0"
proof -
  let ?s = "(new_slot [replicate 40 (0::u8)])\<lparr>sl_frozen := Some (FzSample (replicate 40 0))\<rparr>"
  have w: "whole (replicate 40 0)" by (simp add: whole_def HEADER_SIZE_def)
  then have ok: "slot_ok ?s" by (simp add: slot_ok_def new_slot_def slot_frame_defs)
  have z: "from_le (replicate n 0) = 0" for n by (induction n) simp_all
  have "get64 (replicate 40 0) 24 = 0" by (simp add: get64_def slice_def z)
  then have "fst (slot_head_op fifo_drain fifo_probe (PeekNext Boundary) ?s) = AnsStamp 0"
    using w by (simp add: slot_head_op_def sync_peek_next_stamp_def new_slot_def whole_stamp)
  then show ?thesis
    using peeked_stamp_becomes_the_head [OF ok, of Boundary 0 _ Boundary] by (metis prod.collapse)
qed

end
