(* ===== verification/FloodLatch.thy ===== *)
theory FloodLatch
  imports Prelude
begin

text \<open>
  The log-flood suppression state machines: the shared \<open>FailureRegimeLatch\<close>
  (\<open>transport/failure_regime_latch.rs\<close>), which the Sync alignment driver uses, and its older
  siblings \<open>DrainWarnLatch\<close> (\<open>graph/drain_latch.rs\<close>), \<open>TickFailureLatch\<close>
  (\<open>graph/tick_failure_latch.rs\<close>) and \<open>OutputDiscardLatch\<close>
  (\<open>transport/output_discard_latch.rs\<close>).

  The four share one contract, stated by the locale \<open>flood_latch\<close>: the first failure of a regime
  is loud, a success closes the regime, and a success on a healthy latch says nothing. It is
  interpreted on each of the four models. For the shared latch the number of loud lines is bounded
  by the regimes and the decades of the running total.
\<close>

section \<open>The shared latch\<close>

datatype regime_decision =
    Loud
  | Suppressed u64
  | StillFailing (still_total: u64) (still_suppressed: u64)

record failure_latch =
  fl_failing :: bool
  fl_suppressed :: u64
  fl_total :: u64
  fl_next_decade :: u64

definition DECADE_BASE :: u64 where
  "DECADE_BASE = 10"

definition latch_new :: failure_latch where
  "latch_new = \<lparr>fl_failing = False, fl_suppressed = 0, fl_total = 0, fl_next_decade = DECADE_BASE\<rparr>"

lemma sat_mul_base_ge: "unat x \<le> unat (sat_mul x DECADE_BASE)"
  using unat_u64_lt [of x] by (simp add: unat_sat_mul DECADE_BASE_def)

function advance_decade :: "u64 \<Rightarrow> u64 \<Rightarrow> u64" where
  "advance_decade next_decade tot =
     (if next_decade \<le> tot then
        let advanced = sat_mul next_decade DECADE_BASE
        in if advanced = next_decade then next_decade else advance_decade advanced tot
      else next_decade)"
  by pat_completeness auto

termination
proof (relation "measure (\<lambda>(d, t). 2 ^ 64 - unat d)", simp)
  fix d t a :: u64
  assume "d \<le> t" "a = sat_mul d DECADE_BASE" "a \<noteq> d"
  then have "unat d < unat a"
    using sat_mul_base_ge [of d] by (auto simp: word_unat_eq_iff)
  then show "((a, t), (d, t)) \<in> measure (\<lambda>(d, t). 2 ^ 64 - unat d)"
    using unat_u64_lt [of a] by simp
qed

declare advance_decade.simps [simp del]

definition latch_on_failure :: "failure_latch \<Rightarrow> regime_decision \<times> failure_latch" where
  "latch_on_failure l =
     (let tot = fl_total l + 1;
          crossed = fl_next_decade l \<le> tot;
          l1 = l\<lparr>fl_total := tot,
                 fl_next_decade := (if crossed then advance_decade (fl_next_decade l) tot
                                    else fl_next_decade l)\<rparr>
      in if \<not> fl_failing l then (Loud, l1\<lparr>fl_failing := True, fl_suppressed := 0\<rparr>)
         else if crossed then (StillFailing tot (fl_suppressed l), l1)
         else (Suppressed (fl_suppressed l + 1), l1\<lparr>fl_suppressed := fl_suppressed l + 1\<rparr>))"

definition latch_on_success :: "failure_latch \<Rightarrow> u64 option \<times> failure_latch" where
  "latch_on_success l =
     (if \<not> fl_failing l then (None, l)
      else (if 0 < fl_suppressed l then Some (fl_suppressed l) else None,
            l\<lparr>fl_failing := False, fl_suppressed := 0\<rparr>))"

section \<open>The older latches\<close>

datatype drain_failure_level = DrainWarn | DrainDebug

record drain_latch =
  dl_failing :: bool

definition drain_on_failure :: "drain_latch \<Rightarrow> drain_failure_level \<times> drain_latch" where
  "drain_on_failure l =
     (if dl_failing l then (DrainDebug, l) else (DrainWarn, l\<lparr>dl_failing := True\<rparr>))"

definition drain_on_success :: "drain_latch \<Rightarrow> bool \<times> drain_latch" where
  "drain_on_success l = (dl_failing l, l\<lparr>dl_failing := False\<rparr>)"

datatype tick_failure_log =
    FirstOfRegime u64
  | AnnounceSuppression
  | SuppressedSoFar u64

record tick_latch =
  tl_last_reason :: "string option"
  tl_occurrences :: u64

definition tick_on_failure :: "string \<Rightarrow> tick_latch \<Rightarrow> tick_failure_log \<times> tick_latch" where
  "tick_on_failure reason l =
     (if tl_last_reason l \<noteq> Some reason
      then (FirstOfRegime (sat_sub (tl_occurrences l) 1),
            l\<lparr>tl_last_reason := Some reason, tl_occurrences := 1\<rparr>)
      else let occ = tl_occurrences l + 1
           in (if occ = 2 then AnnounceSuppression else SuppressedSoFar (occ - 1),
               l\<lparr>tl_occurrences := occ\<rparr>))"

definition tick_on_success :: "tick_latch \<Rightarrow> u64 option \<times> tick_latch" where
  "tick_on_success l =
     (case tl_last_reason l of
        None \<Rightarrow> (None, l)
      | Some _ \<Rightarrow> (Some (sat_sub (tl_occurrences l) 1),
                   l\<lparr>tl_last_reason := None, tl_occurrences := 0\<rparr>))"

datatype discard_level = DiscardError | DiscardDebug u64

record discard_latch =
  od_failing :: bool
  od_suppressed :: u64
  od_total :: u64

definition discard_on_discard :: "discard_latch \<Rightarrow> discard_level \<times> discard_latch" where
  "discard_on_discard l =
     (let l1 = l\<lparr>od_total := od_total l + 1\<rparr>
      in if od_failing l
         then (DiscardDebug (od_suppressed l + 1), l1\<lparr>od_suppressed := od_suppressed l + 1\<rparr>)
         else (DiscardError, l1\<lparr>od_failing := True, od_suppressed := 0\<rparr>))"

definition discard_on_complete :: "discard_latch \<Rightarrow> u64 option \<times> discard_latch" where
  "discard_on_complete l =
     (if od_failing l
      then (if 0 < od_suppressed l then Some (od_suppressed l) else None,
            l\<lparr>od_failing := False, od_suppressed := 0\<rparr>)
      else (None, l))"

section \<open>The shared contract\<close>

text \<open>A run of observations (\<open>True\<close> for a failure) and the decisions it draws, oldest first.\<close>

fun latch_run :: "('s \<Rightarrow> 'd \<times> 's) \<Rightarrow> ('s \<Rightarrow> 'r \<times> 's) \<Rightarrow> 's \<Rightarrow> bool list \<Rightarrow> ('d + 'r) list \<times> 's" where
  "latch_run fail ok s [] = ([], s)"
| "latch_run fail ok s (b # bs) =
     (let (d, s1) = (if b then (let (x, s') = fail s in (Inl x, s'))
                     else (let (x, s') = ok s in (Inr x, s')));
          (ds, s2) = latch_run fail ok s1 bs
      in (d # ds, s2))"

lemma latch_run_length: "length (fst (latch_run fail ok s bs)) = length bs"
  by (induction bs arbitrary: s) (simp_all add: split_beta Let_def)

text \<open>The number of regimes a run opens, given whether one is open before it.\<close>

fun regimes :: "bool \<Rightarrow> bool list \<Rightarrow> nat" where
  "regimes op [] = 0"
| "regimes op (b # bs) = (if b \<and> \<not> op then 1 else 0) + regimes b bs"

locale flood_latch =
  fixes fail :: "'s \<Rightarrow> 'd \<times> 's"
    and ok :: "'s \<Rightarrow> 'r \<times> 's"
    and failing :: "'s \<Rightarrow> bool"
    and loud :: "'d \<Rightarrow> bool"
    and reports :: "'r \<Rightarrow> bool"
  assumes head_is_loud: "\<not> failing s \<Longrightarrow> loud (fst (fail s))"
    and fail_opens: "failing (snd (fail s))"
    and ok_closes: "\<not> failing (snd (ok s))"
    and ok_silent: "\<not> failing s \<Longrightarrow> \<not> reports (fst (ok s)) \<and> snd (ok s) = s"
begin

lemma run_append:
  "latch_run fail ok s (as @ bs) =
     (let (ds, s1) = latch_run fail ok s as; (es, s2) = latch_run fail ok s1 bs in (ds @ es, s2))"
  by (induction as arbitrary: s) (auto split: prod.splits)

lemma run_failing:
  "obs \<noteq> [] \<Longrightarrow> failing (snd (latch_run fail ok s obs)) \<longleftrightarrow> last obs"
proof (induction obs arbitrary: s)
  case (Cons b bs)
  show ?case
  proof (cases "bs = []")
    case True
    then show ?thesis
      using fail_opens [of s] ok_closes [of s] by (auto split: prod.splits)
  next
    case False
    with Cons.IH show ?thesis by (auto split: prod.splits) (metis snd_conv)+
  qed
qed simp

text \<open>No regime opens silently: at least as many loud lines as regimes.\<close>

lemma regimes_are_announced:
  "regimes (failing s) obs \<le>
     length (filter (\<lambda>d. case d of Inl x \<Rightarrow> loud x | Inr _ \<Rightarrow> False) (fst (latch_run fail ok s obs)))"
proof (induction obs arbitrary: s)
  case (Cons b bs)
  show ?case
  proof (cases b)
    case True
    obtain d s1 where f: "fail s = (d, s1)" by (cases "fail s")
    then have "failing s1" "\<not> failing s \<Longrightarrow> loud d"
      using fail_opens [of s] head_is_loud [of s] by auto
    with Cons.IH [of s1] f True show ?thesis by (auto split: prod.splits)
  next
    case False
    obtain r s1 where f: "ok s = (r, s1)" by (cases "ok s")
    then have "\<not> failing s1" using ok_closes [of s] by auto
    with Cons.IH [of s1] f False show ?thesis by (auto split: prod.splits)
  qed
qed simp

text \<open>A healthy run of successes is silent and changes nothing.\<close>

lemma healthy_run_silent:
  "\<not> failing s \<Longrightarrow>
   snd (latch_run fail ok s (replicate n False)) = s \<and>
   (\<forall>d \<in> set (fst (latch_run fail ok s (replicate n False))). \<exists>r. d = Inr r \<and> \<not> reports r)"
proof (induction n)
  case (Suc n)
  obtain r s1 where f: "ok s = (r, s1)" by (cases "ok s")
  with ok_silent [OF Suc.prems] have "s1 = s" "\<not> reports r" by auto
  with Suc f show ?case by (auto split: prod.splits)
qed simp

end

interpretation shared_latch: flood_latch latch_on_failure latch_on_success fl_failing
    "\<lambda>d. case d of Suppressed _ \<Rightarrow> False | _ \<Rightarrow> True" "\<lambda>r. r \<noteq> None"
  by unfold_locales (auto simp: latch_on_failure_def latch_on_success_def Let_def)

interpretation drain_warn: flood_latch drain_on_failure drain_on_success dl_failing
    "\<lambda>d. d = DrainWarn" "\<lambda>r. r"
  by unfold_locales (auto simp: drain_on_failure_def drain_on_success_def)

interpretation tick_log: flood_latch "tick_on_failure reason" tick_on_success
    "\<lambda>l. tl_last_reason l \<noteq> None" "\<lambda>d. case d of SuppressedSoFar _ \<Rightarrow> False | _ \<Rightarrow> True"
    "\<lambda>r. r \<noteq> None" for reason
  by unfold_locales
    (auto simp: tick_on_failure_def tick_on_success_def Let_def split: option.splits)

interpretation output_discard: flood_latch discard_on_discard discard_on_complete od_failing
    "\<lambda>d. d = DiscardError" "\<lambda>r. r \<noteq> None"
  by unfold_locales (auto simp: discard_on_discard_def discard_on_complete_def Let_def)


section \<open>How many lines a flood costs\<close>

definition is_loud :: "regime_decision + u64 option \<Rightarrow> bool" where
  "is_loud d = (case d of Inl x \<Rightarrow> (case x of Suppressed _ \<Rightarrow> False | _ \<Rightarrow> True) | Inr _ \<Rightarrow> False)"

definition is_suppressed :: "regime_decision + u64 option \<Rightarrow> bool" where
  "is_suppressed d = (case d of Inl x \<Rightarrow> (case x of Suppressed _ \<Rightarrow> True | _ \<Rightarrow> False) | Inr _ \<Rightarrow> False)"

lemma decision_kind_simps [simp]:
  "is_loud (Inl Loud)" "is_loud (Inl (StillFailing a b))" "\<not> is_loud (Inl (Suppressed c))"
  "\<not> is_loud (Inr r)"
  "\<not> is_suppressed (Inl Loud)" "\<not> is_suppressed (Inl (StillFailing a b))"
  "is_suppressed (Inl (Suppressed c))" "\<not> is_suppressed (Inr r)"
  by (simp_all add: is_loud_def is_suppressed_def)

lemma is_loud_fold:
  "(\<lambda>d. case d of Inl x \<Rightarrow> (case x of Suppressed _ \<Rightarrow> False | _ \<Rightarrow> True) | Inr _ \<Rightarrow> False) = is_loud"
  by (simp add: fun_eq_iff is_loud_def)

text \<open>The ladder stands at \<open>10 ^ k\<close>, the least positive power of ten above the total.\<close>

definition decade_at :: "nat \<Rightarrow> failure_latch \<Rightarrow> bool" where
  "decade_at k l \<longleftrightarrow> 1 \<le> k \<and> k \<le> 19 \<and> unat (fl_next_decade l) = 10 ^ k \<and>
     unat (fl_total l) < 10 ^ k \<and> (k = 1 \<or> 10 ^ (k - 1) \<le> unat (fl_total l))"

lemma pow10_le: "k \<le> 19 \<Longrightarrow> (10::nat) ^ k < 2 ^ 64"
proof -
  assume "k \<le> 19"
  then have "(10::nat) ^ k \<le> 10 ^ 19" by (rule power_increasing) simp
  then show ?thesis by simp
qed

lemma decade_at_new: "decade_at 1 latch_new"
  by (simp add: decade_at_def latch_new_def DECADE_BASE_def)

lemma advance_decade_once:
  assumes "unat d = 10 ^ k" "k < 19" "unat t = 10 ^ k"
  shows "unat (advance_decade d t) = 10 ^ Suc k"
proof -
  let ?a = "sat_mul d DECADE_BASE"
  have "(10::nat) ^ Suc k < 2 ^ 64" using assms(2) by (intro pow10_le) simp
  then have a: "unat ?a = 10 ^ Suc k"
    using assms(1) by (simp add: unat_sat_mul DECADE_BASE_def)
  then have "?a \<noteq> d" "\<not> ?a \<le> t" "d \<le> t"
    using assms by (auto simp: word_unat_eq_iff word_le_nat_alt)
  then have "advance_decade d t = ?a"
    by (simp add: advance_decade.simps [of d t] advance_decade.simps [of ?a t])
  with a show ?thesis by simp
qed

lemma decade_step:
  assumes "decade_at k l" "unat (fl_total l) + 1 < 10 ^ 19"
  shows "unat (fl_total (snd (latch_on_failure l))) = unat (fl_total l) + 1"
    and "fl_next_decade l \<le> fl_total l + 1 \<longleftrightarrow> unat (fl_total l) + 1 = 10 ^ k"
    and "decade_at (if unat (fl_total l) + 1 = 10 ^ k then Suc k else k) (snd (latch_on_failure l))"
proof -
  let ?t = "fl_total l + 1"
  have t: "unat ?t = unat (fl_total l) + 1"
    using assms(2) by (intro unat_add_1) simp
  show "unat (fl_total (snd (latch_on_failure l))) = unat (fl_total l) + 1"
    using t by (simp add: latch_on_failure_def Let_def)
  show cross: "fl_next_decade l \<le> ?t \<longleftrightarrow> unat (fl_total l) + 1 = 10 ^ k"
    using assms(1) t by (auto simp: decade_at_def word_le_nat_alt)
  show "decade_at (if unat (fl_total l) + 1 = 10 ^ k then Suc k else k) (snd (latch_on_failure l))"
  proof (cases "unat (fl_total l) + 1 = 10 ^ k")
    case True
    then have "(10::nat) ^ k < 10 ^ 19" using assms(2) by simp
    then have k: "k < 19" by (rule power_less_imp_less_exp [rotated]) simp
    have "unat (advance_decade (fl_next_decade l) ?t) = 10 ^ Suc k"
      using assms(1) k t True by (intro advance_decade_once) (simp_all add: decade_at_def)
    with k t True cross show ?thesis
      by (simp add: decade_at_def latch_on_failure_def Let_def)
  next
    case False
    with assms(1) t cross show ?thesis
      by (auto simp: decade_at_def latch_on_failure_def Let_def)
  qed
qed

lemma latch_run_fail:
  "latch_run latch_on_failure latch_on_success l (True # bs) =
     (Inl (fst (latch_on_failure l)) #
        fst (latch_run latch_on_failure latch_on_success (snd (latch_on_failure l)) bs),
      snd (latch_run latch_on_failure latch_on_success (snd (latch_on_failure l)) bs))"
  by (simp add: split_beta Let_def)

lemma latch_run_ok:
  "latch_run latch_on_failure latch_on_success l (False # bs) =
     (Inr (fst (latch_on_success l)) #
        fst (latch_run latch_on_failure latch_on_success (snd (latch_on_success l)) bs),
      snd (latch_run latch_on_failure latch_on_success (snd (latch_on_success l)) bs))"
  by (simp add: split_beta Let_def)

lemma flood_bound:
  assumes "decade_at k l" "unat (fl_total l) + count_list obs True < 10 ^ 19"
  shows "\<exists>k'. k \<le> k' \<and> decade_at k' (snd (latch_run latch_on_failure latch_on_success l obs)) \<and>
    unat (fl_total (snd (latch_run latch_on_failure latch_on_success l obs))) =
      unat (fl_total l) + count_list obs True \<and>
    length (filter is_loud (fst (latch_run latch_on_failure latch_on_success l obs)))
      \<le> regimes (fl_failing l) obs + (k' - k)"
  using assms
proof (induction obs arbitrary: k l)
  case Nil
  then show ?case by auto
next
  case (Cons b obs)
  show ?case
  proof (cases b)
    case True
    let ?l = "snd (latch_on_failure l)" and ?d = "fst (latch_on_failure l)"
    let ?k = "if unat (fl_total l) + 1 = 10 ^ k then Suc k else k"
    have lim: "unat (fl_total l) + 1 < 10 ^ 19" using Cons.prems(2) True by simp
    note step = decade_step [OF Cons.prems(1) lim]
    have f: "fl_failing ?l" by (rule shared_latch.fail_opens)
    have d: "is_loud (Inl ?d) \<Longrightarrow> fl_failing l \<Longrightarrow> ?k = Suc k"
      using step(2) by (auto simp: latch_on_failure_def Let_def split: if_splits)
    have "unat (fl_total ?l) + count_list obs True < 10 ^ 19"
      using Cons.prems(2) step(1) True by simp
    from Cons.IH [OF step(3) this] obtain k' where "?k \<le> k'"
      "decade_at k' (snd (latch_run latch_on_failure latch_on_success ?l obs))"
      "unat (fl_total (snd (latch_run latch_on_failure latch_on_success ?l obs))) =
        unat (fl_total l) + 1 + count_list obs True"
      "length (filter is_loud (fst (latch_run latch_on_failure latch_on_success ?l obs)))
        \<le> regimes True obs + (k' - ?k)"
      using step(1) f by auto
    then show ?thesis
      using True d
      by (intro exI [of _ k']) (auto simp: latch_run_fail simp del: latch_run.simps split: if_splits)
  next
    case False
    let ?l = "snd (latch_on_success l)"
    have "fl_total ?l = fl_total l" "fl_next_decade ?l = fl_next_decade l" "\<not> fl_failing ?l"
      by (simp_all add: latch_on_success_def)
    then have "decade_at k ?l" "unat (fl_total ?l) + count_list obs True < 10 ^ 19"
      using Cons.prems False by (simp_all add: decade_at_def)
    from Cons.IH [OF this] \<open>fl_total ?l = fl_total l\<close> \<open>\<not> fl_failing ?l\<close> False
    show ?thesis using False by (simp add: latch_run_ok del: latch_run.simps)
  qed
qed

lemma run_failing_stays:
  "fl_failing l \<Longrightarrow>
   fl_failing (snd (latch_run latch_on_failure latch_on_success l (replicate m True)))"
  using shared_latch.run_failing [of "replicate m True" l] by (cases m) simp_all

lemma suppressed_count:
  "fl_failing l \<Longrightarrow>
   fl_suppressed (snd (latch_run latch_on_failure latch_on_success l (replicate m True))) =
      fl_suppressed l + of_nat (length (filter is_suppressed
        (fst (latch_run latch_on_failure latch_on_success l (replicate m True)))))"
proof (induction m arbitrary: l)
  case (Suc m)
  have f: "fl_failing (snd (latch_on_failure l))" by (rule shared_latch.fail_opens)
  show ?case
    unfolding replicate_Suc latch_run_fail fst_conv snd_conv Suc.IH [OF f]
    using Suc.prems by (auto simp: latch_on_failure_def Let_def)
qed simp

section \<open>Properties\<close>

text \<open>
  A flood of failures costs logarithmically many loud lines: over any run of observations from
  a new latch with fewer than \<open>10 ^ 19\<close> failures in all, the decisions to log loudly are at most
  the regimes opened plus \<open>j\<close>, where \<open>10 ^ j\<close> does not exceed the number of failures (or is 1),
  at least one per regime, and the unconditional counter ends at the number of failures.
\<close>

theorem flood_costs_log_lines:
  assumes "count_list obs True < 10 ^ 19"
  defines "run \<equiv> latch_run latch_on_failure latch_on_success latch_new obs"
  shows "\<exists>j. 10 ^ j \<le> max 1 (count_list obs True) \<and>
    length (filter is_loud (fst run)) \<le> regimes False obs + j \<and>
    regimes False obs \<le> length (filter is_loud (fst run)) \<and>
    unat (fl_total (snd run)) = count_list obs True"
proof -
  have "unat (fl_total latch_new) + count_list obs True < 10 ^ 19"
    using assms(1) by (simp add: latch_new_def)
  from flood_bound [OF decade_at_new this] obtain k' where k': "1 \<le> k'" "decade_at k' (snd run)"
    "unat (fl_total (snd run)) = count_list obs True"
    "length (filter is_loud (fst run)) \<le> regimes False obs + (k' - 1)"
    by (auto simp: run_def latch_new_def)
  have "regimes False obs \<le> length (filter is_loud (fst run))"
    using shared_latch.regimes_are_announced [of latch_new obs]
    by (simp add: run_def is_loud_fold) (simp add: latch_new_def)
  moreover have "10 ^ (k' - 1) \<le> max 1 (count_list obs True)"
    using k'(2,3) by (auto simp: decade_at_def)
  ultimately show ?thesis using k' by blast
qed

theorem flood_costs_log_lines_witness:
  "length (filter is_loud (fst (latch_run latch_on_failure latch_on_success latch_new
     [True, True, True, False, True, True]))) \<le> 2"
proof -
  let ?obs = "[True, True, True, False, True, True]"
  have "count_list ?obs True < (10::nat) ^ 19" by simp
  from flood_costs_log_lines [OF this] obtain j :: nat where
    j: "10 ^ j \<le> max 1 (count_list ?obs True)"
    "length (filter is_loud (fst (latch_run latch_on_failure latch_on_success latch_new ?obs)))
       \<le> regimes False ?obs + j"
    by blast
  have "(10::nat) ^ j < 10 ^ 1" using j(1) by simp
  then have "j < 1" by (rule power_less_imp_less_exp [rotated]) simp
  then show ?thesis using j(2) by simp
qed

text \<open>
  The recovery line is honest: after a regime of \<open>m\<close> failures opened on a healthy latch, the
  success that closes it reports exactly the number of failures whose line was downgraded, and
  reports nothing when none was (a lone failure heals silently); the latch is healthy again.
\<close>

theorem recovery_reports_what_was_hidden:
  assumes "\<not> fl_failing l" and "0 < m" and "m < 2 ^ 64"
  defines "run \<equiv> latch_run latch_on_failure latch_on_success l (replicate m True)"
  defines "hidden \<equiv> length (filter is_suppressed (fst run))"
  shows "fst (latch_on_success (snd run)) = (if hidden = 0 then None else Some (of_nat hidden)) \<and>
    \<not> fl_failing (snd (latch_on_success (snd run)))"
proof -
  obtain m' where m: "m = Suc m'" using assms(2) by (cases m) auto
  let ?l = "snd (latch_on_failure l)"
  have f: "fl_failing ?l" by (rule shared_latch.fail_opens)
  have l: "fst (latch_on_failure l) = Loud" "fl_suppressed ?l = 0"
    using assms(1) by (simp_all add: latch_on_failure_def Let_def)
  let ?run = "latch_run latch_on_failure latch_on_success ?l (replicate m' True)"
  have run: "snd run = snd ?run" "fst run = Inl Loud # fst ?run"
    using l by (simp_all add: run_def m latch_run_fail del: latch_run.simps)
  have hid: "hidden = length (filter is_suppressed (fst ?run))"
    by (simp add: hidden_def run)
  have "hidden \<le> m'"
    using length_filter_le [of is_suppressed "fst ?run"] unfolding hid latch_run_length length_replicate .
  then have "hidden < 2 ^ 64" using assms(3) m by simp
  then have "unat (of_nat hidden :: u64) = hidden" by (intro unat_of_nat_eq) simp
  then have pos: "0 < (of_nat hidden :: u64) \<longleftrightarrow> hidden \<noteq> 0"
    by (simp add: word_less_nat_alt)
  have "fl_suppressed (snd run) = of_nat hidden" "fl_failing (snd run)"
    using suppressed_count [OF f, of m'] run_failing_stays [OF f, of m'] l(2)
    by (simp_all add: run hid)
  then show ?thesis using pos by (simp add: latch_on_success_def)
qed

theorem recovery_reports_what_was_hidden_witness:
  "fst (latch_on_success (snd (latch_run latch_on_failure latch_on_success latch_new
     (replicate 1 True)))) = None"
  using recovery_reports_what_was_hidden [of latch_new 1]
  by (simp add: latch_new_def latch_on_failure_def Let_def)

end
