(* ===== verification/Watchdog.thy ===== *)
theory Watchdog
  imports FloodLatch
begin

text \<open>
  The per-port QoS watchdog (\<open>WatchdogTracker\<close> of \<open>scheduler/mod.rs\<close>) and what one evaluation of
  its window does (the two loops of \<open>run_qos_windows\<close>).

  \<open>wd_last_event_ns\<close> is the shared anchor: only arrivals write it, so the evaluation reads it and
  never changes it. An evaluation ends in a verdict: nothing elapsed, a window elapsed while the node
  was behind (reported, not counted as a miss), or a missed deadline with or without the one event of
  its silence regime.
\<close>

section \<open>The tracker\<close>

record watchdog =
  wd_within_ns :: u64
  wd_last_event_ns :: u64
  wd_armed :: bool
  wd_window_start_ns :: u64
  wd_last_arrival_ns :: u64
  wd_sync_topic :: "string option"
  wd_fifo_trigger :: bool
  wd_prev_backlog :: bool
  wd_suppressed_window :: bool
  wd_held_member :: bool
  wd_backlog_latch :: failure_latch

definition new_watchdog :: "u64 \<Rightarrow> u64 \<Rightarrow> bool \<Rightarrow> string option \<Rightarrow> watchdog" where
  "new_watchdog within_ms seed fifo_trigger sync_topic =
     \<lparr>wd_within_ns = sat_mul within_ms 1000000, wd_last_event_ns = seed, wd_armed = True,
      wd_window_start_ns = seed, wd_last_arrival_ns = seed, wd_sync_topic = sync_topic,
      wd_fifo_trigger = fifo_trigger, wd_prev_backlog = False, wd_suppressed_window = False,
      wd_held_member = False, wd_backlog_latch = latch_new\<rparr>"

datatype window_verdict =
    Quiet
  | Backlogged (wv_elapsed: u64)
  | Missed (wv_elapsed: u64) (wv_event: bool)

definition observe_anchor :: "watchdog \<Rightarrow> watchdog" where
  "observe_anchor t =
     (if wd_last_event_ns t \<noteq> wd_last_arrival_ns t
      then t\<lparr>wd_last_arrival_ns := wd_last_event_ns t, wd_window_start_ns := wd_last_event_ns t,
             wd_armed := True\<rparr>
      else t)"

definition drain_out :: "u64 \<Rightarrow> watchdog \<Rightarrow> watchdog" where
  "drain_out now t =
     (let (report, latch) = latch_on_success (wd_backlog_latch t)
      in t\<lparr>wd_window_start_ns := (if wd_suppressed_window t then now else wd_window_start_ns t),
           wd_suppressed_window := False, wd_backlog_latch := latch,
           wd_held_member := (if report \<noteq> None then False else wd_held_member t)\<rparr>)"

text \<open>\<open>head_held\<close> says which Sync heads are filled; the tracker asks for its own topic.\<close>

definition member_held :: "(string \<Rightarrow> bool) \<Rightarrow> watchdog \<Rightarrow> bool" where
  "member_held head_held t = (case wd_sync_topic t of Some topic \<Rightarrow> head_held topic | None \<Rightarrow> False)"

definition behind :: "bool \<Rightarrow> (string \<Rightarrow> bool) \<Rightarrow> watchdog \<Rightarrow> bool" where
  "behind data_backlog head_held t = (data_backlog \<and> wd_fifo_trigger t \<or> member_held head_held t)"

definition window_elapsed :: "u64 \<Rightarrow> watchdog \<Rightarrow> u64" where
  "window_elapsed now t = sat_sub now (wd_window_start_ns t)"

definition miss_window :: "u64 \<Rightarrow> watchdog \<Rightarrow> window_verdict \<times> watchdog" where
  "miss_window now t =
     (Missed (window_elapsed now t) (wd_armed t), t\<lparr>wd_armed := False, wd_window_start_ns := now\<rparr>)"

definition expect_window :: "u64 \<Rightarrow> bool \<Rightarrow> (string \<Rightarrow> bool) \<Rightarrow> watchdog \<Rightarrow> window_verdict \<times> watchdog" where
  "expect_window now data_backlog head_held t =
     (let t1 = observe_anchor t;
          held = member_held head_held t1;
          backlogged_now = behind data_backlog head_held t1;
          t2 = (if wd_prev_backlog t1 \<and> \<not> backlogged_now then drain_out now t1 else t1)
                 \<lparr>wd_prev_backlog := backlogged_now\<rparr>
      in if window_elapsed now t2 > wd_within_ns t2
         then if backlogged_now
              then (Backlogged (window_elapsed now t2),
                    t2\<lparr>wd_suppressed_window := True, wd_held_member := held,
                       wd_backlog_latch := snd (latch_on_failure (wd_backlog_latch t2)),
                       wd_window_start_ns := now\<rparr>)
              else miss_window now t2
         else (Quiet, t2))"

definition promise_window :: "u64 \<Rightarrow> watchdog \<Rightarrow> window_verdict \<times> watchdog" where
  "promise_window now t =
     (let t1 = observe_anchor t
      in if window_elapsed now t1 > wd_within_ns t1 then miss_window now t1 else (Quiet, t1))"

text \<open>
  The reactable events (\<open>ExpectWithinEvent\<close>, \<open>PromiseWithinEvent\<close>) and their store
  (\<open>QosEventStore\<close> of \<open>scheduler/handle.rs\<close>): one slot per port, the newest event wins.
\<close>

record qos_event =
  qe_name :: string
  qe_within_ms :: u64
  qe_elapsed_ms :: u64
  qe_count_total :: u64
  qe_missed_at_ns :: u64

record qos_store =
  qs_expect :: "string \<Rightarrow> qos_event option"
  qs_promise :: "string \<Rightarrow> qos_event option"

definition empty_store :: qos_store where
  "empty_store = \<lparr>qs_expect = \<lambda>_. None, qs_promise = \<lambda>_. None\<rparr>"

definition push_expect :: "qos_event \<Rightarrow> qos_store \<Rightarrow> qos_store" where
  "push_expect e st = st\<lparr>qs_expect := (qs_expect st)(qe_name e \<mapsto> e)\<rparr>"

definition take_expect :: "string \<Rightarrow> qos_store \<Rightarrow> qos_event option \<times> qos_store" where
  "take_expect name st = (qs_expect st name, st\<lparr>qs_expect := (qs_expect st)(name := None)\<rparr>)"

definition push_promise :: "qos_event \<Rightarrow> qos_store \<Rightarrow> qos_store" where
  "push_promise e st = st\<lparr>qs_promise := (qs_promise st)(qe_name e \<mapsto> e)\<rparr>"

definition take_promise :: "string \<Rightarrow> qos_store \<Rightarrow> qos_event option \<times> qos_store" where
  "take_promise name st = (qs_promise st name, st\<lparr>qs_promise := (qs_promise st)(name := None)\<rparr>)"

definition missed_event :: "string \<Rightarrow> watchdog \<Rightarrow> u64 \<Rightarrow> u64 \<Rightarrow> u64 \<Rightarrow> qos_event" where
  "missed_event name t elapsed count now =
     \<lparr>qe_name = name, qe_within_ms = wd_within_ns t div 1000000, qe_elapsed_ms = elapsed div 1000000,
      qe_count_total = count, qe_missed_at_ns = now\<rparr>"

section \<open>Runs of evaluations\<close>

text \<open>
  What one step sees of a port: the anchor as the arrivals left it, the clock, and whether the node
  is behind. \<open>watch_run\<close> is the sequence of verdicts over the steps.
\<close>

record observation =
  ob_anchor :: u64
  ob_now :: u64
  ob_backlog :: bool
  ob_held :: "string \<Rightarrow> bool"

definition watch_step :: "observation \<Rightarrow> watchdog \<Rightarrow> window_verdict \<times> watchdog" where
  "watch_step ob t =
     expect_window (ob_now ob) (ob_backlog ob) (ob_held ob) (t\<lparr>wd_last_event_ns := ob_anchor ob\<rparr>)"

fun watch_run :: "observation list \<Rightarrow> watchdog \<Rightarrow> window_verdict list \<times> watchdog" where
  "watch_run [] t = ([], t)"
| "watch_run (ob # obs) t =
     (let (v, t1) = watch_step ob t; (vs, t2) = watch_run obs t1 in (v # vs, t2))"

definition is_lapse :: "window_verdict \<Rightarrow> bool" where
  "is_lapse v \<longleftrightarrow> v \<noteq> Quiet"

definition is_event :: "window_verdict \<Rightarrow> bool" where
  "is_event v = (case v of Missed _ e \<Rightarrow> e | _ \<Rightarrow> False)"

fun arrivals_seen :: "u64 \<Rightarrow> observation list \<Rightarrow> nat" where
  "arrivals_seen a [] = 0"
| "arrivals_seen a (ob # obs) = (if ob_anchor ob \<noteq> a then 1 else 0) + arrivals_seen (ob_anchor ob) obs"

text \<open>Steps at most \<open>d\<close> apart, the one before the first at \<open>p\<close>.\<close>

fun steady :: "nat \<Rightarrow> nat \<Rightarrow> observation list \<Rightarrow> bool" where
  "steady d p [] \<longleftrightarrow> True"
| "steady d p (ob # obs) \<longleftrightarrow>
     p \<le> unat (ob_now ob) \<and> unat (ob_now ob) \<le> p + d \<and> steady d (unat (ob_now ob)) obs"

definition last_seen :: "nat \<Rightarrow> observation list \<Rightarrow> nat" where
  "last_seen p obs = (if obs = [] then p else unat (ob_now (last obs)))"

definition silent :: "watchdog \<Rightarrow> observation \<Rightarrow> bool" where
  "silent t ob \<longleftrightarrow> ob_anchor ob = wd_last_arrival_ns t \<and> \<not> behind (ob_backlog ob) (ob_held ob) t"

section \<open>One evaluation\<close>

lemma behind_frame [simp]:
  "behind b h (t\<lparr>wd_last_event_ns := x\<rparr>) = behind b h t"
  "behind b h (observe_anchor t) = behind b h t"
  by (simp_all add: behind_def member_held_def observe_anchor_def)

lemma drain_out_frame [simp]:
  "wd_armed (drain_out now t) = wd_armed t"
  "wd_within_ns (drain_out now t) = wd_within_ns t"
  "wd_last_arrival_ns (drain_out now t) = wd_last_arrival_ns t"
  "wd_sync_topic (drain_out now t) = wd_sync_topic t"
  "wd_fifo_trigger (drain_out now t) = wd_fifo_trigger t"
  by (simp_all add: drain_out_def split: prod.splits)

lemmas window_defs = watch_step_def expect_window_def miss_window_def Let_def

lemma watch_step_frame:
  assumes "watch_step ob t = (v, t')"
  shows "wd_within_ns t' = wd_within_ns t" "wd_last_arrival_ns t' = ob_anchor ob"
    "behind b h t' = behind b h t"
  using assms by (auto simp: window_defs observe_anchor_def behind_def member_held_def split: if_splits)

lemma watch_step_event:
  assumes "watch_step ob t = (v, t')"
  shows "(if is_event v then 1 else 0) + (if wd_armed t' then 1 else 0) \<le>
    (if ob_anchor ob \<noteq> wd_last_arrival_ns t then 1 else 0 :: nat) + (if wd_armed t then 1 else 0)"
  using assms by (auto simp: window_defs observe_anchor_def is_event_def split: if_splits)

lemma watch_step_behind:
  assumes "watch_step ob t = (v, t')" "behind (ob_backlog ob) (ob_held ob) t"
  shows "\<not> (\<exists>e b. v = Missed e b)"
  using assms by (auto simp: window_defs split: if_splits)

lemma watch_step_silent:
  assumes "watch_step ob t = (v, t')" "silent t ob" "\<not> wd_prev_backlog t"
    and "wd_window_start_ns t \<le> ob_now ob"
  shows "\<not> wd_prev_backlog t'"
    "if unat (ob_now ob) - unat (wd_window_start_ns t) \<le> unat (wd_within_ns t)
     then v = Quiet \<and> wd_window_start_ns t' = wd_window_start_ns t
     else is_lapse v \<and> (\<exists>e b. v = Missed e b) \<and> wd_window_start_ns t' = ob_now ob"
  using assms
  by (auto simp: window_defs observe_anchor_def silent_def window_elapsed_def is_lapse_def
      word_less_nat_alt unat_sat_sub split: if_splits)

section \<open>Properties\<close>

text \<open>
  A silence is reported once, and being behind is never reported as silence: over any run of
  evaluations the reactable events are at most one per arrival seen plus the one an armed tracker
  starts with, and no step at which the node is behind on this input counts a missed deadline.
\<close>

theorem one_event_per_silence:
  assumes "watch_run obs t = (vs, t')"
  shows "length (filter is_event vs) + (if wd_armed t' then 1 else 0) \<le>
      arrivals_seen (wd_last_arrival_ns t) obs + (if wd_armed t then 1 else 0) \<and>
    list_all2 (\<lambda>ob v. behind (ob_backlog ob) (ob_held ob) t \<longrightarrow> \<not> (\<exists>e b. v = Missed e b)) obs vs"
  using assms
proof (induction obs arbitrary: t vs)
  case (Cons ob obs)
  obtain v t1 where s: "watch_step ob t = (v, t1)" by (metis prod.collapse)
  obtain vs' where r: "watch_run obs t1 = (vs', t')" "vs = v # vs'"
    using Cons.prems s by (auto split: prod.splits)
  show ?case
    using Cons.IH [OF r(1)] watch_step_event [OF s] watch_step_behind [OF s]
    by (auto simp: r(2) watch_step_frame [OF s])
qed simp

theorem one_event_per_silence_witness:
  "length (filter is_event (fst (watch_run
     [\<lparr>ob_anchor = 5, ob_now = 2000000, ob_backlog = False, ob_held = \<lambda>_. False\<rparr>,
      \<lparr>ob_anchor = 5, ob_now = 4000000, ob_backlog = False, ob_held = \<lambda>_. False\<rparr>]
     (new_watchdog 1 0 True None)))) \<le> 2"
proof -
  let ?obs = "[\<lparr>ob_anchor = 5, ob_now = 2000000, ob_backlog = False, ob_held = \<lambda>_. False\<rparr>,
      \<lparr>ob_anchor = 5, ob_now = 4000000, ob_backlog = False, ob_held = \<lambda>_. False\<rparr>]"
  obtain vs t' where r: "watch_run ?obs (new_watchdog 1 0 True None) = (vs, t')" by (metis prod.collapse)
  from one_event_per_silence [OF r] show ?thesis unfolding r by (simp add: new_watchdog_def split: if_splits)
qed

text \<open>
  Silence is counted at the rate of the window, no faster and no slower: while nothing arrives
  and the node is not behind, with steps at most \<open>d\<close> apart, every elapsed window is a missed
  deadline, the windows counted do not overlap, and they cover the time since the last one: the
  \<open>n\<close> misses by the last step fit into the time elapsed, which exceeds them by less than one window
  and the slack of a step for each.
\<close>

theorem silence_is_counted_per_window:
  assumes "watch_run obs t = (vs, t')"
    and "list_all (silent t) obs" and "\<not> wd_prev_backlog t"
    and "steady d p obs" and "unat (wd_window_start_ns t) \<le> p"
    and "p \<le> unat (wd_window_start_ns t) + unat (wd_within_ns t)"
  defines "n \<equiv> length (filter is_lapse vs)" and "w \<equiv> unat (wd_within_ns t)"
    and "s \<equiv> unat (wd_window_start_ns t)"
  shows "list_all (\<lambda>v. is_lapse v \<longrightarrow> (\<exists>e b. v = Missed e b)) vs \<and>
    s + n * (w + 1) \<le> last_seen p obs \<and> last_seen p obs \<le> s + n * (w + d) + w"
proof -
  have "list_all (\<lambda>v. is_lapse v \<longrightarrow> (\<exists>e b. v = Missed e b)) vs \<and>
    unat (wd_window_start_ns t) + length (filter is_lapse vs) * (unat (wd_within_ns t) + 1) \<le>
      last_seen p obs \<and>
    last_seen p obs \<le> unat (wd_window_start_ns t) +
      length (filter is_lapse vs) * (unat (wd_within_ns t) + d) + unat (wd_within_ns t)"
    using assms(1-6)
  proof (induction obs arbitrary: t vs p)
    case Nil
    then show ?case by (simp add: last_seen_def)
  next
    case (Cons ob obs)
    obtain v t1 where st: "watch_step ob t = (v, t1)" by (metis prod.collapse)
    obtain vs' where r: "watch_run obs t1 = (vs', t')" "vs = v # vs'"
      using Cons.prems st by (auto split: prod.splits)
    note fr = watch_step_frame [OF st]
    have le: "wd_window_start_ns t \<le> ob_now ob" using Cons.prems by (simp add: word_le_nat_alt)
    have sil: "silent t ob" using Cons.prems by simp
    note one = watch_step_silent [OF st sil Cons.prems(3) le]
    have sil1: "list_all (silent t1) obs"
      using Cons.prems(2) sil by (simp add: silent_def fr list_all_iff)
    have last: "last_seen p (ob # obs) = last_seen (unat (ob_now ob)) obs"
      by (simp add: last_seen_def)
    show ?case
    proof (cases "unat (ob_now ob) - unat (wd_window_start_ns t) \<le> unat (wd_within_ns t)")
      case True
      with one have q: "v = Quiet" "wd_window_start_ns t1 = wd_window_start_ns t" by simp_all
      have "unat (wd_window_start_ns t1) \<le> unat (ob_now ob)"
        "unat (ob_now ob) \<le> unat (wd_window_start_ns t1) + unat (wd_within_ns t1)"
        using True le by (simp_all add: q fr word_le_nat_alt)
      from Cons.IH [OF r(1) sil1 one(1) _ this] show ?thesis
        using Cons.prems(4) by (simp add: r(2) q last fr is_lapse_def)
    next
      case False
      with one have q: "is_lapse v" "\<exists>e b. v = Missed e b" "wd_window_start_ns t1 = ob_now ob" by simp_all
      from Cons.IH [OF r(1) sil1 one(1), of "unat (ob_now ob)"]
      have "list_all (\<lambda>v. is_lapse v \<longrightarrow> (\<exists>e b. v = Missed e b)) vs'"
        "unat (ob_now ob) + length (filter is_lapse vs') * (unat (wd_within_ns t) + 1) \<le>
          last_seen p (ob # obs)"
        "last_seen p (ob # obs) \<le> unat (ob_now ob) +
          length (filter is_lapse vs') * (unat (wd_within_ns t) + d) + unat (wd_within_ns t)"
        using Cons.prems(4) by (simp_all add: q(3) last fr)
      moreover have "unat (wd_window_start_ns t) + (unat (wd_within_ns t) + 1) \<le> unat (ob_now ob)"
        "unat (ob_now ob) \<le> unat (wd_window_start_ns t) + unat (wd_within_ns t) + d"
        using False Cons.prems(4,6) by simp_all
      ultimately show ?thesis using q(1,2) by (simp add: r(2) algebra_simps)
    qed
  qed
  then show ?thesis by (simp add: n_def w_def s_def)
qed

theorem silence_is_counted_per_window_witness:
  "\<exists>n. (1000000 + 1) * n \<le> (4000000 :: nat) \<and> 4000000 \<le> n * (1000000 + 2000000) + (1000000 :: nat) \<and>
     n = length (filter is_lapse (fst (watch_run
       [\<lparr>ob_anchor = 0, ob_now = 2000000, ob_backlog = False, ob_held = \<lambda>_. False\<rparr>,
        \<lparr>ob_anchor = 0, ob_now = 4000000, ob_backlog = False, ob_held = \<lambda>_. False\<rparr>]
       (new_watchdog 1 0 True None))))"
proof -
  let ?obs = "[\<lparr>ob_anchor = 0, ob_now = 2000000, ob_backlog = False, ob_held = \<lambda>_. False\<rparr>,
        \<lparr>ob_anchor = 0, ob_now = 4000000, ob_backlog = False, ob_held = \<lambda>_. False\<rparr>]"
  let ?t = "new_watchdog 1 0 True None"
  obtain vs t' where r: "watch_run ?obs ?t = (vs, t')" by (metis prod.collapse)
  have t: "wd_within_ns ?t = 1000000" "wd_window_start_ns ?t = 0" "wd_last_arrival_ns ?t = 0"
    "\<not> wd_prev_backlog ?t" "wd_sync_topic ?t = None"
    by (simp_all add: new_watchdog_def sat_mul_def)
  have "list_all (silent ?t) ?obs" "steady 2000000 0 ?obs"
    by (simp_all add: silent_def behind_def member_held_def t)
  from silence_is_counted_per_window [OF r this(1) t(4) this(2)] show ?thesis
    unfolding r by (intro exI [of _ "length (filter is_lapse vs)"]) (simp add: t last_seen_def)
qed

end
