(* ===== verification/SchedNode.thy ===== *)
theory SchedNode
  imports PeriodClamp SyncMatch SyncTransport Watchdog "HOL-Library.AList"
begin

text \<open>
  The scheduler's per-node state (\<open>ScheduledNode\<close> of \<open>scheduler/mod.rs\<close>) and the operations on it
  that run no node code: adding and resetting a node, the signals that feed it, the head of a Sync
  input and the epoch reset.

  The maps keyed by input name are functions; the per-input counters are the ones a
  \<open>NodeHandle\<close> reads. What the node reaches outside the scheduler (its callback, the pre-fire check,
  the transport operations) is not part of this state: see \<open>NodeFire\<close>.
\<close>

section \<open>State\<close>

datatype trigger_policy =
    Period duration "u32 option"
  | Data
  | Sync "string list" "duration option"
  | External

record sync_counters =
  sc_closer_skips :: "string \<Rightarrow> u64"
  sc_unmatched_discards :: "string \<Rightarrow> u64"
  sc_epoch_reset_discards :: "string \<Rightarrow> u64"
  sc_head_refusals :: "string \<Rightarrow> u64"
  sc_backlog_pending :: bool

record scheduled_node =
  nd_id :: string
  nd_policy :: trigger_policy
  nd_next_fire_ns :: "u64 option"
  nd_pending_data_count :: u64
  nd_sync_heads :: "string \<Rightarrow> sync_head option"
  nd_sync_ops :: "string list option"
  nd_sync_backlog_hint :: bool
  nd_sync_counters :: sync_counters
  nd_unmatched_latches :: "string \<Rightarrow> failure_latch option"
  nd_op_failure_latch :: failure_latch
  nd_op_failed_this_pass :: bool
  nd_high_water :: "string \<Rightarrow> u64 option"
  nd_epoch_latch :: failure_latch
  nd_epoch_floor :: "u64 option"
  nd_data_backlog_hint :: bool
  nd_throttle_ns :: "u64 option"
  nd_fire_count :: u64
  nd_last_fire_ns :: u64
  nd_panic_count :: u64
  nd_tick_within_ns :: "u64 option"
  nd_tick_within_missed :: u64
  nd_record_durations :: bool
  nd_signal_failed :: u64
  nd_consecutive_panics :: u32
  nd_disabled :: bool
  nd_external_triggered :: bool
  nd_fatal_stop :: bool
  nd_replay_discard_queue :: "bool list"
  nd_discard_signal :: u32
  nd_expect_within :: "(string \<times> watchdog) list"
  nd_promise_within :: "(string \<times> watchdog) list"
  nd_expect_missed :: u64
  nd_expect_backlogged :: u64
  nd_promise_missed :: u64
  nd_qos_events :: "qos_store option"
  nd_deaths :: nat

datatype sched_error = SeSchedulerError | SeNodeNotFound | SeDuplicateNode | SeGraphError

definition DATA_PENDING_CARRY_CLAMP :: u64 where
  "DATA_PENDING_CARRY_CLAMP = 64"

definition MAX_CONSECUTIVE_PANICS :: u32 where
  "MAX_CONSECUTIVE_PANICS = 3"

text \<open>\<open>SyncCounters::bump\<close> on one of the per-input maps.\<close>

definition bump :: "(string \<Rightarrow> u64) \<Rightarrow> string \<Rightarrow> u64 \<Rightarrow> string \<Rightarrow> u64" where
  "bump m input n = m(input := m input + n)"

section \<open>Building, adding and resetting a node\<close>

definition new_counters :: sync_counters where
  "new_counters = \<lparr>sc_closer_skips = \<lambda>_. 0, sc_unmatched_discards = \<lambda>_. 0,
     sc_epoch_reset_discards = \<lambda>_. 0, sc_head_refusals = \<lambda>_. 0, sc_backlog_pending = False\<rparr>"

definition new_node :: "string \<Rightarrow> trigger_policy \<Rightarrow> u64 \<Rightarrow> scheduled_node" where
  "new_node i policy now_ns =
     \<lparr>nd_id = i, nd_policy = policy,
      nd_next_fire_ns = (case policy of
        Period interval _ \<Rightarrow> Some (sat_add now_ns (duration_ns interval)) | _ \<Rightarrow> None),
      nd_pending_data_count = 0, nd_sync_heads = \<lambda>_. None, nd_sync_ops = None,
      nd_sync_backlog_hint = False, nd_sync_counters = new_counters,
      nd_unmatched_latches = (case policy of
        Sync inputs _ \<Rightarrow> (\<lambda>x. if x \<in> set inputs then Some latch_new else None) | _ \<Rightarrow> (\<lambda>_. None)),
      nd_op_failure_latch = latch_new, nd_op_failed_this_pass = False,
      nd_high_water = \<lambda>_. None, nd_epoch_latch = latch_new, nd_epoch_floor = None,
      nd_data_backlog_hint = False, nd_throttle_ns = None, nd_fire_count = 0, nd_last_fire_ns = 0,
      nd_panic_count = 0, nd_tick_within_ns = None, nd_tick_within_missed = 0,
      nd_record_durations = False, nd_signal_failed = 0, nd_consecutive_panics = 0,
      nd_disabled = False, nd_external_triggered = False, nd_fatal_stop = False,
      nd_replay_discard_queue = [], nd_discard_signal = 0, nd_expect_within = [],
      nd_promise_within = [], nd_expect_missed = 0, nd_expect_backlogged = 0, nd_promise_missed = 0,
      nd_qos_events = None, nd_deaths = 0\<rparr>"

text \<open>\<open>Scheduler::add_node\<close> on the insertion-ordered node map.\<close>

definition add_node :: "string \<Rightarrow> trigger_policy \<Rightarrow> u64 \<Rightarrow> bool \<Rightarrow> scheduled_node list \<Rightarrow>
    sched_error + scheduled_node list" where
  "add_node i policy now_ns record_durations nodes =
     (let node = (new_node i policy now_ns)\<lparr>nd_record_durations := record_durations\<rparr>
      in if \<exists>n \<in> set nodes. nd_id n = i then Inl SeDuplicateNode
         else case policy of
                Period interval _ \<Rightarrow>
                  (if interval = 0 then Inl SeSchedulerError else Inr (nodes @ [node]))
              | Sync inputs _ \<Rightarrow>
                  (if inputs = [] then Inl SeSchedulerError else Inr (nodes @ [node]))
              | _ \<Rightarrow> Inr (nodes @ [node]))"

definition reset_node :: "u64 \<Rightarrow> scheduled_node \<Rightarrow> scheduled_node" where
  "reset_node current_time node =
     (let n1 = node\<lparr>nd_disabled := False, nd_consecutive_panics := 0, nd_fatal_stop := False\<rparr>
      in case nd_policy n1 of
           Period interval _ \<Rightarrow>
             n1\<lparr>nd_next_fire_ns := map_option
                  (\<lambda>nf. adv_next_fire_ns (period_advance nf current_time (duration_ns interval) 0))
                  (nd_next_fire_ns n1)\<rparr>
         | _ \<Rightarrow> n1)"

section \<open>Signals\<close>

definition bump_signal_failed :: "scheduled_node \<Rightarrow> scheduled_node" where
  "bump_signal_failed node = node\<lparr>nd_signal_failed := nd_signal_failed node + 1\<rparr>"

definition signal_data :: "scheduled_node \<Rightarrow> (sched_error + unit) \<times> scheduled_node" where
  "signal_data node =
     (case nd_policy node of
        Data \<Rightarrow>
          (Inr (), node\<lparr>nd_pending_data_count :=
             min (nd_pending_data_count node + 1) DATA_PENDING_CARRY_CLAMP\<rparr>)
      | _ \<Rightarrow> (Inl SeSchedulerError, bump_signal_failed node))"

definition filled_at :: "scheduled_node \<Rightarrow> string \<Rightarrow> bool" where
  "filled_at node input = (case nd_sync_heads node input of Some h \<Rightarrow> is_filled h | None \<Rightarrow> False)"

definition refuse_offer :: "string \<Rightarrow> u64 \<Rightarrow> scheduled_node \<Rightarrow> scheduled_node" where
  "refuse_offer input ts node =
     (case nd_sync_heads node input of
        Some h \<Rightarrow>
          (if head_ts h \<noteq> ts
           then node\<lparr>nd_sync_counters := (nd_sync_counters node)
                  \<lparr>sc_head_refusals := bump (sc_head_refusals (nd_sync_counters node)) input 1\<rparr>\<rparr>
           else node)
      | None \<Rightarrow> node)"

definition signal_sync_input :: "string \<Rightarrow> u64 \<Rightarrow> scheduled_node \<Rightarrow>
    (sched_error + unit) \<times> scheduled_node" where
  "signal_sync_input input ts node =
     (case nd_policy node of
        Sync inputs _ \<Rightarrow>
          (if input \<notin> set inputs then (Inl SeSchedulerError, bump_signal_failed node)
           else if filled_at node input \<and> nd_sync_ops node \<noteq> None
           then (Inr (), refuse_offer input ts node)
           else (Inr (), node\<lparr>nd_sync_heads := (nd_sync_heads node)(input \<mapsto> filled_head ts)\<rparr>))
      | _ \<Rightarrow> (Inl SeSchedulerError, bump_signal_failed node))"

text \<open>
  The watchdogs of a node's ports are insertion-ordered maps; an arrival or a publish moves the anchor
  of a watched port and nothing else.
\<close>

definition move_anchor :: "string \<Rightarrow> u64 \<Rightarrow> (string \<times> watchdog) list \<Rightarrow> (string \<times> watchdog) list" where
  "move_anchor port ts ws =
     map (\<lambda>(x, t). (x, if x = port then t\<lparr>wd_last_event_ns := ts\<rparr> else t)) ws"

definition signal_input_received :: "string \<Rightarrow> u64 \<Rightarrow> scheduled_node \<Rightarrow> scheduled_node" where
  "signal_input_received input ts node =
     node\<lparr>nd_expect_within := move_anchor input ts (nd_expect_within node)\<rparr>"

definition signal_output_published :: "string \<Rightarrow> u64 \<Rightarrow> scheduled_node \<Rightarrow> scheduled_node" where
  "signal_output_published output now_ns node =
     node\<lparr>nd_promise_within := move_anchor output now_ns (nd_promise_within node)\<rparr>"

definition set_expect_within :: "string \<Rightarrow> u64 \<Rightarrow> u64 \<Rightarrow> bool \<Rightarrow> string option \<Rightarrow> scheduled_node \<Rightarrow>
    scheduled_node" where
  "set_expect_within input within_ms last_data_ns fifo_trigger sync_topic node =
     node\<lparr>nd_expect_within := AList.update input
         (new_watchdog within_ms last_data_ns fifo_trigger sync_topic) (nd_expect_within node)\<rparr>"

definition set_promise_within :: "string \<Rightarrow> u64 \<Rightarrow> u64 \<Rightarrow> scheduled_node \<Rightarrow> scheduled_node" where
  "set_promise_within output within_ms last_publish_ns node =
     node\<lparr>nd_promise_within := AList.update output
         (new_watchdog within_ms last_publish_ns False None) (nd_promise_within node)\<rparr>"

definition set_tick_within :: "u64 \<Rightarrow> scheduled_node \<Rightarrow> scheduled_node" where
  "set_tick_within within_ms node = node\<lparr>nd_tick_within_ns := Some (sat_mul within_ms 1000000)\<rparr>"

definition set_throttle_ns :: "u64 \<Rightarrow> scheduled_node \<Rightarrow> (sched_error + unit) \<times> scheduled_node" where
  "set_throttle_ns throttle_ns node =
     (if throttle_ns = 0 then (Inl SeGraphError, node)
      else (Inr (), node\<lparr>nd_throttle_ns := Some throttle_ns\<rparr>))"

definition register_qos_event_store :: "qos_store \<Rightarrow> scheduled_node \<Rightarrow> scheduled_node" where
  "register_qos_event_store store node = node\<lparr>nd_qos_events := Some store\<rparr>"

section \<open>The QoS windows of a step\<close>

text \<open>
  \<open>run_qos_windows\<close>: each watched input, then each watched output, in insertion order; the counters
  and the event store are the node's.
\<close>

definition count_expect :: "u64 \<Rightarrow> string \<Rightarrow> watchdog \<Rightarrow> window_verdict \<Rightarrow> scheduled_node \<Rightarrow>
    scheduled_node" where
  "count_expect now name t v node =
     (case v of
        Quiet \<Rightarrow> node
      | Backlogged _ \<Rightarrow> node\<lparr>nd_expect_backlogged := nd_expect_backlogged node + 1\<rparr>
      | Missed elapsed ev \<Rightarrow>
          (let c = nd_expect_missed node + 1
           in node\<lparr>nd_expect_missed := c,
                   nd_qos_events := (if ev
                     then map_option (push_expect (missed_event name t elapsed c now)) (nd_qos_events node)
                     else nd_qos_events node)\<rparr>))"

definition count_promise :: "u64 \<Rightarrow> string \<Rightarrow> watchdog \<Rightarrow> window_verdict \<Rightarrow> scheduled_node \<Rightarrow>
    scheduled_node" where
  "count_promise now name t v node =
     (case v of
        Missed elapsed ev \<Rightarrow>
          (let c = nd_promise_missed node + 1
           in node\<lparr>nd_promise_missed := c,
                   nd_qos_events := (if ev
                     then map_option (push_promise (missed_event name t elapsed c now)) (nd_qos_events node)
                     else nd_qos_events node)\<rparr>)
      | _ \<Rightarrow> node)"

fun window_loop :: "(watchdog \<Rightarrow> window_verdict \<times> watchdog) \<Rightarrow>
    (string \<Rightarrow> watchdog \<Rightarrow> window_verdict \<Rightarrow> scheduled_node \<Rightarrow> scheduled_node) \<Rightarrow>
    (string \<times> watchdog) list \<Rightarrow> scheduled_node \<Rightarrow> (string \<times> watchdog) list \<times> scheduled_node" where
  "window_loop check count [] node = ([], node)"
| "window_loop check count ((name, t) # ws) node =
     (let (v, t1) = check t; (ws1, n1) = window_loop check count ws (count name t v node)
      in ((name, t1) # ws1, n1))"

definition run_qos_windows :: "u64 \<Rightarrow> scheduled_node \<Rightarrow> scheduled_node" where
  "run_qos_windows now node =
     (let backlog = (0 < nd_pending_data_count node);
          (ins, n1) = window_loop (expect_window now backlog (filled_at node)) (count_expect now)
                        (nd_expect_within node) node;
          n2 = n1\<lparr>nd_expect_within := ins\<rparr>;
          (outs, n3) = window_loop (promise_window now) (count_promise now) (nd_promise_within n2) n2
      in n3\<lparr>nd_promise_within := outs\<rparr>)"

definition set_sync_ops :: "string list \<Rightarrow> scheduled_node \<Rightarrow> (sched_error + unit) \<times> scheduled_node" where
  "set_sync_ops inputs node =
     (case nd_policy node of
        Sync declared _ \<Rightarrow>
          (if declared \<noteq> inputs then (Inl SeSchedulerError, node)
           else (Inr (), node\<lparr>nd_sync_ops := Some inputs\<rparr>))
      | _ \<Rightarrow> (Inl SeSchedulerError, node))"

definition trigger_external :: "scheduled_node \<Rightarrow> (sched_error + unit) \<times> scheduled_node" where
  "trigger_external node =
     (case nd_policy node of
        External \<Rightarrow> (Inr (), node\<lparr>nd_external_triggered := True\<rparr>)
      | _ \<Rightarrow> (Inl SeSchedulerError, node))"

section \<open>When the node is next due\<close>

definition throttle_defers :: "u64 \<Rightarrow> u64 \<Rightarrow> u64 \<Rightarrow> u64 \<Rightarrow> bool" where
  "throttle_defers prior_fires now_ns last_fire_ns throttle_ns \<longleftrightarrow>
     0 < prior_fires \<and> sat_sub now_ns last_fire_ns < throttle_ns"

definition throttle_remaining_ns :: "u64 \<Rightarrow> scheduled_node \<Rightarrow> u64 option" where
  "throttle_remaining_ns now_ns node =
     (case nd_throttle_ns node of
        None \<Rightarrow> None
      | Some throttle_ns \<Rightarrow>
          (if \<not> throttle_defers (nd_fire_count node) now_ns (nd_last_fire_ns node) throttle_ns then None
           else Some (sat_sub (sat_add (nd_last_fire_ns node) throttle_ns) now_ns)))"

definition node_due_in :: "u64 \<Rightarrow> scheduled_node \<Rightarrow> u64 option" where
  "node_due_in now_ns n =
     (case (case nd_policy n of
              Period _ _ \<Rightarrow> map_option (\<lambda>nf. sat_sub nf now_ns) (nd_next_fire_ns n)
            | Data \<Rightarrow> if 0 < nd_pending_data_count n \<or> nd_data_backlog_hint n then Some 0 else None
            | Sync _ _ \<Rightarrow> if nd_sync_backlog_hint n then Some 0 else None
            | External \<Rightarrow> None) of
        None \<Rightarrow> None
      | Some due \<Rightarrow>
          (case throttle_remaining_ns now_ns n of
             Some remaining \<Rightarrow> Some (max due remaining) | None \<Rightarrow> Some due))"

definition ns_until_next_fire :: "u64 \<Rightarrow> scheduled_node list \<Rightarrow> u64 option" where
  "ns_until_next_fire now_ns nodes =
     (case List.map_filter (node_due_in now_ns) (filter (\<lambda>n. \<not> nd_disabled n) nodes) of
        [] \<Rightarrow> None
      | d # ds \<Rightarrow> Some (foldl min d ds))"

section \<open>Properties\<close>

lemma map_filter_set: "set (List.map_filter f xs) = {y. \<exists>x \<in> set xs. f x = Some y}"
  by (induction xs) (auto simp: List.map_filter_simps split: option.splits)

text \<open>
  The scheduler's idle wait is exact: \<open>ns_until_next_fire\<close> is the least time in which some
  enabled node is due (a pending or backlogged one at once, a throttled one no sooner than its
  throttle allows), and is \<open>None\<close> exactly when no enabled node is due at any time.
\<close>

theorem idle_wait_is_exact:
  "case ns_until_next_fire now nodes of
     None \<Rightarrow> (\<forall>n \<in> set nodes. nd_disabled n \<or> node_due_in now n = None)
   | Some d \<Rightarrow> (\<exists>n \<in> set nodes. \<not> nd_disabled n \<and> node_due_in now n = Some d) \<and>
       \<not> (\<exists>n \<in> set nodes. \<exists>e. \<not> nd_disabled n \<and> node_due_in now n = Some e \<and> e < d)"
proof -
  let ?ds = "List.map_filter (node_due_in now) (filter (\<lambda>n. \<not> nd_disabled n) nodes)"
  have ds: "set ?ds = {d. \<exists>n \<in> set nodes. \<not> nd_disabled n \<and> node_due_in now n = Some d}"
    by (auto simp: map_filter_set)
  show ?thesis
  proof (cases ?ds)
    case Nil
    then have none: "\<not> (\<exists>d. \<exists>n \<in> set nodes. \<not> nd_disabled n \<and> node_due_in now n = Some d)"
      using ds by auto
    have "ns_until_next_fire now nodes = None" by (simp add: ns_until_next_fire_def Nil)
    with none show ?thesis by auto
  next
    case (Cons d0 rest)
    let ?m = "foldl min d0 rest"
    have "ns_until_next_fire now nodes = Some ?m" by (simp add: ns_until_next_fire_def Cons)
    moreover have "?m \<in> set ?ds" unfolding Cons using foldl_min_mem [of d0 rest] by simp
    moreover have "?m \<le> e" if "e \<in> set ?ds" for e
      using that foldl_min_le [of d0 rest] foldl_min_lower [of e rest d0] unfolding Cons by auto
    ultimately show ?thesis unfolding ds by (auto dest: leD)
  qed
qed

theorem idle_wait_is_exact_witness:
  "\<exists>d. ns_until_next_fire 4 [new_node ''d'' Data 0, new_node ''p'' (Period 10 None) 0] = Some d \<and>
     node_due_in 4 (new_node ''p'' (Period 10 None) 0) = Some d"
proof -
  let ?d = "new_node ''d'' Data 0" and ?p = "new_node ''p'' (Period 10 None) 0"
  have due: "node_due_in 4 ?d = None" "\<exists>d. node_due_in 4 ?p = Some d" "\<not> nd_disabled ?p"
    by (simp_all add: node_due_in_def new_node_def throttle_remaining_ns_def)
  from idle_wait_is_exact [of "[?d, ?p]" 4] due show ?thesis
    by (cases "ns_until_next_fire 4 [?d, ?p]") auto
qed

text \<open>
  A reset revives a node without a burst: it is enabled with a clean panic count, and a periodic
  node's missed intervals are skipped, its next deadline being later than now and on its old grid.
\<close>

theorem reset_skips_missed_intervals:
  assumes "nd_policy n = Period interval max_catchup" and "nd_next_fire_ns n = Some nf"
    and "duration_ns interval \<noteq> 0" and "unat now + unat (duration_ns interval) < 2 ^ 64"
  shows "\<not> nd_disabled (reset_node now n) \<and> nd_consecutive_panics (reset_node now n) = 0 \<and>
    (\<exists>nf' k. nd_next_fire_ns (reset_node now n) = Some nf' \<and> now < nf' \<and>
       unat nf' = unat nf + k * unat (duration_ns interval))"
proof -
  let ?adv = "period_advance nf now (duration_ns interval) 0"
  have r: "nd_next_fire_ns (reset_node now n) = Some (adv_next_fire_ns ?adv)"
    "\<not> nd_disabled (reset_node now n)" "nd_consecutive_panics (reset_node now n) = 0"
    using assms(1,2) by (simp_all add: reset_node_def Let_def)
  have nf': "now < adv_next_fire_ns ?adv \<and>
      (\<exists>k. unat (adv_next_fire_ns ?adv) = unat nf + k * unat (duration_ns interval))"
  proof (cases "now < nf")
    case True
    then show ?thesis by (simp add: period_advance_not_due exI [of _ 0])
  next
    case False
    then have le: "nf \<le> now" by simp
    then have "unat (adv_next_fire_ns ?adv) = unat nf + due_intervals nf now (duration_ns interval) * unat (duration_ns interval)"
      using unat_next_fire [OF assms(3) le, of 0] due_no_wrap [OF assms(4) le] by linarith
    with due_intervals_reach [OF assms(3) le] show ?thesis by (auto simp: word_less_nat_alt)
  qed
  with r show ?thesis by auto
qed

theorem reset_skips_missed_intervals_witness:
  "\<exists>nf'. nd_next_fire_ns (reset_node 35 (new_node ''p'' (Period 10 None) 0)) = Some nf' \<and> 35 < nf'"
proof -
  have d: "duration_ns 10 = 10" "sat_add 0 10 = (10 :: u64)" by (simp_all add: duration_ns_def sat_add_def)
  then have "nd_policy (new_node ''p'' (Period 10 None) 0) = Period 10 None"
    "nd_next_fire_ns (new_node ''p'' (Period 10 None) 0) = Some 10"
    "duration_ns 10 \<noteq> 0" "unat (35 :: u64) + unat (duration_ns 10) < 2 ^ 64"
    by (simp_all add: new_node_def)
  from reset_skips_missed_intervals [OF this] show ?thesis by blast
qed

end
