(* ===== verification/SyncAlign.thy ===== *)
theory SyncAlign
  imports SchedNode
begin

text \<open>
  The align driver of a per-set Sync node (\<open>align_sync_heads\<close> and below in \<open>scheduler/mod.rs\<close>): it
  fills the heads from the transport, runs the matcher and performs the operation each verdict asks
  for until a set is aligned or no set can be.

  The transport is a parameter: one function \<open>op\<close> from an input's name and an operation to an answer,
  on a state \<open>'w\<close>. Nothing is assumed of it; what \<open>SyncTransport\<close> proves of a subscriber
  is what an instance of \<open>op\<close> answers.

  The verdict loop runs at most \<open>op_budget\<close> turns, as the code's counter has it, so the model is
  structural in what is left of the budget.
\<close>

type_synonym 'w sync_op_fn = "string \<Rightarrow> sync_head_op \<Rightarrow> 'w \<Rightarrow> sync_op_answer \<times> 'w"

section \<open>Heads and epochs\<close>

datatype head_fill = HfFilled | HfEpochReset | HfStaleEpoch

definition regressed :: "scheduled_node \<Rightarrow> string \<Rightarrow> u64 \<Rightarrow> u64 option \<Rightarrow> bool" where
  "regressed node input ts window_ns =
     (case (nd_high_water node input, window_ns) of
        (Some hw, Some w) \<Rightarrow> sat_add ts w < hw
      | _ \<Rightarrow> False)"

definition stale_epoch :: "scheduled_node \<Rightarrow> string \<Rightarrow> u64 \<Rightarrow> u64 option \<Rightarrow> bool" where
  "stale_epoch node input ts window_ns =
     (nd_high_water node input = None \<and>
      (case (nd_epoch_floor node, window_ns) of
         (Some fl, Some w) \<Rightarrow> ts > sat_add fl w
       | _ \<Rightarrow> False))"

definition set_sync_head :: "string \<Rightarrow> u64 \<Rightarrow> u64 option \<Rightarrow> scheduled_node \<Rightarrow> head_fill \<times> scheduled_node" where
  "set_sync_head input ts window_ns node =
     (let reg = regressed node input ts window_ns
      in if \<not> reg \<and> stale_epoch node input ts window_ns then (HfStaleEpoch, node)
         else
           (if reg then HfEpochReset else HfFilled,
            node\<lparr>nd_epoch_floor := map_option (\<lambda>fl. if reg then ts else max fl ts) (nd_epoch_floor node),
                 nd_high_water := (nd_high_water node)(input \<mapsto>
                   (case nd_high_water node input of
                      Some hw \<Rightarrow> if reg then ts else max hw ts
                    | None \<Rightarrow> ts)),
                 nd_sync_heads := (nd_sync_heads node)(input \<mapsto> filled_head ts)\<rparr>))"

definition mark_head_spent :: "string \<Rightarrow> scheduled_node \<Rightarrow> scheduled_node" where
  "mark_head_spent input node =
     (case nd_sync_heads node input of
        Some h \<Rightarrow> node\<lparr>nd_sync_heads := (nd_sync_heads node)(input \<mapsto> h\<lparr>head_st := Emitted\<rparr>)\<rparr>
      | None \<Rightarrow> node)"

definition count_epoch_discard :: "string \<Rightarrow> scheduled_node \<Rightarrow> scheduled_node" where
  "count_epoch_discard input node =
     node\<lparr>nd_sync_counters := (nd_sync_counters node)
       \<lparr>sc_epoch_reset_discards := bump (sc_epoch_reset_discards (nd_sync_counters node)) input 1\<rparr>\<rparr>"

definition discard_stale_epoch_head :: "'w sync_op_fn \<Rightarrow> string \<Rightarrow> scheduled_node \<Rightarrow> 'w \<Rightarrow>
    scheduled_node \<times> 'w" where
  "discard_stale_epoch_head op input node w =
     (mark_head_spent input (count_epoch_discard input node), snd (op input Void w))"

fun epoch_discards :: "'w sync_op_fn \<Rightarrow> string \<Rightarrow> string list \<Rightarrow> scheduled_node \<Rightarrow> 'w \<Rightarrow>
    scheduled_node \<times> 'w" where
  "epoch_discards op trigger [] node w = (node, w)"
| "epoch_discards op trigger (x # xs) node w =
     (if x = trigger \<or> \<not> filled_at node x then epoch_discards op trigger xs node w
      else let (n1, w1) = discard_stale_epoch_head op x node w
           in epoch_discards op trigger xs n1 w1)"

definition apply_sync_epoch_reset :: "'w sync_op_fn \<Rightarrow> string list \<Rightarrow> string \<Rightarrow> u64 \<Rightarrow> scheduled_node \<Rightarrow> 'w \<Rightarrow>
    scheduled_node \<times> 'w" where
  "apply_sync_epoch_reset op inputs trigger new_ts node w =
     (let (n1, w1) = epoch_discards op trigger inputs node w
      in (n1\<lparr>nd_high_water := (\<lambda>x. if x \<in> set inputs \<and> x \<noteq> trigger then None else nd_high_water n1 x),
            nd_epoch_floor := Some new_ts,
            nd_epoch_latch := snd (latch_on_failure (nd_epoch_latch n1))\<rparr>, w1))"

text \<open>
  What the driver does with a popped head's stamp; the flag says that the pass ends here, the node
  having re-based onto a new epoch.
\<close>

definition take_head :: "'w sync_op_fn \<Rightarrow> string list \<Rightarrow> u64 option \<Rightarrow> string \<Rightarrow> u64 \<Rightarrow> scheduled_node \<Rightarrow> 'w \<Rightarrow>
    bool \<times> scheduled_node \<times> 'w" where
  "take_head op inputs window_ns input ts node w =
     (case set_sync_head input ts window_ns node of
        (HfFilled, n1) \<Rightarrow> (False, n1, w)
      | (HfStaleEpoch, n1) \<Rightarrow> (False, discard_stale_epoch_head op input n1 w)
      | (HfEpochReset, n1) \<Rightarrow> (True, apply_sync_epoch_reset op inputs input ts n1 w))"

section \<open>Reports\<close>

definition report_sync_op_failure :: "scheduled_node \<Rightarrow> scheduled_node" where
  "report_sync_op_failure node =
     node\<lparr>nd_op_failed_this_pass := True,
          nd_op_failure_latch := snd (latch_on_failure (nd_op_failure_latch node))\<rparr>"

definition report_sync_unmatched :: "string \<Rightarrow> scheduled_node \<Rightarrow> scheduled_node" where
  "report_sync_unmatched input node =
     node\<lparr>nd_sync_counters := (nd_sync_counters node)
            \<lparr>sc_unmatched_discards := bump (sc_unmatched_discards (nd_sync_counters node)) input 1\<rparr>,
          nd_unmatched_latches := (nd_unmatched_latches node)(input \<mapsto>
            snd (latch_on_failure (case nd_unmatched_latches node input of Some l \<Rightarrow> l | None \<Rightarrow> latch_new)))\<rparr>"

definition count_closer_skip :: "string \<Rightarrow> scheduled_node \<Rightarrow> scheduled_node" where
  "count_closer_skip input node =
     node\<lparr>nd_sync_counters := (nd_sync_counters node)
       \<lparr>sc_closer_skips := bump (sc_closer_skips (nd_sync_counters node)) input 1\<rparr>\<rparr>"

section \<open>The fill pass\<close>

fun fill_pass :: "'w sync_op_fn \<Rightarrow> string list \<Rightarrow> u64 option \<Rightarrow> sync_head_op \<Rightarrow> string list \<Rightarrow>
    scheduled_node \<Rightarrow> 'w \<Rightarrow> bool \<times> scheduled_node \<times> 'w" where
  "fill_pass op inputs window_ns fill_op [] node w = (False, node, w)"
| "fill_pass op inputs window_ns fill_op (x # xs) node w =
     (if filled_at node x then fill_pass op inputs window_ns fill_op xs node w
      else
        let (ans, w1) = op x fill_op w
        in case ans of
             AnsHead ts \<Rightarrow>
               (case take_head op inputs window_ns x ts node w1 of
                  (True, n2, w2) \<Rightarrow> (True, n2, w2)
                | (False, n2, w2) \<Rightarrow> fill_pass op inputs window_ns fill_op xs n2 w2)
           | AnsNothing \<Rightarrow>
               fill_pass op inputs window_ns fill_op xs (mark_head_spent x node) w1
           | _ \<Rightarrow> (True, mark_head_spent x (report_sync_op_failure node), w1))"

section \<open>The verdict loop\<close>

record align_state =
  al_next :: "next_info list"
  al_advances :: "nat list"

text \<open>A turn ends the pass with an outcome, or the loop goes on.\<close>

datatype 'w align_turn =
    Ends align_outcome scheduled_node 'w
  | Continues align_state scheduled_node 'w

definition heads_of :: "scheduled_node \<Rightarrow> string list \<Rightarrow> sync_head option list" where
  "heads_of node inputs = map (nd_sync_heads node) inputs"

fun void_unbacked :: "'w sync_op_fn \<Rightarrow> string list \<Rightarrow> sync_head option list \<Rightarrow> scheduled_node \<Rightarrow> 'w \<Rightarrow>
    scheduled_node \<times> 'w" where
  "void_unbacked op (x # xs) (h # hs) node w =
     (if (case h of Some x0 \<Rightarrow> is_unbacked x0 | None \<Rightarrow> False)
      then let (ans, w1) = op x Void w
           in void_unbacked op xs hs (if ans = AnsFailed then report_sync_op_failure node else node) w1
      else void_unbacked op xs hs node w)"
| "void_unbacked op _ _ node w = (node, w)"

definition turn_need_next :: "'w sync_op_fn \<Rightarrow> string list \<Rightarrow> nat \<Rightarrow> probe_site \<Rightarrow> align_state \<Rightarrow>
    scheduled_node \<Rightarrow> 'w \<Rightarrow> 'w align_turn" where
  "turn_need_next op inputs i site st node w =
     (let (ans, w1) = op (inputs ! i) ProbeNext w
      in case ans of
           AnsPresent \<Rightarrow> Continues (st\<lparr>al_next := (al_next st)[i := NxPresent]\<rparr>) node w1
         | AnsNothing \<Rightarrow> Continues (st\<lparr>al_next := (al_next st)[i := NxNone]\<rparr>) node w1
         | _ \<Rightarrow> Continues
                 (st\<lparr>al_next := (al_next st)[i := (case site of Argmin \<Rightarrow> NxNone | Gate \<Rightarrow> NxPresent)]\<rparr>)
                 (report_sync_op_failure node) w1)"

definition turn_need_stamp :: "'w sync_op_fn \<Rightarrow> string list \<Rightarrow> sync_align_site \<Rightarrow> nat \<Rightarrow> align_state \<Rightarrow>
    scheduled_node \<Rightarrow> 'w \<Rightarrow> 'w align_turn" where
  "turn_need_stamp op inputs site i st node w =
     (let (ans, w1) = op (inputs ! i) (PeekNext site) w
      in case ans of
           AnsStamp ts \<Rightarrow> Continues (st\<lparr>al_next := (al_next st)[i := NxStamp ts]\<rparr>) node w1
         | AnsNothing \<Rightarrow> Continues (st\<lparr>al_next := (al_next st)[i := NxNone]\<rparr>) node w1
         | _ \<Rightarrow> Ends Complete (report_sync_op_failure node) w1)"

text \<open>Both discarding verdicts install what the advance produced and forget what was known.\<close>

definition after_advance :: "'w sync_op_fn \<Rightarrow> string list \<Rightarrow> u64 option \<Rightarrow> nat \<Rightarrow> u64 option \<Rightarrow> align_state \<Rightarrow>
    scheduled_node \<Rightarrow> 'w \<Rightarrow> 'w align_turn" where
  "after_advance op inputs window_ns i new st node w =
     (case new of
        Some ts \<Rightarrow>
          (case take_head op inputs window_ns (inputs ! i) ts node w of
             (True, n1, w1) \<Rightarrow> Ends Incomplete n1 w1
           | (False, n1, w1) \<Rightarrow> Continues (st\<lparr>al_next := (al_next st)[i := NxUnknown]\<rparr>) n1 w1)
      | None \<Rightarrow> Continues (st\<lparr>al_next := (al_next st)[i := NxUnknown]\<rparr>) (mark_head_spent (inputs ! i) node) w)"

definition turn_advance :: "'w sync_op_fn \<Rightarrow> string list \<Rightarrow> u64 option \<Rightarrow> sync_align_site \<Rightarrow> nat \<Rightarrow> align_state \<Rightarrow>
    scheduled_node \<Rightarrow> 'w \<Rightarrow> 'w align_turn" where
  "turn_advance op inputs window_ns site i st node w =
     (if al_advances st ! i \<ge> unat DATA_PENDING_CARRY_CLAMP then Ends Complete node w
      else
        let (ans, w1) = op (inputs ! i) (sync_head_op.Advance site) w;
            st1 = st\<lparr>al_advances := (al_advances st)[i := al_advances st ! i + 1]\<rparr>;
            n1 = count_closer_skip (inputs ! i) node
        in case ans of
             AnsHead ts \<Rightarrow> after_advance op inputs window_ns i (Some ts) st1 n1 w1
           | AnsNothing \<Rightarrow> after_advance op inputs window_ns i None st1 n1 w1
           | _ \<Rightarrow> Ends Complete (report_sync_op_failure node) w1)"

fun turn_discard :: "'w sync_op_fn \<Rightarrow> string list \<Rightarrow> u64 option \<Rightarrow> sync_align_site \<Rightarrow> nat list \<Rightarrow> align_state \<Rightarrow>
    scheduled_node \<Rightarrow> 'w \<Rightarrow> 'w align_turn" where
  "turn_discard op inputs window_ns site [] st node w = Continues st node w"
| "turn_discard op inputs window_ns site (i # is) st node w =
     (let (ans, w1) = op (inputs ! i) (sync_head_op.Advance site) w;
          n1 = report_sync_unmatched (inputs ! i) node
      in case (case ans of
                 AnsHead ts \<Rightarrow> after_advance op inputs window_ns i (Some ts) st n1 w1
               | AnsNothing \<Rightarrow> after_advance op inputs window_ns i None st n1 w1
               | _ \<Rightarrow> Ends Incomplete (report_sync_op_failure node) w1) of
           Ends oc n2 w2 \<Rightarrow> Ends oc n2 w2
         | Continues st2 n2 w2 \<Rightarrow> turn_discard op inputs window_ns site is st2 n2 w2)"

definition align_turn :: "'w sync_op_fn \<Rightarrow> string list \<Rightarrow> duration option \<Rightarrow> sync_align_site \<Rightarrow> align_state \<Rightarrow>
    scheduled_node \<Rightarrow> 'w \<Rightarrow> 'w align_turn" where
  "align_turn op inputs window site st node w =
     (let heads = heads_of node inputs; window_ns = map_option duration_ns window
      in case next_sync_step heads (al_next st) window of
           Wait \<Rightarrow> Ends Incomplete node w
         | Fire \<Rightarrow> (case void_unbacked op inputs heads node w of (n1, w1) \<Rightarrow> Ends Complete n1 w1)
         | NeedNext i probe_site \<Rightarrow> turn_need_next op inputs i probe_site st node w
         | NeedStamp i \<Rightarrow> turn_need_stamp op inputs site i st node w
         | sync_step.Advance i \<Rightarrow> turn_advance op inputs window_ns site i st node w
         | DiscardTie is \<Rightarrow> turn_discard op inputs window_ns site is st node w)"

fun align_loop :: "nat \<Rightarrow> 'w sync_op_fn \<Rightarrow> string list \<Rightarrow> duration option \<Rightarrow> sync_align_site \<Rightarrow> align_state \<Rightarrow>
    scheduled_node \<Rightarrow> 'w \<Rightarrow> align_outcome \<times> scheduled_node \<times> 'w" where
  "align_loop 0 op inputs window site st node w = (Incomplete, node, w)"
| "align_loop (Suc budget) op inputs window site st node w =
     (case align_turn op inputs window site st node w of
        Ends oc n1 w1 \<Rightarrow> (oc, n1, w1)
      | Continues st1 n1 w1 \<Rightarrow> align_loop budget op inputs window site st1 n1 w1)"

section \<open>The pass\<close>

definition op_budget :: "nat \<Rightarrow> nat" where
  "op_budget n = usize_add (usize_mul (usize_mul n (unat DATA_PENDING_CARRY_CLAMP)) 6) 16"

definition fresh_state :: "nat \<Rightarrow> align_state" where
  "fresh_state n = \<lparr>al_next = replicate n NxUnknown, al_advances = replicate n 0\<rparr>"

definition align_sync_pass :: "'w sync_op_fn \<Rightarrow> string list \<Rightarrow> duration option \<Rightarrow> sync_align_site \<Rightarrow>
    scheduled_node \<Rightarrow> 'w \<Rightarrow> align_outcome \<times> scheduled_node \<times> 'w" where
  "align_sync_pass op inputs window site node w =
     (let n = length inputs; window_ns = map_option duration_ns window;
          fill_op = (case site of Boundary \<Rightarrow> FillBoundary | Refill \<Rightarrow> FillRefill)
      in case fill_pass op inputs window_ns fill_op inputs (node\<lparr>nd_op_failed_this_pass := False\<rparr>) w of
           (True, n1, w1) \<Rightarrow> (Incomplete, n1, w1)
         | (False, n1, w1) \<Rightarrow> align_loop (op_budget n) op inputs window site (fresh_state n) n1 w1)"

definition set_backlog :: "bool \<Rightarrow> scheduled_node \<Rightarrow> scheduled_node" where
  "set_backlog b node =
     node\<lparr>nd_sync_backlog_hint := b,
          nd_sync_counters := (nd_sync_counters node)\<lparr>sc_backlog_pending := b\<rparr>\<rparr>"

definition align_node_sync_heads :: "'w sync_op_fn \<Rightarrow> sync_align_site \<Rightarrow> scheduled_node \<Rightarrow> 'w \<Rightarrow>
    align_outcome \<times> scheduled_node \<times> 'w" where
  "align_node_sync_heads op site node w =
     (case (nd_policy node, nd_sync_ops node) of
        (Sync _ window, Some inputs) \<Rightarrow>
          (let (oc, n1, w1) = align_sync_pass op inputs window site node w;
               n2 = (if site = Boundary \<and> oc = Complete then set_backlog True n1 else n1);
               n3 = (if nd_op_failed_this_pass n2 then n2
                     else n2\<lparr>nd_op_failure_latch := snd (latch_on_success (nd_op_failure_latch n2))\<rparr>)
           in (oc, n3, w1))
      | _ \<Rightarrow> (Incomplete, node, w))"

text \<open>The heads of a fired set are spent, and the regimes of their inputs close.\<close>

definition mark_sync_heads_emitted :: "scheduled_node \<Rightarrow> scheduled_node" where
  "mark_sync_heads_emitted node =
     node\<lparr>nd_sync_heads := (\<lambda>x. map_option (\<lambda>h. if is_filled h then h\<lparr>head_st := Emitted\<rparr> else h)
            (nd_sync_heads node x)),
          nd_unmatched_latches := (\<lambda>x. if filled_at node x
            then map_option (\<lambda>l. snd (latch_on_success l)) (nd_unmatched_latches node x)
            else nd_unmatched_latches node x)\<rparr>"

section \<open>What an outcome means\<close>

lemma report_failure_heads [simp]:
  "nd_sync_heads (report_sync_op_failure node) = nd_sync_heads node"
  "nd_policy (report_sync_op_failure node) = nd_policy node"
  "nd_sync_ops (report_sync_op_failure node) = nd_sync_ops node"
  by (simp_all add: report_sync_op_failure_def)

lemma void_unbacked_heads:
  "void_unbacked op xs hs node w = (n1, w1) \<Longrightarrow> nd_sync_heads n1 = nd_sync_heads node"
  by (induction op xs hs node w arbitrary: n1 w1 rule: void_unbacked.induct)
    (auto split: if_splits prod.splits)

lemma turn_complete:
  assumes "align_turn op inputs window site st node w = Ends Complete n1 w1"
  shows "nd_sync_heads n1 = nd_sync_heads node \<and> complete_set (heads_of node inputs) window"
proof -
  let ?heads = "heads_of node inputs"
  let ?v = "next_sync_step ?heads (al_next st) window"
  have discard: "turn_discard op inputs wn site js st node w \<noteq> Ends Complete n1 w1" for js wn st node w n1 w1
  proof (induction js arbitrary: st node w n1 w1)
    case (Cons j js)
    then show ?case
      by (auto simp: after_advance_def Let_def split: prod.splits option.splits bool.splits
          sync_op_answer.splits align_turn.splits)
  qed simp
  show ?thesis
  proof (cases ?v)
    case Wait
    with assms show ?thesis by (simp add: align_turn_def Let_def)
  next
    case Fire
    with assms void_unbacked_heads step_fire [OF Fire] show ?thesis
      by (auto simp: align_turn_def Let_def split: prod.splits)
  next
    case (DiscardTie js)
    with assms discard show ?thesis by (simp add: align_turn_def Let_def)
  next
    case (NeedNext i s)
    with assms show ?thesis
      by (auto simp: align_turn_def turn_need_next_def Let_def split: prod.splits sync_op_answer.splits)
  next
    case (NeedStamp i)
    from step_descends [OF NeedStamp] have "complete_set ?heads window"
      by (auto simp: descent_site_def)
    moreover have "nd_sync_heads n1 = nd_sync_heads node"
      using assms NeedStamp
      by (auto simp: align_turn_def turn_need_stamp_def Let_def split: prod.splits sync_op_answer.splits)
    ultimately show ?thesis by simp
  next
    case (Advance i)
    from step_descends [OF Advance] have "complete_set ?heads window"
      by (auto simp: descent_site_def)
    moreover have "nd_sync_heads n1 = nd_sync_heads node"
      using assms Advance
      by (auto simp: align_turn_def turn_advance_def after_advance_def Let_def
          split: prod.splits sync_op_answer.splits bool.splits if_splits)
    ultimately show ?thesis by simp
  qed
qed

lemma loop_complete:
  "align_loop b op inputs window site st node w = (Complete, n1, w1) \<Longrightarrow>
   complete_set (heads_of n1 inputs) window"
proof (induction b op inputs window site st node w rule: align_loop.induct)
  case (2 budget op inputs window site st node w)
  show ?case
  proof (cases "align_turn op inputs window site st node w")
    case (Ends oc n2 w2)
    with "2.prems" turn_complete show ?thesis by (fastforce simp: heads_of_def)
  next
    case (Continues st2 n2 w2)
    from "2.IH" [OF Continues] "2.prems" Continues show ?thesis by simp
  qed
qed simp

lemma pass_complete:
  "align_sync_pass op inputs window site node w = (Complete, n1, w1) \<Longrightarrow>
   complete_set (heads_of n1 inputs) window"
  by (auto simp: align_sync_pass_def Let_def dest: loop_complete split: prod.splits bool.splits)

section \<open>What the driver leaves alone\<close>

text \<open>Everything about the node but its Sync heads, counters, latches and hint.\<close>

definition core :: "scheduled_node \<Rightarrow> string \<times> trigger_policy \<times> u64 option \<times> u64 \<times> string list option \<times>
    bool \<times> u64 \<times> u64 \<times> u32 \<times> bool \<times> bool \<times> bool" where
  "core n = (nd_id n, nd_policy n, nd_next_fire_ns n, nd_pending_data_count n, nd_sync_ops n,
     nd_data_backlog_hint n, nd_fire_count n, nd_last_fire_ns n, nd_consecutive_panics n,
     nd_disabled n, nd_external_triggered n, nd_fatal_stop n)"

lemma core_eqs:
  assumes "core n' = core n"
  shows "nd_disabled n' = nd_disabled n" "nd_consecutive_panics n' = nd_consecutive_panics n"
    "nd_policy n' = nd_policy n" "nd_sync_ops n' = nd_sync_ops n"
    "nd_pending_data_count n' = nd_pending_data_count n" "nd_next_fire_ns n' = nd_next_fire_ns n"
    "nd_fire_count n' = nd_fire_count n" "nd_fatal_stop n' = nd_fatal_stop n"
  using assms by (simp_all add: core_def)

named_theorems core_kept

lemma core_simple [core_kept]:
  "core (mark_head_spent x n) = core n"
  "core (count_epoch_discard x n) = core n"
  "core (report_sync_op_failure n) = core n"
  "core (report_sync_unmatched x n) = core n"
  "core (count_closer_skip x n) = core n"
  "core (set_backlog b n) = core n"
  "core (mark_sync_heads_emitted n) = core n"
  "core (n\<lparr>nd_op_failed_this_pass := c\<rparr>) = core n"
  "core (n\<lparr>nd_op_failure_latch := l\<rparr>) = core n"
  "core (n\<lparr>nd_high_water := h, nd_epoch_floor := f, nd_epoch_latch := l\<rparr>) = core n"
  by (simp_all add: core_def mark_head_spent_def count_epoch_discard_def report_sync_op_failure_def
      report_sync_unmatched_def count_closer_skip_def set_backlog_def mark_sync_heads_emitted_def
      split: option.splits)

lemma core_set_head: "set_sync_head x ts wn n = (hf, n1) \<Longrightarrow> core n1 = core n"
  by (auto simp: set_sync_head_def core_def Let_def split: if_splits)

lemma core_discard_stale: "discard_stale_epoch_head op x n w = (n1, w1) \<Longrightarrow> core n1 = core n"
  by (auto simp: discard_stale_epoch_head_def core_kept)

lemma core_epoch_discards: "epoch_discards op tr xs n w = (n1, w1) \<Longrightarrow> core n1 = core n"
  by (induction op tr xs n w arbitrary: n1 w1 rule: epoch_discards.induct)
    (auto split: if_splits prod.splits dest: core_discard_stale)

lemma core_epoch_reset: "apply_sync_epoch_reset op xs tr ts n w = (n1, w1) \<Longrightarrow> core n1 = core n"
  by (auto simp: apply_sync_epoch_reset_def core_kept split: prod.splits dest: core_epoch_discards)

lemma core_take_head: "take_head op xs wn x ts n w = (b, n1, w1) \<Longrightarrow> core n1 = core n"
  by (auto simp: take_head_def split: prod.splits head_fill.splits
      dest!: core_set_head core_discard_stale core_epoch_reset)

lemma core_fill: "fill_pass op ins wn fo xs n w = (b, n1, w1) \<Longrightarrow> core n1 = core n"
proof (induction op ins wn fo xs n w arbitrary: b n1 w1 rule: fill_pass.induct)
  case (2 op inputs wn fo x xs node w)
  show ?case
  proof (cases "filled_at node x")
    case True
    with "2.IH"(1) "2.prems" show ?thesis by simp
  next
    case False
    obtain ans v where o: "op x fo w = (ans, v)" by (metis prod.collapse)
    show ?thesis
    proof (cases ans)
      case (AnsHead ts)
      obtain c n2 w2 where t: "take_head op inputs wn x ts node v = (c, n2, w2)" by (metis prod.collapse)
      show ?thesis
      proof (cases c)
        case True
        with "2.prems" False o AnsHead t core_take_head [OF t] show ?thesis by simp
      next
        case go: False
        with t have t': "take_head op inputs wn x ts node v = (False, n2, w2)" by simp
        have "fill_pass op inputs wn fo xs n2 w2 = (b, n1, w1)"
          using "2.prems" False o AnsHead t' by simp
        with "2.IH"(2) [OF False o [symmetric] refl AnsHead t' [symmetric] refl refl] core_take_head [OF t]
        show ?thesis by simp
      qed
    next
      case AnsNothing
      with "2.prems" False o have "fill_pass op inputs wn fo xs (mark_head_spent x node) v = (b, n1, w1)"
        by simp
      with "2.IH"(3) [OF False o [symmetric] refl AnsNothing] show ?thesis by (simp add: core_kept)
    qed (use "2.prems" False o in \<open>auto simp: core_kept\<close>)
  qed
qed simp

lemma core_void: "void_unbacked op xs hs n w = (n1, w1) \<Longrightarrow> core n1 = core n"
  by (induction op xs hs n w arbitrary: n1 w1 rule: void_unbacked.induct)
    (auto split: if_splits prod.splits simp: core_kept)

fun turn_node :: "'w align_turn \<Rightarrow> scheduled_node" where
  "turn_node (Ends oc n w) = n"
| "turn_node (Continues st n w) = n"

lemma core_after_advance: "core (turn_node (after_advance op xs wn i new st n w)) = core n"
  by (auto simp: after_advance_def core_kept split: option.splits prod.splits bool.splits
      dest!: core_take_head)

lemma core_turn_discard: "core (turn_node (turn_discard op xs wn site js st n w)) = core n"
proof (induction js arbitrary: st n w)
  case (Cons j js)
  show ?case
    by (auto simp: Let_def core_kept Cons split: prod.splits sync_op_answer.splits align_turn.splits)
      (metis core_after_advance core_simple(4) turn_node.simps)+
qed simp

lemma core_turn: "core (turn_node (align_turn op xs win site st n w)) = core n"
  by (auto simp: align_turn_def Let_def turn_need_next_def turn_need_stamp_def turn_advance_def core_kept
      core_turn_discard core_after_advance
      split: sync_step.splits prod.splits sync_op_answer.splits dest!: core_void)

lemma core_loop: "align_loop b op xs win site st n w = (oc, n1, w1) \<Longrightarrow> core n1 = core n"
proof (induction b op xs win site st n w rule: align_loop.induct)
  case (2 b op xs win site st n w)
  then show ?case
    using core_turn [of op xs win site st n w]
    by (auto split: align_turn.splits)
qed simp

lemma core_align: "align_node_sync_heads op site n w = (oc, n1, w1) \<Longrightarrow> core n1 = core n"
  by (auto simp: align_node_sync_heads_def align_sync_pass_def Let_def core_kept
      split: trigger_policy.splits option.splits prod.splits bool.splits if_splits
      dest!: core_fill core_loop)

section \<open>Epoch resets\<close>

lemma filled_at_spent: "filled_at (mark_head_spent x n) y \<longleftrightarrow> y \<noteq> x \<and> filled_at n y"
  by (auto simp: filled_at_def mark_head_spent_def is_filled_def split: option.splits)

lemma discard_stale_facts:
  assumes "discard_stale_epoch_head op x n w = (n1, w1)"
  shows "filled_at n1 y \<longleftrightarrow> y \<noteq> x \<and> filled_at n y" "nd_high_water n1 = nd_high_water n"
    "nd_epoch_floor n1 = nd_epoch_floor n"
    "sc_epoch_reset_discards (nd_sync_counters n1) y =
       sc_epoch_reset_discards (nd_sync_counters n) y + (if y = x then 1 else 0)"
proof -
  have n1: "n1 = mark_head_spent x (count_epoch_discard x n)"
    using assms by (simp add: discard_stale_epoch_head_def)
  have c: "filled_at (count_epoch_discard x n) y = filled_at n y"
    by (simp add: filled_at_def count_epoch_discard_def)
  show "filled_at n1 y \<longleftrightarrow> y \<noteq> x \<and> filled_at n y"
    unfolding n1 by (simp add: filled_at_spent c)
  show "nd_high_water n1 = nd_high_water n" "nd_epoch_floor n1 = nd_epoch_floor n"
    "sc_epoch_reset_discards (nd_sync_counters n1) y =
       sc_epoch_reset_discards (nd_sync_counters n) y + (if y = x then 1 else 0)"
    unfolding n1
    by (simp_all add: mark_head_spent_def count_epoch_discard_def bump_def split: option.splits)
qed

lemma epoch_discards_facts:
  "epoch_discards op tr xs n w = (n1, w1) \<Longrightarrow> distinct xs \<Longrightarrow>
   (filled_at n1 y \<longleftrightarrow> filled_at n y \<and> (y \<notin> set xs \<or> y = tr)) \<and> nd_high_water n1 = nd_high_water n \<and>
   sc_epoch_reset_discards (nd_sync_counters n1) y =
     sc_epoch_reset_discards (nd_sync_counters n) y +
       (if y \<in> set xs \<and> y \<noteq> tr \<and> filled_at n y then 1 else 0)"
proof (induction op tr xs n w arbitrary: n1 w1 rule: epoch_discards.induct)
  case (2 op tr x xs n w)
  show ?case
  proof (cases "x = tr \<or> \<not> filled_at n x")
    case True
    with 2 show ?thesis by auto
  next
    case False
    obtain n2 w2 where d: "discard_stale_epoch_head op x n w = (n2, w2)" by (metis prod.collapse)
    with "2.prems" False have "epoch_discards op tr xs n2 w2 = (n1, w1)" by simp
    from "2.IH"(2) [OF False d [symmetric] refl this] "2.prems"(2) False discard_stale_facts [OF d]
    show ?thesis by auto
  qed
qed simp

section \<open>Properties\<close>


text \<open>A node with one Sync input whose transport always answers a head at 5 and nothing behind it.\<close>

definition lone_input_node :: scheduled_node where
  "lone_input_node = (new_node ''s'' (Sync [''a''] None) 0)\<lparr>nd_sync_ops := Some [''a'']\<rparr>"

definition lone_input_op :: "unit sync_op_fn" where
  "lone_input_op x op w =
     (case op of FillBoundary \<Rightarrow> AnsHead 5 | FillRefill \<Rightarrow> AnsHead 5 | _ \<Rightarrow> AnsNothing, w)"

lemma lone_input_aligns:
  "\<exists>n'. align_node_sync_heads lone_input_op Boundary lone_input_node () = (Complete, n', ())"
proof -
  let ?n = "lone_input_node\<lparr>nd_op_failed_this_pass := False,
      nd_high_water := [''a'' \<mapsto> 5], nd_sync_heads := [''a'' \<mapsto> filled_head 5]\<rparr>"
  have fill: "fill_pass lone_input_op [''a''] None FillBoundary [''a'']
      (lone_input_node\<lparr>nd_op_failed_this_pass := False\<rparr>) () = (False, ?n, ())"
    by (simp add: lone_input_op_def lone_input_node_def new_node_def filled_at_def
        take_head_def set_sync_head_def regressed_def stale_epoch_def Let_def)
  have heads: "heads_of ?n [''a''] = [Some (filled_head 5)]" by (simp add: heads_of_def)
  have s1: "next_sync_step [Some (filled_head 5)] [NxUnknown] None = NeedNext 0 Argmin"
    "next_sync_step [Some (filled_head 5)] [NxNone] None = Fire"
    by (simp_all add: next_sync_step_def filled_head_def is_filled_def is_unbacked_def descend_def)
  have t1: "align_turn lone_input_op [''a''] None Boundary (fresh_state 1) ?n () =
      Continues ((fresh_state 1)\<lparr>al_next := [NxNone]\<rparr>) ?n ()"
    unfolding align_turn_def heads
    by (simp add: fresh_state_def s1 turn_need_next_def lone_input_op_def)
  have t2: "align_turn lone_input_op [''a''] None Boundary ((fresh_state 1)\<lparr>al_next := [NxNone]\<rparr>) ?n () =
      Ends Complete ?n ()"
    unfolding align_turn_def heads
    by (simp add: s1) (simp add: filled_head_def is_unbacked_def)
  have b: "op_budget 1 = Suc (Suc 398)"
    by (simp add: op_budget_def usize_mul_def usize_add_def usize_max_def DATA_PENDING_CARRY_CLAMP_def)
  have "align_loop (op_budget 1) lone_input_op [''a''] None Boundary (fresh_state 1) ?n () = (Complete, ?n, ())"
    unfolding b align_loop.simps t1 align_turn.case t2 ..
  then have "align_sync_pass lone_input_op [''a''] None Boundary lone_input_node () = (Complete, ?n, ())"
    unfolding align_sync_pass_def by (simp add: fill del: fill_pass.simps)
  moreover have "nd_policy lone_input_node = Sync [''a''] None" "nd_sync_ops lone_input_node = Some [''a'']"
    by (simp_all add: lone_input_node_def new_node_def)
  ultimately show ?thesis
    by (simp add: align_node_sync_heads_def Let_def)
qed


text \<open>
  A publisher clock restart re-bases the node: the driver treats a popped stamp as a new epoch
  only when it fell below the input's own high-water mark by more than the window; then every other
  declared input loses its held head (each counted once) and its high-water mark, the restarted
  input holds the new frame at the new mark, and the epoch floor is the new stamp.
\<close>

theorem epoch_reset_rebases:
  assumes "take_head op inputs window_ns x ts n w = (True, n', w')" and "distinct inputs"
  shows "(\<exists>win hw. window_ns = Some win \<and> nd_high_water n x = Some hw \<and> unat ts + unat win < unat hw) \<and>
    filled_at n' x \<and> nd_high_water n' x = Some ts \<and> nd_epoch_floor n' = Some ts \<and>
    (\<forall>y \<in> set inputs. y \<noteq> x \<longrightarrow> \<not> filled_at n' y \<and> nd_high_water n' y = None \<and>
       sc_epoch_reset_discards (nd_sync_counters n') y =
         sc_epoch_reset_discards (nd_sync_counters n) y + (if filled_at n y then 1 else 0))"
proof -
  obtain n1 where s: "set_sync_head x ts window_ns n = (HfEpochReset, n1)"
    and r: "apply_sync_epoch_reset op inputs x ts n1 w = (n', w')"
    using assms(1) by (auto simp: take_head_def split: prod.splits head_fill.splits)
  from s have reg: "regressed n x ts window_ns" by (auto simp: set_sync_head_def Let_def split: if_splits)
  then obtain win hw where wh: "window_ns = Some win" "nd_high_water n x = Some hw" "sat_add ts win < hw"
    by (auto simp: regressed_def split: option.splits)
  have less: "unat ts + unat win < unat hw"
    using wh(3) unat_lt_2p [of hw] by (simp add: word_less_nat_alt unat_sat_add min_def split: if_splits)
  have n1: "filled_at n1 y \<longleftrightarrow> y = x \<or> filled_at n y" "nd_high_water n1 x = Some ts"
    "nd_sync_counters n1 = nd_sync_counters n" for y
    using s reg wh(2)
    by (auto simp: set_sync_head_def Let_def filled_at_def filled_head_def is_filled_def split: if_splits)
  obtain n2 w2 where d: "epoch_discards op x inputs n1 w = (n2, w2)" by (metis prod.collapse)
  note f = epoch_discards_facts [OF d assms(2)]
  have n': "n' = n2\<lparr>nd_high_water := (\<lambda>y. if y \<in> set inputs \<and> y \<noteq> x then None else nd_high_water n2 y),
      nd_epoch_floor := Some ts, nd_epoch_latch := snd (latch_on_failure (nd_epoch_latch n2))\<rparr>"
    using r d by (simp add: apply_sync_epoch_reset_def)
  have fill: "filled_at n' y = filled_at n2 y" for y by (simp add: n' filled_at_def)
  have "filled_at n' x" using f [of x] n1(1) by (simp add: fill)
  moreover have "nd_high_water n' x = Some ts" using f [of x] n1(2) by (simp add: n')
  moreover have "\<forall>y \<in> set inputs. y \<noteq> x \<longrightarrow> \<not> filled_at n' y \<and> nd_high_water n' y = None \<and>
       sc_epoch_reset_discards (nd_sync_counters n') y =
         sc_epoch_reset_discards (nd_sync_counters n) y + (if filled_at n y then 1 else 0)"
  proof (intro ballI impI conjI)
    fix y assume y: "y \<in> set inputs" "y \<noteq> x"
    show "\<not> filled_at n' y" using f [of y] y by (simp add: fill)
    show "nd_high_water n' y = None" using y by (simp add: n')
    show "sc_epoch_reset_discards (nd_sync_counters n') y =
         sc_epoch_reset_discards (nd_sync_counters n) y + (if filled_at n y then 1 else 0)"
      using f [of y] y n1(1,3) by (simp add: n')
  qed
  ultimately show ?thesis using wh(1,2) less by (auto simp: n')
qed

theorem epoch_reset_rebases_witness:
  "\<exists>n' w'. take_head lone_input_op [''a'', ''b''] (Some 10) ''a'' 3
     (lone_input_node\<lparr>nd_high_water := [''a'' \<mapsto> 100], nd_sync_heads := [''b'' \<mapsto> filled_head 99]\<rparr>) ()
     = (True, n', w') \<and> nd_high_water n' ''a'' = Some 3 \<and> \<not> filled_at n' ''b''"
proof -
  let ?n = "lone_input_node\<lparr>nd_high_water := [''a'' \<mapsto> 100], nd_sync_heads := [''b'' \<mapsto> filled_head 99]\<rparr>"
  have "fst (take_head lone_input_op [''a'', ''b''] (Some 10) ''a'' 3 ?n ())"
    by (simp add: take_head_def set_sync_head_def regressed_def Let_def sat_add_def)
  then obtain n' w' where t: "take_head lone_input_op [''a'', ''b''] (Some 10) ''a'' 3 ?n () = (True, n', w')"
    by (cases "take_head lone_input_op [''a'', ''b''] (Some 10) ''a'' 3 ?n ()") simp
  have "distinct [''a'', ''b'']" by simp
  note r = epoch_reset_rebases [OF t this]
  have "nd_high_water n' ''a'' = Some 3" using r by blast
  moreover have "\<not> filled_at n' ''b''" using r by simp
  ultimately show ?thesis using t by blast
qed

end
