(* ===== verification/NodeFire.thy ===== *)
theory NodeFire
  imports SyncAlign
begin

text \<open>
  Deciding and firing one node (\<open>decide_node\<close>, \<open>tick_node\<close>, the two bursts and \<open>fire_node_into\<close> of
  \<open>scheduler/mod.rs\<close>).

  A node's code is a parameter: \<open>node_env\<close> holds its callback, its pre-fire check, its trigger
  refill and its Sync operations, on a state \<open>'w\<close> that is the rest of the world. A callback returns
  normally or panics (\<open>catch_unwind\<close>); a pre-fire check may panic too. The trace sink is the list of
  entries pushed, oldest first. The replay fire kind is not modelled, nor is the wedge page that
  marks a node as inside its tick.
\<close>

section \<open>The node's code\<close>

record tick_result =
  tr_panicked :: bool
  tr_fatal :: bool
  tr_discards :: u32
  tr_elapsed :: u64

record 'w node_env =
  env_callback :: "bool \<Rightarrow> 'w \<Rightarrow> tick_result \<times> 'w"
  env_pre_fire :: "(u64 \<Rightarrow> 'w \<Rightarrow> bool option \<times> 'w) option"
  env_refill :: "(string \<times> ('w \<Rightarrow> (u64 \<times> u64 option) \<times> 'w)) option"
  env_sync_op :: "'w sync_op_fn"

record trace_entry =
  te_node_id :: string
  te_step :: u64
  te_fire_time_ns :: u64
  te_global_level :: nat
  te_duration_ns :: u64
  te_discarded :: bool

text \<open>Where a fire is recorded: the level and the step.\<close>

type_synonym fire_at = "nat \<times> u64"

definition run_pre_fire_check :: "'w node_env \<Rightarrow> u64 \<Rightarrow> 'w \<Rightarrow> bool \<times> 'w" where
  "run_pre_fire_check env t w =
     (case env_pre_fire env of
        None \<Rightarrow> (False, w)
      | Some check \<Rightarrow>
          (case check t w of (Some deferred, w1) \<Rightarrow> (deferred, w1) | (None, w1) \<Rightarrow> (False, w1)))"

lemma no_check_no_defer: "env_pre_fire env = None \<Longrightarrow> run_pre_fire_check env t w = (False, w)"
  by (simp add: run_pre_fire_check_def)

section \<open>One fire\<close>

definition after_panic :: "scheduled_node \<Rightarrow> scheduled_node" where
  "after_panic node =
     (let c = nd_consecutive_panics node + 1;
          n1 = node\<lparr>nd_consecutive_panics := c, nd_panic_count := nd_panic_count node + 1\<rparr>
      in if MAX_CONSECUTIVE_PANICS \<le> c \<and> \<not> nd_disabled node
         then n1\<lparr>nd_disabled := True, nd_deaths := nd_deaths node + 1\<rparr> else n1)"

definition after_return :: "scheduled_node \<Rightarrow> scheduled_node" where
  "after_return node =
     node\<lparr>nd_consecutive_panics := 0,
          nd_disabled := (nd_disabled node \<or> nd_fatal_stop node)\<rparr>"

definition tick_overran :: "scheduled_node \<Rightarrow> u64 \<Rightarrow> bool" where
  "tick_overran node elapsed =
     (case nd_tick_within_ns node of Some within \<Rightarrow> elapsed > within | None \<Rightarrow> False)"

text \<open>The node after its callback ended as \<open>r\<close> in a fire at \<open>t\<close>.\<close>

definition book_tick :: "tick_result \<Rightarrow> u64 \<Rightarrow> scheduled_node \<Rightarrow> scheduled_node" where
  "book_tick r t node =
     (let n1 = node\<lparr>nd_replay_discard_queue := tl (nd_replay_discard_queue node),
                    nd_discard_signal := nd_discard_signal node + tr_discards r,
                    nd_fatal_stop := (nd_fatal_stop node \<or> tr_fatal r),
                    nd_tick_within_missed := nd_tick_within_missed node +
                      (if tick_overran node (tr_elapsed r) then 1 else 0)\<rparr>;
          n2 = (if tr_panicked r then after_panic n1 else after_return n1)
      in n2\<lparr>nd_fire_count := nd_fire_count n2 + 1, nd_last_fire_ns := t\<rparr>)"

definition replay_suppressed :: "scheduled_node \<Rightarrow> bool" where
  "replay_suppressed node = (case nd_replay_discard_queue node of [] \<Rightarrow> False | b # _ \<Rightarrow> b)"

definition fire_node_into :: "'w node_env \<Rightarrow> fire_at \<Rightarrow> u64 \<Rightarrow> scheduled_node \<Rightarrow> 'w \<Rightarrow>
    trace_entry \<times> scheduled_node \<times> 'w" where
  "fire_node_into env at fire_time node w =
     (let (r, w1) = env_callback env (replay_suppressed node) w;
          n1 = book_tick r fire_time node;
          discarded = (nd_discard_signal n1 \<noteq> nd_discard_signal node)
      in (\<lparr>te_node_id = nd_id n1, te_step = snd at, te_fire_time_ns = fire_time,
           te_global_level = fst at,
           te_duration_ns = (if nd_record_durations n1 then tr_elapsed r else 0),
           te_discarded = discarded\<rparr>, n1, w1))"

lemma book_tick_fields [simp]:
  "nd_consecutive_panics (book_tick r t n) =
     (if tr_panicked r then nd_consecutive_panics n + 1 else 0)"
  "nd_disabled (book_tick r t n) = (nd_disabled n \<or>
     (if tr_panicked r then MAX_CONSECUTIVE_PANICS \<le> nd_consecutive_panics n + 1
      else nd_fatal_stop n \<or> tr_fatal r))"
  "nd_policy (book_tick r t n) = nd_policy n"
  "nd_sync_ops (book_tick r t n) = nd_sync_ops n"
  "nd_sync_heads (book_tick r t n) = nd_sync_heads n"
  "nd_pending_data_count (book_tick r t n) = nd_pending_data_count n"
  "nd_data_backlog_hint (book_tick r t n) = nd_data_backlog_hint n"
  "nd_next_fire_ns (book_tick r t n) = nd_next_fire_ns n"
  "nd_fire_count (book_tick r t n) = nd_fire_count n + 1"
  "nd_last_fire_ns (book_tick r t n) = t"
  "nd_id (book_tick r t n) = nd_id n"
  by (auto simp: book_tick_def Let_def after_panic_def after_return_def)

lemma fire_node_unfold:
  assumes "fire_node_into env at t n w = (e, n', w')"
  obtains r where "env_callback env (replay_suppressed n) w = (r, w')" "n' = book_tick r t n"
    "te_node_id e = nd_id n" "te_step e = snd at" "te_fire_time_ns e = t" "te_global_level e = fst at"
  using assms by (auto simp: fire_node_into_def Let_def split: prod.splits)

section \<open>Deciding\<close>

datatype fire_kind =
    FkSingle u64
  | FkData u64 nat
  | FkSync u64 nat
  | FkPeriod (fk_first: u64) (fk_count: u32) (fk_interval: u64) (fk_now: u64)

definition decide_period :: "duration \<Rightarrow> u32 option \<Rightarrow> u64 \<Rightarrow> u32 option \<Rightarrow> scheduled_node \<Rightarrow>
    fire_kind option \<times> scheduled_node" where
  "decide_period interval max_catchup now override node =
     (case nd_next_fire_ns node of
        None \<Rightarrow> (None, node)
      | Some nf \<Rightarrow>
          (let adv = period_advance nf now (duration_ns interval)
                 (effective_max_catchup max_catchup override);
               n1 = node\<lparr>nd_next_fire_ns := Some (adv_next_fire_ns adv)\<rparr>
           in if adv_fire_count adv = 0 then (None, n1)
              else (Some (FkPeriod (adv_first_fire_ns adv) (adv_fire_count adv) (duration_ns interval) now), n1)))"

definition decide_data :: "u64 \<Rightarrow> scheduled_node \<Rightarrow> fire_kind option \<times> scheduled_node" where
  "decide_data now node =
     (let n0 = node\<lparr>nd_data_backlog_hint := False\<rparr>;
          count = min (nd_pending_data_count n0) DATA_PENDING_CARRY_CLAMP
      in if 0 < nd_pending_data_count n0
         then (Some (FkData now (unat count)),
               n0\<lparr>nd_pending_data_count := nd_pending_data_count n0 - count\<rparr>)
         else (None, n0))"

definition decide_sync :: "string list \<Rightarrow> duration option \<Rightarrow> u64 \<Rightarrow> scheduled_node \<Rightarrow>
    fire_kind option \<times> scheduled_node" where
  "decide_sync inputs window now node =
     (let n0 = set_backlog False node
      in if next_sync_step (heads_of n0 inputs) (replicate (length inputs) NxNone) window = Fire
         then (Some (FkSync now (unat DATA_PENDING_CARRY_CLAMP)), n0) else (None, n0))"

definition decide_node :: "'w node_env \<Rightarrow> u64 \<Rightarrow> u32 option \<Rightarrow> scheduled_node \<Rightarrow> 'w \<Rightarrow>
    (fire_kind option \<times> scheduled_node) \<times> 'w" where
  "decide_node env now override node w =
     (if nd_disabled node then ((None, node), w)
      else
        let (deferred, w1) = run_pre_fire_check env now w
        in if deferred then ((None, node), w1)
           else (case nd_policy node of
                   Period interval max_catchup \<Rightarrow> decide_period interval max_catchup now override node
                 | Data \<Rightarrow> decide_data now node
                 | Sync inputs window \<Rightarrow> decide_sync inputs window now node
                 | External \<Rightarrow>
                     (if nd_external_triggered node
                      then (Some (FkSingle now), node\<lparr>nd_external_triggered := False\<rparr>)
                      else (None, node)), w1))"

section \<open>Bursts\<close>

text \<open>
  \<open>tick_sync_burst\<close>: the first argument is how many more sets may fire; the flag in the result is
  \<open>aligned_unfired\<close>.
\<close>

fun sync_burst :: "nat \<Rightarrow> 'w node_env \<Rightarrow> fire_at \<Rightarrow> u64 \<Rightarrow> scheduled_node \<Rightarrow> 'w \<Rightarrow>
    trace_entry list \<times> bool \<times> scheduled_node \<times> 'w" where
  "sync_burst 0 env at t node w = ([], True, node, w)"
| "sync_burst (Suc k) env at t node w =
     (let (deferred, w1) = run_pre_fire_check env t w
      in if deferred then ([], True, node, w1)
         else
           let (e, n1, w2) = fire_node_into env at t node w1; n2 = mark_sync_heads_emitted n1
           in if nd_disabled n2 then ([e], False, n2, w2)
              else case align_node_sync_heads (env_sync_op env) Refill n2 w2 of
                     (Complete, n3, w3) \<Rightarrow>
                       (let (es, u, n4, w4) = sync_burst k env at t n3 w3 in (e # es, u, n4, w4))
                   | (Incomplete, n3, w3) \<Rightarrow> ([e], False, n3, w3))"

definition tick_sync_burst :: "nat \<Rightarrow> 'w node_env \<Rightarrow> fire_at \<Rightarrow> u64 \<Rightarrow> scheduled_node \<Rightarrow> 'w \<Rightarrow>
    trace_entry list \<times> scheduled_node \<times> 'w" where
  "tick_sync_burst max_sets env at t node w =
     (let (es, unfired, n1, w1) = sync_burst max_sets env at t node w
      in (es, if unfired then set_backlog True n1 else n1, w1))"

text \<open>
  The head of a turn of \<open>tick_data_burst\<close>: with nothing left of the signalled count it asks the
  refill for one more frame. \<open>None\<close> is the break; the flag is \<open>refilled_unfired\<close>.
\<close>

definition note_trigger_arrival :: "string \<Rightarrow> u64 option \<Rightarrow> scheduled_node \<Rightarrow> scheduled_node" where
  "note_trigger_arrival input ts node =
     (case ts of Some t \<Rightarrow> signal_input_received input t node | None \<Rightarrow> node)"

definition data_refill :: "'w node_env \<Rightarrow> nat \<Rightarrow> scheduled_node \<Rightarrow> 'w \<Rightarrow>
    (nat \<times> bool) option \<times> scheduled_node \<times> 'w" where
  "data_refill env remaining node w =
     (if remaining \<noteq> 0 then (Some (remaining, False), node, w)
      else if 0 < nd_pending_data_count node then (None, node, w)
      else case env_refill env of
             None \<Rightarrow> (None, node, w)
           | Some (input, drain) \<Rightarrow>
               (let ((popped, ts), w1) = drain w
                in if popped = 0 then (None, node, w1)
                   else (Some (1, True), note_trigger_arrival input ts node, w1)))"

text \<open>The first argument is how many fires the cap still allows; the result carries what is unfired.\<close>

fun data_burst :: "nat \<Rightarrow> 'w node_env \<Rightarrow> fire_at \<Rightarrow> u64 \<Rightarrow> nat \<Rightarrow> scheduled_node \<Rightarrow> 'w \<Rightarrow>
    trace_entry list \<times> (nat \<times> bool) \<times> scheduled_node \<times> 'w" where
  "data_burst k env at t remaining node w =
     (case data_refill env remaining node w of
        (None, n1, w1) \<Rightarrow> ([], (0, False), n1, w1)
      | (Some (rem, refilled), n1, w1) \<Rightarrow>
          (case k of
             0 \<Rightarrow> ([], (rem, refilled), n1, w1)
           | Suc k' \<Rightarrow>
               (let (deferred, w2) = run_pre_fire_check env t w1
                in if deferred then ([], (rem, refilled), n1, w2)
                   else
                     let (e, n2, w3) = fire_node_into env at t n1 w2
                     in if nd_disabled n2 then ([e], (rem - 1, False), n2, w3)
                        else let (es, r, n3, w4) = data_burst k' env at t (rem - 1) n2 w3
                             in (e # es, r, n3, w4))))"

declare data_burst.simps [simp del]

definition tick_data_burst :: "nat \<Rightarrow> 'w node_env \<Rightarrow> fire_at \<Rightarrow> u64 \<Rightarrow> scheduled_node \<Rightarrow> 'w \<Rightarrow>
    trace_entry list \<times> scheduled_node \<times> 'w" where
  "tick_data_burst fire_count env at t node w =
     (let (es, (remaining, refilled), n1, w1) =
            data_burst (unat DATA_PENDING_CARRY_CLAMP) env at t fire_count node w
      in (es,
          if refilled then n1\<lparr>nd_data_backlog_hint := True\<rparr>
          else if 0 < remaining
          then n1\<lparr>nd_pending_data_count :=
                 min (nd_pending_data_count n1 + of_nat remaining) DATA_PENDING_CARRY_CLAMP\<rparr>
          else n1, w1))"

fun period_burst :: "nat \<Rightarrow> 'w node_env \<Rightarrow> fire_at \<Rightarrow> u64 \<Rightarrow> u64 \<Rightarrow> u64 \<Rightarrow> scheduled_node \<Rightarrow> 'w \<Rightarrow>
    trace_entry list \<times> scheduled_node \<times> 'w" where
  "period_burst 0 env at now interval fire_time node w = ([], node, w)"
| "period_burst (Suc k) env at now interval fire_time node w =
     (let (deferred, w1) = run_pre_fire_check env now w
      in if deferred
         then ([], node\<lparr>nd_next_fire_ns := map_option (\<lambda>_. fire_time) (nd_next_fire_ns node)\<rparr>, w1)
         else
           let (e, n1, w2) = fire_node_into env at fire_time node w1
           in if nd_disabled n1 then ([e], n1, w2)
              else let (es, n2, w3) = period_burst k env at now interval (fire_time + interval) n1 w2
                   in (e # es, n2, w3))"

definition tick_node :: "'w node_env \<Rightarrow> fire_at \<Rightarrow> fire_kind \<Rightarrow> scheduled_node \<Rightarrow> 'w \<Rightarrow>
    trace_entry list \<times> scheduled_node \<times> 'w" where
  "tick_node env at kind node w =
     (case kind of
        FkSingle t \<Rightarrow> (let (e, n1, w1) = fire_node_into env at t node w in ([e], n1, w1))
      | FkData t count \<Rightarrow> tick_data_burst count env at t node w
      | FkSync t max_sets \<Rightarrow> tick_sync_burst max_sets env at t node w
      | FkPeriod first count interval now \<Rightarrow> period_burst (unat count) env at now interval first node w)"

definition evaluate_node :: "'w node_env \<Rightarrow> fire_at \<Rightarrow> u64 \<Rightarrow> u32 option \<Rightarrow> scheduled_node \<Rightarrow> 'w \<Rightarrow>
    trace_entry list \<times> scheduled_node \<times> 'w" where
  "evaluate_node env at now override node w =
     (case decide_node env now override node w of
        ((None, n1), w1) \<Rightarrow> ([], n1, w1)
      | ((Some kind, n1), w1) \<Rightarrow> tick_node env at kind n1 w1)"

section \<open>The breaker\<close>

text \<open>Three panics in a row disable the node; the counter never passes that with the node enabled.\<close>

definition breaker_ok :: "scheduled_node \<Rightarrow> bool" where
  "breaker_ok n \<longleftrightarrow> nd_disabled n \<or> nd_consecutive_panics n < MAX_CONSECUTIVE_PANICS"

lemma breaker_core:
  assumes "core n' = core n"
  shows "breaker_ok n' = breaker_ok n"
  using core_eqs(1,2) [OF assms] by (simp add: breaker_ok_def)

lemma fire_panics:
  assumes "fire_node_into env at t n w = (e, n', w')"
    and "\<And>b v. tr_panicked (fst (env_callback env b v))"
    and "\<not> nd_disabled n" "breaker_ok n"
  shows "unat (nd_consecutive_panics n') = unat (nd_consecutive_panics n) + 1"
    and "nd_disabled n' \<longleftrightarrow> unat (nd_consecutive_panics n') = 3" and "breaker_ok n'"
proof -
  have c: "unat (nd_consecutive_panics n) < 3"
    using assms(3,4) by (simp add: breaker_ok_def MAX_CONSECUTIVE_PANICS_def word_less_nat_alt)
  then have s: "unat (nd_consecutive_panics n + 1) = unat (nd_consecutive_panics n) + 1"
    by (intro unat_add_1) simp
  obtain r where r: "env_callback env (replay_suppressed n) w = (r, w')" "n' = book_tick r t n"
    using fire_node_unfold [OF assms(1)] .
  with assms(2) have p: "tr_panicked r" by (metis fst_conv)
  have n': "nd_consecutive_panics n' = nd_consecutive_panics n + 1"
    "nd_disabled n' \<longleftrightarrow> MAX_CONSECUTIVE_PANICS \<le> nd_consecutive_panics n + 1"
    using assms(3) p r(2) by simp_all
  with s c show "unat (nd_consecutive_panics n') = unat (nd_consecutive_panics n) + 1"
    "nd_disabled n' \<longleftrightarrow> unat (nd_consecutive_panics n') = 3" "breaker_ok n'"
    by (auto simp: MAX_CONSECUTIVE_PANICS_def word_le_nat_alt word_less_nat_alt breaker_ok_def)
qed

text \<open>
  What a burst of panicking fires does to the breaker: every fire is one more consecutive panic, and
  the node is disabled exactly when there are three.
\<close>

definition panics_by :: "nat \<Rightarrow> scheduled_node \<Rightarrow> scheduled_node \<Rightarrow> bool" where
  "panics_by k n n' \<longleftrightarrow>
     unat (nd_consecutive_panics n') = unat (nd_consecutive_panics n) + k \<and> breaker_ok n' \<and>
     (nd_disabled n' \<longleftrightarrow> unat (nd_consecutive_panics n') = 3)"

lemma panics_by_core:
  assumes "panics_by k n n'" "core n'' = core n'"
  shows "panics_by k n n''"
  using assms(1) core_eqs(1,2) [OF assms(2)] breaker_core [OF assms(2)] by (simp add: panics_by_def)

lemma panics_by_refl: "\<not> nd_disabled n \<Longrightarrow> breaker_ok n \<Longrightarrow> panics_by 0 n n"
  by (auto simp: panics_by_def breaker_ok_def MAX_CONSECUTIVE_PANICS_def word_less_nat_alt)

lemma panics_by_0:
  "core n' = core n \<Longrightarrow> \<not> nd_disabled n \<Longrightarrow> breaker_ok n \<Longrightarrow> panics_by 0 n n'"
  using panics_by_core [OF panics_by_refl] .

lemma panics_by_Suc:
  "panics_by (Suc 0) n n1 \<Longrightarrow> panics_by k n1 n' \<Longrightarrow> panics_by (Suc k) n n'"
  by (simp add: panics_by_def)

lemma fire_panics_by:
  assumes "fire_node_into env at t n w = (e, n', w')"
    and "\<And>b v. tr_panicked (fst (env_callback env b v))" "\<not> nd_disabled n" "breaker_ok n"
  shows "panics_by (Suc 0) n n'"
  using fire_panics [OF assms] by (simp add: panics_by_def)

lemma sync_burst_Suc:
  assumes "run_pre_fire_check env t w = (d, w1)" "fire_node_into env at t node w1 = (e, n1, w2)"
    "align_node_sync_heads (env_sync_op env) Refill (mark_sync_heads_emitted n1) w2 = (oc, n3, w3)"
    "sync_burst k env at t n3 w3 = (es, u, n4, w4)"
  shows "sync_burst (Suc k) env at t node w =
    (if d then ([], True, node, w1)
     else if nd_disabled n1 then ([e], False, mark_sync_heads_emitted n1, w2)
     else if oc = Complete then (e # es, u, n4, w4)
     else ([e], False, n3, w3))"
  using assms core_eqs(1) [OF core_simple(7) [of n1]]
  by (cases oc) (simp_all add: Let_def)

lemma sync_burst_panics:
  "sync_burst k env at t n w = (es, u, n', w') \<Longrightarrow>
   (\<And>b v. tr_panicked (fst (env_callback env b v))) \<Longrightarrow> \<not> nd_disabled n \<Longrightarrow> breaker_ok n \<Longrightarrow>
   panics_by (length es) n n'"
proof (induction k arbitrary: n w es u n' w')
  case 0
  then show ?case by (simp add: panics_by_refl)
next
  case (Suc k)
  obtain d w1 where d: "run_pre_fire_check env t w = (d, w1)" by (metis prod.collapse)
  obtain e n1 w2 where f: "fire_node_into env at t n w1 = (e, n1, w2)" by (metis prod.collapse)
  obtain oc n3 w3 where a: "align_node_sync_heads (env_sync_op env) Refill
      (mark_sync_heads_emitted n1) w2 = (oc, n3, w3)" by (metis prod.collapse)
  obtain es4 u4 n4 w4 where r: "sync_burst k env at t n3 w3 = (es4, u4, n4, w4)" by (metis prod.collapse)
  note burst = Suc.prems(1) [unfolded sync_burst_Suc [OF d f a r]]
  have p1: "panics_by (Suc 0) n n1" by (rule fire_panics_by [OF f Suc.prems(2-4)])
  have p2: "panics_by (Suc 0) n (mark_sync_heads_emitted n1)"
    by (rule panics_by_core [OF p1]) (simp add: core_kept)
  note p3 = panics_by_core [OF p2 core_align [OF a]]
  have dis: "nd_disabled n3 = nd_disabled n1"
    using core_eqs(1) [OF core_align [OF a]] core_eqs(1) [OF core_simple(7) [of n1]] by simp
  show ?case
  proof (cases "\<not> d \<and> \<not> nd_disabled n1 \<and> oc = Complete")
    case False
    with burst p2 p3 Suc.prems(3,4) show ?thesis by (auto simp: panics_by_refl split: if_splits)
  next
    case True
    with burst have "es = e # es4" "n' = n4" by simp_all
    moreover have "panics_by (length es4) n3 n4"
      by (rule Suc.IH [OF r Suc.prems(2)]) (use True dis p3 in \<open>simp_all add: panics_by_def\<close>)
    ultimately show ?thesis using panics_by_Suc [OF p3] by simp
  qed
qed

lemma core_note_arrival [core_kept]: "core (note_trigger_arrival x ts n) = core n"
  by (simp add: note_trigger_arrival_def signal_input_received_def core_def split: option.splits)

lemma core_refill: "data_refill env k n w = (r, n1, w1) \<Longrightarrow> core n1 = core n"
  by (auto simp: data_refill_def core_kept split: if_splits option.splits prod.splits)

lemma data_burst_stop:
  "data_refill env remaining n w = (None, n1, w1) \<Longrightarrow>
   data_burst k env at t remaining n w = ([], (0, False), n1, w1)"
  by (simp add: data_burst.simps)

lemma data_burst_0:
  "data_refill env remaining n w = (Some r, n1, w1) \<Longrightarrow>
   data_burst 0 env at t remaining n w = ([], r, n1, w1)"
  by (cases r) (simp add: data_burst.simps)

lemma data_burst_Suc:
  assumes "data_refill env remaining n w = (Some (rem, rf), n1, w1)"
    "run_pre_fire_check env t w1 = (d, w2)" "fire_node_into env at t n1 w2 = (e, n2, w3)"
    "data_burst k env at t (rem - 1) n2 w3 = (es, r, n3, w4)"
  shows "data_burst (Suc k) env at t remaining n w =
    (if d then ([], (rem, rf), n1, w2)
     else if nd_disabled n2 then ([e], (rem - 1, False), n2, w3)
     else (e # es, r, n3, w4))"
  using assms by (simp add: data_burst.simps [of "Suc k"])

lemma data_burst_panics:
  "data_burst k env at t remaining n w = (es, r, n', w') \<Longrightarrow>
   (\<And>b v. tr_panicked (fst (env_callback env b v))) \<Longrightarrow> \<not> nd_disabled n \<Longrightarrow> breaker_ok n \<Longrightarrow>
   panics_by (length es) n n'"
proof (induction k arbitrary: n w es r n' w' remaining)
  case 0
  obtain q n1 w1 where q: "data_refill env remaining n w = (q, n1, w1)" by (metis prod.collapse)
  with 0 core_refill [OF q] show ?case
    by (cases q) (auto simp: data_burst_stop data_burst_0 panics_by_0)
next
  case (Suc k)
  obtain q n1 w1 where q: "data_refill env remaining n w = (q, n1, w1)" by (metis prod.collapse)
  note c = core_refill [OF q]
  show ?case
  proof (cases q)
    case None
    with q Suc.prems c show ?thesis by (auto simp: data_burst_stop panics_by_0)
  next
    case (Some rr)
    obtain rem rf where rr: "rr = (rem, rf)" by (cases rr)
    obtain d w2 where d: "run_pre_fire_check env t w1 = (d, w2)" by (metis prod.collapse)
    obtain e n2 w3 where f: "fire_node_into env at t n1 w2 = (e, n2, w3)" by (metis prod.collapse)
    obtain es4 r4 n4 w4 where b: "data_burst k env at t (rem - 1) n2 w3 = (es4, r4, n4, w4)"
      by (metis prod.collapse)
    note burst = Suc.prems(1) [unfolded data_burst_Suc [OF q [unfolded Some rr] d f b]]
    have ok: "\<not> nd_disabled n1" "breaker_ok n1"
      using Suc.prems(3,4) core_eqs(1) [OF c] breaker_core [OF c] by simp_all
    have p0: "panics_by 0 n n1" by (rule panics_by_0 [OF c Suc.prems(3,4)])
    have p1: "panics_by (Suc 0) n1 n2" by (rule fire_panics_by [OF f Suc.prems(2) ok])
    then have p2: "panics_by (Suc 0) n n2" using p0 by (simp add: panics_by_def)
    show ?thesis
    proof (cases "\<not> d \<and> \<not> nd_disabled n2")
      case False
      with burst p0 p2 show ?thesis by (auto split: if_splits)
    next
      case True
      with burst have "es = e # es4" "n' = n4" by simp_all
      moreover have "panics_by (length es4) n2 n4"
        by (rule Suc.IH [OF b Suc.prems(2)]) (use True p2 in \<open>simp_all add: panics_by_def\<close>)
      ultimately show ?thesis using panics_by_Suc [OF p2] by simp
    qed
  qed
qed

lemma period_burst_panics:
  "period_burst k env at now iv t n w = (es, n', w') \<Longrightarrow>
   (\<And>b v. tr_panicked (fst (env_callback env b v))) \<Longrightarrow> \<not> nd_disabled n \<Longrightarrow> breaker_ok n \<Longrightarrow>
   panics_by (length es) n n'"
proof (induction k arbitrary: n w es n' w' t)
  case 0
  then show ?case by (simp add: panics_by_refl)
next
  case (Suc k)
  obtain d w1 where d: "run_pre_fire_check env now w = (d, w1)" by (metis prod.collapse)
  obtain e n1 w2 where f: "fire_node_into env at t n w1 = (e, n1, w2)" by (metis prod.collapse)
  obtain es4 n4 w4 where b: "period_burst k env at now iv (t + iv) n1 w2 = (es4, n4, w4)"
    by (metis prod.collapse)
  have p1: "panics_by (Suc 0) n n1" by (rule fire_panics_by [OF f Suc.prems(2-4)])
  have rw: "panics_by 0 n (n\<lparr>nd_next_fire_ns := x\<rparr>)" for x
    using panics_by_refl [OF Suc.prems(3,4)] by (auto simp: panics_by_def breaker_ok_def)
  show ?case
  proof (cases "\<not> d \<and> \<not> nd_disabled n1")
    case False
    with Suc.prems(1) d f b p1 rw show ?thesis by (auto split: if_splits)
  next
    case True
    with Suc.prems(1) d f b have "es = e # es4" "n' = n4" by simp_all
    moreover have "panics_by (length es4) n1 n4"
      by (rule Suc.IH [OF b Suc.prems(2)]) (use True p1 in \<open>simp_all add: panics_by_def\<close>)
    ultimately show ?thesis using panics_by_Suc [OF p1] by simp
  qed
qed

lemma decide_keeps:
  assumes "decide_node env now ov n w = ((k, n1), w1)"
  shows "nd_disabled n1 = nd_disabled n" "nd_consecutive_panics n1 = nd_consecutive_panics n"
    "nd_policy n1 = nd_policy n" "nd_sync_ops n1 = nd_sync_ops n" "nd_sync_heads n1 = nd_sync_heads n"
    "k \<noteq> None \<Longrightarrow> \<not> nd_disabled n"
proof -
  have "(nd_disabled n1 = nd_disabled n \<and> nd_consecutive_panics n1 = nd_consecutive_panics n \<and>
    nd_policy n1 = nd_policy n \<and> nd_sync_ops n1 = nd_sync_ops n \<and> nd_sync_heads n1 = nd_sync_heads n) \<and>
    (k \<noteq> None \<longrightarrow> \<not> nd_disabled n)"
    using assms
    by (auto simp: decide_node_def decide_period_def decide_data_def decide_sync_def set_backlog_def Let_def
        split: if_splits prod.splits trigger_policy.splits option.splits)
  then show "nd_disabled n1 = nd_disabled n" "nd_consecutive_panics n1 = nd_consecutive_panics n"
    "nd_policy n1 = nd_policy n" "nd_sync_ops n1 = nd_sync_ops n" "nd_sync_heads n1 = nd_sync_heads n"
    "k \<noteq> None \<Longrightarrow> \<not> nd_disabled n"
    by blast+
qed

lemma disabled_never_decides: "nd_disabled n \<Longrightarrow> decide_node env now ov n w = ((None, n), w)"
  by (simp add: decide_node_def)

lemma tick_panics:
  assumes "tick_node env at kind n w = (es, n', w')"
    and "\<And>b v. tr_panicked (fst (env_callback env b v))" and "\<not> nd_disabled n" "breaker_ok n"
  shows "panics_by (length es) n n'"
proof (cases kind)
  case (FkSingle t)
  with assms(1) obtain e where "es = [e]" "fire_node_into env at t n w = (e, n', w')"
    by (auto simp: tick_node_def split: prod.splits)
  with fire_panics_by [OF _ assms(2-4)] show ?thesis by simp
next
  case (FkData t c)
  obtain es0 rem rf n0 w0 where
    b: "data_burst (unat DATA_PENDING_CARRY_CLAMP) env at t c n w = (es0, (rem, rf), n0, w0)"
    by (metis prod.collapse)
  have "es = es0" "panics_by (length es0) n n' \<longleftrightarrow> panics_by (length es0) n n0"
    using assms(1) FkData b
    by (auto simp: tick_node_def tick_data_burst_def panics_by_def breaker_ok_def split: if_splits)
  with data_burst_panics [OF b assms(2-4)] show ?thesis by simp
next
  case (FkSync t m)
  obtain es0 u n0 w0 where b: "sync_burst m env at t n w = (es0, u, n0, w0)" by (metis prod.collapse)
  with assms(1) FkSync have "es = es0" "n' = (if u then set_backlog True n0 else n0)"
    by (auto simp: tick_node_def tick_sync_burst_def)
  with sync_burst_panics [OF b assms(2-4)] panics_by_core [OF _ core_simple(6)] show ?thesis by auto
next
  case (FkPeriod f c iv now)
  with assms(1) have "period_burst (unat c) env at now iv f n w = (es, n', w')" by (simp add: tick_node_def)
  from period_burst_panics [OF this assms(2-4)] show ?thesis .
qed

lemma evaluate_panics:
  assumes "evaluate_node env at now ov n w = (es, n', w')"
    and "\<And>b v. tr_panicked (fst (env_callback env b v))" and "breaker_ok n"
  shows "if nd_disabled n then es = [] \<and> n' = n \<and> w' = w else panics_by (length es) n n'"
proof (cases "nd_disabled n")
  case True
  with assms(1) show ?thesis by (simp add: evaluate_node_def disabled_never_decides)
next
  case False
  obtain k n1 w1 where d: "decide_node env now ov n w = ((k, n1), w1)" by (metis prod.collapse)
  note kp = decide_keeps [OF d]
  have p0: "panics_by 0 n n1"
    using panics_by_refl [OF False assms(3)] kp(1,2) by (auto simp: panics_by_def breaker_ok_def)
  show ?thesis
  proof (cases k)
    case None
    with assms(1) d p0 False show ?thesis by (simp add: evaluate_node_def)
  next
    case (Some kind)
    with assms(1) d have "tick_node env at kind n1 w1 = (es, n', w')" by (simp add: evaluate_node_def)
    from tick_panics [OF this assms(2)] kp(1,2) False assms(3)
    have "panics_by (length es) n1 n'" by (simp add: breaker_ok_def)
    with p0 False show ?thesis by (simp add: panics_by_def)
  qed
qed

section \<open>Sync bursts\<close>

lemma complete_fires:
  assumes "complete_set heads window"
  shows "next_sync_step heads (replicate (length heads) NxNone) window = Fire"
proof -
  have pre: "heads \<noteq> []" "all_filled heads" "length heads = length (replicate (length heads) NxNone)"
    and w: "in_window heads window"
    using assms by (simp_all add: complete_set_def)
  obtain i c where am: "argmin_scan heads (span_lo heads) 0 0 0 = (i, c)"
    by (cases "argmin_scan heads (span_lo heads) 0 0 0")
  have "i < length heads" if "c \<le> 1" using argmin_found [OF pre(1,2) am that] by blast
  then show ?thesis
    using w by (auto simp: step_unfold [OF pre] am descend_def)
qed

lemma align_complete:
  assumes "align_node_sync_heads op site n w = (Complete, n', w')"
    "nd_policy n = Sync inputs window" "nd_sync_ops n = Some inputs"
  shows "complete_set (heads_of n' inputs) window"
proof -
  obtain n1 w1 where p: "align_sync_pass op inputs window site n w = (Complete, n1, w1)"
    "nd_sync_heads n' = nd_sync_heads n1"
    using assms by (auto simp: align_node_sync_heads_def Let_def set_backlog_def split: prod.splits if_splits)
  from pass_complete [OF p(1)] p(2) show ?thesis by (simp add: heads_of_def)
qed

text \<open>The head tuples a burst fires on, in order.\<close>

fun fired_sets :: "nat \<Rightarrow> 'w node_env \<Rightarrow> fire_at \<Rightarrow> u64 \<Rightarrow> string list \<Rightarrow> scheduled_node \<Rightarrow> 'w \<Rightarrow>
    sync_head option list list" where
  "fired_sets 0 env at t inputs node w = []"
| "fired_sets (Suc k) env at t inputs node w =
     (let (deferred, w1) = run_pre_fire_check env t w; (e, n1, w2) = fire_node_into env at t node w1
      in if deferred then []
         else heads_of node inputs #
           (if nd_disabled n1 then []
            else case align_node_sync_heads (env_sync_op env) Refill (mark_sync_heads_emitted n1) w2 of
                   (Complete, n3, w3) \<Rightarrow> fired_sets k env at t inputs n3 w3
                 | (Incomplete, n3, w3) \<Rightarrow> []))"

lemma sync_burst_sets:
  "sync_burst k env at t n w = (es, u, n', w') \<Longrightarrow> complete_set (heads_of n inputs) window \<Longrightarrow>
   nd_policy n = Sync inputs window \<Longrightarrow> nd_sync_ops n = Some inputs \<Longrightarrow>
   length es \<le> k \<and> length (fired_sets k env at t inputs n w) = length es \<and>
   (\<forall>S \<in> set (fired_sets k env at t inputs n w). complete_set S window) \<and>
   nd_policy n' = Sync inputs window \<and> nd_sync_ops n' = Some inputs \<and>
   (u \<longrightarrow> complete_set (heads_of n' inputs) window)"
proof (induction k arbitrary: n w es u n' w')
  case (Suc k)
  obtain d w1 where d: "run_pre_fire_check env t w = (d, w1)" by (metis prod.collapse)
  obtain e n1 w2 where f: "fire_node_into env at t n w1 = (e, n1, w2)" by (metis prod.collapse)
  obtain oc n3 w3 where a: "align_node_sync_heads (env_sync_op env) Refill
      (mark_sync_heads_emitted n1) w2 = (oc, n3, w3)" by (metis prod.collapse)
  obtain es4 u4 n4 w4 where r: "sync_burst k env at t n3 w3 = (es4, u4, n4, w4)" by (metis prod.collapse)
  note burst = Suc.prems(1) [unfolded sync_burst_Suc [OF d f a r]]
  have sets: "fired_sets (Suc k) env at t inputs n w =
      (if d then [] else heads_of n inputs #
        (if nd_disabled n1 then [] else if oc = Complete then fired_sets k env at t inputs n3 w3 else []))"
    using d f a by (cases oc) simp_all
  obtain rr where n1: "n1 = book_tick rr t n" using fire_node_unfold [OF f] by metis
  note c2 = core_eqs(3,4) [OF core_simple(7) [of n1]]
  note c3 = core_eqs(3,4) [OF core_align [OF a]]
  have pol: "nd_policy n1 = Sync inputs window" "nd_sync_ops n1 = Some inputs"
    "nd_policy (mark_sync_heads_emitted n1) = Sync inputs window"
    "nd_sync_ops (mark_sync_heads_emitted n1) = Some inputs"
    "nd_policy n3 = Sync inputs window" "nd_sync_ops n3 = Some inputs"
    using Suc.prems(3,4) c2 c3 n1 by simp_all
  show ?case
  proof (cases "\<not> d \<and> \<not> nd_disabled n1 \<and> oc = Complete")
    case False
    with burst sets pol Suc.prems(2-4) show ?thesis by (auto split: if_splits)
  next
    case True
    with a have "complete_set (heads_of n3 inputs) window" by (auto intro: align_complete pol(3,4))
    from Suc.IH [OF r this pol(5,6)] True burst sets Suc.prems(2) show ?thesis by auto
  qed
qed simp

section \<open>The node's life\<close>

text \<open>Everything that changes a node between its fires and by them.\<close>

inductive node_step :: "'w node_env \<Rightarrow> scheduled_node \<Rightarrow> scheduled_node \<Rightarrow> bool" for env where
  signal_data: "node_step env n (snd (signal_data n))"
| signal_sync: "node_step env n (snd (signal_sync_input input ts n))"
| signal_received: "node_step env n (signal_input_received input ts n)"
| published: "node_step env n (signal_output_published output now n)"
| watch_input: "node_step env n (set_expect_within input ms seed fifo topic n)"
| watch_output: "node_step env n (set_promise_within output ms seed n)"
| watch_tick: "node_step env n (set_tick_within ms n)"
| throttle: "node_step env n (snd (set_throttle_ns ns n))"
| event_store: "node_step env n (register_qos_event_store store n)"
| windows: "node_step env n (run_qos_windows now n)"
| external: "node_step env n (snd (trigger_external n))"
| install_ops: "node_step env n (snd (set_sync_ops inputs n))"
| reset: "node_step env n (reset_node now n)"
| align: "align_node_sync_heads (env_sync_op env) site n w = (oc, n', w') \<Longrightarrow> node_step env n n'"
| evaluate: "evaluate_node env at now ov n w = (es, n', w') \<Longrightarrow> node_step env n n'"

text \<open>The states of a node from its \<open>add_node\<close> on.\<close>

inductive node_life :: "'w node_env \<Rightarrow> string \<Rightarrow> trigger_policy \<Rightarrow> scheduled_node \<Rightarrow> bool"
  for env i policy where
  born: "node_life env i policy (new_node i policy now)"
| step: "node_life env i policy n \<Longrightarrow> node_step env n n' \<Longrightarrow> node_life env i policy n'"

definition is_period :: "trigger_policy \<Rightarrow> bool" where
  "is_period p = (case p of Period _ _ \<Rightarrow> True | _ \<Rightarrow> False)"

definition ops_match :: "trigger_policy \<Rightarrow> string list option \<Rightarrow> bool" where
  "ops_match p ops =
     (case ops of None \<Rightarrow> True
      | Some inputs \<Rightarrow> (case p of Sync declared _ \<Rightarrow> declared = inputs | _ \<Rightarrow> False))"

lemma ops_match_Some: "ops_match p (Some inputs) \<longleftrightarrow> (\<exists>window. p = Sync inputs window)"
  by (cases p) (auto simp: ops_match_def)

definition node_ok :: "scheduled_node \<Rightarrow> bool" where
  "node_ok n \<longleftrightarrow> breaker_ok n \<and> unat (nd_pending_data_count n) \<le> 64 \<and>
     ops_match (nd_policy n) (nd_sync_ops n) \<and>
     (nd_next_fire_ns n \<noteq> None \<longleftrightarrow> is_period (nd_policy n)) \<and>
     (nd_pending_data_count n \<noteq> 0 \<longrightarrow> nd_policy n = Data)"

lemma node_ok_core: "core n' = core n \<Longrightarrow> node_ok n \<Longrightarrow> node_ok n'"
  using core_eqs [of n' n] breaker_core [of n' n] by (simp add: node_ok_def)

lemma node_ok_book: "node_ok n \<Longrightarrow> node_ok (book_tick r t n)"
proof -
  assume n: "node_ok n"
  have "breaker_ok (book_tick r t n)"
  proof (cases "nd_disabled n \<or> \<not> tr_panicked r")
    case True
    then show ?thesis by (auto simp: breaker_ok_def MAX_CONSECUTIVE_PANICS_def)
  next
    case False
    then show ?thesis by (auto simp: breaker_ok_def not_le)
  qed
  with n show ?thesis by (simp add: node_ok_def)
qed

lemma node_ok_fire: "fire_node_into env at t n w = (e, n', w') \<Longrightarrow> node_ok n \<Longrightarrow> node_ok n'"
  by (metis fire_node_unfold node_ok_book)

lemma node_ok_update:
  "node_ok n \<Longrightarrow> (nd_next_fire_ns n = None \<longleftrightarrow> x = None) \<Longrightarrow> node_ok (n\<lparr>nd_next_fire_ns := x\<rparr>)"
  "node_ok n \<Longrightarrow> unat c \<le> 64 \<Longrightarrow> (c \<noteq> 0 \<longrightarrow> nd_policy n = Data) \<Longrightarrow>
    node_ok (n\<lparr>nd_pending_data_count := c\<rparr>)"
  "node_ok n \<Longrightarrow> node_ok (n\<lparr>nd_data_backlog_hint := b\<rparr>)"
  "node_ok n \<Longrightarrow> node_ok (n\<lparr>nd_external_triggered := b\<rparr>)"
  "node_ok n \<Longrightarrow> node_ok (n\<lparr>nd_signal_failed := k\<rparr>)"
  "node_ok n \<Longrightarrow> node_ok (n\<lparr>nd_sync_heads := hs\<rparr>)"
  "node_ok n \<Longrightarrow> node_ok (n\<lparr>nd_sync_counters := cs\<rparr>)"
  by (simp_all add: node_ok_def breaker_ok_def)

lemma core_window_loop:
  "(\<And>x t v m. core (count x t v m) = core m) \<Longrightarrow> window_loop check count ws n = (ws', n') \<Longrightarrow>
   core n' = core n"
  by (induction ws arbitrary: n ws' n') (auto simp: Let_def split: prod.splits)

lemma core_ports [core_kept]:
  "core (signal_input_received x ts n) = core n"
  "core (signal_output_published x ts n) = core n"
  "core (set_expect_within x ms seed fifo topic n) = core n"
  "core (set_promise_within x ms seed n) = core n"
  "core (set_tick_within ms n) = core n"
  "core (snd (set_throttle_ns ns n)) = core n"
  "core (register_qos_event_store store n) = core n"
  "core (count_expect now x t v n) = core n"
  "core (count_promise now x t v n) = core n"
  "core (n\<lparr>nd_expect_within := ws\<rparr>) = core n"
  "core (n\<lparr>nd_promise_within := ws\<rparr>) = core n"
  by (simp_all add: core_def signal_input_received_def signal_output_published_def
      set_expect_within_def set_promise_within_def set_tick_within_def set_throttle_ns_def
      register_qos_event_store_def count_expect_def count_promise_def Let_def split: window_verdict.splits)

lemma core_windows [core_kept]: "core (run_qos_windows now n) = core n"
proof -
  obtain ins n1 where a: "window_loop (expect_window now (0 < nd_pending_data_count n) (filled_at n))
      (count_expect now) (nd_expect_within n) n = (ins, n1)" by (metis prod.collapse)
  let ?n2 = "n1\<lparr>nd_expect_within := ins\<rparr>"
  obtain outs n3 where b: "window_loop (promise_window now) (count_promise now)
      (nd_promise_within ?n2) ?n2 = (outs, n3)" by (metis prod.collapse)
  have "core n1 = core n" by (rule core_window_loop [OF _ a]) (rule core_ports)
  moreover have "core n3 = core ?n2" by (rule core_window_loop [OF _ b]) (rule core_ports)
  ultimately show ?thesis using a b by (simp add: run_qos_windows_def core_kept)
qed

lemma node_ok_sync_burst: "sync_burst k env at t n w = (es, u, n', w') \<Longrightarrow> node_ok n \<Longrightarrow> node_ok n'"
proof (induction k arbitrary: n w es u n' w')
  case (Suc k)
  obtain d w1 where d: "run_pre_fire_check env t w = (d, w1)" by (metis prod.collapse)
  obtain e n1 w2 where f: "fire_node_into env at t n w1 = (e, n1, w2)" by (metis prod.collapse)
  obtain oc n3 w3 where a: "align_node_sync_heads (env_sync_op env) Refill
      (mark_sync_heads_emitted n1) w2 = (oc, n3, w3)" by (metis prod.collapse)
  obtain es4 u4 n4 w4 where r: "sync_burst k env at t n3 w3 = (es4, u4, n4, w4)" by (metis prod.collapse)
  note burst = Suc.prems(1) [unfolded sync_burst_Suc [OF d f a r]]
  have n2: "node_ok (mark_sync_heads_emitted n1)"
    using node_ok_core [OF core_simple(7)] node_ok_fire [OF f] Suc.prems(2) by blast
  then have "node_ok n3" using node_ok_core [OF core_align [OF a]] by blast
  with burst n2 Suc.prems(2) Suc.IH [OF r] show ?case by (auto split: if_splits)
qed simp

lemma node_ok_data_burst:
  "data_burst k env at t remaining n w = (es, r, n', w') \<Longrightarrow> node_ok n \<Longrightarrow>
   node_ok n' \<and> nd_policy n' = nd_policy n"
proof (induction k arbitrary: n w es r n' w' remaining)
  case 0
  obtain q n1 w1 where q: "data_refill env remaining n w = (q, n1, w1)" by (metis prod.collapse)
  with 0 node_ok_core [OF core_refill [OF q]] core_eqs(3) [OF core_refill [OF q]] show ?case
    by (cases q) (auto simp: data_burst_stop data_burst_0)
next
  case (Suc k)
  obtain q n1 w1 where q: "data_refill env remaining n w = (q, n1, w1)" by (metis prod.collapse)
  have n1: "node_ok n1" using node_ok_core [OF core_refill [OF q]] Suc.prems(2) .
  have p1: "nd_policy n1 = nd_policy n" by (rule core_eqs(3) [OF core_refill [OF q]])
  show ?case
  proof (cases q)
    case None
    with q Suc.prems n1 p1 show ?thesis by (auto simp: data_burst_stop)
  next
    case (Some rr)
    obtain rem rf where rr: "rr = (rem, rf)" by (cases rr)
    obtain d w2 where d: "run_pre_fire_check env t w1 = (d, w2)" by (metis prod.collapse)
    obtain e n2 w3 where f: "fire_node_into env at t n1 w2 = (e, n2, w3)" by (metis prod.collapse)
    obtain es4 r4 n4 w4 where b: "data_burst k env at t (rem - 1) n2 w3 = (es4, r4, n4, w4)"
      by (metis prod.collapse)
    note burst = Suc.prems(1) [unfolded data_burst_Suc [OF q [unfolded Some rr] d f b]]
    have "nd_policy n2 = nd_policy n" using p1 fire_node_unfold [OF f] by (metis book_tick_fields(3))
    with node_ok_fire [OF f n1] Suc.IH [OF b] n1 p1 burst show ?thesis by (auto split: if_splits)
  qed
qed

lemma node_ok_period_burst:
  "period_burst k env at now iv t n w = (es, n', w') \<Longrightarrow> node_ok n \<Longrightarrow> node_ok n'"
proof (induction k arbitrary: n w es n' w' t)
  case (Suc k)
  obtain d w1 where d: "run_pre_fire_check env now w = (d, w1)" by (metis prod.collapse)
  obtain e n1 w2 where f: "fire_node_into env at t n w1 = (e, n1, w2)" by (metis prod.collapse)
  obtain es4 n4 w4 where b: "period_burst k env at now iv (t + iv) n1 w2 = (es4, n4, w4)"
    by (metis prod.collapse)
  have "node_ok (n\<lparr>nd_next_fire_ns := map_option (\<lambda>_. t) (nd_next_fire_ns n)\<rparr>)"
    using Suc.prems(2) by (intro node_ok_update) auto
  with node_ok_fire [OF f] Suc.IH [OF b] Suc.prems d f b show ?case by (auto split: if_splits)
qed simp

definition is_data_kind :: "fire_kind \<Rightarrow> bool" where
  "is_data_kind k = (case k of FkData _ _ \<Rightarrow> True | _ \<Rightarrow> False)"

lemma node_ok_tick:
  assumes "tick_node env at kind n w = (es, n', w')" "node_ok n"
    and "is_data_kind kind \<longrightarrow> nd_policy n = Data"
  shows "node_ok n'"
proof (cases kind)
  case (FkSingle t)
  with assms(1) obtain e where f: "fire_node_into env at t n w = (e, n', w')"
    by (auto simp: tick_node_def split: prod.splits)
  show ?thesis by (rule node_ok_fire [OF f assms(2)])
next
  case (FkData t c)
  obtain es0 rem rf n0 w0 where
    b: "data_burst (unat DATA_PENDING_CARRY_CLAMP) env at t c n w = (es0, (rem, rf), n0, w0)"
    by (metis prod.collapse)
  have n0: "node_ok n0" "nd_policy n0 = Data"
    using node_ok_data_burst [OF b assms(2)] assms(3) FkData by (simp_all add: is_data_kind_def)
  have "unat (min x DATA_PENDING_CARRY_CLAMP) \<le> 64" for x
    by (simp add: min_def DATA_PENDING_CARRY_CLAMP_def word_le_nat_alt)
  with n0 assms(1) FkData b show ?thesis
    by (auto simp: tick_node_def tick_data_burst_def intro!: node_ok_update split: if_splits)
next
  case (FkSync t m)
  obtain es0 u n0 w0 where b: "sync_burst m env at t n w = (es0, u, n0, w0)" by (metis prod.collapse)
  have "node_ok n0" by (rule node_ok_sync_burst [OF b assms(2)])
  with assms(1) FkSync b node_ok_core [OF core_simple(6)] show ?thesis
    by (auto simp: tick_node_def tick_sync_burst_def split: if_splits)
next
  case (FkPeriod f c iv now)
  with assms(1) have "period_burst (unat c) env at now iv f n w = (es, n', w')" by (simp add: tick_node_def)
  from node_ok_period_burst [OF this assms(2)] show ?thesis .
qed

lemma node_ok_decide:
  assumes "decide_node env now ov n w = ((k, n1), w1)" "node_ok n"
  shows "node_ok n1" "k = Some kind \<Longrightarrow> is_data_kind kind \<longrightarrow> nd_policy n1 = Data"
proof -
  show "k = Some kind \<Longrightarrow> is_data_kind kind \<longrightarrow> nd_policy n1 = Data"
    using assms(1)
    by (auto simp: decide_node_def decide_period_def decide_data_def decide_sync_def is_data_kind_def
        Let_def split: if_splits prod.splits trigger_policy.splits option.splits)
next
  have "unat (c - min c DATA_PENDING_CARRY_CLAMP) \<le> 64" if "unat c \<le> 64" for c
  proof -
    have "min c DATA_PENDING_CARRY_CLAMP = c"
      using that by (simp add: min_def DATA_PENDING_CARRY_CLAMP_def word_le_nat_alt)
    then show ?thesis by simp
  qed
  moreover have "unat (nd_pending_data_count n) \<le> 64" using assms(2) by (simp add: node_ok_def)
  ultimately show "node_ok n1"
    using assms node_ok_core [OF core_simple(6), of n]
    by (auto simp: decide_node_def decide_period_def decide_data_def decide_sync_def Let_def
        intro!: node_ok_update split: if_splits prod.splits trigger_policy.splits option.splits)
qed

lemma node_ok_step: "node_step env n n' \<Longrightarrow> node_ok n \<Longrightarrow> node_ok n'"
proof (induction rule: node_step.induct)
  case (signal_data n)
  have "unat (min x DATA_PENDING_CARRY_CLAMP) \<le> 64" for x
    by (simp add: min_def DATA_PENDING_CARRY_CLAMP_def word_le_nat_alt)
  with signal_data show ?case
    by (auto simp: signal_data_def bump_signal_failed_def intro!: node_ok_update split: trigger_policy.splits)
next
  case (signal_sync n input ts)
  then show ?case
    by (auto simp: signal_sync_input_def bump_signal_failed_def refuse_offer_def intro!: node_ok_update
        split: trigger_policy.splits option.splits)
next
  case (signal_received n input ts)
  show ?case by (rule node_ok_core [OF core_ports(1) signal_received])
next
  case (published n port now)
  show ?case by (rule node_ok_core [OF core_ports(2) published])
next
  case (watch_input n input ms seed fifo topic)
  show ?case by (rule node_ok_core [OF core_ports(3) watch_input])
next
  case (watch_output n port ms seed)
  show ?case by (rule node_ok_core [OF core_ports(4) watch_output])
next
  case (watch_tick n ms)
  show ?case by (rule node_ok_core [OF core_ports(5) watch_tick])
next
  case (throttle n ns)
  show ?case by (rule node_ok_core [OF core_ports(6) throttle])
next
  case (event_store n store)
  show ?case by (rule node_ok_core [OF core_ports(7) event_store])
next
  case (windows n now)
  show ?case by (rule node_ok_core [OF core_windows windows])
next
  case (external n)
  then show ?case by (auto simp: trigger_external_def intro!: node_ok_update split: trigger_policy.splits)
next
  case (install_ops n inputs)
  show ?case
  proof (cases "\<exists>window. nd_policy n = Sync inputs window")
    case True
    then obtain window where w: "nd_policy n = Sync inputs window" by blast
    with install_ops show ?thesis
      by (simp add: set_sync_ops_def node_ok_def breaker_ok_def) (simp add: ops_match_def)
  next
    case False
    then have "snd (set_sync_ops inputs n) = n"
      by (auto simp: set_sync_ops_def split: trigger_policy.splits)
    with install_ops show ?thesis by simp
  qed
next
  case (reset n now)
  then show ?case
    by (auto simp: reset_node_def node_ok_def breaker_ok_def MAX_CONSECUTIVE_PANICS_def Let_def
        split: trigger_policy.splits option.splits)
next
  case (align site n w oc n' w')
  show ?case by (rule node_ok_core [OF core_align [OF align.hyps] align.prems])
next
  case (evaluate at now ov n w es n' w')
  obtain k n1 w1 where d: "decide_node env now ov n w = ((k, n1), w1)" by (metis prod.collapse)
  note n1 = node_ok_decide [OF d evaluate.prems]
  show ?case
  proof (cases k)
    case None
    with evaluate.hyps d n1(1) show ?thesis by (simp add: evaluate_node_def)
  next
    case (Some kind)
    with evaluate.hyps d have "tick_node env at kind n1 w1 = (es, n', w')" by (simp add: evaluate_node_def)
    from node_ok_tick [OF this n1(1) n1(2) [OF Some]] show ?thesis .
  qed
qed

section \<open>What a burst fires\<close>

lemma fire_pending:
  "fire_node_into env at t n w = (e, n', w') \<Longrightarrow>
   nd_pending_data_count n' = nd_pending_data_count n \<and> nd_next_fire_ns n' = nd_next_fire_ns n \<and>
   te_fire_time_ns e = t"
  by (metis fire_node_unfold book_tick_fields(6,8))

lemma data_burst_counts:
  "data_burst k env at t remaining n w = (es, (rem, rf), n', w') \<Longrightarrow>
   nd_pending_data_count n' = nd_pending_data_count n \<and> length es \<le> k \<and>
   remaining \<le> length es + (if rf then 0 else rem) \<and> rem \<le> max 1 remaining \<and>
   (env_refill env = None \<longrightarrow> length es + rem = remaining \<and> \<not> rf) \<and>
   (rf \<longrightarrow> nd_pending_data_count n = 0) \<and>
   (\<forall>e \<in> set es. te_fire_time_ns e = t) \<and>
   (env_pre_fire env = None \<and> \<not> nd_disabled n' \<and> remaining \<le> k \<and> \<not> rf \<longrightarrow> rem = 0)"
proof (induction k arbitrary: n w es rem rf n' w' remaining)
  case 0
  obtain q n1 w1 where q: "data_refill env remaining n w = (q, n1, w1)" by (metis prod.collapse)
  from core_eqs(5) [OF core_refill [OF q]] 0 q show ?case
    by (cases q) (auto simp: data_burst_stop data_burst_0 data_refill_def word_greater_zero_iff
        split: if_splits option.splits prod.splits)
next
  case (Suc k)
  obtain q n1 w1 where q: "data_refill env remaining n w = (q, n1, w1)" by (metis prod.collapse)
  have pend: "nd_pending_data_count n1 = nd_pending_data_count n"
    by (rule core_eqs(5) [OF core_refill [OF q]])
  show ?case
  proof (cases q)
    case None
    with q Suc.prems pend show ?thesis
      by (auto simp: data_burst_stop data_refill_def split: if_splits option.splits prod.splits)
  next
    case (Some rr)
    obtain r0 f0 where rr: "rr = (r0, f0)" by (cases rr)
    have r0: "0 < r0" "f0 \<longrightarrow> r0 = 1 \<and> remaining = 0 \<and> env_refill env \<noteq> None \<and> nd_pending_data_count n = 0"
      "\<not> f0 \<longrightarrow> r0 = remaining"
      using q Some rr
      by (auto simp: data_refill_def word_greater_zero_iff split: if_splits option.splits prod.splits)
    obtain d w2 where d: "run_pre_fire_check env t w1 = (d, w2)" by (metis prod.collapse)
    obtain e n2 w3 where f: "fire_node_into env at t n1 w2 = (e, n2, w3)" by (metis prod.collapse)
    obtain es4 r4 f4 n4 w4 where b: "data_burst k env at t (r0 - 1) n2 w3 = (es4, (r4, f4), n4, w4)"
      by (metis prod.collapse)
    note burst = Suc.prems [unfolded data_burst_Suc [OF q [unfolded Some rr] d f b]]
    note IH = Suc.IH [OF b]
    note fp = fire_pending [OF f]
    show ?thesis
    proof (cases "\<not> d \<and> \<not> nd_disabled n2")
      case False
      then show ?thesis
      proof (cases d)
        case True
        then have "env_pre_fire env \<noteq> None"
          using d no_check_no_defer [of env _ _] by (metis prod.inject)
        with True burst pend r0 show ?thesis by auto
      next
        case nd: False
        with False have "nd_disabled n2" by simp
        with nd burst have res: "es = [e]" "rem = r0 - 1" "\<not> rf" "n' = n2" by simp_all
        have "remaining \<le> 1 + (r0 - 1)" using r0 by (cases f0) auto
        with res \<open>nd_disabled n2\<close> fp pend r0 show ?thesis by (cases f0) auto
      qed
    next
      case True
      with burst have res: "es = e # es4" "rem = r4" "rf = f4" "n' = n4" by simp_all
      from IH have h: "nd_pending_data_count n4 = nd_pending_data_count n2" "length es4 \<le> k"
        "r0 - 1 \<le> length es4 + (if f4 then 0 else r4)" "r4 \<le> max 1 (r0 - 1)"
        "env_refill env = None \<longrightarrow> length es4 + r4 = r0 - 1 \<and> \<not> f4"
        "f4 \<longrightarrow> nd_pending_data_count n2 = 0" "\<forall>e \<in> set es4. te_fire_time_ns e = t"
        "env_pre_fire env = None \<and> \<not> nd_disabled n4 \<and> r0 - 1 \<le> k \<and> \<not> f4 \<longrightarrow> r4 = 0"
        by blast+
      have "remaining \<le> Suc (length es4) + (if f4 then 0 else r4)"
        using h(3) r0 by (cases f0) auto
      moreover have "r4 \<le> max 1 remaining" using h(4) r0 by (cases f0) auto
      moreover have "env_refill env = None \<longrightarrow> Suc (length es4) + r4 = remaining \<and> \<not> f4"
        using h(5) r0 by (cases f0) auto
      moreover have "env_pre_fire env = None \<and> \<not> nd_disabled n4 \<and> remaining \<le> Suc k \<and> \<not> f4 \<longrightarrow> r4 = 0"
        using h(8) r0 by (cases f0) auto
      ultimately show ?thesis using h(1,2,6,7) fp pend unfolding res by simp
    qed
  qed
qed

text \<open>
  Where \<open>handed\<close> counts the frames that the refill hands over, and neither the callback nor the pre-fire check
  changes it, a burst accounts for every frame: fired, or left, signalled or refilled.
\<close>

definition counts_refills :: "'w node_env \<Rightarrow> ('w \<Rightarrow> nat) \<Rightarrow> bool" where
  "counts_refills env handed \<longleftrightarrow>
     (case env_refill env of None \<Rightarrow> True
      | Some (_, drain) \<Rightarrow> \<forall>w. handed (snd (drain w)) = handed w + (if fst (fst (drain w)) = 0 then 0 else 1)) \<and>
     (\<forall>b w. handed (snd (env_callback env b w)) = handed w) \<and>
     (case env_pre_fire env of None \<Rightarrow> True | Some check \<Rightarrow> \<forall>t w. handed (snd (check t w)) = handed w)"

lemma data_refill_handed:
  assumes "data_refill env remaining n w = (q, n1, w1)"
    and "counts_refills env handed"
  shows "(case q of None \<Rightarrow> remaining = 0 \<and> handed w1 = handed w
    | Some (rem, rf) \<Rightarrow> 0 < rem \<and> rem + handed w = remaining + handed w1)"
proof (cases "remaining \<noteq> 0 \<or> 0 < nd_pending_data_count n \<or> env_refill env = None")
  case True
  then show ?thesis using assms(1) by (auto simp: data_refill_def split: if_splits option.splits)
next
  case False
  then obtain input drain where r: "env_refill env = Some (input, drain)" by auto
  obtain popped ts w2 where d: "drain w = ((popped, ts), w2)" by (metis prod.collapse)
  show ?thesis using assms spec [of _ w] False r d
    by (auto simp: data_refill_def counts_refills_def split: if_splits dest: spec [of _ w])
qed

lemma data_burst_handed:
  assumes "data_burst k env at t remaining n w = (es, (rem, rf), n', w')"
    and counts: "counts_refills env handed"
  shows "length es + rem + handed w = remaining + handed w' \<and> nd_data_backlog_hint n' = nd_data_backlog_hint n \<and>
    (rf \<longrightarrow> rem = 1)"
  using assms(1)
proof (induction k arbitrary: n w es rem rf n' w' remaining)
  case 0
  obtain q n1 w1 where q: "data_refill env remaining n w = (q, n1, w1)" by (metis prod.collapse)
  have "nd_data_backlog_hint n1 = nd_data_backlog_hint n" using core_refill [OF q] by (simp add: core_def)
  moreover have "\<forall>rem. q = Some (rem, True) \<longrightarrow> rem = 1"
    using q by (auto simp: data_refill_def split: if_splits option.splits prod.splits)
  ultimately show ?case using data_refill_handed [OF q counts] 0 q
    by (cases q) (auto simp: data_burst_stop data_burst_0)
next
  case (Suc k)
  obtain q n1 w1 where q: "data_refill env remaining n w = (q, n1, w1)" by (metis prod.collapse)
  have hint: "nd_data_backlog_hint n1 = nd_data_backlog_hint n" using core_refill [OF q] by (simp add: core_def)
  have one: "\<forall>rem. q = Some (rem, True) \<longrightarrow> rem = 1"
    using q by (auto simp: data_refill_def split: if_splits option.splits prod.splits)
  have h: "(case q of None \<Rightarrow> remaining = 0 \<and> handed w1 = handed w
      | Some (rem, rf) \<Rightarrow> 0 < rem \<and> rem + handed w = remaining + handed w1)"
    by (rule data_refill_handed [OF q counts])
  show ?case
  proof (cases q)
    case None
    with q Suc.prems hint h show ?thesis by (auto simp: data_burst_stop)
  next
    case (Some rr)
    obtain r0 f0 where rr: "rr = (r0, f0)" by (cases rr)
    obtain d w2 where d: "run_pre_fire_check env t w1 = (d, w2)" by (metis prod.collapse)
    obtain e n2 w3 where f: "fire_node_into env at t n1 w2 = (e, n2, w3)" by (metis prod.collapse)
    obtain es4 r4 f4 n4 w4 where b: "data_burst k env at t (r0 - 1) n2 w3 = (es4, (r4, f4), n4, w4)"
      by (metis prod.collapse)
    have w2: "handed w2 = handed w1"
      using d counts by (auto simp: run_pre_fire_check_def counts_refills_def split: option.splits prod.splits) (metis snd_conv)+
    obtain r where "env_callback env (replay_suppressed n1) w2 = (r, w3)" "n2 = book_tick r t n1"
      using fire_node_unfold [OF f] .
    then have w3: "handed w3 = handed w2" "nd_data_backlog_hint n2 = nd_data_backlog_hint n1"
      using counts by (simp_all add: counts_refills_def) (metis snd_conv)
    show ?thesis
      using Suc.prems [unfolded data_burst_Suc [OF q [unfolded Some rr] d f b]] Suc.IH [OF b] w2 w3 hint one h Some rr
      by (auto split: if_splits)
  qed
qed

lemma fire_times_Cons:
  "map (\<lambda>i. t + of_nat i * iv) [0..<Suc m] = t # map (\<lambda>i. t + iv + of_nat i * iv) [0..<m]"
  for t iv :: u64
  by (rule nth_equalityI) (auto simp: nth_Cons distrib_right simp del: upt_Suc split: nat.split)

lemma period_burst_times:
  "period_burst k env at now iv t n w = (es, n', w') \<Longrightarrow>
   map te_fire_time_ns es = map (\<lambda>i. t + of_nat i * iv) [0..<length es] \<and> length es \<le> k \<and>
   (if length es = k \<or> nd_disabled n' then nd_next_fire_ns n' = nd_next_fire_ns n
    else nd_next_fire_ns n' = map_option (\<lambda>_. t + of_nat (length es) * iv) (nd_next_fire_ns n) \<and>
      env_pre_fire env \<noteq> None)"
  if "\<not> nd_disabled n"
  using that
proof (induction k arbitrary: n w es n' w' t)
  case (Suc k)
  obtain d w1 where d: "run_pre_fire_check env now w = (d, w1)" by (metis prod.collapse)
  obtain e n1 w2 where f: "fire_node_into env at t n w1 = (e, n1, w2)" by (metis prod.collapse)
  obtain es4 n4 w4 where b: "period_burst k env at now iv (t + iv) n1 w2 = (es4, n4, w4)"
    by (metis prod.collapse)
  note fp = fire_pending [OF f]
  consider (deferred) d | (off) "\<not> d" "nd_disabled n1" | (on) "\<not> d" "\<not> nd_disabled n1" by blast
  then show ?case
  proof cases
    case deferred
    then have "env_pre_fire env \<noteq> None"
          using d no_check_no_defer [of env _ _] by (metis prod.inject)
    with deferred Suc.prems d show ?thesis by auto
  next
    case off
    with Suc.prems d f fp show ?thesis by auto
  next
    case on
    with Suc.prems(1) d f b have res: "es = e # es4" "n' = n4" by simp_all
    have last: "t + of_nat (Suc m) * iv = t + iv + of_nat m * iv" for m
      by (simp add: distrib_right)
    have tm: "map te_fire_time_ns es4 = map (\<lambda>i. t + iv + of_nat i * iv) [0..<length es4]"
      and len: "length es4 \<le> k"
      and nx: "if length es4 = k \<or> nd_disabled n4 then nd_next_fire_ns n4 = nd_next_fire_ns n1
        else nd_next_fire_ns n4 = map_option (\<lambda>_. t + iv + of_nat (length es4) * iv) (nd_next_fire_ns n1) \<and>
          env_pre_fire env \<noteq> None"
      using Suc.IH [OF b on(2)] by blast+
    show ?thesis
      unfolding res list.map length_Cons fire_times_Cons last
      using tm len nx fp by (simp split: if_splits)
  qed
qed simp

section \<open>Properties\<close>

text \<open>A node's code that does nothing but panic, and one that does nothing but return.\<close>

definition plain_env :: "bool \<Rightarrow> unit node_env" where
  "plain_env panics =
     \<lparr>env_callback = (\<lambda>_ w. (\<lparr>tr_panicked = panics, tr_fatal = False, tr_discards = 0, tr_elapsed = 0\<rparr>, w)),
      env_pre_fire = None, env_refill = None, env_sync_op = (\<lambda>_ _ w. (AnsNothing, w))\<rparr>"

text \<open>
  C7. A node keeps its shape through its whole life: after any sequence of signals, installs, resets,
  watchdog windows, alignments and evaluations since \<open>add_node\<close>, an enabled node has fewer than three
  consecutive panics, at most 64 data signals are pending and only on a data node (what
  \<open>run_qos_windows\<close> asserts), installed Sync operations list exactly the declared inputs, and a next
  fire time exists exactly for a periodic node.
\<close>

theorem nodes_stay_well_formed:
  assumes "node_life env i policy n"
  shows "(nd_disabled n \<or> unat (nd_consecutive_panics n) < 3) \<and>
    unat (nd_pending_data_count n) \<le> 64 \<and> (nd_pending_data_count n \<noteq> 0 \<longrightarrow> nd_policy n = Data) \<and>
    (\<forall>inputs. nd_sync_ops n = Some inputs \<longrightarrow> (\<exists>window. nd_policy n = Sync inputs window)) \<and>
    (nd_next_fire_ns n \<noteq> None \<longleftrightarrow> is_period (nd_policy n))"
proof -
  have "node_ok n"
    using assms
  proof (induction rule: node_life.induct)
    case (born now)
    then show ?case
      by (simp add: node_ok_def new_node_def breaker_ok_def MAX_CONSECUTIVE_PANICS_def ops_match_def
          is_period_def split: trigger_policy.splits)
  next
    case (step n n')
    then show ?case using node_ok_step by blast
  qed
  then show ?thesis
    by (auto simp: node_ok_def breaker_ok_def MAX_CONSECUTIVE_PANICS_def word_less_nat_alt ops_match_Some)
qed

theorem nodes_stay_well_formed_witness:
  "unat (nd_pending_data_count (snd (signal_data (new_node ''n'' Data 7)))) \<le> 64"
proof -
  have "node_life (plain_env False) ''n'' Data (snd (signal_data (new_node ''n'' Data 7)))"
    by (rule node_life.step [OF node_life.born node_step.signal_data])
  from nodes_stay_well_formed [OF this] show ?thesis by blast
qed

fun evaluate_all :: "'w node_env \<Rightarrow> fire_at \<Rightarrow> u32 option \<Rightarrow> u64 list \<Rightarrow> scheduled_node \<Rightarrow> 'w \<Rightarrow>
    trace_entry list \<times> scheduled_node \<times> 'w" where
  "evaluate_all env at ov [] n w = ([], n, w)"
| "evaluate_all env at ov (now # nows) n w =
     (let (es, n1, w1) = evaluate_node env at now ov n w;
          (fs, n2, w2) = evaluate_all env at ov nows n1 w1
      in (es @ fs, n2, w2))"

text \<open>
  C15. The circuit breaker: a node whose code always panics fires at most three times in all, whatever
  its trigger and however often it is evaluated, is disabled exactly when three consecutive panics
  are reached, and once disabled an evaluation touches neither the node nor the world.
\<close>

theorem three_panics_disable:
  assumes "\<And>b v. tr_panicked (fst (env_callback env b v))"
    and "nd_disabled n \<or> unat (nd_consecutive_panics n) < 3"
    and "evaluate_all env at ov nows n w = (es, n', w')"
  shows "if nd_disabled n then es = [] \<and> n' = n \<and> w' = w
    else unat (nd_consecutive_panics n') = unat (nd_consecutive_panics n) + length es \<and>
      length es \<le> 3 \<and> (nd_disabled n' \<longleftrightarrow> unat (nd_consecutive_panics n') = 3)"
proof -
  have "breaker_ok n"
    using assms(2) by (simp add: breaker_ok_def MAX_CONSECUTIVE_PANICS_def word_less_nat_alt)
  then have "if nd_disabled n then es = [] \<and> n' = n \<and> w' = w else panics_by (length es) n n'"
    using assms(3)
  proof (induction nows arbitrary: n w es)
    case Nil
    then show ?case by (auto simp: panics_by_refl)
  next
    case (Cons now nows)
    obtain es1 n1 w1 where e: "evaluate_node env at now ov n w = (es1, n1, w1)" by (metis prod.collapse)
    obtain es2 n2 w2 where a: "evaluate_all env at ov nows n1 w1 = (es2, n2, w2)" by (metis prod.collapse)
    have res: "es = es1 @ es2" "n' = n2" "w' = w2" using Cons.prems(2) e a by simp_all
    note ev = evaluate_panics [OF e assms(1) Cons.prems(1)]
    have "breaker_ok n1" using ev Cons.prems(1) by (auto simp: panics_by_def split: if_splits)
    have a': "evaluate_all env at ov nows n1 w1 = (es2, n', w')" using a res by simp
    note all = Cons.IH [OF \<open>breaker_ok n1\<close> a']
    show ?case
    proof (cases "nd_disabled n")
      case True
      with ev all res show ?thesis by simp
    next
      case False
      with ev all res show ?thesis by (auto simp: panics_by_def split: if_splits)
    qed
  qed
  then show ?thesis
    by (auto simp: panics_by_def breaker_ok_def MAX_CONSECUTIVE_PANICS_def word_less_nat_alt split: if_splits)
qed

theorem three_panics_disable_witness:
  "length (fst (evaluate_all (plain_env True) (0, 1) None [5, 15, 25]
     (new_node ''p'' (Period 10 None) 0) ())) \<le> 3"
proof -
  obtain es n' w' where e: "evaluate_all (plain_env True) (0, 1) None [5, 15, 25]
      (new_node ''p'' (Period 10 None) 0) () = (es, n', w')" by (metis prod.collapse)
  have "\<And>b v. tr_panicked (fst (env_callback (plain_env True) b v))" by (simp add: plain_env_def)
  from three_panics_disable [OF this _ e] show ?thesis unfolding e by (simp add: new_node_def)
qed

text \<open>
  C33. An aligned set fires: when the align pass found one and the node is enabled and its pre-fire check, if it has one,
  does not defer it, deciding the node is a Sync fire of up to 64 sets at the step's time, and clears the backlog hint.
\<close>

theorem aligned_sets_are_decided:
  assumes "align_node_sync_heads op site n w = (Complete, n', w')"
    and "nd_policy n = Sync inputs window" and "nd_sync_ops n = Some inputs"
    and "\<not> nd_disabled n'" and "run_pre_fire_check env now v = (False, v')"
  shows "decide_node env now ov n' v = ((Some (FkSync now 64), set_backlog False n'), v')"
proof -
  note c = align_complete [OF assms(1-3)]
  have pol: "nd_policy n' = Sync inputs window"
    using core_eqs(3) [OF core_align [OF assms(1)]] assms(2) by simp
  have "heads_of (set_backlog False n') inputs = heads_of n' inputs"
    by (simp add: heads_of_def set_backlog_def)
  moreover have "length inputs = length (heads_of n' inputs)" by (simp add: heads_of_def)
  ultimately have "decide_sync inputs window now n' = (Some (FkSync now 64), set_backlog False n')"
    using complete_fires [OF c] by (simp add: decide_sync_def DATA_PENDING_CARRY_CLAMP_def)
  then show ?thesis
    using assms(4,5) pol by (simp add: decide_node_def)
qed

theorem aligned_sets_are_decided_witness:
  "\<exists>n'. fst (fst (decide_node ((plain_env False)\<lparr>env_pre_fire := Some (\<lambda>_ w. (Some False, w))\<rparr>) 9 None n' ())) =
     Some (FkSync 9 64)"
proof -
  let ?env = "(plain_env False)\<lparr>env_pre_fire := Some (\<lambda>_ w. (Some False, w))\<rparr>"
  obtain n' where a: "align_node_sync_heads lone_input_op Boundary lone_input_node () = (Complete, n', ())"
    using lone_input_aligns by blast
  have "nd_disabled n' = nd_disabled lone_input_node" by (rule core_eqs(1) [OF core_align [OF a]])
  then have dis: "\<not> nd_disabled n'" by (simp add: lone_input_node_def new_node_def)
  have ops: "nd_policy lone_input_node = Sync [''a''] None" "nd_sync_ops lone_input_node = Some [''a'']"
    "run_pre_fire_check ?env 9 () = (False, ())"
    by (simp_all add: lone_input_node_def new_node_def run_pre_fire_check_def)
  from aligned_sets_are_decided [OF a ops(1,2) dis ops(3), of None] show ?thesis
    by (intro exI [of _ n']) simp
qed

text \<open>
  C26. A Sync burst fires sets and nothing else: it fires at most \<open>max_sets\<close> times, each fire on a
  complete in-window tuple of heads, and when it stops with a set aligned but unfired (the cap or a
  deferral) that set is still complete in the heads.
\<close>

theorem sync_burst_fires_sets:
  assumes "sync_burst max_sets env at t n w = (es, unfired, n', w')"
    and "complete_set (heads_of n inputs) window"
    and "nd_policy n = Sync inputs window" and "nd_sync_ops n = Some inputs"
  shows "length es \<le> max_sets \<and> length (fired_sets max_sets env at t inputs n w) = length es \<and>
    (\<forall>S \<in> set (fired_sets max_sets env at t inputs n w). complete_set S window) \<and>
    (unfired \<longrightarrow> complete_set (heads_of n' inputs) window)"
  using sync_burst_sets [OF assms] by blast

theorem sync_burst_fires_sets_witness:
  "length (fst (sync_burst 2 (plain_env False) (0, 1) 5
     (lone_input_node\<lparr>nd_sync_heads := [''a'' \<mapsto> filled_head 5]\<rparr>) ())) \<le> 2"
proof -
  let ?n = "lone_input_node\<lparr>nd_sync_heads := [''a'' \<mapsto> filled_head 5]\<rparr>"
  obtain es u n' w' where b: "sync_burst 2 (plain_env False) (0, 1) 5 ?n () = (es, u, n', w')"
    by (metis prod.collapse)
  have "complete_set (heads_of ?n [''a'']) None"
    by (simp add: complete_set_def heads_of_def filled_head_def is_filled_def in_window_def)
  from sync_burst_fires_sets [OF b this] show ?thesis
    unfolding b by (simp add: lone_input_node_def new_node_def)
qed

text \<open>
  C22. Messages are conserved: evaluating a data node fires at most 64 times, all at the step's time, and every fire
  is a signalled message or a frame that its refill handed over: those fired, those still pending and the one frame that was
  refilled and not fired, which raises the backlog hint, are the messages pending before and the frames handed over
  since. Nothing is lost and nothing is fired twice. With no pre-fire check and the node left enabled, nothing
  stays pending. \<open>handed\<close> is any count in the world that a refill raises by one when it pops, and that the callback
  and the pre-fire check leave alone.
\<close>

theorem data_fires_are_conserved:
  assumes "evaluate_node env at now ov n w = (es, n', w')"
    and "nd_policy n = Data" and "unat (nd_pending_data_count n) \<le> 64"
    and counts: "counts_refills env handed"
  shows "length es \<le> 64 \<and> unat (nd_pending_data_count n') \<le> 64 \<and>
    length es + unat (nd_pending_data_count n') + (if es \<noteq> [] \<and> nd_data_backlog_hint n' then 1 else 0) + handed w =
      unat (nd_pending_data_count n) + handed w' \<and>
    (\<forall>e \<in> set es. te_fire_time_ns e = now) \<and>
    (env_pre_fire env = None \<and> \<not> nd_disabled n' \<longrightarrow> nd_pending_data_count n' = 0)"
proof -
  let ?p = "nd_pending_data_count n"
  have mn: "min ?p DATA_PENDING_CARRY_CLAMP = ?p"
    using assms(3) by (simp add: min_def DATA_PENDING_CARRY_CLAMP_def word_le_nat_alt)
  obtain d w1 where d: "run_pre_fire_check env now w = (d, w1)" by (metis prod.collapse)
  then have w1: "handed w1 = handed w"
    using assms(4) by (auto simp: run_pre_fire_check_def counts_refills_def split: option.splits prod.splits) (metis snd_conv)+
  consider (off) "nd_disabled n" | (deferred) "\<not> nd_disabled n" d
    | (idle) "\<not> nd_disabled n" "\<not> d" "?p = 0" | (busy) "\<not> nd_disabled n" "\<not> d" "?p \<noteq> 0" by blast
  then show ?thesis
  proof cases
    case off
    with assms(1-3) show ?thesis by (simp add: evaluate_node_def decide_node_def)
  next
    case deferred
    then have "env_pre_fire env \<noteq> None" using d by (auto simp: run_pre_fire_check_def split: option.splits)
    with deferred assms(1-3) d w1 show ?thesis by (auto simp: evaluate_node_def decide_node_def)
  next
    case idle
    with assms(1,2) d have "es = []" "n' = n\<lparr>nd_data_backlog_hint := False\<rparr>" "w' = w1"
      by (simp_all add: evaluate_node_def decide_node_def decide_data_def DATA_PENDING_CARRY_CLAMP_def)
    with idle w1 show ?thesis by simp
  next
    case busy
    let ?n1 = "n\<lparr>nd_data_backlog_hint := False, nd_pending_data_count := 0\<rparr>"
    obtain es0 rem rf n2 w2 where
      b: "data_burst 64 env at now (unat ?p) ?n1 w1 = (es0, (rem, rf), n2, w2)" by (metis prod.collapse)
    note c = data_burst_counts [OF b]
    have ex: "length es0 + rem + handed w1 = unat ?p + handed w2" "\<not> nd_data_backlog_hint n2" "rf \<longrightarrow> rem = 1"
      using data_burst_handed [OF b assms(4)] by simp_all
    have "decide_node env now ov n w = ((Some (FkData now (unat ?p)), ?n1), w1)"
      using busy d assms(2) mn by (simp add: decide_node_def decide_data_def word_greater_zero_iff)
    with assms(1) b have res: "es = es0" "w' = w2"
      "n' = (if rf then n2\<lparr>nd_data_backlog_hint := True\<rparr>
             else if 0 < rem then n2\<lparr>nd_pending_data_count := min (nd_pending_data_count n2 + of_nat rem) 64\<rparr>
             else n2)"
      by (auto simp: evaluate_node_def tick_node_def tick_data_burst_def DATA_PENDING_CARRY_CLAMP_def)
    have p1: "1 \<le> unat ?p" using busy(3) by (simp add: unat_gt_0 Suc_le_eq)
    have rem64: "rem \<le> 64" using c p1 assms(3) by auto
    then have ur: "unat (of_nat rem :: u64) = rem" by (intro unat_of_nat_eq) simp
    have "min (0 + of_nat rem) 64 = (of_nat rem :: u64)"
      using ur rem64 by (simp add: min_def word_le_nat_alt)
    with c res(3) ur have pend: "unat (nd_pending_data_count n') = (if rf then 0 else rem)"
      "nd_disabled n' = nd_disabled n2"
      by auto
    have hint: "nd_data_backlog_hint n' = rf" using res(3) ex(2) by (cases rf) auto
    have fired: "rf \<longrightarrow> es0 \<noteq> []" using c p1 by auto
    have zero: "nd_pending_data_count n' = 0" if "env_pre_fire env = None" "\<not> nd_disabled n'"
      using that c pend assms(3) by (cases rf) (auto simp: unat_eq_0 [symmetric])
    show ?thesis
      using c pend rem64 zero ex(1,3) hint fired w1 unfolding res(1,2) by (cases rf) auto
  qed
qed

definition queue_env :: "(nat \<times> nat) node_env" where
  "queue_env =
     \<lparr>env_callback = (\<lambda>_ w. (\<lparr>tr_panicked = False, tr_fatal = False, tr_discards = 0, tr_elapsed = 0\<rparr>, w)),
      env_pre_fire = None,
      env_refill = Some (''a'', \<lambda>(queued, popped). if queued = 0 then ((0, None), (0, popped))
        else ((1, None), (queued - 1, popped + 1))),
      env_sync_op = (\<lambda>_ _ w. (AnsNothing, w))\<rparr>"

theorem data_fires_are_conserved_witness:
  "let (es, n', w') = evaluate_node queue_env (0, 1) 5 None (snd (signal_data (new_node ''d'' Data 0))) (2, 0)
   in length es + (if es \<noteq> [] \<and> nd_data_backlog_hint n' then 1 else 0) = 1 + snd w' \<and> nd_pending_data_count n' = 0 \<or>
      nd_disabled n'"
proof -
  let ?n = "snd (signal_data (new_node ''d'' Data 0))"
  obtain es n' w' where e: "evaluate_node queue_env (0, 1) 5 None ?n (2, 0) = (es, n', w')"
    by (metis prod.collapse)
  have p: "nd_policy ?n = Data" "nd_pending_data_count ?n = 1"
    by (simp_all add: signal_data_def new_node_def DATA_PENDING_CARRY_CLAMP_def)
  have q: "counts_refills queue_env snd" "env_pre_fire queue_env = None" by (simp_all add: counts_refills_def queue_env_def)
  have "unat (nd_pending_data_count ?n) \<le> 64" using p(2) by simp
  with data_fires_are_conserved [OF e p(1) _ q(1)] p(2) q(2) show ?thesis unfolding e by auto
qed

text \<open>
  A deferred catch-up loses no fire: evaluating an enabled periodic node fires at consecutive
  intervals from the deadline that was due, at most as many as were decided; if a pre-fire check
  stops it early, the next deadline is the first interval it did not fire, so a later step resumes
  there; if it is not stopped, the next deadline is the one the advance computed.
\<close>

theorem deferred_period_resumes:
  assumes "evaluate_node env at now ov n w = (es, n', w')"
    and "nd_policy n = Period interval max_catchup" and "nd_next_fire_ns n = Some nf"
    and "\<not> nd_disabled n" and "fst (run_pre_fire_check env now w) = False"
  defines "adv \<equiv> period_advance nf now (duration_ns interval) (effective_max_catchup max_catchup ov)"
  shows "length es \<le> unat (adv_fire_count adv) \<and>
    map te_fire_time_ns es = map (\<lambda>i. nf + of_nat i * duration_ns interval) [0..<length es] \<and>
    (\<not> nd_disabled n' \<longrightarrow> nd_next_fire_ns n' =
       Some (if length es = unat (adv_fire_count adv) then adv_next_fire_ns adv
             else nf + of_nat (length es) * duration_ns interval))"
proof -
  let ?n1 = "n\<lparr>nd_next_fire_ns := Some (adv_next_fire_ns adv)\<rparr>"
  obtain w1 where d: "run_pre_fire_check env now w = (False, w1)" using assms(5) by (metis prod.collapse)
  have dec: "decide_node env now ov n w =
      ((if adv_fire_count adv = 0 then None
        else Some (FkPeriod (adv_first_fire_ns adv) (adv_fire_count adv) (duration_ns interval) now), ?n1), w1)"
    using assms(2-4) d by (simp add: decide_node_def decide_period_def adv_def Let_def)
  show ?thesis
  proof (cases "adv_fire_count adv = 0")
    case True
    with assms(1) dec show ?thesis by (auto simp: evaluate_node_def)
  next
    case False
    have first: "adv_first_fire_ns adv = nf"
      using False by (auto simp: adv_def period_advance_def Let_def split: if_splits)
    have b: "period_burst (unat (adv_fire_count adv)) env at now (duration_ns interval) nf ?n1 w1 = (es, n', w')"
      using assms(1) dec False first by (simp add: evaluate_node_def tick_node_def)
    have "\<not> nd_disabled ?n1" using assms(4) by simp
    from period_burst_times [OF this b] show ?thesis
      by (cases "length es = unat (adv_fire_count adv)") auto
  qed
qed

theorem deferred_period_resumes_witness:
  "\<exists>m. map te_fire_time_ns (fst (evaluate_node (plain_env False) (0, 1) 25 None
       (new_node ''p'' (Period 10 None) 0) ())) = map (\<lambda>i. 10 + of_nat i * 10) [0..<m]"
proof -
  let ?n = "new_node ''p'' (Period 10 None) 0"
  obtain es n' w' where e: "evaluate_node (plain_env False) (0, 1) 25 None ?n () = (es, n', w')"
    by (metis prod.collapse)
  have "sat_add 0 (duration_ns 10) = 10" "duration_ns 10 = 10"
    by (simp_all add: sat_add_def duration_ns_def)
  then have n: "nd_policy ?n = Period 10 None" "nd_next_fire_ns ?n = Some 10" "duration_ns 10 = 10"
    "\<not> nd_disabled ?n" "fst (run_pre_fire_check (plain_env False) 25 ()) = False"
    by (simp_all add: new_node_def run_pre_fire_check_def plain_env_def)
  from deferred_period_resumes [OF e n(1,2,4,5)] show ?thesis unfolding e n(3) by auto
qed

end
