(* ===== verification/Isolation.thy ===== *)
theory Isolation
  imports NodeFire
begin

text \<open>
  Nodes that share no state. Node \<open>i\<close>'s code works on its own part of a world \<open>string \<Rightarrow> 's\<close>: its
  environment is \<open>lift_env i e\<close> for an environment \<open>e\<close> on \<open>'s\<close>. The lemmas carry each operation of
  the align driver and of the fire from \<open>e\<close> to \<open>lift_env i e\<close>: what a node does depends on its part of
  the world and changes only that part.
\<close>

definition lift_at :: "'k \<Rightarrow> ('s \<Rightarrow> 'a \<times> 's) \<Rightarrow> ('k \<Rightarrow> 's) \<Rightarrow> 'a \<times> ('k \<Rightarrow> 's)" where
  "lift_at i f w = apsnd (\<lambda>s. w(i := s)) (f (w i))"

definition lift_op :: "'k \<Rightarrow> 's sync_op_fn \<Rightarrow> ('k \<Rightarrow> 's) sync_op_fn" where
  "lift_op i op x head_op = lift_at i (op x head_op)"

definition lift_env :: "'k \<Rightarrow> 's node_env \<Rightarrow> ('k \<Rightarrow> 's) node_env" where
  "lift_env i e =
     \<lparr>env_callback = (\<lambda>b. lift_at i (env_callback e b)),
      env_pre_fire = map_option (\<lambda>check t. lift_at i (check t)) (env_pre_fire e),
      env_refill = map_option (\<lambda>(x, drain). (x, lift_at i drain)) (env_refill e),
      env_sync_op = lift_op i (env_sync_op e)\<rparr>"

named_theorems lifts

lemma lift_env_sel [simp]:
  "env_callback (lift_env i e) b = lift_at i (env_callback e b)"
  "env_pre_fire (lift_env i e) = map_option (\<lambda>check t. lift_at i (check t)) (env_pre_fire e)"
  "env_refill (lift_env i e) = map_option (\<lambda>(x, drain). (x, lift_at i drain)) (env_refill e)"
  "env_sync_op (lift_env i e) = lift_op i (env_sync_op e)"
  by (simp_all add: lift_env_def)

lemma lift_op_app [simp]: "lift_op i op x head_op w = apsnd (\<lambda>s. w(i := s)) (op x head_op (w i))"
  by (simp add: lift_op_def lift_at_def)

lemma lift_at_app [simp]: "lift_at i f w = apsnd (\<lambda>s. w(i := s)) (f (w i))"
  by (simp add: lift_at_def)

section \<open>The align driver\<close>

text \<open>Results with one, two and three components before the world.\<close>

abbreviation into2 :: "'k \<Rightarrow> ('k \<Rightarrow> 's) \<Rightarrow> 'a \<times> 's \<Rightarrow> 'a \<times> ('k \<Rightarrow> 's)" where
  "into2 i w \<equiv> apsnd (\<lambda>s. w(i := s))"

abbreviation into3 :: "'k \<Rightarrow> ('k \<Rightarrow> 's) \<Rightarrow> 'a \<times> 'b \<times> 's \<Rightarrow> 'a \<times> 'b \<times> ('k \<Rightarrow> 's)" where
  "into3 i w \<equiv> apsnd (apsnd (\<lambda>s. w(i := s)))"

abbreviation into4 :: "'k \<Rightarrow> ('k \<Rightarrow> 's) \<Rightarrow> 'a \<times> 'b \<times> 'c \<times> 's \<Rightarrow> 'a \<times> 'b \<times> 'c \<times> ('k \<Rightarrow> 's)" where
  "into4 i w \<equiv> apsnd (apsnd (apsnd (\<lambda>s. w(i := s))))"

lemma lift_discard_stale [lifts]:
  "discard_stale_epoch_head (lift_op i op) x n w = into2 i w (discard_stale_epoch_head op x n (w i))"
  by (simp add: discard_stale_epoch_head_def)

lemma lift_epoch_discards [lifts]:
  "epoch_discards (lift_op i op) tr xs n w = into2 i w (epoch_discards op tr xs n (w i))"
  by (induction xs arbitrary: n w) (simp_all add: lifts split: prod.splits)

lemma lift_epoch_reset [lifts]:
  "apply_sync_epoch_reset (lift_op i op) ins tr ts n w = into2 i w (apply_sync_epoch_reset op ins tr ts n (w i))"
  by (simp add: apply_sync_epoch_reset_def lifts split: prod.splits)

lemma lift_take_head [lifts]:
  "take_head (lift_op i op) ins wn x ts n w = into3 i w (take_head op ins wn x ts n (w i))"
  by (simp add: take_head_def lifts split: prod.splits head_fill.splits)

lemma lift_fill_pass [lifts]:
  "fill_pass (lift_op i op) ins wn fo xs n w = into3 i w (fill_pass op ins wn fo xs n (w i))"
  by (induction xs arbitrary: n w)
    (simp_all add: lifts split: prod.splits sync_op_answer.splits bool.splits)

lemma lift_void_unbacked [lifts]:
  "void_unbacked (lift_op i op) xs hs n w = into2 i w (void_unbacked op xs hs n (w i))"
  by (induction op xs hs n "w i" arbitrary: w rule: void_unbacked.induct)
    (auto simp: Let_def split: prod.splits)

text \<open>A turn's outcome carries the world in either case.\<close>

abbreviation into_turn :: "'k \<Rightarrow> ('k \<Rightarrow> 's) \<Rightarrow> 's align_turn \<Rightarrow> ('k \<Rightarrow> 's) align_turn" where
  "into_turn i w \<equiv> map_align_turn (\<lambda>s. w(i := s))"

lemma lift_need_next [lifts]:
  "turn_need_next (lift_op i op) ins j site st n w = into_turn i w (turn_need_next op ins j site st n (w i))"
  by (simp add: turn_need_next_def split: prod.splits sync_op_answer.splits)

lemma lift_need_stamp [lifts]:
  "turn_need_stamp (lift_op i op) ins site j st n w =
   into_turn i w (turn_need_stamp op ins site j st n (w i))"
  by (simp add: turn_need_stamp_def split: prod.splits sync_op_answer.splits)

lemma lift_after_advance [lifts]:
  "after_advance (lift_op i op) ins wn j new st n w =
   into_turn i w (after_advance op ins wn j new st n (w i))"
  by (simp add: after_advance_def lifts split: prod.splits option.splits bool.splits)

lemma lift_turn_advance [lifts]:
  "turn_advance (lift_op i op) ins wn site j st n w =
   into_turn i w (turn_advance op ins wn site j st n (w i))"
  by (simp add: turn_advance_def lifts Let_def split: prod.splits sync_op_answer.splits)

lemma case_into_turn:
  "case_align_turn f g (into_turn i w t) = case_align_turn (\<lambda>oc n s. f oc n (w(i := s)))
     (\<lambda>st n s. g st n (w(i := s))) t"
  by (cases t) simp_all

lemma into_turn_case:
  "into_turn i w (case_align_turn f g t) =
     case_align_turn (\<lambda>oc n s. into_turn i w (f oc n s)) (\<lambda>st n s. into_turn i w (g st n s)) t"
  by (cases t) simp_all

lemma lift_turn_discard [lifts]:
  "turn_discard (lift_op i op) ins wn site js st n w =
   into_turn i w (turn_discard op ins wn site js st n (w i))"
proof (induction js arbitrary: st n w)
  case (Cons j js)
  obtain a s where o: "op (ins ! j) (sync_head_op.Advance site) (w i) = (a, s)" by (metis prod.collapse)
  then have o': "lift_op i op (ins ! j) (sync_head_op.Advance site) w = (a, w(i := s))" by simp
  show ?case
    by (cases a) (simp_all add: o o' lifts Cons.IH Let_def case_into_turn into_turn_case fun_upd_same
        del: lift_op_app fun_upd_apply split: align_turn.split)
qed simp

lemma lift_align_turn [lifts]:
  "align_turn (lift_op i op) ins window site st n w =
   into_turn i w (align_turn op ins window site st n (w i))"
  by (simp add: align_turn_def lifts Let_def split: sync_step.splits prod.splits)

lemma lift_align_loop [lifts]:
  "align_loop k (lift_op i op) ins window site st n w =
   into3 i w (align_loop k op ins window site st n (w i))"
  by (induction k arbitrary: st n w) (simp_all add: lifts split: align_turn.splits)

lemma lift_align_pass [lifts]:
  "align_sync_pass (lift_op i op) ins window site n w =
   into3 i w (align_sync_pass op ins window site n (w i))"
  by (simp add: align_sync_pass_def lifts Let_def split: prod.splits bool.splits)

lemma lift_align_node [lifts]:
  "align_node_sync_heads (lift_op i op) site n w =
   into3 i w (align_node_sync_heads op site n (w i))"
  by (simp add: align_node_sync_heads_def lifts Let_def split: prod.splits option.splits trigger_policy.splits)

section \<open>Deciding and firing\<close>

lemma lift_pre_fire [lifts]:
  "run_pre_fire_check (lift_env i e) t w = into2 i w (run_pre_fire_check e t (w i))"
  by (simp add: run_pre_fire_check_def split: prod.splits option.splits)

lemma lift_fire [lifts]:
  "fire_node_into (lift_env i e) at t n w = into3 i w (fire_node_into e at t n (w i))"
  by (simp add: fire_node_into_def Let_def split: prod.splits)

lemma lift_decide [lifts]:
  "decide_node (lift_env i e) now ov n w = into2 i w (decide_node e now ov n (w i))"
  by (simp add: decide_node_def lifts Let_def split: prod.splits)

lemma lift_sync_burst [lifts]:
  "sync_burst k (lift_env i e) at t n w = into4 i w (sync_burst k e at t n (w i))"
proof (induction k arbitrary: n w)
  case (Suc k)
  obtain d s1 where d: "run_pre_fire_check e t (w i) = (d, s1)" by (metis prod.collapse)
  obtain x n1 s2 where f: "fire_node_into e at t n s1 = (x, n1, s2)" by (metis prod.collapse)
  obtain oc n3 s3 where a: "align_node_sync_heads (env_sync_op e) Refill
      (mark_sync_heads_emitted n1) s2 = (oc, n3, s3)" by (metis prod.collapse)
  show ?case
    using Suc.IH [of n3 "w(i := s3)"]
    by (simp add: lifts d f a Let_def fun_upd_same del: fun_upd_apply lift_op_app split: align_outcome.splits prod.splits)
qed simp

lemma lift_refill [lifts]:
  "data_refill (lift_env i e) k n w = into3 i w (data_refill e k n (w i))"
  by (simp add: data_refill_def Let_def split: prod.splits option.splits)

lemma lift_data_burst [lifts]:
  "data_burst k (lift_env i e) at t rem n w = into4 i w (data_burst k e at t rem n (w i))"
proof (induction k arbitrary: rem n w)
  case 0
  show ?case
    unfolding data_burst.simps [of 0]
    by (simp add: lifts del: fun_upd_apply split: prod.splits option.splits)
next
  case (Suc k)
  obtain q n1 s1 where q: "data_refill e rem n (w i) = (q, n1, s1)" by (metis prod.collapse)
  show ?case
  proof (cases q)
    case None
    with q show ?thesis unfolding data_burst.simps [of "Suc k"] by (simp add: lifts del: fun_upd_apply)
  next
    case (Some rr)
    obtain r rf where rr: "rr = (r, rf)" by (cases rr)
    obtain d s2 where d: "run_pre_fire_check e t s1 = (d, s2)" by (metis prod.collapse)
    obtain x n2 s3 where f: "fire_node_into e at t n1 s2 = (x, n2, s3)" by (metis prod.collapse)
    show ?thesis
      unfolding data_burst.simps [of "Suc k"]
      using Suc.IH [of "r - 1" n2 "w(i := s3)"]
      by (simp add: lifts q Some rr d f Let_def fun_upd_same del: fun_upd_apply lift_op_app split: prod.splits)
  qed
qed

lemma lift_period_burst [lifts]:
  "period_burst k (lift_env i e) at now iv t n w = into3 i w (period_burst k e at now iv t n (w i))"
proof (induction k arbitrary: t n w)
  case (Suc k)
  obtain d s1 where d: "run_pre_fire_check e now (w i) = (d, s1)" by (metis prod.collapse)
  obtain x n1 s2 where f: "fire_node_into e at t n s1 = (x, n1, s2)" by (metis prod.collapse)
  show ?case
    using Suc.IH [of "t + iv" n1 "w(i := s2)"] by (simp add: lifts d f Let_def fun_upd_same del: fun_upd_apply lift_op_app split: prod.splits)
qed simp

lemma lift_tick [lifts]:
  "tick_node (lift_env i e) at kind n w = into3 i w (tick_node e at kind n (w i))"
  by (cases kind) (simp_all add: tick_node_def tick_data_burst_def tick_sync_burst_def lifts Let_def
      split: prod.splits)

section \<open>Independent updates\<close>

text \<open>
  The entries \<open>A\<close> of a list of nodes and their parts of the world, named by \<open>key\<close>, are replaced by
  what \<open>R\<close> says; everything else is as it was. Two such updates of the same start agree, in whatever
  order they were made.
\<close>

definition ran :: "(nat \<Rightarrow> 'k) \<Rightarrow> nat set \<Rightarrow> (nat \<Rightarrow> 'n \<times> 's) \<Rightarrow> 'n list \<times> ('k \<Rightarrow> 's) \<Rightarrow>
    'n list \<times> ('k \<Rightarrow> 's) \<Rightarrow> bool" where
  "ran key A R x y \<longleftrightarrow> length (fst y) = length (fst x) \<and>
     (\<forall>i < length (fst x). fst y ! i = (if i \<in> A then fst (R i) else fst x ! i)) \<and>
     (\<forall>i \<in> A. snd y (key i) = snd (R i)) \<and>
     (\<forall>k. k \<notin> key ` A \<longrightarrow> snd y k = snd x k)"

lemma ran_empty: "ran key {} R x x"
  by (simp add: ran_def)

lemma ran_unique:
  assumes "ran key A R x y" "ran key A R x z"
  shows "y = z"
proof (rule prod_eqI)
  show "fst y = fst z" using assms by (intro nth_equalityI) (auto simp: ran_def)
  show "snd y = snd z"
  proof
    fix k
    show "snd y k = snd z k" using assms by (cases "k \<in> key ` A") (auto simp: ran_def)
  qed
qed

lemma ran_insert:
  assumes "ran key A R (ns[i := fst (R i)], w(key i := snd (R i))) y" "i \<notin> A" "inj_on key (insert i A)"
    and "i < length ns"
  shows "ran key (insert i A) R (ns, w) y"
proof -
  have "key i \<notin> key ` A" using assms(2,3) by (auto simp: inj_on_def)
  with assms show ?thesis by (auto simp: ran_def nth_list_update)
qed

lemma ran_comp:
  assumes "ran key A R x y" "ran key B R y z" "A \<inter> B = {}" "inj_on key (A \<union> B)"
  shows "ran key (A \<union> B) R x z"
proof -
  have "key i \<notin> key ` B" if "i \<in> A" for i
    using that assms(3,4) by (auto simp: inj_on_def)
  with assms(1,2) show ?thesis by (auto simp: ran_def image_Un)
qed

lemma ran_again:
  assumes "ran key A R x y" "ran key B S y z" "B \<subseteq> A" "inj_on key A"
  shows "ran key A (\<lambda>i. if i \<in> B then S i else R i) x z"
proof -
  have "key i \<notin> key ` B" if "i \<in> A" "i \<notin> B" for i
    using that assms(3,4) by (auto simp: inj_on_def)
  moreover have "key ` B \<subseteq> key ` A" using assms(3) by blast
  then have "k \<notin> key ` B" if "k \<notin> key ` A" for k using that by blast
  ultimately show ?thesis using assms(1-3) by (auto simp: ran_def)
qed

lemma ran_other:
  assumes "ran key A R (ns, w) (ns', w')" "i < length ns" "i \<notin> A" "A \<subseteq> {..<length ns}"
    and "inj_on key {..<length ns}"
  shows "ns' ! i = ns ! i \<and> w' (key i) = w (key i)"
proof -
  have "key i \<notin> key ` A" using assms(2-5) by (auto simp: inj_on_def subset_iff)
  with assms(1-3) show ?thesis by (simp add: ran_def)
qed

lemma ran_same: "ran key A R x y \<Longrightarrow> (\<And>i. i \<in> A \<Longrightarrow> R i = S i) \<Longrightarrow> ran key A S x y"
  by (simp add: ran_def)

end
