(* ===== verification/SchedStep.thy ===== *)
theory SchedStep
  imports Isolation
begin

text \<open>
  One step of the scheduler (\<open>Scheduler::step\<close>) and the three ways the level executor fires a level:
  decide then tick, decide and tick fused, and the parallel tick (\<open>scheduler/mod.rs\<close>).

  The nodes are the insertion-ordered map of the code, a list keyed by \<open>nd_id\<close>; the node code is a
  parameter \<open>envs\<close> from a node's id. The thread pool is a parameter too: \<open>order\<close> is the order in
  which the nodes of a parallel pass happen to run. The recording ring and the replay plan are not
  modelled.
\<close>

section \<open>State\<close>

text \<open>\<open>Real\<close> holds what reading the external clock returns.\<close>

datatype sched_clock = Virtual u64 | Barrier u64 | Real u64

fun clock_now :: "sched_clock \<Rightarrow> u64" where
  "clock_now (Virtual t) = t"
| "clock_now (Barrier t) = t"
| "clock_now (Real t) = t"

fun clock_advance :: "u64 \<Rightarrow> sched_clock \<Rightarrow> u64 \<times> sched_clock" where
  "clock_advance d (Virtual t) = (t + d, Virtual (t + d))"
| "clock_advance d (Barrier t) = (t + d, Barrier (t + d))"
| "clock_advance d (Real t) = (t, Real t)"

record fire_decision =
  fd_node_id :: string
  fd_idx :: nat
  fd_kind :: fire_kind

record scheduler =
  sd_nodes :: "scheduled_node list"
  sd_clock :: sched_clock
  sd_trace :: "trace_entry list"
  sd_max_trace :: "nat option"
  sd_appended :: u64
  sd_steps_begun :: u64
  sd_arm :: "arm_onset option"
  sd_cap_override :: "u32 option"
  sd_record_durations :: bool
  sd_decisions :: "fire_decision list"
  sd_forced_serial :: u64

definition new_scheduler :: "sched_clock \<Rightarrow> scheduler" where
  "new_scheduler clock =
     \<lparr>sd_nodes = [], sd_clock = clock, sd_trace = [], sd_max_trace = None, sd_appended = 0,
      sd_steps_begun = 0, sd_arm = None, sd_cap_override = None, sd_record_durations = False,
      sd_decisions = [], sd_forced_serial = 0\<rparr>"

definition sched_add_node :: "string \<Rightarrow> trigger_policy \<Rightarrow> scheduler \<Rightarrow> sched_error + scheduler" where
  "sched_add_node i policy s =
     (case add_node i policy (clock_now (sd_clock s)) (sd_record_durations s) (sd_nodes s) of
        Inl e \<Rightarrow> Inl e
      | Inr nodes \<Rightarrow> Inr (s\<lparr>sd_nodes := nodes\<rparr>))"

definition remove_node :: "string \<Rightarrow> scheduler \<Rightarrow> sched_error + scheduler" where
  "remove_node i s =
     (if \<exists>n \<in> set (sd_nodes s). nd_id n = i
      then Inr (s\<lparr>sd_nodes := filter (\<lambda>n. nd_id n \<noteq> i) (sd_nodes s)\<rparr>)
      else Inl SeNodeNotFound)"

definition set_record_tick_durations :: "bool \<Rightarrow> scheduler \<Rightarrow> scheduler" where
  "set_record_tick_durations on s =
     s\<lparr>sd_record_durations := on,
       sd_nodes := map (\<lambda>n. n\<lparr>nd_record_durations := on\<rparr>) (sd_nodes s)\<rparr>"

definition set_trace_limit :: "nat \<Rightarrow> scheduler \<Rightarrow> scheduler" where
  "set_trace_limit limit s = s\<lparr>sd_max_trace := Some limit\<rparr>"

definition clear_trace :: "scheduler \<Rightarrow> scheduler" where
  "clear_trace s = s\<lparr>sd_trace := []\<rparr>"

definition attach_catchup_arm :: "arm_onset \<Rightarrow> scheduler \<Rightarrow> scheduler" where
  "attach_catchup_arm arm s = s\<lparr>sd_arm := Some arm\<rparr>"

fun index_of :: "string \<Rightarrow> scheduled_node list \<Rightarrow> nat option" where
  "index_of i [] = None"
| "index_of i (n # ns) = (if nd_id n = i then Some 0 else map_option Suc (index_of i ns))"

definition put_node :: "nat \<Rightarrow> scheduled_node \<Rightarrow> scheduler \<Rightarrow> scheduler" where
  "put_node idx n s = s\<lparr>sd_nodes := (sd_nodes s)[idx := n]\<rparr>"

text \<open>\<open>RingTraceSink::push_entry\<close>: the capped trace drops its oldest entry first.\<close>

definition push_capped :: "nat option \<Rightarrow> trace_entry \<Rightarrow> trace_entry list \<Rightarrow> trace_entry list" where
  "push_capped max_trace e tr =
     (case max_trace of
        Some limit \<Rightarrow> if limit \<le> length tr then tl tr else tr
      | None \<Rightarrow> tr) @ [e]"

definition push_entry :: "trace_entry \<Rightarrow> scheduler \<Rightarrow> scheduler" where
  "push_entry e s =
     s\<lparr>sd_trace := push_capped (sd_max_trace s) e (sd_trace s), sd_appended := sd_appended s + 1\<rparr>"

definition push_all :: "trace_entry list \<Rightarrow> scheduler \<Rightarrow> scheduler" where
  "push_all es s = fold push_entry es s"

section \<open>The flat step\<close>

definition begin_step :: "duration \<Rightarrow> scheduler \<Rightarrow> u64 \<times> scheduler" where
  "begin_step delta s =
     (let begun = sat_add (sd_steps_begun s) 1;
          cap = (case sd_arm s of
                   Some onset \<Rightarrow> derive_catchup_cap_override onset (sat_sub begun 1)
                 | None \<Rightarrow> None);
          (new_time, clock) = clock_advance (duration_ns delta) (sd_clock s)
      in (new_time, s\<lparr>sd_steps_begun := begun, sd_cap_override := cap, sd_clock := clock\<rparr>))"

definition current_step :: "scheduler \<Rightarrow> u64" where
  "current_step s = sat_sub (sd_steps_begun s) 1"

type_synonym 'w node_envs = "string \<Rightarrow> 'w node_env"

definition evaluate_one :: "'w node_envs \<Rightarrow> u64 \<Rightarrow> nat \<Rightarrow> scheduler \<Rightarrow> 'w \<Rightarrow> scheduler \<times> 'w" where
  "evaluate_one envs new_time idx s w =
     (let n = run_qos_windows new_time (sd_nodes s ! idx);
          (es, n1, w1) = evaluate_node (envs (nd_id n)) (0, current_step s) new_time (sd_cap_override s) n w
      in (push_all es (put_node idx n1 s), w1))"

fun evaluate_each :: "'w node_envs \<Rightarrow> u64 \<Rightarrow> nat list \<Rightarrow> scheduler \<Rightarrow> 'w \<Rightarrow> scheduler \<times> 'w" where
  "evaluate_each envs new_time [] s w = (s, w)"
| "evaluate_each envs new_time (i # js) s w =
     (let (s1, w1) = evaluate_one envs new_time i s w in evaluate_each envs new_time js s1 w1)"

definition sched_step :: "'w node_envs \<Rightarrow> duration \<Rightarrow> scheduler \<Rightarrow> 'w \<Rightarrow> scheduler \<times> 'w" where
  "sched_step envs delta s w =
     (let (new_time, s1) = begin_step delta s
      in evaluate_each envs new_time [0..<length (sd_nodes s1)] s1 w)"

section \<open>Firing a level\<close>

text \<open>\<open>decide_fires\<close> fills the scratch of decisions; an id the scheduler does not know is skipped.\<close>

fun decide_loop :: "'w node_envs \<Rightarrow> u64 \<Rightarrow> string list \<Rightarrow> scheduler \<Rightarrow> 'w \<Rightarrow> scheduler \<times> 'w" where
  "decide_loop envs new_time [] s w = (s, w)"
| "decide_loop envs new_time (i # js) s w =
     (case index_of i (sd_nodes s) of
        None \<Rightarrow> decide_loop envs new_time js s w
      | Some idx \<Rightarrow>
          (let n = run_qos_windows new_time (sd_nodes s ! idx);
               ((kind, n1), w1) = decide_node (envs (nd_id n)) new_time (sd_cap_override s) n w;
               s1 = put_node idx n1 s;
               s2 = (case kind of
                       Some k \<Rightarrow> s1\<lparr>sd_decisions := sd_decisions s1 @
                         [\<lparr>fd_node_id = nd_id n, fd_idx = idx, fd_kind = k\<rparr>]\<rparr>
                     | None \<Rightarrow> s1)
           in decide_loop envs new_time js s2 w1))"

definition decide_fires :: "'w node_envs \<Rightarrow> string list \<Rightarrow> u64 \<Rightarrow> scheduler \<Rightarrow> 'w \<Rightarrow> scheduler \<times> 'w" where
  "decide_fires envs node_ids new_time s w =
     decide_loop envs new_time node_ids (s\<lparr>sd_decisions := []\<rparr>) w"

definition take_decisions :: "scheduler \<Rightarrow> fire_decision list \<times> scheduler" where
  "take_decisions s = (sd_decisions s, s\<lparr>sd_decisions := []\<rparr>)"

fun tick_decided :: "'w node_envs \<Rightarrow> fire_at \<Rightarrow> fire_decision list \<Rightarrow> scheduler \<Rightarrow> 'w \<Rightarrow>
    scheduler \<times> 'w" where
  "tick_decided envs at [] s w = (s, w)"
| "tick_decided envs at (d # ds) s w =
     (let (es, n1, w1) = tick_node (envs (fd_node_id d)) at (fd_kind d) (sd_nodes s ! fd_idx d) w
      in tick_decided envs at ds (push_all es (put_node (fd_idx d) n1 s)) w1)"

text \<open>\<open>snapshot\<close> is the caller's freeze of a firing node's inputs, between its decision and its tick.\<close>

fun evaluate_nodes_fused :: "'w node_envs \<Rightarrow> (string \<Rightarrow> 'w \<Rightarrow> 'w) \<Rightarrow> fire_at \<Rightarrow> u64 \<Rightarrow> string list \<Rightarrow>
    scheduler \<Rightarrow> 'w \<Rightarrow> scheduler \<times> 'w" where
  "evaluate_nodes_fused envs snapshot at new_time [] s w = (s, w)"
| "evaluate_nodes_fused envs snapshot at new_time (i # js) s w =
     (case index_of i (sd_nodes s) of
        None \<Rightarrow> evaluate_nodes_fused envs snapshot at new_time js s w
      | Some idx \<Rightarrow>
          (let n = run_qos_windows new_time (sd_nodes s ! idx);
               ((kind, n1), w1) = decide_node (envs (nd_id n)) new_time (sd_cap_override s) n w;
               s1 = put_node idx n1 s
           in case kind of
                None \<Rightarrow> evaluate_nodes_fused envs snapshot at new_time js s1 w1
              | Some k \<Rightarrow>
                  (let w2 = snapshot (nd_id n) w1;
                       (es, n2, w3) = tick_node (envs (nd_id n)) at k (sd_nodes s1 ! idx) w2
                   in evaluate_nodes_fused envs snapshot at new_time js
                        (push_all es (put_node idx n2 s1)) w3)))"

section \<open>The parallel tick\<close>

definition PARALLEL_FIRE_THRESHOLD :: nat where
  "PARALLEL_FIRE_THRESHOLD = 8"

datatype rest_walk = Unconstrained | InsertionOrder

datatype rest_driver = Parallel | SerialBySize | SerialByReplayPauses | SerialByConstraint

definition choose_driver :: "nat \<Rightarrow> nat \<Rightarrow> bool \<Rightarrow> rest_walk \<Rightarrow> rest_driver" where
  "choose_driver rest_fire_count pool_threads pauses_armed walk =
     (if rest_fire_count < PARALLEL_FIRE_THRESHOLD \<or> pool_threads \<le> 1 then SerialBySize
      else if pauses_armed then SerialByReplayPauses
      else if walk = InsertionOrder then SerialByConstraint
      else Parallel)"

record decision_slot =
  ds_node_id :: string
  ds_kind :: fire_kind
  ds_serial :: bool

definition fill_slots :: "nat \<Rightarrow> string set \<Rightarrow> fire_decision list \<Rightarrow> decision_slot option list" where
  "fill_slots n serial_ids ds =
     fold (\<lambda>d slots. if fd_idx d < n
             then slots[fd_idx d := Some \<lparr>ds_node_id = fd_node_id d, ds_kind = fd_kind d,
                                          ds_serial = (fd_node_id d \<in> serial_ids)\<rparr>]
             else slots) ds (replicate n None)"

text \<open>A pass runs the slots it is for into the nodes' own fragments, in the given order.\<close>

fun fire_pass :: "'w node_envs \<Rightarrow> fire_at \<Rightarrow> bool \<Rightarrow> decision_slot option list \<Rightarrow> nat list \<Rightarrow>
    scheduled_node list \<Rightarrow> (nat \<Rightarrow> trace_entry list) \<Rightarrow> 'w \<Rightarrow>
    scheduled_node list \<times> (nat \<Rightarrow> trace_entry list) \<times> 'w" where
  "fire_pass envs at serial slots [] nodes frags w = (nodes, frags, w)"
| "fire_pass envs at serial slots (i # js) nodes frags w =
     (case slots ! i of
        Some slot \<Rightarrow>
          (if ds_serial slot = serial
           then let (es, n1, w1) = tick_node (envs (ds_node_id slot)) at (ds_kind slot) (nodes ! i) w
                in fire_pass envs at serial slots js (nodes[i := n1]) (frags(i := es)) w1
           else fire_pass envs at serial slots js nodes frags w)
      | None \<Rightarrow> fire_pass envs at serial slots js nodes frags w)"

fun merge_fragments :: "(nat \<Rightarrow> trace_entry list) \<Rightarrow> fire_decision list \<Rightarrow> scheduler \<Rightarrow> scheduler" where
  "merge_fragments frags [] s = s"
| "merge_fragments frags (d # ds) s =
     (if fd_idx d < length (sd_nodes s)
      then merge_fragments (frags(fd_idx d := [])) ds (push_all (frags (fd_idx d)) s)
      else merge_fragments frags ds s)"

definition tick_decided_parallel :: "'w node_envs \<Rightarrow> fire_at \<Rightarrow> nat \<Rightarrow> bool \<Rightarrow> nat list \<Rightarrow> string set \<Rightarrow>
    rest_walk \<Rightarrow> fire_decision list \<Rightarrow> scheduler \<Rightarrow> 'w \<Rightarrow> scheduler \<times> 'w" where
  "tick_decided_parallel envs at pool_threads pauses_armed order serial_ids walk ds s w =
     (if length ds \<le> 1 then tick_decided envs at ds s w
      else
        let n = length (sd_nodes s);
            slots = fill_slots n serial_ids ds;
            rest_fire_count = length (filter (\<lambda>d. fd_idx d < n \<and> fd_node_id d \<notin> serial_ids) ds);
            driver = choose_driver rest_fire_count pool_threads pauses_armed walk;
            s1 = (if driver = SerialByConstraint
                  then s\<lparr>sd_forced_serial := sd_forced_serial s + 1\<rparr> else s);
            (nodes1, frags1, w1) = fire_pass envs at True slots [0..<n] (sd_nodes s1) (\<lambda>_. []) w;
            (nodes2, frags2, w2) = fire_pass envs at False slots
              (if driver = Parallel then order else [0..<n]) nodes1 frags1 w1
        in (merge_fragments frags2 ds (s1\<lparr>sd_nodes := nodes2\<rparr>), w2))"

section \<open>Facts\<close>

lemma push_all_nodes [simp]:
  "sd_nodes (push_all es s) = sd_nodes s"
  "sd_decisions (push_all es s) = sd_decisions s"
  "sd_cap_override (push_all es s) = sd_cap_override s"
  by (induction es arbitrary: s) (simp_all add: push_all_def push_entry_def)

lemma push_all_Cons: "push_all (e # es) s = push_all es (push_entry e s)"
  by (simp add: push_all_def)

lemma push_all_append: "push_all (es @ fs) s = push_all fs (push_all es s)"
  by (simp add: push_all_def)

lemma push_entry_put:
  "(push_entry e s)\<lparr>sd_nodes := ns\<rparr> = push_entry e (s\<lparr>sd_nodes := ns\<rparr>)"
  "(push_entry e s)\<lparr>sd_decisions := ds\<rparr> = push_entry e (s\<lparr>sd_decisions := ds\<rparr>)"
  "(push_entry e s)\<lparr>sd_forced_serial := f\<rparr> = push_entry e (s\<lparr>sd_forced_serial := f\<rparr>)"
  by (simp_all add: push_entry_def)

lemma push_all_put:
  "(push_all es s)\<lparr>sd_nodes := ns\<rparr> = push_all es (s\<lparr>sd_nodes := ns\<rparr>) \<and>
   (push_all es s)\<lparr>sd_decisions := ds\<rparr> = push_all es (s\<lparr>sd_decisions := ds\<rparr>) \<and>
   (push_all es s)\<lparr>sd_forced_serial := f\<rparr> = push_all es (s\<lparr>sd_forced_serial := f\<rparr>)"
proof (induction es arbitrary: s)
  case (Cons e es)
  show ?case unfolding push_all_Cons by (simp only: Cons.IH push_entry_put simp_thms)
qed (simp_all add: push_all_def)

lemma merge_fragments_push:
  "distinct (map fd_idx ds) \<Longrightarrow> \<forall>d \<in> set ds. fd_idx d < length (sd_nodes s) \<Longrightarrow>
   merge_fragments frags ds s = push_all (concat (map (\<lambda>d. frags (fd_idx d)) ds)) s"
proof (induction ds arbitrary: frags s)
  case (Cons d ds)
  have "map (\<lambda>d'. (frags(fd_idx d := [])) (fd_idx d')) ds = map (\<lambda>d'. frags (fd_idx d')) ds"
    using Cons.prems(1) by (auto simp: image_iff)
  note same = arg_cong [OF this, of concat]
  have "merge_fragments frags (d # ds) s =
      merge_fragments (frags(fd_idx d := [])) ds (push_all (frags (fd_idx d)) s)"
    using Cons.prems(2) by simp
  also have "\<dots> = push_all (concat (map (\<lambda>d'. (frags(fd_idx d := [])) (fd_idx d')) ds))
      (push_all (frags (fd_idx d)) s)"
    by (rule Cons.IH) (use Cons.prems in auto)
  finally show ?case by (simp only: same push_all_append list.map concat.simps)
qed (simp add: push_all_def)

definition decided_slot :: "string set \<Rightarrow> fire_decision \<Rightarrow> decision_slot" where
  "decided_slot serial_ids d =
     \<lparr>ds_node_id = fd_node_id d, ds_kind = fd_kind d, ds_serial = (fd_node_id d \<in> serial_ids)\<rparr>"

lemma fill_slots_snoc:
  "fill_slots n ids (ds @ [d]) =
     (if fd_idx d < n then (fill_slots n ids ds)[fd_idx d := Some (decided_slot ids d)]
      else fill_slots n ids ds)"
  by (simp add: fill_slots_def decided_slot_def)

lemma fill_slots_nth:
  "length (fill_slots n ids ds) = n \<and>
   (i < n \<longrightarrow> fill_slots n ids ds ! i = map_option (decided_slot ids) (find (\<lambda>d. fd_idx d = i) (rev ds)))"
proof (induction ds rule: rev_induct)
  case Nil
  show ?case by (simp add: fill_slots_def)
next
  case (snoc d ds)
  then show ?case by (auto simp: fill_slots_snoc nth_list_update)
qed

lemma find_idx:
  "distinct (map fd_idx ds) \<Longrightarrow> d \<in> set ds \<Longrightarrow> find (\<lambda>d'. fd_idx d' = fd_idx d) ds = Some d"
  by (induction ds) (auto simp: image_iff)

lemma fill_slots_at:
  assumes "distinct (map fd_idx ds)" "d \<in> set ds" "fd_idx d < n"
  shows "fill_slots n ids ds ! fd_idx d = Some (decided_slot ids d)"
proof -
  have "distinct (map fd_idx (rev ds))" using assms(1) by (simp add: rev_map [symmetric])
  from find_idx [OF this] assms show ?thesis by (simp add: fill_slots_nth)
qed

lemma find_mem: "find P xs = Some x \<Longrightarrow> x \<in> set xs \<and> P x"
  by (induction xs) (auto split: if_splits)

lemma fill_slots_only:
  assumes "i < n" "fill_slots n ids ds ! i = Some slot"
  shows "\<exists>d \<in> set ds. fd_idx d = i \<and> slot = decided_slot ids d"
proof -
  obtain d where d: "find (\<lambda>d. fd_idx d = i) (rev ds) = Some d" "slot = decided_slot ids d"
    using assms by (auto simp: fill_slots_nth)
  then have "d \<in> set (rev ds) \<and> fd_idx d = i" using find_mem by fastforce
  with d(2) show ?thesis by auto
qed

section \<open>Passes over isolated nodes\<close>

lemma tick_decided_ran:
  assumes "distinct (map fd_idx ds)" and "inj_on key {..<length (sd_nodes s)}"
    and "\<forall>d \<in> set ds. fd_idx d < length (sd_nodes s) \<and> fd_node_id d = key (fd_idx d) \<and>
      T (fd_idx d) = tick_node (e (key (fd_idx d))) at (fd_kind d) (sd_nodes s ! fd_idx d) (w (key (fd_idx d)))"
  shows "\<exists>ns' w'. tick_decided (\<lambda>i. lift_env i (e i)) at ds s w =
      (push_all (concat (map (\<lambda>d. fst (T (fd_idx d))) ds)) (s\<lparr>sd_nodes := ns'\<rparr>), w') \<and>
    ran key (fd_idx ` set ds) (\<lambda>i. snd (T i)) (sd_nodes s, w) (ns', w')"
  using assms
proof (induction ds arbitrary: s w)
  case Nil
  have "s = s\<lparr>sd_nodes := sd_nodes s\<rparr>" by simp
  then show ?case
    by (intro exI [of _ "sd_nodes s"] exI [of _ w] conjI)
      (simp_all add: push_all_def ran_empty)
next
  case (Cons d ds)
  let ?i = "fd_idx d"
  obtain es n1 s1 where T: "T ?i = (es, n1, s1)" by (metis prod.collapse)
  let ?s = "push_all es (put_node ?i n1 s)" and ?w = "w(key ?i := s1)"
  have i: "?i < length (sd_nodes s)" "fd_node_id d = key ?i" using Cons.prems by simp_all
  have tk: "tick_node (e (key ?i)) at (fd_kind d) (sd_nodes s ! ?i) (w (key ?i)) = (es, n1, s1)"
    using Cons.prems(3) T by force
  have step: "tick_decided (\<lambda>i. lift_env i (e i)) at (d # ds) s w =
      tick_decided (\<lambda>i. lift_env i (e i)) at ds ?s ?w"
    by (simp add: lift_tick i tk)
  have ne: "fd_idx d' \<noteq> ?i" if "d' \<in> set ds" for d' using Cons.prems(1) that by (auto simp: image_iff)
  then have nk: "key (fd_idx d') \<noteq> key ?i" if "d' \<in> set ds" for d'
    using Cons.prems(2,3) that i by (auto dest: inj_onD)
  have "\<exists>ns' w'. tick_decided (\<lambda>i. lift_env i (e i)) at ds ?s ?w =
      (push_all (concat (map (\<lambda>d. fst (T (fd_idx d))) ds)) (?s\<lparr>sd_nodes := ns'\<rparr>), w') \<and>
    ran key (fd_idx ` set ds) (\<lambda>i. snd (T i)) (sd_nodes ?s, ?w) (ns', w')"
    by (rule Cons.IH) (use Cons.prems ne [symmetric] nk in \<open>auto simp: put_node_def\<close>)
  then obtain ns' w' where r: "tick_decided (\<lambda>i. lift_env i (e i)) at ds ?s ?w =
      (push_all (concat (map (\<lambda>d. fst (T (fd_idx d))) ds)) (?s\<lparr>sd_nodes := ns'\<rparr>), w')"
    "ran key (fd_idx ` set ds) (\<lambda>i. snd (T i)) ((sd_nodes s)[?i := n1], ?w) (ns', w')"
    by (auto simp: put_node_def)
  have inj: "inj_on key (insert ?i (fd_idx ` set ds))"
    by (rule inj_on_subset [OF Cons.prems(2)]) (use Cons.prems(3) in auto)
  have "ran key (insert ?i (fd_idx ` set ds)) (\<lambda>i. snd (T i)) (sd_nodes s, w) (ns', w')"
  proof (rule ran_insert [OF _ _ inj i(1)])
    show "ran key (fd_idx ` set ds) (\<lambda>i. snd (T i))
        ((sd_nodes s)[?i := fst (snd (T ?i))], w(key ?i := snd (snd (T ?i)))) (ns', w')"
      using r(2) by (simp only: T fst_conv snd_conv)
  qed (use ne in force)
  moreover have "?s\<lparr>sd_nodes := ns'\<rparr> = push_all es (s\<lparr>sd_nodes := ns'\<rparr>)"
    using push_all_put [where ns = ns' and es = es and s = "put_node ?i n1 s"] by (simp add: put_node_def)
  then have "tick_decided (\<lambda>i. lift_env i (e i)) at (d # ds) s w =
      (push_all (concat (map (\<lambda>d. fst (T (fd_idx d))) (d # ds))) (s\<lparr>sd_nodes := ns'\<rparr>), w')"
    unfolding step r(1) by (simp add: T push_all_append)
  ultimately show ?case by auto
qed

lemma fire_pass_ran:
  assumes "distinct js" and "set js \<subseteq> {..<length ns}" and "inj_on key {..<length ns}"
    and "\<forall>i \<in> set js. \<forall>slot. slots ! i = Some slot \<and> ds_serial slot = serial \<longrightarrow>
      ds_node_id slot = key i \<and> T i = tick_node (e (key i)) at (ds_kind slot) (ns ! i) (w (key i))"
  defines "A \<equiv> {i \<in> set js. \<exists>slot. slots ! i = Some slot \<and> ds_serial slot = serial}"
  shows "\<exists>ns' w'. fire_pass (\<lambda>i. lift_env i (e i)) at serial slots js ns frags w =
      (ns', \<lambda>i. if i \<in> A then fst (T i) else frags i, w') \<and>
    ran key A (\<lambda>i. snd (T i)) (ns, w) (ns', w')"
  using assms(1-4) unfolding A_def
proof (induction js arbitrary: ns frags w)
  case Nil
  then show ?case by (simp add: ran_empty)
next
  case (Cons i js)
  let ?envs = "\<lambda>i. lift_env i (e i)"
  let ?A = "\<lambda>js. {i \<in> set js. \<exists>slot. slots ! i = Some slot \<and> ds_serial slot = serial}"
  show ?case
  proof (cases "\<exists>slot. slots ! i = Some slot \<and> ds_serial slot = serial")
    case False
    then have "?A (i # js) = ?A js" by auto
    moreover have "fire_pass ?envs at serial slots (i # js) ns frags w =
        fire_pass ?envs at serial slots js ns frags w"
      using False by (auto split: option.splits)
    ultimately show ?thesis using Cons.IH [of ns w frags] Cons.prems by auto
  next
    case True
    then obtain slot where slot: "slots ! i = Some slot" "ds_serial slot = serial" by blast
    obtain es n1 s1 where T: "T i = (es, n1, s1)" by (metis prod.collapse)
    have tk: "tick_node (e (key i)) at (ds_kind slot) (ns ! i) (w (key i)) = (es, n1, s1)"
      using Cons.prems(4) slot T by force
    have i: "i < length ns" "i \<notin> set js" "ds_node_id slot = key i"
      using Cons.prems slot by auto
    have step: "fire_pass ?envs at serial slots (i # js) ns frags w =
        fire_pass ?envs at serial slots js (ns[i := n1]) (frags(i := es)) (w(key i := s1))"
      using slot Cons.prems(4) i(3) by (simp add: lift_tick tk)
    have nk: "key j \<noteq> key i" if "j \<in> set js" for j
      using Cons.prems(2,3) that i by (auto dest: inj_onD)
    have "\<exists>ns' w'. fire_pass ?envs at serial slots js (ns[i := n1]) (frags(i := es)) (w(key i := s1)) =
        (ns', \<lambda>j. if j \<in> ?A js then fst (T j) else (frags(i := es)) j, w') \<and>
      ran key (?A js) (\<lambda>i. snd (T i)) (ns[i := n1], w(key i := s1)) (ns', w')"
    proof (rule Cons.IH)
      show "\<forall>j \<in> set js. \<forall>slot. slots ! j = Some slot \<and> ds_serial slot = serial \<longrightarrow>
          ds_node_id slot = key j \<and>
          T j = tick_node (e (key j)) at (ds_kind slot) (ns[i := n1] ! j) ((w(key i := s1)) (key j))"
        using Cons.prems(4) nk i(2) by (metis fun_upd_other list.set_intros(2) nth_list_update_neq)
    qed (use Cons.prems in auto)
    then obtain ns' w' where r: "fire_pass ?envs at serial slots (i # js) ns frags w =
        (ns', \<lambda>j. if j \<in> ?A js then fst (T j) else (frags(i := es)) j, w')"
      "ran key (?A js) (\<lambda>i. snd (T i)) (ns[i := n1], w(key i := s1)) (ns', w')"
      unfolding step by blast
    have ins: "?A (i # js) = insert i (?A js)" using slot by auto
    have inj: "inj_on key (insert i (?A js))"
      by (rule inj_on_subset [OF Cons.prems(3)]) (use Cons.prems(2) in auto)
    have "ran key (insert i (?A js)) (\<lambda>i. snd (T i)) (ns, w) (ns', w')"
    proof (rule ran_insert [OF _ _ inj i(1)])
      show "ran key (?A js) (\<lambda>i. snd (T i)) (ns[i := fst (snd (T i))], w(key i := snd (snd (T i)))) (ns', w')"
        using r(2) by (simp only: T fst_conv snd_conv)
    qed (use i(2) in simp)
    moreover have "(\<lambda>j. if j \<in> ?A js then fst (T j) else (frags(i := es)) j) =
        (\<lambda>j. if j \<in> insert i (?A js) then fst (T j) else frags j)"
      using i(2) T by (intro ext) auto
    ultimately show ?thesis unfolding ins r(1) by blast
  qed
qed


lemma nth_key_inj: "distinct (map nd_id ns) \<Longrightarrow> inj_on (\<lambda>i. nd_id (ns ! i)) {..<length ns}"
  by (auto simp: inj_on_def distinct_conv_nth)

text \<open>Both passes of the parallel tick, in any order of the second.\<close>

lemma fire_passes_ran:
  fixes ds :: "fire_decision list" and ns :: "scheduled_node list"
  defines "key \<equiv> \<lambda>i. nd_id (ns ! i)"
  assumes ids: "distinct (map nd_id ns)" and idx: "distinct (map fd_idx ds)"
    and ds: "\<forall>d \<in> set ds. fd_idx d < length ns \<and> fd_node_id d = key (fd_idx d) \<and>
      T (fd_idx d) = tick_node (e (key (fd_idx d))) at (fd_kind d) (ns ! fd_idx d) (w (key (fd_idx d)))"
    and order: "distinct order" "set order = {..<length ns}"
    and p1: "fire_pass (\<lambda>i. lift_env i (e i)) at True (fill_slots (length ns) serial_ids ds)
      [0..<length ns] ns (\<lambda>_. []) w = (ns1, frags1, w1)"
    and p2: "fire_pass (\<lambda>i. lift_env i (e i)) at False (fill_slots (length ns) serial_ids ds)
      order ns1 frags1 w1 = (ns2, frags2, w2)"
  shows "ran key (fd_idx ` set ds) (\<lambda>i. snd (T i)) (ns, w) (ns2, w2) \<and>
    (\<forall>d \<in> set ds. frags2 (fd_idx d) = fst (T (fd_idx d)))"
proof -
  let ?slots = "fill_slots (length ns) serial_ids ds"
  let ?A = "\<lambda>b. {i \<in> {..<length ns}. \<exists>slot. ?slots ! i = Some slot \<and> ds_serial slot = b}"
  have inj: "inj_on key {..<length ns}" unfolding key_def by (rule nth_key_inj [OF ids])
  have slot: "\<exists>d \<in> set ds. fd_idx d = i \<and> slot = decided_slot serial_ids d"
    if "i < length ns" "?slots ! i = Some slot" for i slot
    using fill_slots_only that by blast
  then have T: "ds_node_id slot = key i \<and> T i = tick_node (e (key i)) at (ds_kind slot) (ns ! i) (w (key i))"
    if "i < length ns" "?slots ! i = Some slot" for i slot
    using ds that by (fastforce simp: decided_slot_def)
  have "\<exists>ns' w'. fire_pass (\<lambda>i. lift_env i (e i)) at True ?slots [0..<length ns] ns (\<lambda>_. []) w =
      (ns', \<lambda>i. if i \<in> {i \<in> set [0..<length ns]. \<exists>slot. ?slots ! i = Some slot \<and> ds_serial slot = True}
            then fst (T i) else [], w') \<and>
    ran key {i \<in> set [0..<length ns]. \<exists>slot. ?slots ! i = Some slot \<and> ds_serial slot = True}
      (\<lambda>i. snd (T i)) (ns, w) (ns', w')"
    by (rule fire_pass_ran) (use inj T in \<open>auto simp: atLeast0LessThan\<close>)
  then have r1: "frags1 = (\<lambda>i. if i \<in> ?A True then fst (T i) else [])"
      "ran key (?A True) (\<lambda>i. snd (T i)) (ns, w) (ns1, w1)"
    unfolding p1 by (simp_all add: atLeast0LessThan)
  have len: "length ns1 = length ns" using r1(2) by (simp add: ran_def)
  have kept: "ns1 ! i = ns ! i \<and> w1 (key i) = w (key i)" if "i < length ns" "i \<notin> ?A True" for i
    by (rule ran_other [OF r1(2) that _ inj]) blast
  have "\<exists>ns' w'. fire_pass (\<lambda>i. lift_env i (e i)) at False ?slots order ns1 frags1 w1 =
      (ns', \<lambda>i. if i \<in> {i \<in> set order. \<exists>slot. ?slots ! i = Some slot \<and> ds_serial slot = False}
            then fst (T i) else frags1 i, w') \<and>
    ran key {i \<in> set order. \<exists>slot. ?slots ! i = Some slot \<and> ds_serial slot = False}
      (\<lambda>i. snd (T i)) (ns1, w1) (ns', w')"
  proof (rule fire_pass_ran)
    show "\<forall>i \<in> set order. \<forall>slot. ?slots ! i = Some slot \<and> ds_serial slot = False \<longrightarrow>
        ds_node_id slot = key i \<and> T i = tick_node (e (key i)) at (ds_kind slot) (ns1 ! i) (w1 (key i))"
      using T kept order(2) by auto
  qed (use inj order len in auto)
  then have r2: "frags2 = (\<lambda>i. if i \<in> ?A False then fst (T i) else frags1 i)"
      "ran key (?A False) (\<lambda>i. snd (T i)) (ns1, w1) (ns2, w2)"
    unfolding p2 order(2) by simp_all
  have at: "?slots ! fd_idx d = Some (decided_slot serial_ids d)" if "d \<in> set ds" for d
    using fill_slots_at [OF idx that] ds that by blast
  have un: "?A True \<union> ?A False = fd_idx ` set ds"
  proof
    show "?A True \<union> ?A False \<subseteq> fd_idx ` set ds" using slot by blast
    show "fd_idx ` set ds \<subseteq> ?A True \<union> ?A False" using at ds by auto
  qed
  have "ran key (?A True \<union> ?A False) (\<lambda>i. snd (T i)) (ns, w) (ns2, w2)"
    by (rule ran_comp [OF r1(2) r2(2)]) (use inj in \<open>auto intro: inj_on_subset\<close>)
  moreover have "frags2 (fd_idx d) = fst (T (fd_idx d))" if "d \<in> set ds" for d
    unfolding r2(1) r1(1) using at [OF that] ds that by auto
  ultimately show ?thesis unfolding un by blast
qed


text \<open>What the decisions of a level have to be for the passes: of distinct nodes, by their own id.\<close>

definition decisions_ok :: "fire_decision list \<Rightarrow> scheduler \<Rightarrow> bool" where
  "decisions_ok ds s \<longleftrightarrow> distinct (map nd_id (sd_nodes s)) \<and> distinct (map fd_idx ds) \<and>
     (\<forall>d \<in> set ds. fd_idx d < length (sd_nodes s) \<and> fd_node_id d = nd_id (sd_nodes s ! fd_idx d))"

text \<open>What the node of the decision at an index does from the level's start.\<close>

definition fired_at :: "(string \<Rightarrow> 's node_env) \<Rightarrow> fire_at \<Rightarrow> fire_decision list \<Rightarrow> scheduler \<Rightarrow>
    (string \<Rightarrow> 's) \<Rightarrow> nat \<Rightarrow> trace_entry list \<times> scheduled_node \<times> 's" where
  "fired_at e at ds s w i =
     (let n = sd_nodes s ! i
      in tick_node (e (nd_id n)) at (fd_kind (the (find (\<lambda>d. fd_idx d = i) ds))) n (w (nd_id n)))"

lemma fired_at_decision:
  "distinct (map fd_idx ds) \<Longrightarrow> d \<in> set ds \<Longrightarrow>
   fired_at e at ds s w (fd_idx d) =
     tick_node (e (nd_id (sd_nodes s ! fd_idx d))) at (fd_kind d) (sd_nodes s ! fd_idx d)
       (w (nd_id (sd_nodes s ! fd_idx d)))"
  by (simp add: fired_at_def find_idx Let_def)

lemma tick_decided_isolated:
  assumes "decisions_ok ds s"
  shows "\<exists>ns' w'. tick_decided (\<lambda>i. lift_env i (e i)) at ds s w =
      (push_all (concat (map (\<lambda>d. fst (fired_at e at ds s w (fd_idx d))) ds)) (s\<lparr>sd_nodes := ns'\<rparr>), w') \<and>
    ran (\<lambda>i. nd_id (sd_nodes s ! i)) (fd_idx ` set ds) (\<lambda>i. snd (fired_at e at ds s w i))
      (sd_nodes s, w) (ns', w')"
proof (rule tick_decided_ran)
  show "inj_on (\<lambda>i. nd_id (sd_nodes s ! i)) {..<length (sd_nodes s)}"
    by (rule nth_key_inj) (use assms in \<open>simp add: decisions_ok_def\<close>)
qed (use assms in \<open>simp_all add: decisions_ok_def fired_at_decision\<close>)

lemma tick_decided_parallel_isolated:
  assumes ok: "decisions_ok ds s" and order: "distinct order" "set order = {..<length (sd_nodes s)}"
    and two: "1 < length ds"
  shows "\<exists>forced ns' w'. tick_decided_parallel (\<lambda>i. lift_env i (e i)) at threads pauses order serial_ids walk ds s w =
      (push_all (concat (map (\<lambda>d. fst (fired_at e at ds s w (fd_idx d))) ds))
         (s\<lparr>sd_nodes := ns', sd_forced_serial := forced\<rparr>), w') \<and>
    ran (\<lambda>i. nd_id (sd_nodes s ! i)) (fd_idx ` set ds) (\<lambda>i. snd (fired_at e at ds s w i))
      (sd_nodes s, w) (ns', w')"
proof -
  let ?n = "length (sd_nodes s)" and ?envs = "\<lambda>i. lift_env i (e i)"
  define rest where "rest = length (filter (\<lambda>d. fd_idx d < ?n \<and> fd_node_id d \<notin> serial_ids) ds)"
  define driver where "driver = choose_driver rest threads pauses walk"
  define used where "used = (if driver = Parallel then order else [0..<?n])"
  define forced where "forced = (if driver = SerialByConstraint then sd_forced_serial s + 1 else sd_forced_serial s)"
  have used: "distinct used" "set used = {..<?n}"
    using order unfolding used_def by (simp_all add: atLeast0LessThan split: if_split)
  let ?slots = "fill_slots ?n serial_ids ds"
  obtain ns1 frags1 w1 where p1: "fire_pass ?envs at True ?slots [0..<?n] (sd_nodes s) (\<lambda>_. []) w = (ns1, frags1, w1)"
    by (metis prod.collapse)
  obtain ns2 frags2 w2 where p2: "fire_pass ?envs at False ?slots used ns1 frags1 w1 = (ns2, frags2, w2)"
    by (metis prod.collapse)
  have idx: "distinct (map fd_idx ds)" and ids: "distinct (map nd_id (sd_nodes s))"
    using ok by (simp_all add: decisions_ok_def)
  have r: "ran (\<lambda>i. nd_id (sd_nodes s ! i)) (fd_idx ` set ds) (\<lambda>i. snd (fired_at e at ds s w i))
      (sd_nodes s, w) (ns2, w2) \<and> (\<forall>d \<in> set ds. frags2 (fd_idx d) = fst (fired_at e at ds s w (fd_idx d)))"
    by (rule fire_passes_ran [OF ids idx _ used p1 p2])
      (use ok in \<open>simp add: decisions_ok_def fired_at_decision\<close>)
  then have len: "length ns2 = ?n" by (simp add: ran_def)
  have eq: "tick_decided_parallel ?envs at threads pauses order serial_ids walk ds s w =
      (merge_fragments frags2 ds (s\<lparr>sd_nodes := ns2, sd_forced_serial := forced\<rparr>), w2)"
  proof -
    have small: "(length ds \<le> 1) = False" using two by simp
    have s1: "(if driver = SerialByConstraint then s\<lparr>sd_forced_serial := sd_forced_serial s + 1\<rparr> else s) =
        s\<lparr>sd_forced_serial := forced\<rparr>"
      by (simp add: forced_def)
    have put: "sd_nodes (s\<lparr>sd_forced_serial := forced\<rparr>) = sd_nodes s"
      "s\<lparr>sd_forced_serial := forced, sd_nodes := ns2\<rparr> = s\<lparr>sd_nodes := ns2, sd_forced_serial := forced\<rparr>"
      by simp_all
    show ?thesis
      unfolding tick_decided_parallel_def Let_def rest_def [symmetric] driver_def [symmetric]
        used_def [symmetric] small if_False s1 put(1) p1 prod.case p2 put(2) ..
  qed
  have "merge_fragments frags2 ds (s\<lparr>sd_nodes := ns2, sd_forced_serial := forced\<rparr>) =
      push_all (concat (map (\<lambda>d. frags2 (fd_idx d)) ds)) (s\<lparr>sd_nodes := ns2, sd_forced_serial := forced\<rparr>)"
    by (rule merge_fragments_push [OF idx]) (use ok len in \<open>simp add: decisions_ok_def\<close>)
  also have "map (\<lambda>d. frags2 (fd_idx d)) ds = map (\<lambda>d. fst (fired_at e at ds s w (fd_idx d))) ds"
    using r by simp
  finally show ?thesis unfolding eq using r by blast
qed

lemma tick_decided_parallel_serial:
  assumes "decisions_ok ds s" and "distinct order" "set order = {..<length (sd_nodes s)}"
  shows "\<exists>forced. tick_decided_parallel (\<lambda>i. lift_env i (e i)) at threads pauses order serial_ids walk ds s w =
    apfst (sd_forced_serial_update (\<lambda>_. forced)) (tick_decided (\<lambda>i. lift_env i (e i)) at ds s w)"
proof (cases "1 < length ds")
  case True
  obtain ns' w' where a: "tick_decided (\<lambda>i. lift_env i (e i)) at ds s w =
      (push_all (concat (map (\<lambda>d. fst (fired_at e at ds s w (fd_idx d))) ds)) (s\<lparr>sd_nodes := ns'\<rparr>), w')"
    "ran (\<lambda>i. nd_id (sd_nodes s ! i)) (fd_idx ` set ds) (\<lambda>i. snd (fired_at e at ds s w i))
      (sd_nodes s, w) (ns', w')"
    using tick_decided_isolated [OF assms(1)] by blast
  obtain forced ns2 w2 where b: "tick_decided_parallel (\<lambda>i. lift_env i (e i)) at threads pauses order serial_ids walk ds s w =
      (push_all (concat (map (\<lambda>d. fst (fired_at e at ds s w (fd_idx d))) ds))
         (s\<lparr>sd_nodes := ns2, sd_forced_serial := forced\<rparr>), w2)"
    "ran (\<lambda>i. nd_id (sd_nodes s ! i)) (fd_idx ` set ds) (\<lambda>i. snd (fired_at e at ds s w i))
      (sd_nodes s, w) (ns2, w2)"
    using tick_decided_parallel_isolated [OF assms True] by blast
  have "(ns2, w2) = (ns', w')" by (rule ran_unique [OF b(2) a(2)])
  with a(1) b(1) show ?thesis by (intro exI [of _ forced]) (simp add: push_all_put)
next
  case False
  then show ?thesis
    by (intro exI [of _ "sd_forced_serial (fst (tick_decided (\<lambda>i. lift_env i (e i)) at ds s w))"])
      (simp add: tick_decided_parallel_def prod_eq_iff)
qed

text \<open>
  C34. The parallel tick of a level is the serial tick. When the nodes of the level touch only their own
  part of the world, then whatever order the thread pool runs them in, whichever of them are kept off the
  pool, and whichever driver the level's size, the armed replay pauses and the walk constraint choose,
  the nodes, the world and the trace, entry by entry and with the cap applied, are those of ticking the
  decisions one after another; only the counter of walks forced serial may differ.
\<close>

theorem parallel_level_is_serial:
  assumes "decisions_ok ds s" and "distinct order" "set order = {..<length (sd_nodes s)}"
  shows "\<exists>forced. tick_decided_parallel (\<lambda>i. lift_env i (e i)) at threads pauses order serial_ids walk ds s w =
    apfst (sd_forced_serial_update (\<lambda>_. forced)) (tick_decided (\<lambda>i. lift_env i (e i)) at ds s w)"
  by (rule tick_decided_parallel_serial [OF assms])

theorem parallel_level_is_serial_witness:
  "\<exists>forced. tick_decided_parallel (\<lambda>i. lift_env i (plain_env False)) (0, 1) 4 False [1, 0] {''b''} Unconstrained
      [\<lparr>fd_node_id = ''a'', fd_idx = 0, fd_kind = FkSingle 5\<rparr>, \<lparr>fd_node_id = ''b'', fd_idx = 1, fd_kind = FkSingle 5\<rparr>]
      ((new_scheduler (Virtual 0))\<lparr>sd_nodes := [new_node ''a'' External 0, new_node ''b'' External 0]\<rparr>) (\<lambda>_. ()) =
    apfst (sd_forced_serial_update (\<lambda>_. forced))
      (tick_decided (\<lambda>i. lift_env i (plain_env False)) (0, 1)
        [\<lparr>fd_node_id = ''a'', fd_idx = 0, fd_kind = FkSingle 5\<rparr>, \<lparr>fd_node_id = ''b'', fd_idx = 1, fd_kind = FkSingle 5\<rparr>]
        ((new_scheduler (Virtual 0))\<lparr>sd_nodes := [new_node ''a'' External 0, new_node ''b'' External 0]\<rparr>) (\<lambda>_. ()))"
  by (rule parallel_level_is_serial) (auto simp: decisions_ok_def new_node_def less_Suc_eq)

section \<open>The trace\<close>

lemma push_capped_keeps:
  "push_capped (Some limit) e (drop (length tr - max limit 1) tr) =
   drop (length (tr @ [e]) - max limit 1) (tr @ [e])"
proof -
  define m where "m = max limit 1"
  have last: "tl (drop (length tr - 1) tr) = []" by (cases tr rule: rev_cases) simp_all
  have next_drop: "tl (drop n tr) = drop (Suc n) tr" for n by (simp add: drop_Suc drop_tl)
  show ?thesis
  proof (cases "limit = 0")
    case True
    then show ?thesis using last by (simp add: push_capped_def)
  next
    case False
    then have "m = limit" "0 < limit" by (simp_all add: m_def)
    then show ?thesis unfolding m_def [symmetric]
      by (cases "length tr < limit") (simp_all add: push_capped_def next_drop Suc_diff_le not_less min_def)
  qed
qed

text \<open>
  The capped trace is a window on the newest entries: whatever was pushed, with a cap the trace holds
  the last of all entries, in order, as many as the cap says (one where the cap is zero), without a cap
  it holds all of them, and the counter of entries ever appended counts every one.
\<close>

theorem capped_trace_is_the_newest:
  "sd_trace (push_all es (new_scheduler clock)) = es \<and>
   sd_trace (push_all es (set_trace_limit limit (new_scheduler clock))) = drop (length es - max limit 1) es \<and>
   sd_appended (push_all es (set_trace_limit limit (new_scheduler clock))) = of_nat (length es)"
proof (induction es rule: rev_induct)
  case Nil
  show ?case by (simp add: push_all_def new_scheduler_def set_trace_limit_def)
next
  case (snoc e es)
  have limit: "sd_max_trace (push_all es s) = sd_max_trace s" for es s
    by (induction es arbitrary: s) (simp_all add: push_all_def push_entry_def)
  have snoc: "push_all (es @ [e]) s = push_entry e (push_all es s)" for s
    by (simp add: push_all_def)
  show ?case
    using snoc.IH push_capped_keeps [of limit e es]
    by (simp add: snoc push_entry_def limit new_scheduler_def set_trace_limit_def) (simp add: push_capped_def)
qed

end
