(* ===== verification/LevelFire.thy ===== *)
theory LevelFire
  imports SchedStep
begin

text \<open>
  Deciding and ticking one node after another (\<open>evaluate_nodes_fused\<close>) against deciding the whole
  level, freezing its inputs and then ticking it (\<open>decide_fires\<close>, \<open>tick_decided\<close>).
\<close>

section \<open>Ids and indices\<close>

lemma index_of_ids: "index_of i ns = index_in i (map nd_id ns)"
  by (induction ns) auto

lemma decide_node_id:
  assumes "decide_node env t ov n w = ((k, n'), w')"
  shows "nd_id n' = nd_id n"
proof -
  have "nd_id (set_backlog b n) = nd_id n" for b using core_simple(6) [of b n] by (simp add: core_def)
  with assms show ?thesis
    by (auto simp: decide_node_def decide_period_def decide_data_def decide_sync_def Let_def
        split: if_splits prod.splits option.splits trigger_policy.splits)
qed

lemma core_id: "core n' = core n \<Longrightarrow> nd_id n' = nd_id n"
  by (simp add: core_def)

lemma fire_id: "fire_node_into env at t n w = (e, n', w') \<Longrightarrow> nd_id n' = nd_id n"
  by (erule fire_node_unfold) simp

lemma sync_burst_id: "sync_burst k env at t n w = (es, u, n', w') \<Longrightarrow> nd_id n' = nd_id n"
proof (induction k arbitrary: n w es u n' w')
  case (Suc k)
  obtain d w1 where d: "run_pre_fire_check env t w = (d, w1)" by (metis prod.collapse)
  obtain e n1 w2 where f: "fire_node_into env at t n w1 = (e, n1, w2)" by (metis prod.collapse)
  let ?n2 = "mark_sync_heads_emitted n1"
  obtain st n3 w3 where a: "align_node_sync_heads (env_sync_op env) Refill ?n2 w2 = (st, n3, w3)"
    by (metis prod.collapse)
  have n1: "nd_id n1 = nd_id n" by (rule fire_id [OF f])
  have n2: "nd_id ?n2 = nd_id n1" by (rule core_id [OF core_simple(7)])
  have n3: "nd_id n3 = nd_id ?n2" by (rule core_id [OF core_align [OF a]])
  obtain es1 u1 n4 w4 where b: "sync_burst k env at t n3 w3 = (es1, u1, n4, w4)" by (metis prod.collapse)
  have n4: "nd_id n4 = nd_id n3" by (rule Suc.IH [OF b])
  show ?case
    using Suc.prems n1 n2 n3 n4 by (cases st) (auto simp: d f a b Let_def split: if_splits)
qed auto

lemma data_burst_id: "data_burst k env at t r n w = (es, u, n', w') \<Longrightarrow> nd_id n' = nd_id n"
proof (induction k arbitrary: r n w es u n' w')
  case 0
  obtain q n1 w1 where q: "data_refill env r n w = (q, n1, w1)" by (metis prod.collapse)
  have "nd_id n1 = nd_id n" by (rule core_id [OF core_refill [OF q]])
  with 0 show ?case by (subst (asm) data_burst.simps) (auto simp: q split: option.splits)
next
  case (Suc k)
  obtain q n1 w1 where q: "data_refill env r n w = (q, n1, w1)" by (metis prod.collapse)
  have n1: "nd_id n1 = nd_id n" by (rule core_id [OF core_refill [OF q]])
  obtain d w2 where d: "run_pre_fire_check env t w1 = (d, w2)" by (metis prod.collapse)
  obtain e n2 w3 where f: "fire_node_into env at t n1 w2 = (e, n2, w3)" by (metis prod.collapse)
  have n2: "nd_id n2 = nd_id n1" by (rule fire_id [OF f])
  have IH: "nd_id n4 = nd_id n2" if "data_burst k env at t m n2 w3 = (es', u', n4, w4)" for m es' u' n4 w4
    by (rule Suc.IH [OF that])
  show ?case
    using Suc.prems n1 n2 by (subst (asm) data_burst.simps)
      (auto simp: q d f Let_def split: option.splits if_splits prod.splits dest: IH)
qed

lemma period_burst_id: "period_burst k env at now iv t n w = (es, n', w') \<Longrightarrow> nd_id n' = nd_id n"
proof (induction k arbitrary: t n w es n' w')
  case (Suc k)
  obtain d w1 where d: "run_pre_fire_check env now w = (d, w1)" by (metis prod.collapse)
  obtain e n1 w2 where f: "fire_node_into env at t n w1 = (e, n1, w2)" by (metis prod.collapse)
  obtain es1 n2 w3 where b: "period_burst k env at now iv (t + iv) n1 w2 = (es1, n2, w3)"
    by (metis prod.collapse)
  show ?case
    using Suc.prems Suc.IH [OF b] fire_id [OF f] by (auto simp: d f b Let_def split: if_splits)
qed auto

lemma tick_node_id:
  assumes "tick_node env at kind n w = (es, n', w')"
  shows "nd_id n' = nd_id n"
proof (cases kind)
  case (FkSingle t)
  with assms show ?thesis by (auto simp: tick_node_def Let_def dest: fire_id split: prod.splits)
next
  case (FkData t c)
  with assms show ?thesis
    by (auto simp: tick_node_def tick_data_burst_def Let_def dest: data_burst_id split: prod.splits if_splits)
next
  case (FkSync t c)
  have b: "nd_id (set_backlog x m) = nd_id m" for x m by (rule core_id [OF core_simple(6)])
  from assms FkSync show ?thesis
    by (auto simp: tick_node_def tick_sync_burst_def Let_def b dest: sync_burst_id split: prod.splits if_splits)
next
  case (FkPeriod a b c d)
  with assms show ?thesis by (auto simp: tick_node_def dest: period_burst_id)
qed

lemma qos_id [simp]: "nd_id (run_qos_windows t n) = nd_id n"
  by (rule core_id [OF core_windows])

section \<open>Deciding a level of isolated nodes\<close>

text \<open>
  The level named by \<open>ids\<close> as indices into \<open>names\<close>; \<open>D\<close> is what each of its nodes decides from the
  level's start.
\<close>

definition level_idx :: "string list \<Rightarrow> string list \<Rightarrow> nat list" where
  "level_idx names ids = List.map_filter (\<lambda>i. index_in i names) ids"

lemma level_idx_simps:
  "level_idx names [] = []"
  "index_in i names = None \<Longrightarrow> level_idx names (i # ids) = level_idx names ids"
  "index_in i names = Some j \<Longrightarrow> level_idx names (i # ids) = j # level_idx names ids"
  by (simp_all add: level_idx_def List.map_filter_simps)

lemma level_idx_mem: "j \<in> set (level_idx names ids) \<Longrightarrow> j < length names \<and> names ! j \<in> set ids"
  by (induction ids)
    (auto simp: level_idx_def List.map_filter_simps split: option.splits dest: index_in_Some)

lemma level_idx_distinct: "distinct ids \<Longrightarrow> distinct (level_idx names ids)"
proof (induction ids)
  case (Cons i ids)
  show ?case
  proof (cases "index_in i names")
    case (Some j)
    have "names ! j = i" using index_in_Some [OF Some] by simp
    then have "j \<notin> set (level_idx names ids)" using level_idx_mem [of j names ids] Cons.prems by auto
    with Cons Some show ?thesis by (simp add: level_idx_simps)
  qed (use Cons in \<open>simp add: level_idx_simps\<close>)
qed (simp add: level_idx_simps)

definition decided_of :: "string list \<Rightarrow> (nat \<Rightarrow> (fire_kind option \<times> 'n) \<times> 's) \<Rightarrow> nat \<Rightarrow> fire_decision list" where
  "decided_of names D j =
     (case fst (fst (D j)) of
        None \<Rightarrow> []
      | Some k \<Rightarrow> [\<lparr>fd_node_id = names ! j, fd_idx = j, fd_kind = k\<rparr>])"

abbreviation after_decide :: "(nat \<Rightarrow> (fire_kind option \<times> 'n) \<times> 's) \<Rightarrow> nat \<Rightarrow> 'n \<times> 's" where
  "after_decide D j \<equiv> (snd (fst (D j)), snd (D j))"

lemma names_inj: "distinct names \<Longrightarrow> inj_on ((!) names) {..<length names}"
  by (auto simp: inj_on_def distinct_conv_nth)

lemma decide_loop_ran:
  assumes "distinct ids" "distinct names" "names = map nd_id (sd_nodes s)"
    and "\<forall>i \<in> set ids. \<forall>j. index_in i names = Some j \<longrightarrow>
      D j = decide_node (e i) t (sd_cap_override s) (run_qos_windows t (sd_nodes s ! j)) (w i)"
  shows "\<exists>ns' w'. decide_loop (\<lambda>i. lift_env i (e i)) t ids s w =
      (s\<lparr>sd_nodes := ns', sd_decisions := sd_decisions s @ concat (map (decided_of names D) (level_idx names ids))\<rparr>, w') \<and>
    ran ((!) names) (set (level_idx names ids)) (after_decide D) (sd_nodes s, w) (ns', w')"
  using assms
proof (induction ids arbitrary: s w)
  case Nil
  have "s = s\<lparr>sd_nodes := sd_nodes s, sd_decisions := sd_decisions s @ []\<rparr>" by simp
  then show ?case by (intro exI [of _ "sd_nodes s"] exI [of _ w]) (simp add: level_idx_simps ran_empty)
next
  case (Cons i ids)
  note names = Cons.prems(3)
  show ?case
  proof (cases "index_in i names")
    case None
    then have "decide_loop (\<lambda>i. lift_env i (e i)) t (i # ids) s w = decide_loop (\<lambda>i. lift_env i (e i)) t ids s w"
      using names by (simp add: index_of_ids)
    with None show ?thesis using Cons.IH [of s w] Cons.prems by (simp add: level_idx_simps)
  next
    case (Some j)
    have j: "j < length (sd_nodes s)" "names ! j = i" "nd_id (sd_nodes s ! j) = i"
      using index_in_Some [OF Some] names by auto
    obtain k n1 s1 where D: "D j = ((k, n1), s1)" by (metis prod.collapse)
    have dec: "decide_node (e i) t (sd_cap_override s) (run_qos_windows t (sd_nodes s ! j)) (w i) = ((k, n1), s1)"
      using Cons.prems(4) Some D by auto
    have n1: "nd_id n1 = i" using decide_node_id [OF dec] j(3) by simp
    let ?s = "s\<lparr>sd_nodes := (sd_nodes s)[j := n1], sd_decisions := sd_decisions s @ decided_of names D j\<rparr>"
    have step: "decide_loop (\<lambda>i. lift_env i (e i)) t (i # ids) s w =
        decide_loop (\<lambda>i. lift_env i (e i)) t ids ?s (w(i := s1))"
      using Some names j D
      by (simp add: index_of_ids Let_def lift_decide dec put_node_def decided_of_def
          split: option.splits)
    have ids: "map nd_id (sd_nodes ?s) = names"
      using names j n1 by (simp add: map_update list_update_same_conv)
    have "\<exists>ns' w'. decide_loop (\<lambda>i. lift_env i (e i)) t ids ?s (w(i := s1)) =
        (?s\<lparr>sd_nodes := ns', sd_decisions := sd_decisions ?s @ concat (map (decided_of names D) (level_idx names ids))\<rparr>, w') \<and>
      ran ((!) names) (set (level_idx names ids)) (after_decide D) (sd_nodes ?s, w(i := s1)) (ns', w')"
    proof (rule Cons.IH)
      show "\<forall>i' \<in> set ids. \<forall>j'. index_in i' names = Some j' \<longrightarrow>
          D j' = decide_node (e i') t (sd_cap_override ?s) (run_qos_windows t (sd_nodes ?s ! j')) ((w(i := s1)) i')"
      proof (intro ballI allI impI)
        fix i' j'
        assume i': "i' \<in> set ids" "index_in i' names = Some j'"
        then have "i' \<noteq> i" using Cons.prems(1) by auto
        moreover then have "j' \<noteq> j" using index_in_Some [OF i'(2)] j(2) by auto
        ultimately show "D j' = decide_node (e i') t (sd_cap_override ?s)
            (run_qos_windows t (sd_nodes ?s ! j')) ((w(i := s1)) i')"
          using Cons.prems(4) i' by simp
      qed
    qed (use Cons.prems ids in auto)
    then obtain ns' w' where r: "decide_loop (\<lambda>i. lift_env i (e i)) t ids ?s (w(i := s1)) =
        (?s\<lparr>sd_nodes := ns', sd_decisions := sd_decisions ?s @ concat (map (decided_of names D) (level_idx names ids))\<rparr>, w')"
      "ran ((!) names) (set (level_idx names ids)) (after_decide D) ((sd_nodes s)[j := n1], w(i := s1)) (ns', w')"
      by auto
    have js: "level_idx names (i # ids) = j # level_idx names ids" by (rule level_idx_simps(3) [OF Some])
    have "distinct (level_idx names (i # ids))" by (rule level_idx_distinct [OF Cons.prems(1)])
    then have nj: "j \<notin> set (level_idx names ids)" unfolding js by simp
    have "ran ((!) names) (insert j (set (level_idx names ids))) (after_decide D) (sd_nodes s, w) (ns', w')"
    proof (rule ran_insert [OF _ nj _ j(1)])
      show "ran ((!) names) (set (level_idx names ids)) (after_decide D)
          ((sd_nodes s)[j := fst (after_decide D j)], w(names ! j := snd (after_decide D j))) (ns', w')"
        using r(2) by (simp only: D fst_conv snd_conv j(2))
      show "inj_on ((!) names) (insert j (set (level_idx names ids)))"
        by (rule inj_on_subset [OF names_inj [OF Cons.prems(2)]])
          (use j names level_idx_mem in \<open>auto dest: level_idx_mem\<close>)
    qed
    then show ?thesis unfolding step r(1) js by auto
  qed
qed

text \<open>The fused evaluation of the same nodes: \<open>F\<close> is the decision, the freeze and the tick of each.\<close>

definition fused_of :: "(string \<Rightarrow> 's node_env) \<Rightarrow> (string \<Rightarrow> 's \<Rightarrow> 's) \<Rightarrow> fire_at \<Rightarrow> string list \<Rightarrow>
    (nat \<Rightarrow> (fire_kind option \<times> scheduled_node) \<times> 's) \<Rightarrow> nat \<Rightarrow> trace_entry list \<times> scheduled_node \<times> 's" where
  "fused_of e snap at names D j =
     (case fst (fst (D j)) of
        None \<Rightarrow> ([], snd (fst (D j)), snd (D j))
      | Some k \<Rightarrow> tick_node (e (names ! j)) at k (snd (fst (D j))) (snap (names ! j) (snd (D j))))"

text \<open>A freeze of a node's inputs that touches only the node's part of the world.\<close>

definition freeze_at :: "(string \<Rightarrow> 's \<Rightarrow> 's) \<Rightarrow> string \<Rightarrow> (string \<Rightarrow> 's) \<Rightarrow> string \<Rightarrow> 's" where
  "freeze_at snap i w = w(i := snap i (w i))"

lemma fused_of_id: "nd_id (fst (snd (fused_of e snap at names D j))) = nd_id (snd (fst (D j)))"
  by (auto simp: fused_of_def split: option.splits)
    (metis prod.collapse tick_node_id)

lemma fused_ran:
  assumes "distinct ids" "distinct names" "names = map nd_id (sd_nodes s)"
    and "\<forall>i \<in> set ids. \<forall>j. index_in i names = Some j \<longrightarrow>
      D j = decide_node (e i) t (sd_cap_override s) (run_qos_windows t (sd_nodes s ! j)) (w i)"
  shows "\<exists>ns' w'. evaluate_nodes_fused (\<lambda>i. lift_env i (e i)) (freeze_at snap) at t ids s w =
      (push_all (concat (map (\<lambda>j. fst (fused_of e snap at names D j)) (level_idx names ids)))
         (s\<lparr>sd_nodes := ns'\<rparr>), w') \<and>
    ran ((!) names) (set (level_idx names ids)) (\<lambda>j. snd (fused_of e snap at names D j)) (sd_nodes s, w) (ns', w')"
  using assms
proof (induction ids arbitrary: s w)
  case Nil
  have "s = s\<lparr>sd_nodes := sd_nodes s\<rparr>" by simp
  then show ?case
    by (intro exI [of _ "sd_nodes s"] exI [of _ w]) (simp add: level_idx_simps ran_empty push_all_def)
next
  case (Cons i ids)
  let ?run = "evaluate_nodes_fused (\<lambda>i. lift_env i (e i)) (freeze_at snap) at t"
  note names = Cons.prems(3)
  show ?case
  proof (cases "index_in i names")
    case None
    then have "?run (i # ids) s w = ?run ids s w" using names by (simp add: index_of_ids)
    moreover have "level_idx names (i # ids) = level_idx names ids" by (rule level_idx_simps(2) [OF None])
    ultimately show ?thesis using Cons.IH [of s w] Cons.prems by auto
  next
    case (Some j)
    have j: "j < length (sd_nodes s)" "names ! j = i" "nd_id (sd_nodes s ! j) = i"
      using index_in_Some [OF Some] names by auto
    obtain k n1 s1 where D: "D j = ((k, n1), s1)" by (metis prod.collapse)
    obtain es n2 s2 where F: "fused_of e snap at names D j = (es, n2, s2)" by (metis prod.collapse)
    have dec: "decide_node (e i) t (sd_cap_override s) (run_qos_windows t (sd_nodes s ! j)) (w i) = ((k, n1), s1)"
      using Cons.prems(4) Some D by auto
    have n2: "nd_id n2 = i"
      using fused_of_id [of e snap at names D j] decide_node_id [OF dec] j(3) by (simp add: F D)
    let ?s = "push_all es (s\<lparr>sd_nodes := (sd_nodes s)[j := n2]\<rparr>)"
    have step: "?run (i # ids) s w = ?run ids ?s (w(i := s2))"
    proof (cases k)
      case None
      then show ?thesis using Some names j F
        by (simp add: index_of_ids Let_def lift_decide dec put_node_def fused_of_def D push_all_def)
    next
      case (Some k')
      have "tick_node (e i) at k' n1 (snap i s1) = (es, n2, s2)" using F j(2) by (simp add: fused_of_def D Some)
      then show ?thesis using \<open>index_in i names = Some j\<close> names j
        by (simp add: index_of_ids Let_def lift_decide dec put_node_def Some lift_tick freeze_at_def)
    qed
    have ids: "map nd_id (sd_nodes ?s) = names"
      using names j n2 by (simp add: map_update list_update_same_conv)
    have "\<exists>ns' w'. ?run ids ?s (w(i := s2)) =
        (push_all (concat (map (\<lambda>j. fst (fused_of e snap at names D j)) (level_idx names ids)))
           (?s\<lparr>sd_nodes := ns'\<rparr>), w') \<and>
      ran ((!) names) (set (level_idx names ids)) (\<lambda>j. snd (fused_of e snap at names D j))
        (sd_nodes ?s, w(i := s2)) (ns', w')"
    proof (rule Cons.IH)
      show "\<forall>i' \<in> set ids. \<forall>j'. index_in i' names = Some j' \<longrightarrow>
          D j' = decide_node (e i') t (sd_cap_override ?s) (run_qos_windows t (sd_nodes ?s ! j')) ((w(i := s2)) i')"
      proof (intro ballI allI impI)
        fix i' j'
        assume i': "i' \<in> set ids" "index_in i' names = Some j'"
        then have "i' \<noteq> i" using Cons.prems(1) by auto
        moreover then have "j' \<noteq> j" using index_in_Some [OF i'(2)] j(2) by auto
        ultimately show "D j' = decide_node (e i') t (sd_cap_override ?s)
            (run_qos_windows t (sd_nodes ?s ! j')) ((w(i := s2)) i')"
          using Cons.prems(4) i' by simp
      qed
    qed (use Cons.prems ids in auto)
    then obtain ns' w' where r: "?run ids ?s (w(i := s2)) =
        (push_all (concat (map (\<lambda>j. fst (fused_of e snap at names D j)) (level_idx names ids)))
           (?s\<lparr>sd_nodes := ns'\<rparr>), w')"
      "ran ((!) names) (set (level_idx names ids)) (\<lambda>j. snd (fused_of e snap at names D j))
        ((sd_nodes s)[j := n2], w(i := s2)) (ns', w')"
      by auto
    have js: "level_idx names (i # ids) = j # level_idx names ids" by (rule level_idx_simps(3) [OF Some])
    have "distinct (level_idx names (i # ids))" by (rule level_idx_distinct [OF Cons.prems(1)])
    then have nj: "j \<notin> set (level_idx names ids)" unfolding js by simp
    have "ran ((!) names) (insert j (set (level_idx names ids))) (\<lambda>j. snd (fused_of e snap at names D j))
        (sd_nodes s, w) (ns', w')"
    proof (rule ran_insert [OF _ nj _ j(1)])
      show "ran ((!) names) (set (level_idx names ids)) (\<lambda>j. snd (fused_of e snap at names D j))
          ((sd_nodes s)[j := fst (snd (fused_of e snap at names D j))],
           w(names ! j := snd (snd (fused_of e snap at names D j)))) (ns', w')"
        using r(2) by (simp only: F fst_conv snd_conv j(2))
      show "inj_on ((!) names) (insert j (set (level_idx names ids)))"
        by (rule inj_on_subset [OF names_inj [OF Cons.prems(2)]])
          (use j names in \<open>auto dest: level_idx_mem\<close>)
    qed
    moreover have "?s\<lparr>sd_nodes := ns'\<rparr> = push_all es (s\<lparr>sd_nodes := ns'\<rparr>)" by (simp add: push_all_put)
    ultimately show ?thesis unfolding step r(1) js by (auto simp: push_all_append F)
  qed
qed

section \<open>Freezing a level\<close>

text \<open>Every node that is about to fire has its inputs frozen, in the order of the decisions.\<close>

fun snapshot_all :: "(string \<Rightarrow> 'w \<Rightarrow> 'w) \<Rightarrow> fire_decision list \<Rightarrow> 'w \<Rightarrow> 'w" where
  "snapshot_all snapshot [] w = w"
| "snapshot_all snapshot (d # ds) w = snapshot_all snapshot ds (snapshot (fd_node_id d) w)"

lemma snapshots_ran:
  assumes "distinct (map fd_idx ds)" "inj_on key {..<length ns}"
    and "\<forall>d \<in> set ds. fd_idx d < length ns \<and> fd_node_id d = key (fd_idx d)"
    and "\<forall>d \<in> set ds. S (fd_idx d) = (ns ! fd_idx d, snap (fd_node_id d) (w (fd_node_id d)))"
  shows "ran key (fd_idx ` set ds) S (ns, w) (ns, snapshot_all (freeze_at snap) ds w)"
  using assms
proof (induction ds arbitrary: w)
  case (Cons d ds)
  let ?i = "fd_idx d"
  have i: "?i < length ns" "fd_node_id d = key ?i" using Cons.prems by auto
  have S: "S ?i = (ns ! ?i, snap (key ?i) (w (key ?i)))" using Cons.prems(4) i by simp
  have "fd_idx d' \<noteq> ?i" if "d' \<in> set ds" for d' using Cons.prems(1) that by (auto simp: image_iff)
  then have nk: "key (fd_idx d') \<noteq> key ?i" if "d' \<in> set ds" for d'
    using Cons.prems(2,3) that i by (auto dest: inj_onD)
  have "ran key (fd_idx ` set ds) S (ns, w(key ?i := snap (key ?i) (w (key ?i))))
      (ns, snapshot_all (freeze_at snap) ds (w(key ?i := snap (key ?i) (w (key ?i)))))"
    by (rule Cons.IH) (use Cons.prems nk in auto)
  then have "ran key (insert ?i (fd_idx ` set ds)) S (ns, w)
      (ns, snapshot_all (freeze_at snap) ds (w(key ?i := snap (key ?i) (w (key ?i)))))"
  proof (intro ran_insert [OF _ _ _ i(1)])
    show "?i \<notin> fd_idx ` set ds" using Cons.prems(1) by auto
    show "inj_on key (insert ?i (fd_idx ` set ds))"
      by (rule inj_on_subset [OF Cons.prems(2)]) (use Cons.prems(3) in auto)
  qed (simp add: S)
  moreover have "freeze_at snap (key ?i) w = w(key ?i := snap (key ?i) (w (key ?i)))" by (rule freeze_at_def)
  ultimately show ?case by (simp only: snapshot_all.simps i(2) list.set image_insert)
qed (simp add: ran_empty)

section \<open>Fused is two-phase\<close>

lemma decided_idx:
  "map fd_idx (concat (map (decided_of names D) js)) = filter (\<lambda>j. fst (fst (D j)) \<noteq> None) js"
  by (induction js) (auto simp: decided_of_def split: option.splits)

lemma decided_mem:
  "d \<in> set (concat (map (decided_of names D) js)) \<Longrightarrow>
   fd_idx d \<in> set js \<and> fd_node_id d = names ! fd_idx d \<and> fst (fst (D (fd_idx d))) = Some (fd_kind d)"
  by (auto simp: decided_of_def split: option.splits)

lemma decided_trace:
  assumes "\<forall>d \<in> set (concat (map (decided_of names D) js)). G (fd_idx d) = fst (fused_of e snap at names D (fd_idx d))"
  shows "concat (map (\<lambda>d. G (fd_idx d)) (concat (map (decided_of names D) js))) =
    concat (map (\<lambda>j. fst (fused_of e snap at names D j)) js)"
  using assms
proof (induction js)
  case (Cons j js)
  then have IH: "concat (map (\<lambda>d. G (fd_idx d)) (concat (map (decided_of names D) js))) =
      concat (map (\<lambda>j. fst (fused_of e snap at names D j)) js)" by simp
  show ?case
  proof (cases "fst (fst (D j))")
    case None
    then have "decided_of names D j = []" "fst (fused_of e snap at names D j) = []"
      by (simp_all add: decided_of_def fused_of_def)
    with IH show ?thesis by simp
  next
    case (Some k)
    then have one: "decided_of names D j = [\<lparr>fd_node_id = names ! j, fd_idx = j, fd_kind = k\<rparr>]"
      by (simp add: decided_of_def)
    with Cons.prems have "G j = fst (fused_of e snap at names D j)" by simp
    with IH one show ?thesis by simp
  qed
qed simp

lemma push_all_cleared: "(push_all es s)\<lparr>sd_decisions := ds\<rparr> = push_all es (s\<lparr>sd_decisions := ds\<rparr>)"
  by (simp add: push_all_put)

text \<open>The second phase: the decisions of \<open>js\<close> frozen and ticked do what \<open>fused_of\<close> says.\<close>

lemma decided_level_ran:
  fixes names js D w1 ns1 and e :: "string \<Rightarrow> 's node_env"
  defines "ds \<equiv> concat (map (decided_of names D) js)"
  assumes names: "distinct names" "map nd_id ns1 = names" and nodes: "sd_nodes s = ns1"
    and js: "distinct js" "set js \<subseteq> {..<length names}"
    and dec: "\<forall>j \<in> set js. ns1 ! j = snd (fst (D j)) \<and> w1 (names ! j) = snd (D j)"
  shows "\<exists>ns3 w3. tick_decided (\<lambda>i. lift_env i (e i)) at ds s (snapshot_all (freeze_at snap) ds w1) =
      (push_all (concat (map (\<lambda>j. fst (fused_of e snap at names D j)) js)) (s\<lparr>sd_nodes := ns3\<rparr>), w3) \<and>
    ran ((!) names) (fd_idx ` set ds) (\<lambda>j. snd (fused_of e snap at names D j)) (ns1, w1) (ns3, w3)"
proof -
  let ?key = "(!) names" and ?F = "fused_of e snap at names D"
  let ?w2 = "snapshot_all (freeze_at snap) ds w1" and ?B = "fd_idx ` set ds"
  have len: "length names = length ns1" using names(2) by auto
  have mem: "fd_idx d \<in> set js \<and> fd_node_id d = names ! fd_idx d \<and> fst (fst (D (fd_idx d))) = Some (fd_kind d)"
    if "d \<in> set ds" for d
    using decided_mem that unfolding ds_def .
  have idx: "distinct (map fd_idx ds)" unfolding ds_def decided_idx using js(1) by simp
  have id: "nd_id (ns1 ! j) = names ! j" if "j < length names" for j
    using that len names(2) by auto
  have B: "?B \<subseteq> {..<length names}" using mem js(2) by blast
  have inj: "inj_on ?key {..<length ns1}" using names_inj [OF names(1)] len by simp
  have ok: "decisions_ok ds s"
    using idx mem js(2) id len names nodes by (auto simp: decisions_ok_def subset_iff)
  have r2: "ran ?key ?B (\<lambda>j. (ns1 ! j, snap (names ! j) (w1 (names ! j)))) (ns1, w1) (ns1, ?w2)"
    by (rule snapshots_ran [OF idx inj]) (use mem js(2) len in auto)
  let ?fired = "fired_at e at ds s ?w2"
  obtain ns3 w3 where tick: "tick_decided (\<lambda>i. lift_env i (e i)) at ds s ?w2 =
      (push_all (concat (map (\<lambda>d. fst (?fired (fd_idx d))) ds)) (s\<lparr>sd_nodes := ns3\<rparr>), w3)"
    "ran (\<lambda>i. nd_id (ns1 ! i)) ?B (\<lambda>i. snd (?fired i)) (ns1, ?w2) (ns3, w3)"
    using tick_decided_isolated [OF ok] unfolding nodes by blast
  have F: "?fired (fd_idx d) = ?F (fd_idx d)" if "d \<in> set ds" for d
  proof -
    let ?j = "fd_idx d"
    have j: "?j \<in> ?B" "?j \<in> set js" "?j < length names" using that mem js(2) by auto
    have "?w2 (names ! ?j) = snap (names ! ?j) (w1 (names ! ?j))" using r2 that by (auto simp: ran_def)
    then show ?thesis
      using fired_at_decision [OF idx that, of e at s ?w2] mem [OF that] id [OF j(3)] bspec [OF dec j(2)]
      by (simp add: fused_of_def nodes)
  qed
  have keyB: "(\<lambda>i. nd_id (ns1 ! i)) ` ?B = ?key ` ?B"
    by (rule image_cong [OF refl]) (use B id in auto)
  have r3: "ran ?key ?B (\<lambda>i. snd (?fired i)) (ns1, ?w2) (ns3, w3)"
    using tick(2) keyB B id by (simp add: ran_def subset_iff)
  have "ran ?key ?B (\<lambda>j. if j \<in> ?B then snd (?fired j) else (ns1 ! j, snap (names ! j) (w1 (names ! j))))
      (ns1, w1) (ns3, w3)"
    by (rule ran_again [OF r2 r3 subset_refl]) (rule inj_on_subset [OF inj], use B len in simp)
  then have "ran ?key ?B (\<lambda>j. snd (?F j)) (ns1, w1) (ns3, w3)"
    by (rule ran_same) (use F in auto)
  moreover have "concat (map (\<lambda>d. fst (?fired (fd_idx d))) ds) = concat (map (\<lambda>j. fst (?F j)) js)"
    using decided_trace [of names D js "\<lambda>i. fst (?fired i)" e snap at] F unfolding ds_def by simp
  ultimately show ?thesis using tick(1) by auto
qed

text \<open>The nodes a decision was not made for: what the fused evaluation makes of them is what was decided.\<close>

lemma undecided_fused:
  assumes "j \<in> set js" "j \<notin> fd_idx ` set (concat (map (decided_of names D) js))"
  shows "snd (fused_of e snap at names D j) = after_decide D j"
proof -
  have "j \<notin> set (filter (\<lambda>j. fst (fst (D j)) \<noteq> None) js)"
    using assms(2) unfolding decided_idx [of names D js, symmetric] set_map .
  with assms(1) have "fst (fst (D j)) = None" by simp
  then show ?thesis by (simp add: fused_of_def)
qed

lemma decided_ids:
  assumes "ran ((!) names) (set js) (after_decide D) (ns, w) (ns1, w1)" "names = map nd_id ns"
    and "\<forall>j \<in> set js. nd_id (snd (fst (D j))) = names ! j"
  shows "map nd_id ns1 = names"
proof (rule nth_equalityI)
  show "length (map nd_id ns1) = length names" using assms(1,2) by (simp add: ran_def)
  fix j assume "j < length (map nd_id ns1)"
  with assms show "map nd_id ns1 ! j = names ! j" by (cases "j \<in> set js") (auto simp: ran_def)
qed

text \<open>
  Firing a level node by node is firing it in two phases. For nodes that touch only their own part
  of the world, deciding, freezing and ticking one node after the other leaves the nodes, the world and
  the trace exactly as deciding all of them, then freezing the inputs of all that fire, and then ticking
  the decisions: when a node of a level runs relative to its siblings is not observable.
\<close>

theorem fused_level_is_two_phase:
  assumes "distinct (map nd_id (sd_nodes s))" "distinct ids"
    and "decide_fires (\<lambda>i. lift_env i (e i)) ids t s w = (s1, w1)"
    and "take_decisions s1 = (ds, s2)"
  shows "evaluate_nodes_fused (\<lambda>i. lift_env i (e i)) (freeze_at snap) at t ids (s\<lparr>sd_decisions := []\<rparr>) w =
    tick_decided (\<lambda>i. lift_env i (e i)) at ds s2 (snapshot_all (freeze_at snap) ds w1)"
proof -
  define names where "names = map nd_id (sd_nodes s)"
  define js where "js = level_idx names ids"
  define D where "D j = decide_node (e (names ! j)) t (sd_cap_override s) (run_qos_windows t (sd_nodes s ! j))
      (w (names ! j))" for j
  let ?s = "s\<lparr>sd_decisions := []\<rparr>" and ?key = "(!) names"
  let ?ds = "concat (map (decided_of names D) js)" and ?F = "fused_of e snap at names D"
  have names: "distinct names" "names = map nd_id (sd_nodes ?s)" "length names = length (sd_nodes s)"
    using assms(1) by (simp_all add: names_def)
  have D: "\<forall>i \<in> set ids. \<forall>j. index_in i names = Some j \<longrightarrow>
      D j = decide_node (e i) t (sd_cap_override ?s) (run_qos_windows t (sd_nodes ?s ! j)) (w i)"
    by (auto simp: D_def dest: index_in_Some)
  have js: "distinct js" "set js \<subseteq> {..<length names}"
    unfolding js_def using level_idx_mem level_idx_distinct [OF assms(2)] by fastforce+
  have inj: "inj_on ?key (set js)" by (rule inj_on_subset [OF names_inj [OF names(1)] js(2)])
  obtain ns1 w1' where dec: "decide_loop (\<lambda>i. lift_env i (e i)) t ids ?s w =
      (?s\<lparr>sd_nodes := ns1, sd_decisions := sd_decisions ?s @ ?ds\<rparr>, w1')"
    "ran ?key (set js) (after_decide D) (sd_nodes ?s, w) (ns1, w1')"
    using decide_loop_ran [OF assms(2) names(1,2) D] unfolding js_def [symmetric] by blast
  have eqs: "w1 = w1'" "ds = ?ds" "s2 = ?s\<lparr>sd_nodes := ns1\<rparr>"
    using assms(3,4) dec(1) by (auto simp: decide_fires_def take_decisions_def)
  have "nd_id (snd (fst (D j))) = names ! j" if "j \<in> set js" for j
  proof -
    obtain k n' w' where d: "D j = ((k, n'), w')" by (metis prod.collapse)
    from decide_node_id [OF d [unfolded D_def]] show ?thesis using that js(2) by (auto simp: d names_def)
  qed
  then have ids1: "map nd_id ns1 = names" using decided_ids [OF dec(2) names(2)] by blast
  have at1: "\<forall>j \<in> set js. ns1 ! j = snd (fst (D j)) \<and> w1' (names ! j) = snd (D j)"
    using dec(2) js(2) names(3) by (auto simp: ran_def)
  have put: "sd_nodes (?s\<lparr>sd_nodes := ns1\<rparr>) = ns1" by simp
  obtain ns3 w3 where two: "tick_decided (\<lambda>i. lift_env i (e i)) at ?ds (?s\<lparr>sd_nodes := ns1\<rparr>)
        (snapshot_all (freeze_at snap) ?ds w1') =
      (push_all (concat (map (\<lambda>j. fst (?F j)) js)) ((?s\<lparr>sd_nodes := ns1\<rparr>)\<lparr>sd_nodes := ns3\<rparr>), w3)"
    "ran ?key (fd_idx ` set ?ds) (\<lambda>j. snd (?F j)) (ns1, w1') (ns3, w3)"
    using decided_level_ran [OF names(1) ids1 put js at1, of e at snap] by blast
  have B: "fd_idx ` set ?ds \<subseteq> set js" using decided_mem [of _ names D js] by blast
  have "ran ?key (set js) (\<lambda>j. if j \<in> fd_idx ` set ?ds then snd (?F j) else after_decide D j)
      (sd_nodes ?s, w) (ns3, w3)"
    by (rule ran_again [OF dec(2) two(2) B inj])
  then have all: "ran ?key (set js) (\<lambda>j. snd (?F j)) (sd_nodes ?s, w) (ns3, w3)"
  proof (rule ran_same)
    fix j assume "j \<in> set js"
    then show "(if j \<in> fd_idx ` set ?ds then snd (?F j) else after_decide D j) = snd (?F j)"
      using undecided_fused [of j js names D e snap at] by presburger
  qed
  obtain ns' w' where fused: "evaluate_nodes_fused (\<lambda>i. lift_env i (e i)) (freeze_at snap) at t ids ?s w =
      (push_all (concat (map (\<lambda>j. fst (?F j)) js)) (?s\<lparr>sd_nodes := ns'\<rparr>), w')"
    "ran ?key (set js) (\<lambda>j. snd (?F j)) (sd_nodes ?s, w) (ns', w')"
    using fused_ran [OF assms(2) names(1,2) D] unfolding js_def [symmetric] by blast
  have "(ns', w') = (ns3, w3)" by (rule ran_unique [OF fused(2) all])
  then show ?thesis using fused(1) two(1) unfolding eqs by simp
qed

theorem fused_level_is_two_phase_witness:
  "\<exists>ds s2 w1. evaluate_nodes_fused (\<lambda>i. lift_env i (plain_env False)) (freeze_at (\<lambda>_ u. u)) (0, 1) 7 [''b'', ''a'']
      ((new_scheduler (Virtual 0))\<lparr>sd_nodes := [new_node ''a'' External 0, new_node ''b'' External 0], sd_decisions := []\<rparr>)
      (\<lambda>_. ()) =
    tick_decided (\<lambda>i. lift_env i (plain_env False)) (0, 1) ds s2 (snapshot_all (freeze_at (\<lambda>_ u. u)) ds w1)"
proof -
  let ?s = "(new_scheduler (Virtual 0))\<lparr>sd_nodes := [new_node ''a'' External 0, new_node ''b'' External 0]\<rparr>"
  obtain s1 w1 where d: "decide_fires (\<lambda>i. lift_env i (plain_env False)) [''b'', ''a''] 7 ?s (\<lambda>_. ()) = (s1, w1)"
    by (metis prod.collapse)
  obtain ds s2 where t: "take_decisions s1 = (ds, s2)" by (metis prod.collapse)
  have "distinct (map nd_id (sd_nodes ?s))" by (simp add: new_node_def)
  from fused_level_is_two_phase [OF this _ d t, where at = "(0, 1)" and snap = "\<lambda>_ u. u"] show ?thesis by auto
qed

end
