(* ===== verification/GraphTopology.thy ===== *)
theory GraphTopology
  imports Prelude
begin

text \<open>
  The topology of a graph (\<open>graph/topology.rs\<close>, the name resolution of \<open>graph/mod.rs\<close>, the node and
  port records of \<open>graph/config.rs\<close>): which nodes produce and consume which topic, how it is built from
  a configuration, and what \<open>validate\<close> refuses. The insertion-ordered maps of the code are lists keyed
  by their first component.
\<close>

section \<open>Configuration\<close>

datatype backpressure_policy = BpDropOldest | BpBlock | BpSample u64

record output_def =
  od_name :: string
  od_topic :: "string option"

record input_def =
  id_name :: string
  id_source :: string

record node_def =
  no_id :: string
  no_inputs :: "input_def list"
  no_outputs :: "output_def list"
  no_ros2 :: bool

record graph_config =
  gc_prefix :: string
  gc_nodes :: "node_def list"
  gc_multi_publisher_topics :: "string list"
  gc_level_assignments :: "(string \<times> nat) list option"

record input_meta =
  im_name :: string
  im_backpressure :: backpressure_policy
  im_depth :: nat

definition native_nodes :: "graph_config \<Rightarrow> node_def list" where
  "native_nodes cfg = filter (\<lambda>n. \<not> no_ros2 n) (gc_nodes cfg)"

definition is_multi_publisher :: "graph_config \<Rightarrow> string \<Rightarrow> bool" where
  "is_multi_publisher cfg topic \<longleftrightarrow> topic \<in> set (gc_multi_publisher_topics cfg)"

section \<open>Topic names\<close>

definition starts_with_slash :: "string \<Rightarrow> bool" where
  "starts_with_slash s = (case s of c # _ \<Rightarrow> c = CHR ''/'' | [] \<Rightarrow> False)"

fun has_empty_segment :: "string \<Rightarrow> bool" where
  "has_empty_segment (a # b # s) = (a = CHR ''/'' \<and> b = CHR ''/'' \<or> has_empty_segment (b # s))"
| "has_empty_segment _ = False"

datatype name_fault = BareSlash | TrailingSlash | EmptySegment | ReservedChar

definition malformed_absolute_name :: "string \<Rightarrow> name_fault option" where
  "malformed_absolute_name s =
     (if length s = 1 then Some BareSlash
      else if s \<noteq> [] \<and> last s = CHR ''/'' then Some TrailingSlash
      else if has_empty_segment s then Some EmptySegment
      else if \<exists>c \<in> set s. c \<in> set ''*?#$@'' then Some ReservedChar
      else None)"

definition resolve_output_topic :: "string \<Rightarrow> string \<Rightarrow> output_def \<Rightarrow> string" where
  "resolve_output_topic prefix node_id output =
     (case od_topic output of
        Some t \<Rightarrow> t
      | None \<Rightarrow> ''/'' @ prefix @ ''/'' @ node_id @ ''/'' @ od_name output)"

definition resolve_source :: "string \<Rightarrow> string \<Rightarrow> string" where
  "resolve_source prefix source =
     (if starts_with_slash source then source else ''/'' @ prefix @ ''/'' @ source)"

section \<open>The topology\<close>

definition DEFAULT_CONSUMER_DEPTH :: nat where
  "DEFAULT_CONSUMER_DEPTH = 10"

definition MAX_CONSUMER_DEPTH :: nat where
  "MAX_CONSUMER_DEPTH = 64"

record consumer_edge =
  ce_node_id :: string
  ce_input :: string
  ce_policy :: backpressure_policy
  ce_depth :: nat

record topic_flow =
  tf_topic :: string
  tf_producers :: "string list"
  tf_consumers :: "consumer_edge list"

record topology =
  gt_topics :: "topic_flow list"
  gt_multi_publisher_topics :: "string set"
  gt_node_order :: "string list"

datatype topology_error =
    BadTopicOverride | TwoProducers | DuplicateInputMeta
  | DuplicateConsumerEdge | DuplicateProducer | UnlistedProducers
  | ZeroDepth | DepthAboveMax | BlockWithoutProducer

text \<open>\<open>topics.entry(topic).or_insert(empty)\<close>, then \<open>f\<close> on the entry.\<close>

fun at_topic :: "string \<Rightarrow> (topic_flow \<Rightarrow> topic_flow) \<Rightarrow> topic_flow list \<Rightarrow> topic_flow list" where
  "at_topic t f [] = [f \<lparr>tf_topic = t, tf_producers = [], tf_consumers = []\<rparr>]"
| "at_topic t f (x # xs) = (if tf_topic x = t then f x # xs else x # at_topic t f xs)"

definition topic :: "string \<Rightarrow> topic_flow list \<Rightarrow> topic_flow option" where
  "topic t flows = find (\<lambda>f. tf_topic f = t) flows"

definition producers_of :: "topic_flow list \<Rightarrow> string \<Rightarrow> string list" where
  "producers_of flows t = (case topic t flows of Some f \<Rightarrow> tf_producers f | None \<Rightarrow> [])"

definition consumers_of :: "topic_flow list \<Rightarrow> string \<Rightarrow> consumer_edge list" where
  "consumers_of flows t = (case topic t flows of Some f \<Rightarrow> tf_consumers f | None \<Rightarrow> [])"

definition bad_override :: "output_def \<Rightarrow> bool" where
  "bad_override output =
     (case od_topic output of
        Some t \<Rightarrow> \<not> starts_with_slash t \<or> malformed_absolute_name t \<noteq> None
      | None \<Rightarrow> False)"

definition out_topic :: "graph_config \<Rightarrow> node_def \<times> output_def \<Rightarrow> string" where
  "out_topic cfg p = resolve_output_topic (gc_prefix cfg) (no_id (fst p)) (snd p)"

fun add_producers :: "graph_config \<Rightarrow> (node_def \<times> output_def) list \<Rightarrow> topic_flow list \<Rightarrow>
    topology_error + topic_flow list" where
  "add_producers cfg [] flows = Inr flows"
| "add_producers cfg ((n, output) # ps) flows =
     (if bad_override output then Inl BadTopicOverride
      else
        let t = out_topic cfg (n, output)
        in if producers_of flows t \<noteq> [] \<and> \<not> is_multi_publisher cfg t then Inl TwoProducers
           else add_producers cfg ps
             (at_topic t (\<lambda>f. f\<lparr>tf_producers := push_new (tf_producers f) (no_id n)\<rparr>) flows))"

definition consumer_of :: "input_meta list option \<Rightarrow> node_def \<Rightarrow> input_def \<Rightarrow> consumer_edge" where
  "consumer_of info n input =
     (let (policy, depth) =
            (case Option.bind info (find (\<lambda>m. im_name m = id_name input)) of
               Some m \<Rightarrow> (im_backpressure m, im_depth m)
             | None \<Rightarrow> (BpDropOldest, DEFAULT_CONSUMER_DEPTH))
      in \<lparr>ce_node_id = no_id n, ce_input = id_name input, ce_policy = policy, ce_depth = depth\<rparr>)"

definition duplicate_meta :: "input_meta list option \<Rightarrow> bool" where
  "duplicate_meta info = (case info of Some metas \<Rightarrow> \<not> distinct (map im_name metas) | None \<Rightarrow> False)"

definition in_topic :: "graph_config \<Rightarrow> input_def \<Rightarrow> string" where
  "in_topic cfg input = resolve_source (gc_prefix cfg) (id_source input)"

fun add_inputs :: "graph_config \<Rightarrow> input_meta list option \<Rightarrow> node_def \<Rightarrow> input_def list \<Rightarrow>
    topic_flow list \<Rightarrow> topic_flow list" where
  "add_inputs cfg info n [] flows = flows"
| "add_inputs cfg info n (i # ins) flows =
     add_inputs cfg info n ins
       (at_topic (in_topic cfg i) (\<lambda>f. f\<lparr>tf_consumers := tf_consumers f @ [consumer_of info n i]\<rparr>) flows)"

fun add_consumers :: "graph_config \<Rightarrow> (string \<Rightarrow> input_meta list option) \<Rightarrow> node_def list \<Rightarrow>
    topic_flow list \<Rightarrow> topology_error + topic_flow list" where
  "add_consumers cfg infos [] flows = Inr flows"
| "add_consumers cfg infos (n # ns) flows =
     (if duplicate_meta (infos (no_id n)) then Inl DuplicateInputMeta
      else add_consumers cfg infos ns (add_inputs cfg (infos (no_id n)) n (no_inputs n) flows))"

definition outputs_of :: "graph_config \<Rightarrow> (node_def \<times> output_def) list" where
  "outputs_of cfg = concat (map (\<lambda>n. map (Pair n) (no_outputs n)) (native_nodes cfg))"

definition topology_build :: "graph_config \<Rightarrow> (string \<Rightarrow> input_meta list option) \<Rightarrow>
    topology_error + topology" where
  "topology_build cfg infos =
     (case add_producers cfg (outputs_of cfg) [] of
        Inl e \<Rightarrow> Inl e
      | Inr flows \<Rightarrow>
          (case add_consumers cfg infos (native_nodes cfg) flows of
             Inl e \<Rightarrow> Inl e
           | Inr flows' \<Rightarrow>
               Inr \<lparr>gt_topics = flows',
                    gt_multi_publisher_topics = set (gc_multi_publisher_topics cfg),
                    gt_node_order = map no_id (native_nodes cfg)\<rparr>))"

section \<open>Questions about a topic\<close>

definition is_block :: "consumer_edge \<Rightarrow> bool" where
  "is_block c \<longleftrightarrow> ce_policy c = BpBlock"

definition is_all_block :: "topic_flow \<Rightarrow> bool" where
  "is_all_block f \<longleftrightarrow> tf_consumers f \<noteq> [] \<and> (\<forall>c \<in> set (tf_consumers f). is_block c)"

definition has_block_consumer :: "topic_flow \<Rightarrow> bool" where
  "has_block_consumer f \<longleftrightarrow> (\<exists>c \<in> set (tf_consumers f). is_block c)"

definition sum_consumer_depths :: "topic_flow \<Rightarrow> nat" where
  "sum_consumer_depths f = sum_list (map ce_depth (tf_consumers f))"

definition sole_producer :: "topic_flow \<Rightarrow> string option" where
  "sole_producer f = (case tf_producers f of [p] \<Rightarrow> Some p | _ \<Rightarrow> None)"

definition sole_consumer :: "topic_flow \<Rightarrow> consumer_edge option" where
  "sole_consumer f = (case tf_consumers f of [c] \<Rightarrow> Some c | _ \<Rightarrow> None)"

text \<open>A sibling is named by its node and its input.\<close>

datatype credit_bar =
    NoInGraphProducer | MultipleProducers nat
  | MixedTopic "string \<times> string" "(string \<times> string) list" | NoBlockConsumer

definition credit_bar_of :: "topic_flow \<Rightarrow> credit_bar option" where
  "credit_bar_of f =
     (case length (tf_producers f) of
        0 \<Rightarrow> Some NoInGraphProducer
      | Suc 0 \<Rightarrow>
          (if \<not> has_block_consumer f then Some NoBlockConsumer
           else case map (\<lambda>c. (ce_node_id c, ce_input c)) (filter (\<lambda>c. \<not> is_block c) (tf_consumers f)) of
                  [] \<Rightarrow> None
                | first # rest \<Rightarrow> Some (MixedTopic first rest))
      | n \<Rightarrow> Some (MultipleProducers n))"

definition is_creditable :: "topic_flow \<Rightarrow> bool" where
  "is_creditable f \<longleftrightarrow> credit_bar_of f = None"

section \<open>Validation\<close>

fun check_edges :: "(string \<times> string) set \<Rightarrow> consumer_edge list \<Rightarrow> bool" where
  "check_edges seen [] = True"
| "check_edges seen (c # cs) =
     ((ce_node_id c, ce_input c) \<notin> seen \<and> check_edges (insert (ce_node_id c, ce_input c) seen) cs)"

definition producers_error :: "topology \<Rightarrow> topic_flow \<Rightarrow> topology_error option" where
  "producers_error g f =
     (if \<not> distinct (tf_producers f) then Some DuplicateProducer
      else if 1 < length (tf_producers f) \<and> tf_topic f \<notin> gt_multi_publisher_topics g
      then Some UnlistedProducers else None)"

definition consumer_error :: "(string \<times> string \<times> string) set \<Rightarrow> topic_flow \<Rightarrow> consumer_edge \<Rightarrow>
    topology_error option" where
  "consumer_error credited f c =
     (if ce_depth c = 0 then Some ZeroDepth
      else if MAX_CONSUMER_DEPTH < ce_depth c then Some DepthAboveMax
      else if is_block c \<and> tf_producers f = [] \<and> (tf_topic f, ce_node_id c, ce_input c) \<notin> credited
      then Some BlockWithoutProducer else None)"

text \<open>The first error of a walk in order.\<close>

fun first_error :: "('a \<Rightarrow> 'e option) \<Rightarrow> 'a list \<Rightarrow> 'e option" where
  "first_error chk [] = None"
| "first_error chk (x # xs) = (case chk x of Some e \<Rightarrow> Some e | None \<Rightarrow> first_error chk xs)"

definition topology_validate :: "(string \<times> string \<times> string) set \<Rightarrow> topology \<Rightarrow> topology_error + unit" where
  "topology_validate credited g =
     (if \<not> check_edges {} (concat (map tf_consumers (gt_topics g))) then Inl DuplicateConsumerEdge
      else case first_error (producers_error g) (gt_topics g) of
             Some e \<Rightarrow> Inl e
           | None \<Rightarrow>
               (case first_error (\<lambda>(f, c). consumer_error credited f c)
                       (concat (map (\<lambda>f. map (Pair f) (tf_consumers f)) (gt_topics g))) of
                  Some e \<Rightarrow> Inl e
                | None \<Rightarrow> Inr ()))"

section \<open>Looking up what was added\<close>

lemma topic_at_topic:
  "(\<And>f. tf_topic (g f) = tf_topic f) \<Longrightarrow>
   topic t (at_topic u g flows) =
     (if t = u then Some (g (case topic t flows of Some f \<Rightarrow> f
        | None \<Rightarrow> \<lparr>tf_topic = t, tf_producers = [], tf_consumers = []\<rparr>))
      else topic t flows)"
  by (induction flows) (auto simp: topic_def)

lemma at_topic_names:
  "(\<And>f. tf_topic (g f) = tf_topic f) \<Longrightarrow> map tf_topic (at_topic u g flows) = push_new (map tf_topic flows) u"
  by (induction flows) (auto simp: push_new_def)

lemma at_topic_distinct:
  "(\<And>f. tf_topic (g f) = tf_topic f) \<Longrightarrow> distinct (map tf_topic flows) \<Longrightarrow>
   distinct (map tf_topic (at_topic u g flows))"
  by (simp add: at_topic_names push_new_def)

lemma at_topic_producers [simp]:
  "producers_of (at_topic u (\<lambda>f. f\<lparr>tf_producers := push_new (tf_producers f) p\<rparr>) flows) t =
     (if t = u then push_new (producers_of flows t) p else producers_of flows t)"
  "consumers_of (at_topic u (\<lambda>f. f\<lparr>tf_producers := push_new (tf_producers f) p\<rparr>) flows) t = consumers_of flows t"
  by (auto simp: producers_of_def consumers_of_def topic_at_topic split: option.splits)

lemma at_topic_consumers [simp]:
  "consumers_of (at_topic u (\<lambda>f. f\<lparr>tf_consumers := tf_consumers f @ [c]\<rparr>) flows) t =
     (if t = u then consumers_of flows t @ [c] else consumers_of flows t)"
  "producers_of (at_topic u (\<lambda>f. f\<lparr>tf_consumers := tf_consumers f @ [c]\<rparr>) flows) t = producers_of flows t"
  by (auto simp: producers_of_def consumers_of_def topic_at_topic split: option.splits)

section \<open>What building does\<close>

text \<open>The nodes with an output on \<open>t\<close>, one entry per output, and the edges that read it.\<close>

definition outputs_on :: "graph_config \<Rightarrow> (node_def \<times> output_def) list \<Rightarrow> string \<Rightarrow> string list" where
  "outputs_on cfg ps t = map (\<lambda>p. no_id (fst p)) (filter (\<lambda>p. out_topic cfg p = t) ps)"

definition edges_on :: "graph_config \<Rightarrow> (string \<Rightarrow> input_meta list option) \<Rightarrow> node_def list \<Rightarrow> string \<Rightarrow>
    consumer_edge list" where
  "edges_on cfg infos ns t =
     concat (map (\<lambda>n. map (consumer_of (infos (no_id n)) n) (filter (\<lambda>i. in_topic cfg i = t) (no_inputs n))) ns)"

lemma add_producers_result:
  "add_producers cfg ps flows = Inr flows' \<Longrightarrow>
   producers_of flows' t = foldl push_new (producers_of flows t) (outputs_on cfg ps t) \<and>
   consumers_of flows' t = consumers_of flows t \<and>
   (distinct (map tf_topic flows) \<longrightarrow> distinct (map tf_topic flows'))"
proof (induction cfg ps flows rule: add_producers.induct)
  case (2 cfg n od ps flows)
  from 2(2) have ok: "\<not> bad_override od"
    "\<not> (producers_of flows (out_topic cfg (n, od)) \<noteq> [] \<and> \<not> is_multi_publisher cfg (out_topic cfg (n, od)))"
    by (auto simp: Let_def split: if_splits)
  let ?fs = "at_topic (out_topic cfg (n, od)) (\<lambda>f. f\<lparr>tf_producers := push_new (tf_producers f) (no_id n)\<rparr>) flows"
  from 2(2) ok have "add_producers cfg ps ?fs = Inr flows'" by (auto simp: Let_def split: if_splits)
  from 2(1) [OF ok(1) refl ok(2) this] show ?case
    by (auto simp: outputs_on_def at_topic_distinct)
qed (simp add: outputs_on_def)

lemma add_inputs_result:
  "consumers_of (add_inputs cfg info n ins flows) t =
     consumers_of flows t @ map (consumer_of info n) (filter (\<lambda>i. in_topic cfg i = t) ins) \<and>
   producers_of (add_inputs cfg info n ins flows) t = producers_of flows t \<and>
   (distinct (map tf_topic flows) \<longrightarrow> distinct (map tf_topic (add_inputs cfg info n ins flows)))"
  by (induction ins arbitrary: flows) (auto simp: at_topic_distinct)

lemma add_consumers_result:
  "add_consumers cfg infos ns flows = Inr flows' \<Longrightarrow>
   consumers_of flows' t = consumers_of flows t @ edges_on cfg infos ns t \<and>
   producers_of flows' t = producers_of flows t \<and>
   (distinct (map tf_topic flows) \<longrightarrow> distinct (map tf_topic flows'))"
  by (induction ns arbitrary: flows)
    (auto simp: edges_on_def add_inputs_result split: if_splits)

lemma topology_build_result:
  assumes "topology_build cfg infos = Inr g"
  shows "producers_of (gt_topics g) t = first_seen (outputs_on cfg (outputs_of cfg) t) \<and>
    consumers_of (gt_topics g) t = edges_on cfg infos (native_nodes cfg) t \<and>
    distinct (map tf_topic (gt_topics g)) \<and> gt_node_order g = map no_id (native_nodes cfg)"
proof -
  obtain flows flows' where b: "add_producers cfg (outputs_of cfg) [] = Inr flows"
    "add_consumers cfg infos (native_nodes cfg) flows = Inr flows'"
    "gt_topics g = flows'" "gt_node_order g = map no_id (native_nodes cfg)"
    using assms by (auto simp: topology_build_def split: sum.splits)
  have "producers_of [] t = []" "consumers_of [] t = []" for t
    by (simp_all add: producers_of_def consumers_of_def topic_def)
  with add_producers_result [OF b(1), of t] add_consumers_result [OF b(2), of t] b(3,4) show ?thesis
    by (simp add: first_seen_def)
qed

text \<open>
  A built topology is the graph's wiring: for every topic name it lists as producers exactly the
  native nodes with an output that resolves to it, each once and in graph order, and as consumers exactly
  the inputs that resolve to it, in graph order, with the policy and depth their node declares; no topic
  has two entries and the node order is that of the configuration.
\<close>

theorem built_topology_is_the_wiring:
  assumes "topology_build cfg infos = Inr g"
  shows "producers_of (gt_topics g) t = first_seen (outputs_on cfg (outputs_of cfg) t) \<and>
    consumers_of (gt_topics g) t = edges_on cfg infos (native_nodes cfg) t \<and>
    distinct (map tf_topic (gt_topics g)) \<and> gt_node_order g = map no_id (native_nodes cfg)"
  by (rule topology_build_result [OF assms])

lemma add_producers_error:
  "(\<exists>e. add_producers cfg ps flows = Inl e) \<longleftrightarrow>
   (\<exists>p \<in> set ps. bad_override (snd p)) \<or>
   (\<exists>t. \<not> is_multi_publisher cfg t \<and>
      1 < length (outputs_on cfg ps t) + (if producers_of flows t = [] then 0 else 1) \<and> outputs_on cfg ps t \<noteq> [])"
proof (induction cfg ps flows rule: add_producers.induct)
  case (1 cfg flows)
  then show ?case by (simp add: outputs_on_def)
next
  case (2 cfg n od ps flows)
  let ?t = "out_topic cfg (n, od)"
  let ?fs = "at_topic ?t (\<lambda>f. f\<lparr>tf_producers := push_new (tf_producers f) (no_id n)\<rparr>) flows"
  have on: "outputs_on cfg ((n, od) # ps) t = (if t = ?t then no_id n # outputs_on cfg ps t else outputs_on cfg ps t)" for t
    by (simp add: outputs_on_def)
  have new: "push_new xs x \<noteq> []" for xs :: "string list" and x by (auto simp: push_new_def)
  consider "bad_override od"
    | "\<not> bad_override od" "producers_of flows ?t \<noteq> []" "\<not> is_multi_publisher cfg ?t"
    | "\<not> bad_override od" "\<not> (producers_of flows ?t \<noteq> [] \<and> \<not> is_multi_publisher cfg ?t)"
    by blast
  then show ?case
  proof cases
    case 1
    then show ?thesis by simp
  next
    case 2
    then have "\<exists>t. \<not> is_multi_publisher cfg t \<and>
        1 < length (outputs_on cfg ((n, od) # ps) t) + (if producers_of flows t = [] then 0 else 1) \<and>
        outputs_on cfg ((n, od) # ps) t \<noteq> []"
      by (intro exI [of _ ?t]) (simp add: on)
    with 2 show ?thesis by (simp add: Let_def)
  next
    case 3
    have IH: "(\<exists>e. add_producers cfg ps ?fs = Inl e) \<longleftrightarrow>
        (\<exists>p \<in> set ps. bad_override (snd p)) \<or>
        (\<exists>t. \<not> is_multi_publisher cfg t \<and>
          1 < length (outputs_on cfg ps t) + (if producers_of ?fs t = [] then 0 else 1) \<and> outputs_on cfg ps t \<noteq> [])"
      by (rule "2.IH" [OF 3(1) refl 3(2)])
    have "\<not> is_multi_publisher cfg t \<and>
          1 < length (outputs_on cfg ps t) + (if producers_of ?fs t = [] then 0 else 1) \<and> outputs_on cfg ps t \<noteq> []
        \<longleftrightarrow> \<not> is_multi_publisher cfg t \<and>
          1 < length (outputs_on cfg ((n, od) # ps) t) + (if producers_of flows t = [] then 0 else 1) \<and>
          outputs_on cfg ((n, od) # ps) t \<noteq> []" for t
      using 3(2) new by (auto simp: on)
    then have same: "(\<exists>t. \<not> is_multi_publisher cfg t \<and>
          1 < length (outputs_on cfg ps t) + (if producers_of ?fs t = [] then 0 else 1) \<and> outputs_on cfg ps t \<noteq> [])
        \<longleftrightarrow> (\<exists>t. \<not> is_multi_publisher cfg t \<and>
          1 < length (outputs_on cfg ((n, od) # ps) t) + (if producers_of flows t = [] then 0 else 1) \<and>
          outputs_on cfg ((n, od) # ps) t \<noteq> [])"
      by (rule ex_cong1)
    have "add_producers cfg ((n, od) # ps) flows = add_producers cfg ps ?fs"
      using 3 by (auto simp: Let_def)
    with IH 3(1) show ?thesis unfolding same by simp
  qed
qed

lemma add_consumers_error:
  "(\<exists>e. add_consumers cfg infos ns flows = Inl e) \<longleftrightarrow> (\<exists>n \<in> set ns. duplicate_meta (infos (no_id n)))"
  by (induction ns arbitrary: flows) auto

lemma topology_build_errors:
  "(\<exists>e. topology_build cfg infos = Inl e) \<longleftrightarrow>
     (\<exists>p \<in> set (outputs_of cfg). bad_override (snd p)) \<or>
     (\<exists>t. \<not> is_multi_publisher cfg t \<and> 1 < length (outputs_on cfg (outputs_of cfg) t)) \<or>
     (\<exists>n \<in> set (native_nodes cfg). duplicate_meta (infos (no_id n)))"
proof -
  have "producers_of [] t = []" for t by (simp add: producers_of_def topic_def)
  then have p: "(\<exists>e. add_producers cfg (outputs_of cfg) [] = Inl e) \<longleftrightarrow>
      (\<exists>p \<in> set (outputs_of cfg). bad_override (snd p)) \<or>
      (\<exists>t. \<not> is_multi_publisher cfg t \<and> 1 < length (outputs_on cfg (outputs_of cfg) t))"
    unfolding add_producers_error by force
  show ?thesis
  proof (cases "add_producers cfg (outputs_of cfg) []")
    case (Inl e)
    then show ?thesis using p by (auto simp: topology_build_def)
  next
    case (Inr flows)
    then show ?thesis
      using p add_consumers_error [of cfg infos "native_nodes cfg" flows]
      by (auto simp: topology_build_def split: sum.splits)
  qed
qed

text \<open>
  Building refuses exactly the ill-formed graphs: those with a \<open>topic:\<close> override that is not a
  well-formed absolute name, with two outputs on one topic that is not listed for several publishers, or
  with a native node that declares the metadata of one input twice. Every other graph is built.
\<close>

theorem building_refuses_exactly_ill_formed_graphs:
  "(\<exists>e. topology_build cfg infos = Inl e) \<longleftrightarrow>
     (\<exists>p \<in> set (outputs_of cfg). bad_override (snd p)) \<or>
     (\<exists>t. \<not> is_multi_publisher cfg t \<and> 1 < length (outputs_on cfg (outputs_of cfg) t)) \<or>
     (\<exists>n \<in> set (native_nodes cfg). duplicate_meta (infos (no_id n)))"
  by (rule topology_build_errors)

section \<open>What validation accepts\<close>

lemma check_edges_distinct:
  "check_edges seen cs \<longleftrightarrow> distinct (map (\<lambda>c. (ce_node_id c, ce_input c)) cs) \<and>
     (\<forall>c \<in> set cs. (ce_node_id c, ce_input c) \<notin> seen)"
  by (induction cs arbitrary: seen) (auto simp: image_iff)

lemma first_error_None: "first_error chk xs = None \<longleftrightarrow> (\<forall>x \<in> set xs. chk x = None)"
  by (induction xs) (auto split: option.splits)

lemma first_error_Some: "first_error chk xs = Some e \<Longrightarrow> \<exists>x \<in> set xs. chk x = Some e"
  by (induction xs) (auto split: option.splits)

definition flow_ok :: "(string \<times> string \<times> string) set \<Rightarrow> topology \<Rightarrow> topic_flow \<Rightarrow> bool" where
  "flow_ok credited g f \<longleftrightarrow> distinct (tf_producers f) \<and>
     (length (tf_producers f) \<le> 1 \<or> tf_topic f \<in> gt_multi_publisher_topics g) \<and>
     (\<forall>c \<in> set (tf_consumers f). 1 \<le> ce_depth c \<and> ce_depth c \<le> MAX_CONSUMER_DEPTH \<and>
        (is_block c \<longrightarrow> tf_producers f \<noteq> [] \<or> (tf_topic f, ce_node_id c, ce_input c) \<in> credited))"

text \<open>
  C38. Validation accepts exactly the sound topologies: one edge per input of a node, producers listed
  once and alone unless the topic is listed for several, every queue depth between 1 and 64, and no
  \<open>block\<close> input without a producer in the graph unless the edge carries a cross-process credit word.
\<close>

theorem validation_accepts_exactly:
  "topology_validate credited g = Inr () \<longleftrightarrow>
     distinct (map (\<lambda>c. (ce_node_id c, ce_input c)) (concat (map tf_consumers (gt_topics g)))) \<and>
     (\<forall>f \<in> set (gt_topics g). flow_ok credited g f)"
proof -
  have p: "producers_error g f = None \<longleftrightarrow> distinct (tf_producers f) \<and>
      (length (tf_producers f) \<le> 1 \<or> tf_topic f \<in> gt_multi_publisher_topics g)" for f
    by (auto simp: producers_error_def)
  have c: "consumer_error credited f c = None \<longleftrightarrow> 1 \<le> ce_depth c \<and> ce_depth c \<le> MAX_CONSUMER_DEPTH \<and>
      (is_block c \<longrightarrow> tf_producers f \<noteq> [] \<or> (tf_topic f, ce_node_id c, ce_input c) \<in> credited)" for f c
    by (auto simp: consumer_error_def)
  have "topology_validate credited g = Inr () \<longleftrightarrow>
      check_edges {} (concat (map tf_consumers (gt_topics g))) \<and>
      first_error (producers_error g) (gt_topics g) = None \<and>
      first_error (\<lambda>(f, c). consumer_error credited f c)
        (concat (map (\<lambda>f. map (Pair f) (tf_consumers f)) (gt_topics g))) = None"
    by (auto simp: topology_validate_def split: option.splits)
  then show ?thesis
    unfolding first_error_None check_edges_distinct flow_ok_def p by (auto simp: c)
qed

theorem validation_accepts_exactly_witness:
  "topology_validate {} \<lparr>gt_topics = [\<lparr>tf_topic = ''/p/a/x'', tf_producers = [''a''],
      tf_consumers = [\<lparr>ce_node_id = ''b'', ce_input = ''x'', ce_policy = BpBlock, ce_depth = 10\<rparr>]\<rparr>],
    gt_multi_publisher_topics = {}, gt_node_order = [''a'', ''b'']\<rparr> = Inr ()"
  unfolding validation_accepts_exactly by (simp add: flow_ok_def MAX_CONSUMER_DEPTH_def)

lemma flow_lookup:
  "distinct (map tf_topic flows) \<Longrightarrow> f \<in> set flows \<Longrightarrow>
   producers_of flows (tf_topic f) = tf_producers f \<and> consumers_of flows (tf_topic f) = tf_consumers f"
  by (induction flows) (auto simp: producers_of_def consumers_of_def topic_def)

text \<open>A built topology never fails the producer checks that validation repeats.\<close>

lemma built_producers_ok:
  assumes "topology_build cfg infos = Inr g" "f \<in> set (gt_topics g)"
  shows "producers_error g f = None"
proof -
  note w = topology_build_result [OF assms(1), of "tf_topic f"]
  have f: "tf_producers f = first_seen (outputs_on cfg (outputs_of cfg) (tf_topic f))"
    using w flow_lookup [OF _ assms(2)] by simp
  have multi: "gt_multi_publisher_topics g = set (gc_multi_publisher_topics cfg)"
    using assms(1) by (auto simp: topology_build_def split: sum.splits)
  have len: "length (first_seen xs) \<le> length xs" for xs :: "string list"
    using card_length [of xs] distinct_card [OF first_seen_set(2) [of xs]] by simp
  have "tf_topic f \<in> gt_multi_publisher_topics g" if "1 < length (tf_producers f)"
  proof (rule ccontr)
    assume "tf_topic f \<notin> gt_multi_publisher_topics g"
    then have "\<not> is_multi_publisher cfg (tf_topic f)" by (simp add: is_multi_publisher_def multi)
    moreover have "1 < length (outputs_on cfg (outputs_of cfg) (tf_topic f))"
      using that len f by (metis order_less_le_trans)
    ultimately have "\<exists>e. topology_build cfg infos = Inl e"
      unfolding topology_build_errors by blast
    with assms(1) show False by simp
  qed
  then show ?thesis using f by (auto simp: producers_error_def)
qed

text \<open>
  A topic can carry a credit word exactly when it has one in-graph producer and at least one
  consumer, all of them \<open>block\<close>; and when it is barred for being mixed, the siblings the bar names are
  precisely its non-\<open>block\<close> consumers, in order.
\<close>

theorem creditable_topics:
  "(is_creditable f \<longleftrightarrow> length (tf_producers f) = 1 \<and> is_all_block f) \<and>
   (credit_bar_of f = Some (MixedTopic first rest) \<longrightarrow>
     first # rest = map (\<lambda>c. (ce_node_id c, ce_input c)) (filter (\<lambda>c. ce_policy c \<noteq> BpBlock) (tf_consumers f)))"
proof
  have none: "map h (filter (\<lambda>c. \<not> is_block c) cs) = [] \<longleftrightarrow> (\<forall>c \<in> set cs. is_block c)" for h cs
    by (simp add: filter_empty_conv)
  show "is_creditable f \<longleftrightarrow> length (tf_producers f) = 1 \<and> is_all_block f"
    using none [of _ "tf_consumers f"]
    by (auto simp: is_creditable_def credit_bar_of_def is_all_block_def has_block_consumer_def
        filter_empty_conv split: nat.splits list.splits)
  show "credit_bar_of f = Some (MixedTopic first rest) \<longrightarrow>
     first # rest = map (\<lambda>c. (ce_node_id c, ce_input c)) (filter (\<lambda>c. ce_policy c \<noteq> BpBlock) (tf_consumers f))"
    by (auto simp: credit_bar_of_def is_block_def split: nat.splits list.splits if_splits)
qed

theorem creditable_topics_witness:
  "is_creditable \<lparr>tf_topic = ''/p/a/x'', tf_producers = [''a''],
     tf_consumers = [\<lparr>ce_node_id = ''b'', ce_input = ''x'', ce_policy = BpBlock, ce_depth = 10\<rparr>]\<rparr>"
  using creditable_topics by (simp add: is_all_block_def is_block_def)

theorem built_topology_is_the_wiring_witness:
  "\<exists>g. topology_build \<lparr>gc_prefix = ''p'', gc_nodes = [\<lparr>no_id = ''a'', no_inputs = [],
        no_outputs = [\<lparr>od_name = ''x'', od_topic = None\<rparr>], no_ros2 = False\<rparr>],
      gc_multi_publisher_topics = [], gc_level_assignments = None\<rparr> (\<lambda>_. None) = Inr g \<and>
    producers_of (gt_topics g) ''/p/a/x'' = [''a'']"
proof -
  let ?cfg = "\<lparr>gc_prefix = ''p'', gc_nodes = [\<lparr>no_id = ''a'', no_inputs = [],
      no_outputs = [\<lparr>od_name = ''x'', od_topic = None\<rparr>], no_ros2 = False\<rparr>],
      gc_multi_publisher_topics = [], gc_level_assignments = None\<rparr>"
  have "\<not> (\<exists>e. topology_build ?cfg (\<lambda>_. None) = Inl e)"
    unfolding topology_build_errors
    by (auto simp: outputs_of_def native_nodes_def bad_override_def duplicate_meta_def outputs_on_def
        is_multi_publisher_def)
  then obtain g where g: "topology_build ?cfg (\<lambda>_. None) = Inr g" by (metis sum.exhaust)
  from built_topology_is_the_wiring [OF this, of "''/p/a/x''"] have "producers_of (gt_topics g) ''/p/a/x'' = [''a'']"
    by (simp add: outputs_of_def native_nodes_def outputs_on_def out_topic_def resolve_output_topic_def
        first_seen_def push_new_def)
  with g show ?thesis by blast
qed

end
