(* ===== verification/GraphLevels.thy ===== *)
theory GraphLevels
  imports GraphTopology
begin

text \<open>
  The levels of a graph (\<open>graph/topology.rs\<close>): deriving them from the triggering edges by peeling
  (\<open>derive_levels\<close>), naming a ring when there is a cycle (\<open>extract_cycle\<close>), and taking them from a
  \<open>level_assignments:\<close> block (\<open>levels_from_assignments\<close>).
\<close>

section \<open>Triggering edges\<close>

type_synonym trigger_edges = "(string \<times> string) set"

definition is_triggering :: "trigger_edges \<Rightarrow> string \<Rightarrow> string \<Rightarrow> bool" where
  "is_triggering trig node_id t \<longleftrightarrow> (node_id, t) \<in> trig"

text \<open>The edges of the dependency graph, producer first, in the order the code adds them.\<close>

definition dag_edges :: "trigger_edges \<Rightarrow> topic_flow list \<Rightarrow> (string \<times> string) list" where
  "dag_edges trig flows =
     concat (map (\<lambda>f. concat (map (\<lambda>c.
         if is_triggering trig (ce_node_id c) (tf_topic f)
         then map (\<lambda>p. (p, ce_node_id c)) (tf_producers f) else [])
       (tf_consumers f))) flows)"

definition adjacent :: "(string \<times> string) list \<Rightarrow> string \<Rightarrow> string list" where
  "adjacent es n = map snd (filter (\<lambda>e. fst e = n) es)"

definition in_degree :: "(string \<times> string) list \<Rightarrow> string \<Rightarrow> nat" where
  "in_degree es n = length (filter (\<lambda>e. snd e = n) es)"

section \<open>Peeling\<close>

record levels =
  lv_levels :: "string list list"
  lv_rank :: "string \<Rightarrow> nat option"

definition level_of :: "levels \<Rightarrow> string \<Rightarrow> nat option" where
  "level_of ls n = lv_rank ls n"

fun decrement :: "string list \<Rightarrow> (string \<Rightarrow> nat) \<Rightarrow> string list \<Rightarrow> (string \<Rightarrow> nat) \<times> string list" where
  "decrement [] d nxt = (d, nxt)"
| "decrement (c # cs) d nxt =
     (let d' = d(c := d c - 1) in decrement cs d' (if d' c = 0 then nxt @ [c] else nxt))"

fun peel_wave :: "(string \<Rightarrow> string list) \<Rightarrow> string list \<Rightarrow> (string \<Rightarrow> nat) \<Rightarrow> string list \<Rightarrow>
    (string \<Rightarrow> nat) \<times> string list" where
  "peel_wave adj [] d nxt = (d, nxt)"
| "peel_wave adj (n # ns) d nxt = (let (d1, nxt1) = decrement (adj n) d nxt in peel_wave adj ns d1 nxt1)"

text \<open>The first argument bounds the number of waves; the number of nodes is enough.\<close>

fun kahn :: "nat \<Rightarrow> (string \<Rightarrow> string list) \<Rightarrow> string list \<Rightarrow> levels \<Rightarrow> (string \<Rightarrow> nat) \<Rightarrow> string list \<Rightarrow>
    levels \<times> (string \<Rightarrow> nat) \<times> string list" where
  "kahn 0 adj nodes ls d frontier = (ls, d, frontier)"
| "kahn (Suc k) adj nodes ls d frontier =
     (if frontier = [] then (ls, d, frontier)
      else
        let wave = sort_key (\<lambda>n. the (index_in n nodes)) frontier;
            (d1, nxt) = peel_wave adj wave d []
        in kahn k adj nodes
             \<lparr>lv_levels = lv_levels ls @ [wave],
              lv_rank = foldl (\<lambda>r n. r(n \<mapsto> length (lv_levels ls))) (lv_rank ls) wave\<rparr> d1 nxt)"

section \<open>Naming a ring\<close>

definition survivor_succ :: "string list \<Rightarrow> (string \<Rightarrow> string list) \<Rightarrow> string \<Rightarrow> string list" where
  "survivor_succ survivors adj n = first_seen (filter (\<lambda>c. c \<in> set survivors) (adj n))"

text \<open>The stack is top first; a frame is a node and how many of its successors were looked at.\<close>

function dfs :: "string list \<Rightarrow> (string \<Rightarrow> string list) \<Rightarrow> string list \<Rightarrow> (string \<times> nat) list \<Rightarrow>
    string list option \<times> string list" where
  "dfs survivors adj explored [] = (None, explored)"
| "dfs survivors adj explored ((cur, i) # st) =
     (let succs = survivor_succ survivors adj cur
      in if i < length succs then
           (if succs ! i \<in> fst ` set ((cur, i) # st)
            then (Some (dropWhile (\<lambda>n. n \<noteq> succs ! i) (rev (map fst ((cur, i) # st))) @ [succs ! i]), explored)
            else if succs ! i \<in> set explored then dfs survivors adj explored ((cur, Suc i) # st)
            else dfs survivors adj explored ((succs ! i, 0) # (cur, Suc i) # st))
         else dfs survivors adj (push_new explored cur) st)"
  by pat_completeness auto
termination
proof (relation "measure (\<lambda>(survivors, adj, explored, st).
    (\<Sum>v \<in> {v \<in> set survivors. v \<notin> set explored \<and> v \<notin> fst ` set st}.
       Suc (Suc (length (survivor_succ survivors adj v)))) +
    sum_list (map (\<lambda>(v, i). Suc (length (survivor_succ survivors adj v) - i)) st))", goal_cases)
  case (4 survivors adj explored cur i st succs)
  have "(\<Sum>v \<in> {v \<in> set survivors. v \<notin> set (push_new explored cur) \<and> v \<notin> fst ` set st}.
      Suc (Suc (length (survivor_succ survivors adj v)))) \<le>
    (\<Sum>v \<in> {v \<in> set survivors. v \<notin> set explored \<and> v \<notin> fst ` set ((cur, i) # st)}.
      Suc (Suc (length (survivor_succ survivors adj v))))"
    by (rule sum_mono2) auto
  then show ?case by simp
next
  case (3 survivors adj explored cur i st succs)
  let ?t = "succs ! i" and ?f = "\<lambda>v. Suc (Suc (length (survivor_succ survivors adj v)))"
  let ?A = "{v \<in> set survivors. v \<notin> set explored \<and> v \<notin> fst ` set ((cur, i) # st)}"
  let ?B = "{v \<in> set survivors. v \<notin> set explored \<and> v \<notin> fst ` set ((?t, 0) # (cur, Suc i) # st)}"
  have "?t \<in> set succs" using 3 by simp
  then have t: "?t \<in> set survivors" using 3(1) by (simp add: survivor_succ_def)
  have "?A = insert ?t ?B" using t 3(3,4) by auto
  moreover have "?t \<notin> ?B" "finite ?B" by auto
  ultimately have "sum ?f ?A = ?f ?t + sum ?f ?B" by (metis (no_types, lifting) sum.insert)
  with 3(1,2) show ?case by simp
qed auto

section \<open>The level resolution\<close>

datatype derive_result = DrPanics | DrCycle "string list" | DrLevels levels

fun try_roots :: "string list \<Rightarrow> (string \<Rightarrow> string list) \<Rightarrow> string list \<Rightarrow> string list \<Rightarrow> string list option" where
  "try_roots survivors adj explored [] = None"
| "try_roots survivors adj explored (r # rs) =
     (if r \<in> set explored then try_roots survivors adj explored rs
      else case dfs survivors adj explored [(r, 0)] of
             (Some ring, _) \<Rightarrow> Some ring
           | (None, explored') \<Rightarrow> try_roots survivors adj explored' rs)"

text \<open>\<open>None\<close> is the \<open>unreachable!\<close> of the code.\<close>

definition extract_cycle :: "string list \<Rightarrow> (string \<Rightarrow> string list) \<Rightarrow> string list option" where
  "extract_cycle survivors adj = try_roots survivors adj [] survivors"

definition derive_levels :: "topology \<Rightarrow> trigger_edges \<Rightarrow> derive_result" where
  "derive_levels g trig =
     (let nodes = first_seen (gt_node_order g);
          es = dag_edges trig (gt_topics g)
      in if \<not> (\<forall>e \<in> set es. fst e \<in> set nodes \<and> snd e \<in> set nodes) then DrPanics
         else
           let (ls, d, _) = kahn (length nodes) (adjacent es) nodes \<lparr>lv_levels = [], lv_rank = (\<lambda>_. None)\<rparr>
                 (in_degree es) (filter (\<lambda>n. in_degree es n = 0) nodes)
           in if length (concat (lv_levels ls)) < length nodes
              then (case extract_cycle (filter (\<lambda>n. 0 < d n) nodes) (adjacent es) of
                      Some ring \<Rightarrow> DrCycle ring | None \<Rightarrow> DrPanics)
              else DrLevels ls)"

section \<open>Peeling keeps count\<close>

text \<open>How many edges into a node come from outside the peeled nodes.\<close>

definition open_edges :: "(string \<times> string) list \<Rightarrow> string set \<Rightarrow> string \<Rightarrow> nat" where
  "open_edges es D n = length (filter (\<lambda>e. snd e = n \<and> fst e \<notin> D) es)"

lemma in_degree_open: "in_degree es = open_edges es {}"
  by (simp add: in_degree_def open_edges_def fun_eq_iff)

lemma open_edges_insert:
  "m \<notin> D \<Longrightarrow> open_edges es D n = open_edges es (insert m D) n + count_list (adjacent es m) n"
  by (induction es) (auto simp: open_edges_def adjacent_def)

lemma open_edges_zero: "open_edges es D n = 0 \<longleftrightarrow> (\<forall>p. (p, n) \<in> set es \<longrightarrow> p \<in> D)"
  by (auto simp: open_edges_def filter_empty_conv)

lemma adjacent_mem [simp]: "n \<in> set (adjacent es m) \<longleftrightarrow> (m, n) \<in> set es"
  by (force simp: adjacent_def)

lemma decrement_result:
  assumes "\<forall>n. count_list cs n \<le> d n"
  shows "\<exists>xs. decrement cs d nxt = (\<lambda>n. d n - count_list cs n, nxt @ xs) \<and> distinct xs \<and>
    set xs = {n \<in> set cs. d n = count_list cs n}"
  using assms
proof (induction cs arbitrary: d nxt)
  case (Cons c cs)
  let ?d = "d(c := d c - 1)" and ?nxt = "if d c - 1 = 0 then nxt @ [c] else nxt"
  have le: "\<forall>n. count_list cs n \<le> ?d n"
  proof
    fix n
    show "count_list cs n \<le> ?d n" using Cons.prems [rule_format, of n] by (auto split: if_splits)
  qed
  obtain xs where xs: "decrement cs ?d ?nxt = (\<lambda>n. ?d n - count_list cs n, ?nxt @ xs)" "distinct xs"
    "set xs = {n \<in> set cs. ?d n = count_list cs n}"
    using Cons.IH [OF le, of ?nxt] by blast
  have pos: "0 < d c" using Cons.prems [rule_format, of c] by simp
  have eq: "decrement (c # cs) d nxt = (\<lambda>n. d n - count_list (c # cs) n,
      nxt @ (if d c - 1 = 0 then c # xs else xs))"
    using xs(1) by (auto simp: Let_def fun_eq_iff)
  have c: "c \<notin> set xs" if "d c - 1 = 0"
    using xs(3) that by (auto simp: count_list_0_iff)
  have "set (if d c - 1 = 0 then c # xs else xs) = {n \<in> set (c # cs). d n = count_list (c # cs) n}"
  proof (rule set_eqI)
    fix n
    note z = count_list_0_iff [of cs n]
    have n: "n \<in> set xs \<longleftrightarrow> n \<in> set cs \<and> ?d n = count_list cs n" using xs(3) by simp
    show "n \<in> set (if d c - 1 = 0 then c # xs else xs) \<longleftrightarrow> n \<in> {n \<in> set (c # cs). d n = count_list (c # cs) n}"
    proof (cases "n = c")
      case True
      with n z pos le [rule_format, of c] show ?thesis by (cases "d c - 1 = 0") auto
    next
      case False
      with n show ?thesis by simp
    qed
  qed
  with c xs(2) eq show ?case by (intro exI [of _ "if d c - 1 = 0 then c # xs else xs"]) simp
qed simp

lemma peel_wave_result:
  assumes "distinct ws" "set ws \<inter> D = {}" "d = open_edges es D"
  shows "\<exists>xs. peel_wave (adjacent es) ws d nxt = (open_edges es (D \<union> set ws), nxt @ xs) \<and> distinct xs \<and>
    set xs = {n. 0 < open_edges es D n \<and> open_edges es (D \<union> set ws) n = 0}"
  using assms
proof (induction ws arbitrary: D d nxt)
  case (Cons m ws)
  have m: "m \<notin> D" using Cons.prems(2) by simp
  note ins = open_edges_insert [OF m, of es]
  have "\<forall>n. count_list (adjacent es m) n \<le> d n" using ins Cons.prems(3) by simp
  then obtain xs where xs: "decrement (adjacent es m) d nxt =
      (\<lambda>n. d n - count_list (adjacent es m) n, nxt @ xs)" "distinct xs"
    "set xs = {n \<in> set (adjacent es m). d n = count_list (adjacent es m) n}"
    using decrement_result by blast
  have d1: "(\<lambda>n. d n - count_list (adjacent es m) n) = open_edges es (insert m D)"
    using ins Cons.prems(3) by (auto simp: fun_eq_iff)
  obtain ys where ys: "peel_wave (adjacent es) ws (open_edges es (insert m D)) (nxt @ xs) =
      (open_edges es (insert m D \<union> set ws), (nxt @ xs) @ ys)" "distinct ys"
    "set ys = {n. 0 < open_edges es (insert m D) n \<and> open_edges es (insert m D \<union> set ws) n = 0}"
    using Cons.IH [of "insert m D" "open_edges es (insert m D)" "nxt @ xs"] Cons.prems by auto
  have xs': "set xs = {n. 0 < open_edges es D n \<and> open_edges es (insert m D) n = 0}"
    using xs(3) Cons.prems(3) ins count_list_0_iff [of "adjacent es m"] by fastforce
  have mono: "open_edges es (insert m D \<union> set ws) n \<le> open_edges es (insert m D) n" for n
    unfolding open_edges_def by (induction es) auto
  have "distinct (xs @ ys)" using xs(2) ys(2,3) xs' by auto
  moreover have "set (xs @ ys) = {n. 0 < open_edges es D n \<and> open_edges es (D \<union> set (m # ws)) n = 0}"
  proof (rule set_eqI)
    fix n
    have "n \<in> set (xs @ ys) \<longleftrightarrow> 0 < open_edges es D n \<and> open_edges es (insert m D) n = 0 \<or>
        0 < open_edges es (insert m D) n \<and> open_edges es (insert m D \<union> set ws) n = 0"
      by (simp add: xs' ys(3))
    also have "\<dots> \<longleftrightarrow> 0 < open_edges es D n \<and> open_edges es (insert m D \<union> set ws) n = 0"
      using ins [of n] mono [of n] by linarith
    finally show "n \<in> set (xs @ ys) \<longleftrightarrow> n \<in> {n. 0 < open_edges es D n \<and> open_edges es (D \<union> set (m # ws)) n = 0}"
      by simp
  qed
  ultimately show ?case
    using xs(1) ys(1) by (intro exI [of _ "xs @ ys"]) (simp add: d1 Un_insert_left)
next
  case Nil
  then show ?case by (intro exI [of _ "[]"]) auto
qed

section \<open>What a levelization is\<close>

text \<open>The rank is the level a node stands in, and no level is empty.\<close>

definition ranked :: "levels \<Rightarrow> bool" where
  "ranked ls \<longleftrightarrow> [] \<notin> set (lv_levels ls) \<and> distinct (concat (lv_levels ls)) \<and>
     (\<forall>n l. lv_rank ls n = Some l \<longleftrightarrow> l < length (lv_levels ls) \<and> n \<in> set (lv_levels ls ! l))"

text \<open>A levelled consumer stands strictly above every one of its producers.\<close>

definition increasing :: "(string \<times> string) list \<Rightarrow> levels \<Rightarrow> bool" where
  "increasing es ls \<longleftrightarrow> (\<forall>(p, c) \<in> set es. \<forall>l. lv_rank ls c = Some l \<longrightarrow> (\<exists>k < l. lv_rank ls p = Some k))"

text \<open>No node stands higher than its producers push it.\<close>

definition as_soon_as_possible :: "(string \<times> string) list \<Rightarrow> levels \<Rightarrow> bool" where
  "as_soon_as_possible es ls \<longleftrightarrow>
     (\<forall>n l. lv_rank ls n = Some (Suc l) \<longrightarrow> (\<exists>p. lv_rank ls p = Some l \<and> (p, n) \<in> set es))"

definition graph_ordered :: "string list \<Rightarrow> levels \<Rightarrow> bool" where
  "graph_ordered nodes ls \<longleftrightarrow>
     (\<forall>lv \<in> set (lv_levels ls). sorted (map (\<lambda>n. the (index_in n nodes)) lv))"

definition kahn_ok :: "(string \<times> string) list \<Rightarrow> string list \<Rightarrow> levels \<Rightarrow> (string \<Rightarrow> nat) \<Rightarrow> string list \<Rightarrow> bool" where
  "kahn_ok es nodes ls d fr \<longleftrightarrow>
     ranked ls \<and> increasing es ls \<and> as_soon_as_possible es ls \<and> graph_ordered nodes ls \<and>
     set (concat (lv_levels ls)) \<subseteq> set nodes \<and> d = open_edges es (set (concat (lv_levels ls))) \<and>
     distinct fr \<and>
     set fr = {n \<in> set nodes. n \<notin> set (concat (lv_levels ls)) \<and> open_edges es (set (concat (lv_levels ls))) n = 0} \<and>
     (lv_levels ls \<noteq> [] \<longrightarrow> (\<forall>n \<in> set fr. \<exists>p \<in> set (last (lv_levels ls)). (p, n) \<in> set es))"

lemma fold_rank: "foldl (\<lambda>r n. r(n \<mapsto> l)) r ws = (\<lambda>n. if n \<in> set ws then Some l else r n)"
  by (induction ws arbitrary: r) (auto simp: fun_eq_iff)

lemma ranked_rank: "ranked ls \<Longrightarrow> lv_rank ls n = Some l \<longleftrightarrow> l < length (lv_levels ls) \<and> n \<in> set (lv_levels ls ! l)"
  by (simp add: ranked_def)

lemma in_concat_nth: "x \<in> set (concat xs) \<longleftrightarrow> (\<exists>l < length xs. x \<in> set (xs ! l))"
proof
  assume "x \<in> set (concat xs)"
  then obtain ys where "ys \<in> set xs" "x \<in> set ys" by auto
  then show "\<exists>l < length xs. x \<in> set (xs ! l)" by (metis in_set_conv_nth)
qed auto

lemma ranked_done: "ranked ls \<Longrightarrow> n \<in> set (concat (lv_levels ls)) \<longleftrightarrow> lv_rank ls n \<noteq> None"
  unfolding in_concat_nth using ranked_rank by (metis not_None_eq)

lemma ranked_lt: "ranked ls \<Longrightarrow> lv_rank ls n = Some l \<Longrightarrow> l < length (lv_levels ls)"
  by (simp add: ranked_def)

definition add_level :: "levels \<Rightarrow> string list \<Rightarrow> levels" where
  "add_level ls wave = \<lparr>lv_levels = lv_levels ls @ [wave],
     lv_rank = foldl (\<lambda>r n. r(n \<mapsto> length (lv_levels ls))) (lv_rank ls) wave\<rparr>"

lemma add_level_simps [simp]:
  "lv_levels (add_level ls wave) = lv_levels ls @ [wave]"
  "lv_rank (add_level ls wave) = (\<lambda>n. if n \<in> set wave then Some (length (lv_levels ls)) else lv_rank ls n)"
  by (simp_all add: add_level_def fold_rank)

lemma ranked_add:
  assumes "ranked ls" "wave \<noteq> []" "distinct wave" "set wave \<inter> set (concat (lv_levels ls)) = {}"
  shows "ranked (add_level ls wave)"
proof -
  have "lv_rank (add_level ls wave) n = Some l \<longleftrightarrow>
      l < length (lv_levels (add_level ls wave)) \<and> n \<in> set (lv_levels (add_level ls wave) ! l)" for n l
  proof (cases "n \<in> set wave")
    case True
    then have "lv_rank ls n = None" using assms(4) ranked_done [OF assms(1)] by blast
    then have "\<not> (l < length (lv_levels ls) \<and> n \<in> set (lv_levels ls ! l))"
      using ranked_rank [OF assms(1), of n l] by simp
    with True show ?thesis by (auto simp: nth_append less_Suc_eq)
  next
    case False
    then show ?thesis using ranked_rank [OF assms(1), of n l] by (auto simp: nth_append less_Suc_eq)
  qed
  moreover have "distinct (concat (lv_levels ls @ [wave]))"
    using assms by (auto simp: ranked_def)
  ultimately show ?thesis using assms(1,2) unfolding ranked_def by simp
qed

lemma kahn_ok_step:
  assumes ok: "kahn_ok es nodes ls d fr" and fr: "fr \<noteq> []"
    and wave: "wave = sort_key (\<lambda>n. the (index_in n nodes)) fr"
    and peel: "peel_wave (adjacent es) wave d [] = (d1, nxt)"
    and ends: "\<forall>e \<in> set es. fst e \<in> set nodes \<and> snd e \<in> set nodes"
  shows "kahn_ok es nodes (add_level ls wave) d1 nxt"
proof -
  define D where "D = set (concat (lv_levels ls))"
  have w: "set wave = set fr" "distinct wave"
    using ok by (simp_all add: wave kahn_ok_def)
  then have w3: "wave \<noteq> []" using fr by (metis set_empty)
  have inv: "ranked ls" "increasing es ls" "as_soon_as_possible es ls" "graph_ordered nodes ls"
    "D \<subseteq> set nodes" "d = open_edges es D" "set fr = {n \<in> set nodes. n \<notin> D \<and> open_edges es D n = 0}"
    "lv_levels ls \<noteq> [] \<longrightarrow> (\<forall>n \<in> set fr. \<exists>p \<in> set (last (lv_levels ls)). (p, n) \<in> set es)"
    using ok unfolding kahn_ok_def D_def by blast+
  have disj: "set wave \<inter> D = {}" using inv(7) w(1) by auto
  obtain xs where "d1 = open_edges es (D \<union> set wave)" "nxt = xs" "distinct xs"
    "set xs = {n. 0 < open_edges es D n \<and> open_edges es (D \<union> set wave) n = 0}"
    using peel_wave_result [OF w(2) disj inv(6), of "[]"] peel by auto
  then have p: "d1 = open_edges es (D \<union> set wave)" "distinct nxt"
    "set nxt = {n. 0 < open_edges es D n \<and> open_edges es (D \<union> set wave) n = 0}" by simp_all
  have done_: "set (concat (lv_levels (add_level ls wave))) = D \<union> set wave" by (auto simp: D_def)
  have rank_D: "n \<in> D \<longleftrightarrow> lv_rank ls n \<noteq> None" for n unfolding D_def by (rule ranked_done [OF inv(1)])
  have closed: "p \<in> D" if "(p, c) \<in> set es" "c \<in> D" for p c
    using inv(2) that rank_D unfolding increasing_def by fastforce
  have ranked': "ranked (add_level ls wave)" by (rule ranked_add [OF inv(1) w3 w(2)]) (use disj in \<open>simp add: D_def\<close>)
  have from_D: "p \<in> D" if "(p, c) \<in> set es" "c \<in> set wave" for p c
    using that inv(7) w(1) by (auto simp: open_edges_zero)
  have inc: "increasing es (add_level ls wave)"
    unfolding increasing_def
  proof (clarify)
    fix p c l
    assume e: "(p, c) \<in> set es" and l: "lv_rank (add_level ls wave) c = Some l"
    show "\<exists>k < l. lv_rank (add_level ls wave) p = Some k"
    proof (cases "c \<in> set wave")
      case True
      with e have "p \<in> D" by (rule from_D)
      then obtain k where "lv_rank ls p = Some k" "p \<notin> set wave" using rank_D disj by auto
      with True l ranked_lt [OF inv(1)] show ?thesis by auto
    next
      case False
      with l have "lv_rank ls c = Some l" by simp
      with e inv(2) obtain k where "k < l" "lv_rank ls p = Some k" unfolding increasing_def by fastforce
      moreover then have "p \<notin> set wave" using rank_D disj by auto
      ultimately show ?thesis by auto
    qed
  qed
  have asap: "as_soon_as_possible es (add_level ls wave)"
    unfolding as_soon_as_possible_def
  proof (intro allI impI)
    fix n l
    assume l: "lv_rank (add_level ls wave) n = Some (Suc l)"
    show "\<exists>p. lv_rank (add_level ls wave) p = Some l \<and> (p, n) \<in> set es"
    proof (cases "n \<in> set wave")
      case True
      with l have len: "length (lv_levels ls) = Suc l" by simp
      then have "lv_levels ls \<noteq> []" by auto
      with inv(8) True w(1) obtain p where p: "p \<in> set (last (lv_levels ls))" "(p, n) \<in> set es" by blast
      have "last (lv_levels ls) = lv_levels ls ! l" using len by (simp add: last_conv_nth \<open>lv_levels ls \<noteq> []\<close>)
      with p(1) len have "lv_rank ls p = Some l" using inv(1) unfolding ranked_def by simp
      moreover then have "p \<notin> set wave" using rank_D disj by auto
      ultimately show ?thesis using p(2) by auto
    next
      case False
      with l have "lv_rank ls n = Some (Suc l)" by simp
      with inv(3) obtain p where "lv_rank ls p = Some l" "(p, n) \<in> set es"
        unfolding as_soon_as_possible_def by blast
      moreover then have "p \<notin> set wave" using rank_D disj by auto
      ultimately show ?thesis by auto
    qed
  qed
  have nxt: "set nxt = {n \<in> set nodes. n \<notin> D \<union> set wave \<and> open_edges es (D \<union> set wave) n = 0}"
  proof (rule set_eqI)
    fix n
    have "n \<in> set nodes" if "0 < open_edges es D n"
      using that ends by (auto simp: open_edges_def filter_empty_conv)
    moreover have "open_edges es D n = 0" if "n \<in> D" using closed that by (auto simp: open_edges_zero)
    moreover have "open_edges es D n = 0" if "n \<in> set wave" using that inv(7) w(1) by simp
    moreover have "n \<in> set wave" if "n \<in> set nodes" "n \<notin> D" "open_edges es D n = 0"
      using that inv(7) w(1) by simp
    ultimately show "n \<in> set nxt \<longleftrightarrow>
        n \<in> {n \<in> set nodes. n \<notin> D \<union> set wave \<and> open_edges es (D \<union> set wave) n = 0}"
      unfolding p(3) by auto
  qed
  have link: "\<exists>p \<in> set wave. (p, n) \<in> set es" if "n \<in> set nxt" for n
  proof -
    have "0 < open_edges es D n" "open_edges es (D \<union> set wave) n = 0" using that p(3) by auto
    then obtain p where "(p, n) \<in> set es" "p \<notin> D" "p \<in> D \<union> set wave"
      unfolding open_edges_zero by (metis bot_nat_0.not_eq_extremum open_edges_zero)
    then show ?thesis by auto
  qed
  have "graph_ordered nodes (add_level ls wave)"
    using inv(4) by (auto simp: graph_ordered_def wave)
  with ranked' inc asap show ?thesis
    unfolding kahn_ok_def done_ using inv(5,7) w(1) p(1,2) nxt link by auto
qed

lemma kahn_frontier: "kahn_ok es nodes ls d fr \<Longrightarrow> set fr \<subseteq> set nodes - set (concat (lv_levels ls))"
  unfolding kahn_ok_def by auto

lemma card_minus_less:
  assumes "finite A" "B \<subseteq> A" "B \<noteq> {}"
  shows "card (A - B) < card A"
proof (rule psubset_card_mono [OF assms(1)])
  show "A - B \<subset> A" using assms(2,3) by blast
qed

lemma kahn_result:
  assumes "kahn_ok es nodes ls d fr" "card (set nodes - set (concat (lv_levels ls))) \<le> k"
    and "\<forall>e \<in> set es. fst e \<in> set nodes \<and> snd e \<in> set nodes"
  shows "\<exists>ls' d'. kahn k (adjacent es) nodes ls d fr = (ls', d', []) \<and> kahn_ok es nodes ls' d' []"
  using assms
proof (induction k arbitrary: ls d fr)
  case 0
  have "set nodes - set (concat (lv_levels ls)) = {}" using 0(2) by simp
  with kahn_frontier [OF 0(1)] have "set fr = {}" by (metis subset_empty)
  then have "fr = []" by simp
  with 0(1) show ?case by simp
next
  case (Suc k)
  show ?case
  proof (cases "fr = []")
    case False
    define wave where "wave = sort_key (\<lambda>n. the (index_in n nodes)) fr"
    obtain d1 nxt where peel: "peel_wave (adjacent es) wave d [] = (d1, nxt)" by (metis prod.collapse)
    have ok: "kahn_ok es nodes (add_level ls wave) d1 nxt"
      by (rule kahn_ok_step [OF Suc.prems(1) False wave_def peel Suc.prems(3)])
    let ?D = "set (concat (lv_levels ls))"
    have "set fr \<subseteq> set nodes - ?D" by (rule kahn_frontier [OF Suc.prems(1)])
    moreover have "set fr \<noteq> {}" using False by simp
    moreover have "set nodes - set (concat (lv_levels (add_level ls wave))) = set nodes - ?D - set fr"
      by (auto simp: wave_def)
    ultimately have "card (set nodes - set (concat (lv_levels (add_level ls wave)))) < card (set nodes - ?D)"
      using card_minus_less [of "set nodes - ?D" "set fr"] by simp
    then have "card (set nodes - set (concat (lv_levels (add_level ls wave)))) \<le> k"
      using Suc.prems(2) by linarith
    from Suc.IH [OF ok this Suc.prems(3)] False peel show ?thesis
      by (simp add: wave_def add_level_def Let_def)
  qed (use Suc in simp)
qed

section \<open>The ring is real\<close>

text \<open>A closed walk: two or more entries, the first again at the end.\<close>

definition is_ring :: "('a \<Rightarrow> 'a \<Rightarrow> bool) \<Rightarrow> 'a list \<Rightarrow> bool" where
  "is_ring r ring \<longleftrightarrow> 2 \<le> length ring \<and> hd ring = last ring \<and> successively r ring"

text \<open>The successors of every explored node were explored before it.\<close>

fun explored_ok :: "('a \<Rightarrow> 'a list) \<Rightarrow> 'a list \<Rightarrow> bool" where
  "explored_ok succ [] = True"
| "explored_ok succ (x # xs) = (set (succ x) \<subseteq> set xs \<and> explored_ok succ xs)"

fun below_ok :: "('a \<Rightarrow> 'a list) \<Rightarrow> 'a set \<Rightarrow> 'a \<Rightarrow> ('a \<times> nat) list \<Rightarrow> bool" where
  "below_ok succ ex c [] = True"
| "below_ok succ ex c ((v, j) # st) =
     (0 < j \<and> j \<le> length (succ v) \<and> succ v ! (j - 1) = c \<and> (\<forall>l < j - 1. succ v ! l \<in> ex) \<and> below_ok succ ex v st)"

definition stack_ok :: "('a \<Rightarrow> 'a list) \<Rightarrow> 'a set \<Rightarrow> ('a \<times> nat) list \<Rightarrow> bool" where
  "stack_ok succ ex st \<longleftrightarrow>
     (case st of [] \<Rightarrow> True
      | (cur, i) # st' \<Rightarrow> i \<le> length (succ cur) \<and> (\<forall>l < i. succ cur ! l \<in> ex) \<and> below_ok succ ex cur st')"

lemma below_ok_mono: "below_ok succ ex c st \<Longrightarrow> ex \<subseteq> ex' \<Longrightarrow> below_ok succ ex' c st"
  by (induction st arbitrary: c) (auto simp: subset_iff)

lemma below_ok_walk: "below_ok succ ex c st \<Longrightarrow> successively (\<lambda>a b. a \<in> set (succ b)) (c # map fst st)"
proof (induction st arbitrary: c)
  case (Cons f st)
  obtain v j where f: "f = (v, j)" by (metis prod.collapse)
  have "c \<in> set (succ v)" using Cons.prems f by (auto intro: nth_mem)
  with Cons f show ?case by simp
qed simp

lemma explored_ok_mem: "explored_ok succ ex \<Longrightarrow> x \<in> set ex \<Longrightarrow> set (succ x) \<subseteq> set ex"
  by (induction ex) auto

lemma push_new_rev: "rev (push_new xs x) = (if x \<in> set xs then rev xs else x # rev xs)"
  by (simp add: push_new_def)

lemma drop_ring:
  assumes "t \<in> set xs" "successively r xs" "r (last xs) t"
  shows "is_ring r (dropWhile (\<lambda>n. n \<noteq> t) xs @ [t])"
proof -
  let ?ys = "dropWhile (\<lambda>n. n \<noteq> t) xs"
  obtain pre where pre: "xs = pre @ ?ys" by (metis takeWhile_dropWhile_id)
  have ne: "?ys \<noteq> []" using assms(1) by (auto simp: dropWhile_eq_Nil_conv)
  have "hd ?ys = t" using hd_dropWhile [OF ne] by simp
  moreover have "successively r ?ys" using assms(2) pre by (metis successively_append_iff)
  moreover have "last ?ys = last xs" using pre ne by (metis last_appendR)
  moreover have "2 \<le> length (?ys @ [t])" using ne by (simp add: Suc_le_eq)
  ultimately show ?thesis
    using ne assms(3) unfolding is_ring_def by (simp add: successively_append_iff)
qed

lemma survivor_succ_mem: "c \<in> set (survivor_succ S adj n) \<longleftrightarrow> c \<in> set S \<and> c \<in> set (adj n)"
  by (auto simp: survivor_succ_def)

declare dfs.simps(2) [simp del]

lemma dfs_result:
  assumes "dfs S adj ex st = (r, ex')" "explored_ok (survivor_succ S adj) (rev ex)"
    and "stack_ok (survivor_succ S adj) (set ex) st"
  shows "(case r of
      None \<Rightarrow> explored_ok (survivor_succ S adj) (rev ex') \<and> set ex \<union> fst ` set st \<subseteq> set ex'
    | Some ring \<Rightarrow> is_ring (\<lambda>a b. b \<in> set (adj a)) ring)"
  using assms
proof (induction S adj ex st rule: dfs.induct)
  case (1 S adj ex)
  then show ?case by auto
next
  case (2 S adj ex cur i st)
  let ?succ = "survivor_succ S adj"
  note step = dfs.simps(2) [of S adj ex cur i st]
  have st: "i \<le> length (?succ cur)" "\<forall>l < i. ?succ cur ! l \<in> set ex" "below_ok ?succ (set ex) cur st"
    using 2(6) by (simp_all add: stack_ok_def)
  consider (ring) "i < length (?succ cur)" "?succ cur ! i \<in> fst ` set ((cur, i) # st)"
    | (old) "i < length (?succ cur)" "?succ cur ! i \<notin> fst ` set ((cur, i) # st)" "?succ cur ! i \<in> set ex"
    | (new) "i < length (?succ cur)" "?succ cur ! i \<notin> fst ` set ((cur, i) # st)" "?succ cur ! i \<notin> set ex"
    | (pop) "\<not> i < length (?succ cur)"
    by blast
  then show ?case
  proof cases
    case ring
    let ?t = "?succ cur ! i" and ?xs = "rev (map fst ((cur, i) # st))"
    have "successively (\<lambda>a b. a \<in> set (?succ b)) (map fst ((cur, i) # st))"
      using below_ok_walk [OF st(3)] by simp
    then have "successively (\<lambda>a b. b \<in> set (?succ a)) ?xs" unfolding successively_rev .
    then have w: "successively (\<lambda>a b. b \<in> set (adj a)) ?xs"
      by (rule successively_mono) (simp add: survivor_succ_mem)
    have "?t \<in> set (adj cur)" using nth_mem [OF ring(1)] by (simp add: survivor_succ_mem)
    then have l: "?t \<in> set (adj (last ?xs))" by simp
    have t: "?t \<in> set ?xs" using ring(2) by auto
    have "r = Some (dropWhile (\<lambda>n. n \<noteq> ?t) ?xs @ [?t])" using 2(4) ring by (simp add: step Let_def)
    with drop_ring [OF t w l] show ?thesis by simp
  next
    case old
    have "dfs S adj ex ((cur, Suc i) # st) = (r, ex')" using 2(4) old by (simp add: step Let_def)
    moreover have "stack_ok ?succ (set ex) ((cur, Suc i) # st)"
      using st old by (auto simp: stack_ok_def less_Suc_eq)
    ultimately show ?thesis using 2(1) [OF refl old(1,2,3) _ 2(5)] by (auto split: option.splits)
  next
    case new
    have "dfs S adj ex ((?succ cur ! i, 0) # (cur, Suc i) # st) = (r, ex')" using 2(4) new by (simp add: step Let_def)
    moreover have "stack_ok ?succ (set ex) ((?succ cur ! i, 0) # (cur, Suc i) # st)"
      using st new by (auto simp: stack_ok_def)
    ultimately show ?thesis using 2(2) [OF refl new(1,2,3) _ 2(5)] by (auto split: option.splits)
  next
    case pop
    have i: "i = length (?succ cur)" using pop st(1) by simp
    have sub: "set (?succ cur) \<subseteq> set ex" using st(2) i by (auto simp: in_set_conv_nth)
    have eq: "dfs S adj (push_new ex cur) st = (r, ex')" using 2(4) pop by (simp add: step Let_def)
    have ex: "explored_ok ?succ (rev (push_new ex cur))"
      using 2(5) sub by (simp add: push_new_rev)
    have "stack_ok ?succ (set (push_new ex cur)) st"
    proof (cases st)
      case (Cons f st')
      obtain v j where f: "f = (v, j)" by (metis prod.collapse)
      have b: "0 < j" "j \<le> length (?succ v)" "?succ v ! (j - 1) = cur" "\<forall>l < j - 1. ?succ v ! l \<in> set ex"
        "below_ok ?succ (set ex) v st'"
        using st(3) by (simp_all add: Cons f)
      have "?succ v ! l \<in> insert cur (set ex)" if "l < j" for l
        using b(3,4) that by (cases "l = j - 1") auto
      moreover have "below_ok ?succ (insert cur (set ex)) v st'" by (rule below_ok_mono [OF b(5)]) blast
      ultimately show ?thesis using b(2) by (simp add: stack_ok_def Cons f)
    qed (simp add: stack_ok_def)
    from 2(3) [OF refl pop eq ex this] show ?thesis by (auto split: option.splits)
  qed
qed

lemma try_roots_result:
  assumes "explored_ok (survivor_succ S adj) (rev ex)"
  shows "case try_roots S adj ex rs of
      None \<Rightarrow> \<exists>ex'. explored_ok (survivor_succ S adj) (rev ex') \<and> set ex \<union> set rs \<subseteq> set ex'
    | Some ring \<Rightarrow> is_ring (\<lambda>a b. b \<in> set (adj a)) ring"
  using assms
proof (induction rs arbitrary: ex)
  case (Cons r rs)
  show ?case
  proof (cases "r \<in> set ex")
    case True
    with Cons show ?thesis by (fastforce split: option.splits)
  next
    case False
    obtain q ex' where d: "dfs S adj ex [(r, 0)] = (q, ex')" by (metis prod.collapse)
    have "stack_ok (survivor_succ S adj) (set ex) [(r, 0)]" by (simp add: stack_ok_def)
    note res = dfs_result [OF d Cons.prems this]
    show ?thesis
    proof (cases q)
      case None
      then have "explored_ok (survivor_succ S adj) (rev ex')" "insert r (set ex) \<subseteq> set ex'" using res by auto
      with Cons.IH [of ex'] False d None show ?thesis by (fastforce split: option.splits)
    next
      case (Some ring)
      with res False d show ?thesis by simp
    qed
  qed
qed auto

lemma no_acyclic_survivors:
  assumes "explored_ok succ xs" "S \<subseteq> set xs" "S \<noteq> {}" "\<forall>n \<in> S. \<exists>p \<in> S. n \<in> set (succ p)"
  shows False
  using assms
proof (induction xs)
  case (Cons x xs)
  show ?case
  proof (cases "x \<in> S")
    case True
    then obtain p where p: "p \<in> S" "x \<in> set (succ p)" using Cons.prems(4) by blast
    have "x \<in> set xs"
    proof (cases "p = x")
      case True
      with p Cons.prems(1) show ?thesis by auto
    next
      case False
      then have "p \<in> set xs" using p(1) Cons.prems(2) by auto
      then have "set (succ p) \<subseteq> set xs" using explored_ok_mem [of succ xs p] Cons.prems(1) by simp
      with p(2) show ?thesis by blast
    qed
    with Cons show ?thesis by (auto simp: insert_absorb)
  next
    case False
    with Cons show ?thesis by auto
  qed
qed simp

lemma extract_cycle_ring:
  assumes "S \<noteq> []" "\<forall>n \<in> set S. \<exists>p \<in> set S. n \<in> set (adj p)"
  shows "\<exists>ring. extract_cycle S adj = Some ring \<and> is_ring (\<lambda>a b. b \<in> set (adj a)) ring"
proof (cases "extract_cycle S adj")
  case None
  then obtain ex where ex: "explored_ok (survivor_succ S adj) (rev ex)" "set S \<subseteq> set (rev ex)"
    using try_roots_result [of S adj "[]" S] by (auto simp: extract_cycle_def)
  have "\<forall>n \<in> set S. \<exists>p \<in> set S. n \<in> set (survivor_succ S adj p)"
    using assms(2) by (simp add: survivor_succ_mem)
  with no_acyclic_survivors [OF ex] assms(1) show ?thesis by simp
next
  case (Some ring)
  then show ?thesis using try_roots_result [of S adj "[]" S] by (simp add: extract_cycle_def)
qed

section \<open>Deriving levels\<close>

lemma walk_trancl:
  "successively (\<lambda>a b. (a, b) \<in> r) (x # xs) \<Longrightarrow> xs \<noteq> [] \<Longrightarrow> (x, last xs) \<in> r\<^sup>+"
proof (induction xs arbitrary: x)
  case (Cons y ys)
  then show ?case by (cases "ys = []") (auto intro: trancl_into_trancl2)
qed simp

lemma ring_not_acyclic:
  assumes "is_ring (\<lambda>a b. (a, b) \<in> r) ring"
  shows "\<not> acyclic r"
proof -
  obtain x xs where ring: "ring = x # xs" "xs \<noteq> []"
    using assms by (cases ring; cases "tl ring") (auto simp: is_ring_def)
  then have "(x, last xs) \<in> r\<^sup>+" "last xs = x"
    using assms walk_trancl [of r x xs] by (auto simp: is_ring_def)
  then show ?thesis by (auto simp: acyclic_def)
qed

lemma levelled_acyclic:
  assumes "increasing es ls" "\<forall>e \<in> set es. lv_rank ls (snd e) \<noteq> None"
  shows "acyclic (set es)"
proof (rule wf_acyclic, rule wf_subset [OF wf_measure])
  show "set es \<subseteq> measure (\<lambda>n. the (lv_rank ls n))"
  proof
    fix e assume e: "e \<in> set es"
    then obtain l where l: "lv_rank ls (snd e) = Some l" using assms(2) by auto
    have "\<forall>l. lv_rank ls (snd e) = Some l \<longrightarrow> (\<exists>k < l. lv_rank ls (fst e) = Some k)"
      using assms(1) e unfolding increasing_def case_prod_beta by blast
    with l obtain k where "k < l" "lv_rank ls (fst e) = Some k" by blast
    with l show "e \<in> measure (\<lambda>n. the (lv_rank ls n))" by (simp add: in_measure [of "fst e" "snd e", simplified])
  qed
qed

definition edges_inside :: "topology \<Rightarrow> trigger_edges \<Rightarrow> bool" where
  "edges_inside g trig \<longleftrightarrow> (\<forall>e \<in> set (dag_edges trig (gt_topics g)).
     fst e \<in> set (gt_node_order g) \<and> snd e \<in> set (gt_node_order g))"

lemma kahn_start:
  assumes "\<forall>e \<in> set es. fst e \<in> set nodes \<and> snd e \<in> set nodes" "distinct nodes"
  shows "kahn_ok es nodes \<lparr>lv_levels = [], lv_rank = (\<lambda>_. None)\<rparr> (in_degree es)
    (filter (\<lambda>n. in_degree es n = 0) nodes)"
  using assms
  by (simp add: kahn_ok_def ranked_def increasing_def as_soon_as_possible_def graph_ordered_def
      in_degree_open case_prod_beta)

lemma derive_levels_result:
  assumes "edges_inside g trig"
  defines "es \<equiv> dag_edges trig (gt_topics g)" and "nodes \<equiv> first_seen (gt_node_order g)"
  shows "(\<exists>ls. derive_levels g trig = DrLevels ls \<and> set (concat (lv_levels ls)) = set nodes \<and>
      ranked ls \<and> increasing es ls \<and> as_soon_as_possible es ls \<and> graph_ordered nodes ls) \<or>
    (\<exists>ring. derive_levels g trig = DrCycle ring \<and> is_ring (\<lambda>a b. (a, b) \<in> set es) ring)"
proof -
  have ends: "\<forall>e \<in> set es. fst e \<in> set nodes \<and> snd e \<in> set nodes"
    using assms(1) by (simp add: edges_inside_def es_def nodes_def)
  have nodes: "distinct nodes" by (simp add: nodes_def)
  have card: "card (set nodes - set (concat (lv_levels \<lparr>lv_levels = [], lv_rank = (\<lambda>_. None)\<rparr>))) \<le> length nodes"
    by (simp add: card_length)
  obtain ls d where k: "kahn (length nodes) (adjacent es) nodes \<lparr>lv_levels = [], lv_rank = (\<lambda>_. None)\<rparr>
      (in_degree es) (filter (\<lambda>n. in_degree es n = 0) nodes) = (ls, d, [])" "kahn_ok es nodes ls d []"
    using kahn_result [OF kahn_start [OF ends nodes] card ends] by blast
  define D where "D = set (concat (lv_levels ls))"
  have inv: "ranked ls" "increasing es ls" "as_soon_as_possible es ls" "graph_ordered nodes ls"
    "D \<subseteq> set nodes" "d = open_edges es D" "{n \<in> set nodes. n \<notin> D \<and> open_edges es D n = 0} = {}"
    using k(2) unfolding kahn_ok_def D_def by (blast, blast, blast, blast, blast, blast, simp)
  have size: "length (concat (lv_levels ls)) = card D" "length nodes = card (set nodes)"
  proof -
    have "distinct (concat (lv_levels ls))" using inv(1) by (simp only: ranked_def)
    from distinct_card [OF this] show "length (concat (lv_levels ls)) = card D" by (simp only: D_def)
  qed (simp add: nodes distinct_card)
  have derive: "derive_levels g trig =
      (if length (concat (lv_levels ls)) < length nodes
       then (case extract_cycle (filter (\<lambda>n. 0 < d n) nodes) (adjacent es) of
               Some ring \<Rightarrow> DrCycle ring | None \<Rightarrow> DrPanics)
       else DrLevels ls)"
    using ends k(1) unfolding derive_levels_def Let_def es_def [symmetric] nodes_def [symmetric] by simp
  show ?thesis
  proof (cases "D = set nodes")
    case True
    then have "derive_levels g trig = DrLevels ls" using derive size by simp
    with True inv show ?thesis unfolding D_def by blast
  next
    case False
    let ?S = "filter (\<lambda>n. 0 < d n) nodes"
    have "n \<in> D" if "n \<in> set nodes" "d n = 0" for n using inv(6,7) that by auto
    moreover have "p \<in> D" if "(p, c) \<in> set es" "c \<in> D" for p c
      using inv(2) that ranked_done [OF inv(1)] unfolding increasing_def D_def by fastforce
    then have "d n = 0" if "n \<in> D" for n using that inv(6) by (auto simp: open_edges_zero)
    ultimately have S: "set ?S = set nodes - D" by auto
    with False inv(5) have ne: "?S \<noteq> []" by (metis Diff_eq_empty_iff set_empty subset_antisym)
    have pred: "\<forall>n \<in> set ?S. \<exists>p \<in> set ?S. n \<in> set (adjacent es p)"
    proof
      fix n assume "n \<in> set ?S"
      then have "open_edges es D n \<noteq> 0" using inv(6) by simp
      then obtain p where "(p, n) \<in> set es" "p \<notin> D" unfolding open_edges_zero by blast
      with ends S show "\<exists>p \<in> set ?S. n \<in> set (adjacent es p)" by (intro bexI [of _ p]) auto
    qed
    obtain ring where ring: "extract_cycle ?S (adjacent es) = Some ring"
      "is_ring (\<lambda>a b. b \<in> set (adjacent es a)) ring"
      using extract_cycle_ring [OF ne pred] by blast
    have "card D < card (set nodes)"
      by (rule psubset_card_mono) (use False inv(5) in auto)
    with derive size ring show ?thesis by simp
  qed
qed

text \<open>
  C35. A graph has levels exactly when its triggering edges form no cycle. For every topology whose edges
  join nodes of the graph, level derivation ends without a panic: without a cycle it places every node in
  exactly one level, each strictly above all its producers and exactly one above one of them (or in the
  first), no level empty and each in graph order; with a cycle it names one, a closed walk along
  triggering edges, and the \<open>unreachable!\<close> of the ring search is not reached.
\<close>

theorem levels_exist_iff_acyclic:
  assumes "edges_inside g trig"
  defines "es \<equiv> dag_edges trig (gt_topics g)"
  shows "if acyclic (set es)
    then \<exists>ls. derive_levels g trig = DrLevels ls \<and> set (concat (lv_levels ls)) = set (gt_node_order g) \<and>
      ranked ls \<and> increasing es ls \<and> as_soon_as_possible es ls \<and> graph_ordered (first_seen (gt_node_order g)) ls
    else \<exists>ring. derive_levels g trig = DrCycle ring \<and> is_ring (\<lambda>a b. (a, b) \<in> set es) ring"
proof -
  have "acyclic (set es)" if "increasing es ls" "ranked ls" "set (concat (lv_levels ls)) = set (gt_node_order g)" for ls
  proof (rule levelled_acyclic [OF that(1)])
    show "\<forall>e \<in> set es. lv_rank ls (snd e) \<noteq> None"
      using assms(1) that(3) ranked_done [OF that(2)] unfolding edges_inside_def es_def by blast
  qed
  moreover have "\<not> acyclic (set es)" if "is_ring (\<lambda>a b. (a, b) \<in> set es) ring" for ring
    by (rule ring_not_acyclic [OF that])
  ultimately show ?thesis using derive_levels_result [OF assms(1)] unfolding es_def by auto
qed

theorem levels_exist_iff_acyclic_witness:
  "\<exists>ring. derive_levels \<lparr>gt_topics = [\<lparr>tf_topic = ''t'', tf_producers = [''a''],
      tf_consumers = [\<lparr>ce_node_id = ''a'', ce_input = ''x'', ce_policy = BpDropOldest, ce_depth = 10\<rparr>]\<rparr>],
    gt_multi_publisher_topics = {}, gt_node_order = [''a'']\<rparr> {(''a'', ''t'')} = DrCycle ring"
proof -
  let ?g = "\<lparr>gt_topics = [\<lparr>tf_topic = ''t'', tf_producers = [''a''],
      tf_consumers = [\<lparr>ce_node_id = ''a'', ce_input = ''x'', ce_policy = BpDropOldest, ce_depth = 10\<rparr>]\<rparr>],
    gt_multi_publisher_topics = {}, gt_node_order = [''a'']\<rparr>"
  have es: "dag_edges {(''a'', ''t'')} (gt_topics ?g) = [(''a'', ''a'')]"
    by (simp add: dag_edges_def is_triggering_def)
  have "edges_inside ?g {(''a'', ''t'')}" unfolding edges_inside_def es by simp
  moreover have "\<not> acyclic {(''a'', ''a'')}" by (auto simp: acyclic_def)
  ultimately show ?thesis using levels_exist_iff_acyclic [of ?g "{(''a'', ''t'')}"] unfolding es by auto
qed

section \<open>Built topologies\<close>

lemma dag_edges_mem:
  "(p, c) \<in> set (dag_edges trig flows) \<longleftrightarrow> (\<exists>f \<in> set flows. p \<in> set (tf_producers f) \<and>
     (\<exists>e \<in> set (tf_consumers f). ce_node_id e = c \<and> is_triggering trig c (tf_topic f)))"
  by (auto simp: dag_edges_def split: if_splits)

lemma consumer_of_node [simp]: "ce_node_id (consumer_of info n i) = no_id n"
  by (simp add: consumer_of_def case_prod_beta)

lemma outputs_on_nodes: "set (outputs_on cfg (outputs_of cfg) t) \<subseteq> no_id ` set (native_nodes cfg)"
  by (auto simp: outputs_on_def outputs_of_def)

lemma edges_on_nodes: "ce_node_id ` set (edges_on cfg infos ns t) \<subseteq> no_id ` set ns"
  by (force simp: edges_on_def)

lemma built_edges_inside:
  assumes "topology_build cfg infos = Inr g"
  shows "edges_inside g trig"
  unfolding edges_inside_def
proof
  fix e assume e: "e \<in> set (dag_edges trig (gt_topics g))"
  obtain a b where ab: "e = (a, b)" by (metis prod.collapse)
  from e obtain f c where f: "f \<in> set (gt_topics g)" "fst e \<in> set (tf_producers f)" "c \<in> set (tf_consumers f)"
      "ce_node_id c = snd e"
    unfolding ab dag_edges_mem by auto
  note w = topology_build_result [OF assms, of "tf_topic f"]
  have "tf_producers f = first_seen (outputs_on cfg (outputs_of cfg) (tf_topic f))"
    "tf_consumers f = edges_on cfg infos (native_nodes cfg) (tf_topic f)"
    using w flow_lookup [OF _ f(1)] by simp_all
  then have "fst e \<in> set (outputs_on cfg (outputs_of cfg) (tf_topic f))"
    "snd e \<in> ce_node_id ` set (edges_on cfg infos (native_nodes cfg) (tf_topic f))"
    using f(2,3,4) by (simp_all add: rev_image_eqI)
  with outputs_on_nodes edges_on_nodes w show "fst e \<in> set (gt_node_order g) \<and> snd e \<in> set (gt_node_order g)"
    by (auto simp: subset_iff)
qed

section \<open>Assigned levels\<close>

datatype level_error =
    UnknownNodes "string list" | MissingNodes "string list" | LevelOutOfRange string nat
  | EmptyLevel nat | UnassignedEdge "string \<times> string" | NotIncreasing "string \<times> string"
  | AlgebraicCycle "string list"

definition level_assignment_coverage_violation :: "string list \<Rightarrow> (string \<times> nat) list \<Rightarrow> level_error option" where
  "level_assignment_coverage_violation ids assignments =
     (let unknown = filter (\<lambda>k. k \<notin> set ids) (map fst assignments);
          missing = filter (\<lambda>n. n \<notin> fst ` set assignments) ids
      in if unknown \<noteq> [] then Some (UnknownNodes unknown)
         else if missing \<noteq> [] then Some (MissingNodes missing) else None)"

definition edge_violation :: "levels \<Rightarrow> string \<times> string \<Rightarrow> level_error option" where
  "edge_violation ls e =
     (case (lv_rank ls (fst e), lv_rank ls (snd e)) of
        (Some lp, Some lc) \<Rightarrow> if lc \<le> lp then Some (NotIncreasing e) else None
      | _ \<Rightarrow> Some (UnassignedEdge e))"

definition level_invariant_violation :: "topology \<Rightarrow> levels \<Rightarrow> trigger_edges \<Rightarrow> level_error option" where
  "level_invariant_violation g ls trig =
     (case find (\<lambda>l. lv_levels ls ! l = []) [0..<length (lv_levels ls)] of
        Some l \<Rightarrow> Some (EmptyLevel l)
      | None \<Rightarrow>
          first_error (edge_violation ls) (dag_edges trig (gt_topics g)))"

fun place_nodes :: "(string \<Rightarrow> nat) \<Rightarrow> string list \<Rightarrow> levels \<Rightarrow> levels" where
  "place_nodes lvl [] ls = ls"
| "place_nodes lvl (n # ns) ls =
     place_nodes lvl ns
       \<lparr>lv_levels = (lv_levels ls)[lvl n := lv_levels ls ! lvl n @ [n]], lv_rank = (lv_rank ls)(n \<mapsto> lvl n)\<rparr>"

definition levels_from_assignments :: "topology \<Rightarrow> (string \<times> nat) list \<Rightarrow> trigger_edges \<Rightarrow> level_error + levels" where
  "levels_from_assignments g assignments trig =
     (let ids = gt_node_order g; lvl = (\<lambda>n. the (map_of assignments n))
      in case level_assignment_coverage_violation ids assignments of
           Some e \<Rightarrow> Inl e
         | None \<Rightarrow>
             (case find (\<lambda>n. length ids \<le> lvl n) ids of
                Some n \<Rightarrow> Inl (LevelOutOfRange n (lvl n))
              | None \<Rightarrow>
                  (let count = foldr (\<lambda>n m. max (lvl n + 1) m) ids 0;
                       ls = place_nodes lvl ids \<lparr>lv_levels = replicate count [], lv_rank = (\<lambda>_. None)\<rparr>
                   in case level_invariant_violation g ls trig of
                        Some e \<Rightarrow> Inl e
                      | None \<Rightarrow> Inr ls)))"

definition resolve_levels :: "graph_config \<Rightarrow> topology \<Rightarrow> trigger_edges \<Rightarrow> (level_error + levels) option" where
  "resolve_levels cfg g trig =
     (case gc_level_assignments cfg of
        Some assignments \<Rightarrow> Some (levels_from_assignments g assignments trig)
      | None \<Rightarrow>
          (case derive_levels g trig of
             DrLevels ls \<Rightarrow> Some (Inr ls)
           | DrCycle ring \<Rightarrow> Some (Inl (AlgebraicCycle ring))
           | DrPanics \<Rightarrow> None))"

lemma place_nodes_result:
  assumes "\<forall>n \<in> set ns. lvl n < length (lv_levels ls)"
  shows "length (lv_levels (place_nodes lvl ns ls)) = length (lv_levels ls) \<and>
    (\<forall>l < length (lv_levels ls). lv_levels (place_nodes lvl ns ls) ! l =
       lv_levels ls ! l @ filter (\<lambda>n. lvl n = l) ns) \<and>
    lv_rank (place_nodes lvl ns ls) = (\<lambda>n. if n \<in> set ns then Some (lvl n) else lv_rank ls n)"
  using assms by (induction ns arbitrary: ls) (auto simp: nth_list_update fun_eq_iff)

lemma place_all:
  assumes "\<forall>n \<in> set ids. lvl n < count"
  defines "ls \<equiv> place_nodes lvl ids \<lparr>lv_levels = replicate count [], lv_rank = (\<lambda>_. None)\<rparr>"
  shows "lv_levels ls = map (\<lambda>l. filter (\<lambda>n. lvl n = l) ids) [0..<count] \<and>
    lv_rank ls = (\<lambda>n. if n \<in> set ids then Some (lvl n) else None)"
proof -
  note r = place_nodes_result [of ids lvl "\<lparr>lv_levels = replicate count [], lv_rank = (\<lambda>_. None)\<rparr>"]
  have "lv_levels ls = map (\<lambda>l. filter (\<lambda>n. lvl n = l) ids) [0..<count]"
    using r assms(1) unfolding ls_def by (intro nth_equalityI) auto
  moreover have "lv_rank ls = (\<lambda>n. if n \<in> set ids then Some (lvl n) else None)"
    using r assms(1) unfolding ls_def by (simp add: fun_eq_iff)
  ultimately show ?thesis by blast
qed

lemma foldr_max_upper: "n \<in> set ids \<Longrightarrow> lvl n < foldr (\<lambda>n m. max (lvl n + 1) m) ids (0::nat)"
  by (induction ids) auto

lemma foldr_max_mem: "foldr (\<lambda>n m. max (lvl n + 1) m) ids (0::nat) = 0 \<or>
    (\<exists>n \<in> set ids. lvl n + 1 = foldr (\<lambda>n m. max (lvl n + 1) m) ids 0)"
  by (induction ids) (auto simp: max_def)

lemma invariant_violation_None:
  "level_invariant_violation g ls trig = None \<longleftrightarrow> [] \<notin> set (lv_levels ls) \<and>
     (\<forall>e \<in> set (dag_edges trig (gt_topics g)).
        \<exists>lp lc. lv_rank ls (fst e) = Some lp \<and> lv_rank ls (snd e) = Some lc \<and> lp < lc)"
proof -
  have empty: "find (\<lambda>l. lv_levels ls ! l = []) [0..<length (lv_levels ls)] = None \<longleftrightarrow> [] \<notin> set (lv_levels ls)"
    by (auto simp: find_None_iff in_set_conv_nth)
  have edge: "edge_violation ls e = None \<longleftrightarrow>
      (\<exists>lp lc. lv_rank ls (fst e) = Some lp \<and> lv_rank ls (snd e) = Some lc \<and> lp < lc)" for e
    by (auto simp: edge_violation_def split: option.splits)
  have "level_invariant_violation g ls trig = None \<longleftrightarrow>
      find (\<lambda>l. lv_levels ls ! l = []) [0..<length (lv_levels ls)] = None \<and>
      first_error (edge_violation ls) (dag_edges trig (gt_topics g)) = None"
    unfolding level_invariant_violation_def by (simp split: option.split)
  then show ?thesis unfolding empty first_error_None edge .
qed

lemma coverage_None:
  "level_assignment_coverage_violation ids assignments = None \<longleftrightarrow> fst ` set assignments = set ids"
  by (auto simp: level_assignment_coverage_violation_def Let_def filter_empty_conv)

text \<open>Levels \<open>lvl\<close> of \<open>ids\<close> that leave no gap fit below the number of nodes.\<close>

lemma contiguous_fits:
  assumes "\<forall>n \<in> set ids. \<forall>k < lvl n. \<exists>m \<in> set ids. lvl m = k" "n \<in> set ids"
  shows "lvl n < length ids"
proof -
  have "{..lvl n} \<subseteq> lvl ` set ids"
  proof
    fix k assume "k \<in> {..lvl n}"
    then show "k \<in> lvl ` set ids"
    proof (cases "k = lvl n")
      case False
      with \<open>k \<in> {..lvl n}\<close> have "k < lvl n" by simp
      with assms show ?thesis by blast
    qed (use assms(2) in blast)
  qed
  then have "card {..lvl n} \<le> card (lvl ` set ids)" by (intro card_mono) auto
  also have "\<dots> \<le> length ids" by (metis card_image_le card_length finite_set order_trans)
  finally show ?thesis by simp
qed

lemma contiguous_levels:
  fixes lvl :: "string \<Rightarrow> nat" and ids :: "string list"
  defines "count \<equiv> foldr (\<lambda>n m. max (lvl n + 1) m) ids 0"
  shows "[] \<notin> set (map (\<lambda>l. filter (\<lambda>n. lvl n = l) ids) [0..<count]) \<longleftrightarrow>
    (\<forall>n \<in> set ids. \<forall>k < lvl n. \<exists>m \<in> set ids. lvl m = k)"
proof -
  have "[] \<notin> set (map (\<lambda>l. filter (\<lambda>n. lvl n = l) ids) [0..<count]) \<longleftrightarrow> (\<forall>l < count. \<exists>m \<in> set ids. lvl m = l)"
    by (auto simp: filter_empty_conv image_iff Ball_def eq_commute [of "[]"])
  also have "\<dots> \<longleftrightarrow> (\<forall>n \<in> set ids. \<forall>k < lvl n. \<exists>m \<in> set ids. lvl m = k)"
  proof
    assume "\<forall>l < count. \<exists>m \<in> set ids. lvl m = l"
    then show "\<forall>n \<in> set ids. \<forall>k < lvl n. \<exists>m \<in> set ids. lvl m = k"
      using foldr_max_upper [where ids = ids and lvl = lvl] unfolding count_def by (meson order_less_trans)
  next
    assume gap: "\<forall>n \<in> set ids. \<forall>k < lvl n. \<exists>m \<in> set ids. lvl m = k"
    show "\<forall>l < count. \<exists>m \<in> set ids. lvl m = l"
    proof (intro allI impI)
      fix l assume "l < count"
      then obtain n where "n \<in> set ids" "lvl n + 1 = count"
        using foldr_max_mem [where ids = ids and lvl = lvl] unfolding count_def by auto
      with \<open>l < count\<close> gap show "\<exists>m \<in> set ids. lvl m = l"
        by (cases "l = lvl n") (auto simp: less_Suc_eq)
    qed
  qed
  finally show ?thesis .
qed

lemma ranked_place:
  assumes "distinct ids" "[] \<notin> set (map (\<lambda>l. filter (\<lambda>n. lvl n = l) ids) [0..<count])"
    and "\<forall>n \<in> set ids. lvl n < count"
  shows "ranked \<lparr>lv_levels = map (\<lambda>l. filter (\<lambda>n. lvl n = l) ids) [0..<count],
    lv_rank = (\<lambda>n. if n \<in> set ids then Some (lvl n) else None)\<rparr>"
proof -
  have "distinct (concat (map (\<lambda>l. filter (\<lambda>n. lvl n = l) ids) [0..<m]))" for m
    using assms(1) by (induction m) auto
  with assms(2,3) show ?thesis by (auto simp: ranked_def)
qed

definition good_assignment :: "topology \<Rightarrow> (string \<times> nat) list \<Rightarrow> trigger_edges \<Rightarrow> bool" where
  "good_assignment g assignments trig \<longleftrightarrow>
     (let lvl = (\<lambda>n. the (map_of assignments n)); ids = gt_node_order g
      in fst ` set assignments = set ids \<and>
         (\<forall>n \<in> set ids. \<forall>k < lvl n. \<exists>m \<in> set ids. lvl m = k) \<and>
         (\<forall>e \<in> set (dag_edges trig (gt_topics g)). lvl (fst e) < lvl (snd e)))"

lemma assigned_levels_result:
  fixes assignments :: "(string \<times> nat) list"
  assumes "distinct (gt_node_order g)" "edges_inside g trig"
  defines "lvl \<equiv> \<lambda>n. the (map_of assignments n)"
  shows "if good_assignment g assignments trig
    then \<exists>ls. levels_from_assignments g assignments trig = Inr ls \<and> ranked ls \<and>
      lv_rank ls = (\<lambda>n. if n \<in> set (gt_node_order g) then Some (lvl n) else None) \<and>
      (\<forall>l < length (lv_levels ls). lv_levels ls ! l = filter (\<lambda>n. lvl n = l) (gt_node_order g))
    else \<exists>e. levels_from_assignments g assignments trig = Inl e"
proof -
  define ids where "ids = gt_node_order g"
  define count where "count = foldr (\<lambda>n m. max (lvl n + 1) m) ids 0"
  define ls where "ls = place_nodes lvl ids \<lparr>lv_levels = replicate count [], lv_rank = (\<lambda>_. None)\<rparr>"
  define gapless where "gapless \<longleftrightarrow> (\<forall>n \<in> set ids. \<forall>k < lvl n. \<exists>m \<in> set ids. lvl m = k)"
  have lt: "\<forall>n \<in> set ids. lvl n < count" unfolding count_def by (blast intro: foldr_max_upper)
  have lv: "lv_levels ls = map (\<lambda>l. filter (\<lambda>n. lvl n = l) ids) [0..<count]"
    "lv_rank ls = (\<lambda>n. if n \<in> set ids then Some (lvl n) else None)"
    using place_all [OF lt] unfolding ls_def by simp_all
  have noempty: "[] \<notin> set (lv_levels ls) \<longleftrightarrow> gapless"
    unfolding lv(1) gapless_def count_def by (rule contiguous_levels)
  have inv: "level_invariant_violation g ls trig = None \<longleftrightarrow>
      gapless \<and> (\<forall>e \<in> set (dag_edges trig (gt_topics g)). lvl (fst e) < lvl (snd e))"
    using assms(2) unfolding invariant_violation_None noempty lv(2) edges_inside_def ids_def by fastforce
  have fits: "find (\<lambda>n. length ids \<le> lvl n) ids = None" if gapless
    using contiguous_fits that unfolding gapless_def find_None_iff by (metis linorder_not_le)
  have good: "good_assignment g assignments trig \<longleftrightarrow> fst ` set assignments = set ids \<and> gapless \<and>
      (\<forall>e \<in> set (dag_edges trig (gt_topics g)). lvl (fst e) < lvl (snd e))"
    by (simp add: good_assignment_def gapless_def lvl_def ids_def Let_def)
  have eq: "levels_from_assignments g assignments trig =
      (case level_assignment_coverage_violation ids assignments of
         Some e \<Rightarrow> Inl e
       | None \<Rightarrow> (case find (\<lambda>n. length ids \<le> lvl n) ids of
           Some n \<Rightarrow> Inl (LevelOutOfRange n (lvl n))
         | None \<Rightarrow> (case level_invariant_violation g ls trig of Some e \<Rightarrow> Inl e | None \<Rightarrow> Inr ls)))"
    unfolding levels_from_assignments_def Let_def ids_def [symmetric] lvl_def [symmetric]
      count_def [symmetric] ls_def [symmetric] ..
  show ?thesis
  proof (cases "good_assignment g assignments trig")
    case True
    then have "levels_from_assignments g assignments trig = Inr ls"
      using good inv fits coverage_None [of ids assignments] by (simp add: eq)
    moreover have "ranked ls"
      using ranked_place [of ids lvl count] assms(1) lt noempty True good lv
      by (cases ls) (simp add: ids_def)
    ultimately show ?thesis using True lv by (simp add: ids_def)
  next
    case False
    then have "\<exists>e. levels_from_assignments g assignments trig = Inl e"
      using good inv coverage_None [of ids assignments] by (auto simp: eq split: option.splits)
    with False show ?thesis by simp
  qed
qed

text \<open>
  A \<open>level_assignments:\<close> block is accepted exactly when it is sound: it names every node and nothing
  else, leaves no level empty below one it uses, and puts every triggered node strictly above all its
  producers. The levels it is taken to are the assigned ones, with the nodes of each in graph order;
  anything else is an error.
\<close>

theorem assigned_levels_accepted_exactly:
  assumes "distinct (gt_node_order g)" "edges_inside g trig"
  shows "if good_assignment g assignments trig
    then \<exists>ls. levels_from_assignments g assignments trig = Inr ls \<and> ranked ls \<and>
      lv_rank ls = (\<lambda>n. if n \<in> set (gt_node_order g) then Some (the (map_of assignments n)) else None) \<and>
      (\<forall>l < length (lv_levels ls). lv_levels ls ! l = filter (\<lambda>n. the (map_of assignments n) = l) (gt_node_order g))
    else \<exists>e. levels_from_assignments g assignments trig = Inl e"
  by (rule assigned_levels_result [OF assms])

theorem assigned_levels_accepted_exactly_witness:
  "\<exists>e. levels_from_assignments \<lparr>gt_topics = [], gt_multi_publisher_topics = {}, gt_node_order = [''a'', ''b'']\<rparr>
     [(''a'', 0), (''b'', 2)] {} = Inl e"
proof -
  let ?g = "\<lparr>gt_topics = [], gt_multi_publisher_topics = {}, gt_node_order = [''a'', ''b'']\<rparr>"
  have "distinct (gt_node_order ?g)" "edges_inside ?g {}" by (simp_all add: edges_inside_def dag_edges_def)
  note verdict = assigned_levels_accepted_exactly [OF this, of "[(''a'', 0), (''b'', 2)]"]
  have "\<not> good_assignment ?g [(''a'', 0), (''b'', 2)] {}"
    by (auto simp: good_assignment_def Let_def intro!: exI [of _ 1])
  with verdict show ?thesis by simp
qed



end
