(* ===== verification/GraphStep.thy ===== *)
theory GraphStep
  imports LevelFire GraphLevels
begin

text \<open>
  One logical step of the graph runtime (\<open>graph/runtime.rs\<close>): draining a level's trigger inputs
  (\<open>drain_level\<close>), running a level in its two halves (\<open>run_level_snapshot_phase\<close>,
  \<open>run_level_tick_phase\<close>), and the level loop of \<open>step_live\<close>, alone or in step with the other processes
  of the graph through the shared barrier.

  The transport and the nodes' own code are parameters of \<open>graph_env\<close>: receiving on a drain
  subscriber, emptying a wake listener, a node's \<open>drain_trigger_input\<close> and \<open>snapshot_inputs\<close>, and the
  order in which the thread pool runs a level. Log lines, the recording of read outcomes and the
  housekeeping after the level loop are not modelled.
\<close>

section \<open>State and environment\<close>

datatype trigger_subscriber = Ipc | ListenerOnly

datatype drain_source = Unified (listener_idx: nat) | Separate (listener_idx: nat)

record data_trigger_binding =
  db_node_id :: string
  db_drain :: drain_source
  db_input_name :: "string option"
  db_warn_suppressed :: bool

record sync_input_binding =
  sb_node_id :: string
  sb_sync_input :: string
  sb_input_name :: string
  sb_subscriber_idx :: nat
  sb_per_set :: bool
  sb_warn_suppressed :: bool
  sb_signal_warn_suppressed :: bool

record level_plan =
  lp_other_ids :: "string list"
  lp_block_ids :: "string list"
  lp_rest_walk :: rest_walk

text \<open>
  \<open>ge_receive\<close> answers the stamps of the frames it took and whether it ended in an error;
  \<open>ge_drain_input\<close> and \<open>ge_snapshot_inputs\<close> are \<open>None\<close> for a node that is absent or poisoned.
\<close>

record 'w graph_env =
  ge_envs :: "'w node_envs"
  ge_subs :: "trigger_subscriber list"
  ge_receive :: "nat \<Rightarrow> 'w \<Rightarrow> (u64 list \<times> bool) \<times> 'w"
  ge_clear :: "nat \<Rightarrow> 'w \<Rightarrow> 'w"
  ge_drain_input :: "string \<Rightarrow> (string \<Rightarrow> 'w \<Rightarrow> (nat \<times> u64 option) \<times> 'w) option"
  ge_snapshot_names :: "string \<Rightarrow> string list option"
  ge_snapshot_inputs :: "string \<Rightarrow> (string list \<Rightarrow> 'w \<Rightarrow> 'w) option"
  ge_levels :: levels
  ge_plans :: "level_plan list"
  ge_serial_ids :: "string set"
  ge_pool_threads :: nat
  ge_pauses :: bool
  ge_order :: "u64 \<Rightarrow> nat \<Rightarrow> nat list"

record graph_runtime =
  gr_sched :: scheduler
  gr_data :: "data_trigger_binding list"
  gr_sync :: "sync_input_binding list"
  gr_gen :: u64
  gr_barrier_failed :: bool

section \<open>The scheduler by node id\<close>

definition with_node :: "string \<Rightarrow> (scheduled_node \<Rightarrow> (sched_error + unit) \<times> scheduled_node) \<Rightarrow> scheduler \<Rightarrow>
    (sched_error + unit) \<times> scheduler" where
  "with_node i f s =
     (case index_of i (sd_nodes s) of
        None \<Rightarrow> (Inl SeNodeNotFound, s)
      | Some j \<Rightarrow> (let (r, n) = f (sd_nodes s ! j) in (r, put_node j n s)))"

definition sched_signal_data :: "string \<Rightarrow> scheduler \<Rightarrow> (sched_error + unit) \<times> scheduler" where
  "sched_signal_data i s = with_node i signal_data s"

definition sched_signal_input_received :: "string \<Rightarrow> string \<Rightarrow> u64 \<Rightarrow> scheduler \<Rightarrow>
    (sched_error + unit) \<times> scheduler" where
  "sched_signal_input_received i input ts s = with_node i (\<lambda>n. (Inr (), signal_input_received input ts n)) s"

definition sched_signal_sync_input :: "string \<Rightarrow> string \<Rightarrow> u64 \<Rightarrow> scheduler \<Rightarrow>
    (sched_error + unit) \<times> scheduler" where
  "sched_signal_sync_input i input ts s = with_node i (signal_sync_input input ts) s"

definition pending_data_count :: "string \<Rightarrow> scheduler \<Rightarrow> u64" where
  "pending_data_count i s =
     (case index_of i (sd_nodes s) of
        None \<Rightarrow> 0 | Some j \<Rightarrow> nd_pending_data_count (sd_nodes s ! j))"

definition align_sync_heads :: "'w node_envs \<Rightarrow> string \<Rightarrow> sync_align_site \<Rightarrow> scheduler \<Rightarrow> 'w \<Rightarrow> scheduler \<times> 'w" where
  "align_sync_heads envs i site s w =
     (case index_of i (sd_nodes s) of
        None \<Rightarrow> (s, w)
      | Some j \<Rightarrow>
          (let (_, n, w1) = align_node_sync_heads (env_sync_op (envs i)) site (sd_nodes s ! j) w
           in (put_node j n s, w1)))"

section \<open>Draining a level\<close>

definition try_receive_timestamps :: "'w graph_env \<Rightarrow> nat \<Rightarrow> 'w \<Rightarrow> (u64 list \<times> bool) \<times> 'w" where
  "try_receive_timestamps env idx w =
     (case ge_subs env ! idx of
        Ipc \<Rightarrow> ge_receive env idx w
      | ListenerOnly \<Rightarrow> (([], False), w))"

definition note_arrival :: "string \<Rightarrow> string option \<Rightarrow> u64 \<Rightarrow> scheduler \<Rightarrow> scheduler" where
  "note_arrival i input ts s =
     (case input of
        Some x \<Rightarrow> snd (sched_signal_input_received i x ts s)
      | None \<Rightarrow> s)"

definition take_unified :: "'w graph_env \<Rightarrow> data_trigger_binding \<Rightarrow> 'w \<Rightarrow> (nat \<times> u64 option) \<times> 'w" where
  "take_unified env b w =
     (case db_input_name b of
        Some x \<Rightarrow>
          (case ge_drain_input env (db_node_id b) of
             Some drain \<Rightarrow> drain x w
           | None \<Rightarrow> ((0, None), w))
      | None \<Rightarrow> ((0, None), w))"

definition deliver_unified :: "string \<Rightarrow> string option \<Rightarrow> nat \<Rightarrow> u64 option \<Rightarrow> scheduler \<Rightarrow> scheduler" where
  "deliver_unified i input popped latest_ts s =
     (let s1 = (case latest_ts of Some ts \<Rightarrow> note_arrival i input ts s | None \<Rightarrow> s)
      in if 0 < popped \<and> pending_data_count i s1 = 0 then snd (sched_signal_data i s1) else s1)"

definition drain_data_binding :: "'w graph_env \<Rightarrow> data_trigger_binding \<Rightarrow> scheduler \<Rightarrow> 'w \<Rightarrow>
    data_trigger_binding \<times> scheduler \<times> 'w" where
  "drain_data_binding env b s w =
     (let i = db_node_id b
      in case db_drain b of
           Separate sub_idx \<Rightarrow>
             (let ((stamps, failed), w1) = try_receive_timestamps env sub_idx w;
                  s1 = fold (\<lambda>ts s. snd (sched_signal_data i (note_arrival i (db_input_name b) ts s))) stamps s
              in (b\<lparr>db_warn_suppressed := failed\<rparr>, s1, w1))
         | Unified l \<Rightarrow>
             (let ((popped, latest_ts), w2) = take_unified env b (ge_clear env l w)
              in (b, deliver_unified i (db_input_name b) popped latest_ts s, w2)))"

fun drain_data_bindings :: "'w graph_env \<Rightarrow> nat \<Rightarrow> data_trigger_binding list \<Rightarrow> scheduler \<Rightarrow> 'w \<Rightarrow>
    data_trigger_binding list \<times> scheduler \<times> 'w" where
  "drain_data_bindings env li [] s w = ([], s, w)"
| "drain_data_bindings env li (b # bs) s w =
     (let (b1, s1, w1) =
            (if level_of (ge_levels env) (db_node_id b) = Some li then drain_data_binding env b s w
             else (b, s, w));
          (bs1, s2, w2) = drain_data_bindings env li bs s1 w1
      in (b1 # bs1, s2, w2))"

text \<open>The legacy drain of a Sync input: the flag is \<open>signal_failed\<close>.\<close>

fun signal_stamps :: "string \<Rightarrow> string \<Rightarrow> string \<Rightarrow> u64 list \<Rightarrow> scheduler \<Rightarrow> bool \<times> scheduler" where
  "signal_stamps i input_name sync_input [] s = (False, s)"
| "signal_stamps i input_name sync_input (ts # tss) s =
     (let (r, s1) = sched_signal_sync_input i sync_input ts (note_arrival i (Some input_name) ts s);
          (failed, s2) = signal_stamps i input_name sync_input tss s1
      in (isl r \<or> failed, s2))"

definition drain_sync_input :: "'w graph_env \<Rightarrow> sync_input_binding \<Rightarrow> scheduler \<Rightarrow> 'w \<Rightarrow>
    sync_input_binding \<times> scheduler \<times> 'w" where
  "drain_sync_input env b s w =
     (let ((stamps, failed), w1) = try_receive_timestamps env (sb_subscriber_idx b) w;
          (signal_failed, s1) = signal_stamps (sb_node_id b) (sb_input_name b) (sb_sync_input b) stamps s
      in (b\<lparr>sb_warn_suppressed := failed,
            sb_signal_warn_suppressed :=
              (signal_failed \<or> sb_signal_warn_suppressed b \<and> stamps = [])\<rparr>, s1, w1))"

text \<open>The second argument is the node the last per-set binding aligned.\<close>

fun drain_sync_bindings :: "'w graph_env \<Rightarrow> nat \<Rightarrow> string option \<Rightarrow> sync_input_binding list \<Rightarrow> scheduler \<Rightarrow> 'w \<Rightarrow>
    sync_input_binding list \<times> scheduler \<times> 'w" where
  "drain_sync_bindings env li aligned [] s w = ([], s, w)"
| "drain_sync_bindings env li aligned (b # bs) s w =
     (if level_of (ge_levels env) (sb_node_id b) \<noteq> Some li
      then let (bs1, s1, w1) = drain_sync_bindings env li aligned bs s w in (b # bs1, s1, w1)
      else if sb_per_set b then
        let w1 = ge_clear env (sb_subscriber_idx b) w;
            (s1, w2) = (if aligned = Some (sb_node_id b) then (s, w1)
                        else align_sync_heads (ge_envs env) (sb_node_id b) Boundary s w1);
            (bs1, s2, w3) = drain_sync_bindings env li (Some (sb_node_id b)) bs s1 w2
        in (b # bs1, s2, w3)
      else
        let (b1, s1, w1) = drain_sync_input env b s w;
            (bs1, s2, w2) = drain_sync_bindings env li aligned bs s1 w1
        in (b1 # bs1, s2, w2))"

definition drain_level :: "'w graph_env \<Rightarrow> nat \<Rightarrow> graph_runtime \<Rightarrow> 'w \<Rightarrow> graph_runtime \<times> 'w" where
  "drain_level env li r w =
     (let (ds, s1, w1) = drain_data_bindings env li (gr_data r) (gr_sched r) w;
          (ss, s2, w2) = drain_sync_bindings env li None (gr_sync r) s1 w1
      in (r\<lparr>gr_sched := s2, gr_data := ds, gr_sync := ss\<rparr>, w2))"

section \<open>Running a level\<close>

definition snapshot_node_inputs :: "'w graph_env \<Rightarrow> string \<Rightarrow> 'w \<Rightarrow> 'w" where
  "snapshot_node_inputs env i w =
     (case ge_snapshot_names env i of
        Some names \<Rightarrow>
          (case ge_snapshot_inputs env i of Some snap \<Rightarrow> snap names w | None \<Rightarrow> w)
      | None \<Rightarrow> w)"

definition run_level_snapshot_phase :: "'w graph_env \<Rightarrow> nat \<Rightarrow> u64 \<Rightarrow> graph_runtime \<Rightarrow> 'w \<Rightarrow>
    fire_decision list \<times> graph_runtime \<times> 'w" where
  "run_level_snapshot_phase env li new_time r w =
     (let (r1, w1) = drain_level env li r w;
          (s1, w2) = decide_fires (ge_envs env) (lp_other_ids (ge_plans env ! li)) new_time (gr_sched r1) w1;
          (ds, s2) = take_decisions s1
      in (ds, r1\<lparr>gr_sched := s2\<rparr>, snapshot_all (snapshot_node_inputs env) ds w2))"

definition run_level_tick_phase :: "'w graph_env \<Rightarrow> nat \<Rightarrow> u64 \<Rightarrow> fire_at \<Rightarrow> fire_decision list \<Rightarrow>
    graph_runtime \<Rightarrow> 'w \<Rightarrow> graph_runtime \<times> 'w" where
  "run_level_tick_phase env li new_time at ds r w =
     (let plan = ge_plans env ! li;
          (s1, w1) = (if lp_block_ids plan = [] then (gr_sched r, w)
                      else evaluate_nodes_fused (ge_envs env) (snapshot_node_inputs env) at new_time
                             (lp_block_ids plan) (gr_sched r) w);
          (s2, w2) = tick_decided_parallel (ge_envs env) at (ge_pool_threads env) (ge_pauses env)
                       (ge_order env (snd at) (fst at)) (ge_serial_ids env) (lp_rest_walk plan) ds s1 w1
      in (r\<lparr>gr_sched := s2\<rparr>, w2))"

definition run_level :: "'w graph_env \<Rightarrow> nat \<Rightarrow> u64 \<Rightarrow> fire_at \<Rightarrow> graph_runtime \<Rightarrow> 'w \<Rightarrow> graph_runtime \<times> 'w" where
  "run_level env li new_time at r w =
     (let (ds, r1, w1) = run_level_snapshot_phase env li new_time r w
      in run_level_tick_phase env li new_time at ds r1 w1)"

section \<open>The level loop\<close>

text \<open>
  What a process sees of the barrier: \<open>bp_wait\<close> answers whether the generation opened, as opposed to
  timing out. \<open>bp_map\<close> says which local level, if any, this process runs at a global one.
\<close>

record 'w barrier_participant =
  bp_map :: "nat option list"
  bp_mid :: "bool list"
  bp_arrive :: "u64 \<Rightarrow> 'w \<Rightarrow> 'w"
  bp_wait :: "u64 \<Rightarrow> 'w \<Rightarrow> bool \<times> 'w"

datatype install_error = NotABijection | MidLengthMismatch

definition install_barrier_participant :: "nat \<Rightarrow> nat option list \<Rightarrow> bool list \<Rightarrow> install_error + unit" where
  "install_barrier_participant local_count gmap mid =
     (if List.map_filter (\<lambda>x. x) gmap \<noteq> [0..<local_count] then Inl NotABijection
      else if length mid \<noteq> length gmap then Inl MidLengthMismatch
      else Inr ())"

definition generations_per_step :: "'w barrier_participant \<Rightarrow> nat" where
  "generations_per_step bp = length (bp_map bp) + length (filter (\<lambda>f. f) (bp_mid bp))"

text \<open>Arrive at a generation and wait for it; the flag is whether it opened.\<close>

definition cross :: "'w barrier_participant \<Rightarrow> u64 \<Rightarrow> 'w \<Rightarrow> bool \<times> 'w" where
  "cross bp gen w = bp_wait bp gen (bp_arrive bp gen w)"

text \<open>One global level; the answer carries the next generation, or \<open>None\<close> after a timeout.\<close>

definition barrier_level :: "'w graph_env \<Rightarrow> 'w barrier_participant \<Rightarrow> u64 \<Rightarrow> u64 \<Rightarrow> nat \<Rightarrow> u64 \<Rightarrow>
    graph_runtime \<Rightarrow> 'w \<Rightarrow> u64 option \<times> graph_runtime \<times> 'w" where
  "barrier_level env bp new_time step g gen r w =
     (let end_of_level = (\<lambda>gen r w. let (opened, w1) = cross bp gen w
                                    in (if opened then Some (gen + 1) else None, r, w1))
      in if bp_mid bp ! g then
           let (ds, r1, w1) = (case bp_map bp ! g of
                                 Some li \<Rightarrow> run_level_snapshot_phase env li new_time r w
                               | None \<Rightarrow> ([], r, w));
               (opened, w2) = cross bp gen w1
           in if \<not> opened then (None, r1, w2)
              else
                let (r2, w3) = (case bp_map bp ! g of
                                  Some li \<Rightarrow> run_level_tick_phase env li new_time (g, step) ds r1 w2
                                | None \<Rightarrow> (r1, w2))
                in end_of_level (gen + 1) r2 w3
         else
           let (r1, w1) = (case bp_map bp ! g of
                             Some li \<Rightarrow> run_level env li new_time (g, step) r w
                           | None \<Rightarrow> (r, w))
           in end_of_level gen r1 w1)"

fun barrier_levels :: "'w graph_env \<Rightarrow> 'w barrier_participant \<Rightarrow> u64 \<Rightarrow> u64 \<Rightarrow> nat list \<Rightarrow> u64 \<Rightarrow>
    graph_runtime \<Rightarrow> 'w \<Rightarrow> graph_runtime \<times> 'w" where
  "barrier_levels env bp new_time step [] gen r w = (r\<lparr>gr_gen := gen\<rparr>, w)"
| "barrier_levels env bp new_time step (g # gs) gen r w =
     (case barrier_level env bp new_time step g gen r w of
        (Some gen1, r1, w1) \<Rightarrow> barrier_levels env bp new_time step gs gen1 r1 w1
      | (None, r1, w1) \<Rightarrow> (r1\<lparr>gr_barrier_failed := True\<rparr>, w1))"

fun own_levels :: "'w graph_env \<Rightarrow> u64 \<Rightarrow> u64 \<Rightarrow> nat list \<Rightarrow> graph_runtime \<Rightarrow> 'w \<Rightarrow> graph_runtime \<times> 'w" where
  "own_levels env new_time step [] r w = (r, w)"
| "own_levels env new_time step (li # ls) r w =
     (let (r1, w1) = run_level env li new_time (li, step) r w in own_levels env new_time step ls r1 w1)"

definition step_live :: "'w graph_env \<Rightarrow> 'w barrier_participant option \<Rightarrow> duration \<Rightarrow> graph_runtime \<Rightarrow> 'w \<Rightarrow>
    graph_runtime \<times> 'w" where
  "step_live env bpo gating r w =
     (if gr_barrier_failed r then (r, w)
      else
        let (new_time, s1) = begin_step gating (gr_sched r);
            step = current_step s1;
            r1 = r\<lparr>gr_sched := s1\<rparr>
        in case bpo of
             Some bp \<Rightarrow> barrier_levels env bp new_time step [0..<length (bp_map bp)] (gr_gen r1) r1 w
           | None \<Rightarrow> own_levels env new_time step [0..<length (lv_levels (ge_levels env))] r1 w)"

section \<open>A level's drain stays in the level\<close>

text \<open>The nodes are the same nodes, and those outside level \<open>li\<close> are as they were.\<close>

definition only_level :: "levels \<Rightarrow> nat \<Rightarrow> scheduler \<Rightarrow> scheduler \<Rightarrow> bool" where
  "only_level lv li s s' \<longleftrightarrow> map nd_id (sd_nodes s') = map nd_id (sd_nodes s) \<and>
     (\<forall>j < length (sd_nodes s). level_of lv (nd_id (sd_nodes s ! j)) \<noteq> Some li \<longrightarrow>
        sd_nodes s' ! j = sd_nodes s ! j)"

lemma only_level_refl [simp]: "only_level lv li s s"
  by (simp add: only_level_def)

lemma only_level_trans: "only_level lv li s s' \<Longrightarrow> only_level lv li s' s'' \<Longrightarrow> only_level lv li s s''"
proof -
  assume a: "only_level lv li s s'" "only_level lv li s' s''"
  have len: "length (sd_nodes s') = length (sd_nodes s)" using a(1) by (metis length_map only_level_def)
  have "nd_id (sd_nodes s' ! j) = nd_id (sd_nodes s ! j)" if "j < length (sd_nodes s)" for j
    using a(1) that len unfolding only_level_def by (metis nth_map)
  with a len show ?thesis by (simp add: only_level_def)
qed

lemma only_level_put:
  assumes "index_of i (sd_nodes s) = Some j" "nd_id n = i" "level_of lv i = Some li"
  shows "only_level lv li s (put_node j n s)"
proof -
  have j: "j < length (sd_nodes s)" "nd_id (sd_nodes s ! j) = i"
    using index_in_Some assms(1) unfolding index_of_ids by fastforce+
  have "map nd_id ((sd_nodes s)[j := n]) = map nd_id (sd_nodes s)"
    using j assms(2) by (simp add: map_update list_update_same_conv)
  with j assms(3) show ?thesis by (auto simp: only_level_def put_node_def nth_list_update)
qed

lemma only_level_with_node:
  assumes "level_of lv i = Some li" "\<And>n. nd_id (snd (f n)) = nd_id n"
  shows "only_level lv li s (snd (with_node i f s))"
proof (cases "index_of i (sd_nodes s)")
  case (Some j)
  then have "nd_id (sd_nodes s ! j) = i" using index_in_Some unfolding index_of_ids by fastforce
  then have "only_level lv li s (put_node j (snd (f (sd_nodes s ! j))) s)"
    by (intro only_level_put [OF Some _ assms(1)]) (simp add: assms(2))
  with Some show ?thesis by (simp add: with_node_def case_prod_beta)
qed (simp add: with_node_def)

lemma signal_ids [simp]:
  "nd_id (snd (signal_data n)) = nd_id n"
  "nd_id (signal_input_received x ts n) = nd_id n"
  "nd_id (snd (signal_sync_input x ts n)) = nd_id n"
  by (auto simp: signal_data_def signal_input_received_def signal_sync_input_def bump_signal_failed_def
      refuse_offer_def split: trigger_policy.splits option.splits)

lemma only_level_signals:
  assumes "level_of lv i = Some li"
  shows "only_level lv li s (snd (sched_signal_data i s))"
    "only_level lv li s (note_arrival i input ts s)"
    "only_level lv li s (snd (sched_signal_sync_input i x ts s))"
  unfolding sched_signal_data_def note_arrival_def sched_signal_input_received_def sched_signal_sync_input_def
  by (auto intro!: only_level_with_node [OF assms] split: option.split)

lemma only_level_align:
  assumes "level_of lv i = Some li" "align_sync_heads envs i site s w = (s', w')"
  shows "only_level lv li s s'"
proof (cases "index_of i (sd_nodes s)")
  case None
  with assms(2) show ?thesis by (simp add: align_sync_heads_def)
next
  case (Some j)
  obtain st n w1 where a: "align_node_sync_heads (env_sync_op (envs i)) site (sd_nodes s ! j) w = (st, n, w1)"
    by (metis prod.collapse)
  have "nd_id (sd_nodes s ! j) = i" using index_in_Some Some unfolding index_of_ids by fastforce
  then have "only_level lv li s (put_node j n s)"
    using core_id [OF core_align [OF a]] by (intro only_level_put [OF Some _ assms(1)]) simp
  with Some a assms(2) show ?thesis by (simp add: align_sync_heads_def)
qed

lemma only_level_fold:
  "(\<And>x s. only_level lv li s (g x s)) \<Longrightarrow> only_level lv li s (fold g xs s)"
  by (induction xs arbitrary: s) (auto intro: only_level_trans)

lemma only_level_data_binding:
  assumes "level_of lv (db_node_id b) = Some li" "drain_data_binding env b s w = (b', s', w')"
  shows "only_level lv li s s'"
proof (cases "db_drain b")
  case (Separate k)
  have "only_level lv li s (fold (\<lambda>ts s. snd (sched_signal_data (db_node_id b)
      (note_arrival (db_node_id b) (db_input_name b) ts s))) stamps s)" for stamps
    by (rule only_level_fold) (rule only_level_trans [OF only_level_signals(2,1) [OF assms(1)]])
  with assms(2) Separate show ?thesis by (auto simp: drain_data_binding_def Let_def split: prod.splits)
next
  case (Unified l)
  obtain popped ts where "s' = deliver_unified (db_node_id b) (db_input_name b) popped ts s"
    using assms(2) Unified by (auto simp: drain_data_binding_def Let_def split: prod.splits)
  moreover have "only_level lv li s (case ts of Some t \<Rightarrow> note_arrival (db_node_id b) (db_input_name b) t s | None \<Rightarrow> s)"
    using only_level_signals(2) [OF assms(1)] by (auto split: option.split)
  ultimately show ?thesis
    using only_level_trans [OF _ only_level_signals(1) [OF assms(1)]] by (simp add: deliver_unified_def Let_def)
qed

lemma only_level_data_bindings:
  "drain_data_bindings env li bs s w = (bs', s', w') \<Longrightarrow> only_level (ge_levels env) li s s'"
proof (induction bs arbitrary: s w bs' s' w')
  case (Cons b bs)
  obtain b1 s1 w1 where one: "(if level_of (ge_levels env) (db_node_id b) = Some li then drain_data_binding env b s w
      else (b, s, w)) = (b1, s1, w1)" by (metis prod.collapse)
  obtain bs2 s2 w2 where rest: "drain_data_bindings env li bs s1 w1 = (bs2, s2, w2)" by (metis prod.collapse)
  have "only_level (ge_levels env) li s s1"
    using one only_level_data_binding [of "ge_levels env" b li env s w b1 s1 w1] by (auto split: if_splits)
  moreover have "s' = s2" using Cons.prems one rest by (simp add: Let_def)
  ultimately show ?case using Cons.IH [OF rest] only_level_trans by blast
qed simp

lemma only_level_stamps:
  "level_of lv i = Some li \<Longrightarrow> signal_stamps i x y tss s = (f, s') \<Longrightarrow> only_level lv li s s'"
proof (induction tss arbitrary: s f s')
  case (Cons ts tss)
  note o = only_level_signals [OF Cons.prems(1)]
  obtain r s1 where one: "sched_signal_sync_input i y ts (note_arrival i (Some x) ts s) = (r, s1)"
    by (metis prod.collapse)
  obtain g s2 where rest: "signal_stamps i x y tss s1 = (g, s2)" by (metis prod.collapse)
  have "only_level lv li (note_arrival i (Some x) ts s) s1"
    using o(3) [of "note_arrival i (Some x) ts s" y ts] one by simp
  with o(2) have "only_level lv li s s1" by (rule only_level_trans)
  moreover have "s' = s2" using Cons.prems(2) one rest by simp
  ultimately show ?case using Cons.IH [OF Cons.prems(1) rest] only_level_trans by blast
qed simp

lemma only_level_sync_bindings:
  "drain_sync_bindings env li al bs s w = (bs', s', w') \<Longrightarrow> only_level (ge_levels env) li s s'"
proof (induction env li al bs s w arbitrary: bs' s' w' rule: drain_sync_bindings.induct)
  case (2 env li al b bs s w)
  let ?lv = "ge_levels env"
  consider (skip) "level_of ?lv (sb_node_id b) \<noteq> Some li"
    | (set) "level_of ?lv (sb_node_id b) = Some li" "sb_per_set b"
    | (legacy) "level_of ?lv (sb_node_id b) = Some li" "\<not> sb_per_set b" by blast
  then show ?case
  proof cases
    case skip
    then show ?thesis using 2 by (auto split: prod.splits)
  next
    case set
    let ?w = "ge_clear env (sb_subscriber_idx b) w"
    obtain s1 w2 where one: "(if al = Some (sb_node_id b) then (s, ?w)
        else align_sync_heads (ge_envs env) (sb_node_id b) Boundary s ?w) = (s1, w2)" by (metis prod.collapse)
    obtain bs2 s2 w3 where rest: "drain_sync_bindings env li (Some (sb_node_id b)) bs s1 w2 = (bs2, s2, w3)"
      by (metis prod.collapse)
    have "only_level ?lv li s s1" using one only_level_align [OF set(1)] by (auto split: if_splits)
    moreover have "s' = s2" using "2.prems" set one rest by (simp add: Let_def)
    moreover have "only_level ?lv li s1 s2" by (rule "2.IH"(2) [OF _ _ refl one [symmetric] refl rest]) (use set in auto)
    ultimately show ?thesis using only_level_trans by blast
  next
    case legacy
    obtain b1 s1 w1 where one: "drain_sync_input env b s w = (b1, s1, w1)" by (metis prod.collapse)
    obtain bs2 s2 w2 where rest: "drain_sync_bindings env li al bs s1 w1 = (bs2, s2, w2)" by (metis prod.collapse)
    have "only_level ?lv li s s1"
      using one only_level_stamps [OF legacy(1)] by (auto simp: drain_sync_input_def split: prod.splits)
    moreover have "s' = s2" using "2.prems" legacy one rest by simp
    moreover have "only_level ?lv li s1 s2" by (rule "2.IH"(3) [OF _ _ one [symmetric] refl refl rest]) (use legacy in auto)
    ultimately show ?thesis using only_level_trans by blast
  qed
qed simp

text \<open>
  Draining a level touches that level only: whatever the transport answers, the nodes outside the
  level come out of the drain exactly as they went in, and no node is added, removed or renamed.
\<close>

theorem drain_stays_in_its_level:
  assumes "drain_level env li r w = (r', w')"
    and "j < length (sd_nodes (gr_sched r))" "level_of (ge_levels env) (nd_id (sd_nodes (gr_sched r) ! j)) \<noteq> Some li"
  shows "sd_nodes (gr_sched r') ! j = sd_nodes (gr_sched r) ! j \<and>
    map nd_id (sd_nodes (gr_sched r')) = map nd_id (sd_nodes (gr_sched r))"
proof -
  obtain ds s1 w1 where d: "drain_data_bindings env li (gr_data r) (gr_sched r) w = (ds, s1, w1)"
    by (metis prod.collapse)
  obtain ss s2 w2 where y: "drain_sync_bindings env li None (gr_sync r) s1 w1 = (ss, s2, w2)"
    by (metis prod.collapse)
  have "only_level (ge_levels env) li (gr_sched r) s2"
    by (rule only_level_trans [OF only_level_data_bindings [OF d] only_level_sync_bindings [OF y]])
  moreover have "gr_sched r' = s2" using assms(1) d y by (auto simp: drain_level_def)
  ultimately show ?thesis using assms(2,3) by (simp add: only_level_def)
qed

section \<open>A drained frame makes its node due\<close>

lemma with_node_index [simp]:
  "(\<And>n. nd_id (snd (f n)) = nd_id n) \<Longrightarrow> index_of i (sd_nodes (snd (with_node i' f s))) = index_of i (sd_nodes s)"
proof (cases "index_of i' (sd_nodes s)")
  case (Some j)
  assume f: "\<And>n. nd_id (snd (f n)) = nd_id n"
  have "map nd_id ((sd_nodes s)[j := snd (f (sd_nodes s ! j))]) = map nd_id (sd_nodes s)"
    by (cases "j < length (sd_nodes s)")
      (simp_all add: map_update list_update_same_conv f list_update_beyond)
  with Some show ?thesis by (simp add: with_node_def case_prod_beta index_of_ids put_node_def)
qed (simp add: with_node_def)

lemma note_arrival_at:
  assumes "index_of i (sd_nodes s) = Some j"
  shows "index_of i (sd_nodes (note_arrival i x ts s)) = Some j \<and>
    nd_pending_data_count (sd_nodes (note_arrival i x ts s) ! j) = nd_pending_data_count (sd_nodes s ! j) \<and>
    nd_policy (sd_nodes (note_arrival i x ts s) ! j) = nd_policy (sd_nodes s ! j)"
proof -
  have j: "j < length (sd_nodes s)" using index_in_Some assms unfolding index_of_ids by fastforce
  show ?thesis
  proof (cases x)
    case (Some y)
    have "index_of i (sd_nodes (note_arrival i x ts s)) = index_of i (sd_nodes s)"
      by (simp add: Some note_arrival_def sched_signal_input_received_def)
    with assms j show ?thesis
      by (simp add: Some note_arrival_def sched_signal_input_received_def with_node_def put_node_def
          signal_input_received_def)
  qed (simp add: note_arrival_def assms)
qed

lemma deliver_unified_pending:
  assumes "index_of i (sd_nodes s) = Some j" "nd_policy (sd_nodes s ! j) = Data"
  shows "pending_data_count i (deliver_unified i x popped latest s) =
    (if popped = 0 then pending_data_count i s else max 1 (pending_data_count i s))"
proof -
  define s1 where "s1 = (case latest of Some ts \<Rightarrow> note_arrival i x ts s | None \<Rightarrow> s)"
  have s1: "index_of i (sd_nodes s1) = Some j" "nd_policy (sd_nodes s1 ! j) = Data"
    "pending_data_count i s1 = pending_data_count i s"
    using note_arrival_at [OF assms(1)] assms by (auto simp: s1_def pending_data_count_def split: option.splits)
  have j: "j < length (sd_nodes s1)" using index_in_Some s1(1) unfolding index_of_ids by fastforce
  have "index_of i (sd_nodes (snd (sched_signal_data i s1))) = Some j"
    by (simp add: sched_signal_data_def s1(1))
  moreover have "nd_pending_data_count (sd_nodes (snd (sched_signal_data i s1)) ! j) =
      min (nd_pending_data_count (sd_nodes s1 ! j) + 1) DATA_PENDING_CARRY_CLAMP"
    using s1 j by (simp add: sched_signal_data_def with_node_def case_prod_beta put_node_def signal_data_def)
  ultimately have mint: "pending_data_count i (snd (sched_signal_data i s1)) =
      min (pending_data_count i s1 + 1) DATA_PENDING_CARRY_CLAMP"
    using s1(1) by (simp add: pending_data_count_def)
  have "(1 :: u64) \<le> c" if "c \<noteq> 0" for c
    using that by (simp add: word_le_nat_alt unat_gt_0 Suc_le_eq)
  then show ?thesis
    unfolding deliver_unified_def s1_def [symmetric] Let_def
    using mint s1(3) by (auto simp: DATA_PENDING_CARRY_CLAMP_def max_def min_def)
qed

text \<open>
  On a unified input a drained frame makes its Data node due, and a frame offered again is not
  counted twice: after the drain the node has a pending message if the drain took one or it had some
  before, and its count is otherwise unchanged, whatever the frame's stamp and the input's watchdog.
\<close>

theorem unified_drain_mints_at_most_one:
  assumes "drain_data_binding env b s w = (b', s', w')" "db_drain b = Unified l"
    and "take_unified env b (ge_clear env l w) = ((popped, latest), w'')"
    and "index_of (db_node_id b) (sd_nodes s) = Some j" "nd_policy (sd_nodes s ! j) = Data"
  shows "pending_data_count (db_node_id b) s' =
    (if popped = 0 then pending_data_count (db_node_id b) s else max 1 (pending_data_count (db_node_id b) s))"
proof -
  have "s' = deliver_unified (db_node_id b) (db_input_name b) popped latest s"
    using assms(1-3) by (auto simp: drain_data_binding_def Let_def)
  then show ?thesis using deliver_unified_pending [OF assms(4,5)] by simp
qed

section \<open>Processes stay in step\<close>

lemma run_phases_keep [simp]:
  "run_level_snapshot_phase env li t r w = (ds, r', w') \<Longrightarrow>
     gr_gen r' = gr_gen r \<and> gr_barrier_failed r' = gr_barrier_failed r"
  "run_level_tick_phase env li t at ds r w = (r', w') \<Longrightarrow>
     gr_gen r' = gr_gen r \<and> gr_barrier_failed r' = gr_barrier_failed r"
  by (auto simp: run_level_snapshot_phase_def run_level_tick_phase_def drain_level_def Let_def
      split: prod.splits)

lemma run_level_keeps:
  "run_level env li t at r w = (r', w') \<Longrightarrow> gr_gen r' = gr_gen r \<and> gr_barrier_failed r' = gr_barrier_failed r"
  by (auto simp: run_level_def split: prod.splits dest!: run_phases_keep)

text \<open>How many generations a level burns.\<close>

abbreviation level_generations :: "'w barrier_participant \<Rightarrow> nat \<Rightarrow> nat" where
  "level_generations bp g \<equiv> (if bp_mid bp ! g then 2 else 1)"

lemma barrier_level_gen:
  assumes "barrier_level env bp t step g gen r w = (q, r', w')"
  shows "gr_gen r' = gr_gen r \<and> gr_barrier_failed r' = gr_barrier_failed r \<and>
    (\<forall>gen'. q = Some gen' \<longrightarrow> gen' = gen + of_nat (level_generations bp g))"
proof (cases "bp_mid bp ! g")
  case True
  obtain ds r1 w1 where a: "(case bp_map bp ! g of
      Some li \<Rightarrow> run_level_snapshot_phase env li t r w | None \<Rightarrow> ([], r, w)) = (ds, r1, w1)"
    by (metis prod.collapse)
  obtain op w2 where b: "cross bp gen w1 = (op, w2)" by (metis prod.collapse)
  obtain r2 w3 where c: "(case bp_map bp ! g of
      Some li \<Rightarrow> run_level_tick_phase env li t (g, step) ds r1 w2 | None \<Rightarrow> (r1, w2)) = (r2, w3)"
    by (metis prod.collapse)
  obtain op2 w4 where d: "cross bp (gen + 1) w3 = (op2, w4)" by (metis prod.collapse)
  have r1: "gr_gen r1 = gr_gen r \<and> gr_barrier_failed r1 = gr_barrier_failed r"
    using a run_phases_keep(1) by (auto split: option.splits)
  have r2: "gr_gen r2 = gr_gen r1 \<and> gr_barrier_failed r2 = gr_barrier_failed r1"
    using c run_phases_keep(2) by (auto split: option.splits)
  have "(q, r', w') = (if \<not> op then (None, r1, w2) else (if op2 then Some (gen + 1 + 1) else None, r2, w4))"
    using assms unfolding barrier_level_def Let_def by (auto simp: True a b c d split: if_splits)
  with r1 r2 True show ?thesis by (auto simp: add.commute split: if_splits)
next
  case False
  obtain r1 w1 where a: "(case bp_map bp ! g of
      Some li \<Rightarrow> run_level env li t (g, step) r w | None \<Rightarrow> (r, w)) = (r1, w1)"
    by (metis prod.collapse)
  have r1: "gr_gen r1 = gr_gen r \<and> gr_barrier_failed r1 = gr_barrier_failed r"
    using a by (cases "bp_map bp ! g") (auto dest: run_level_keeps)
  obtain op w2 where b: "cross bp gen w1 = (op, w2)" by (metis prod.collapse)
  have "(q, r', w') = (if op then Some (gen + 1) else None, r1, w2)"
    using assms unfolding barrier_level_def Let_def by (simp add: False a b)
  with r1 False show ?thesis by auto
qed

lemma barrier_levels_gen:
  assumes "barrier_levels env bp t step gs gen r w = (r', w')" "\<not> gr_barrier_failed r"
  shows "if gr_barrier_failed r' then gr_gen r' = gr_gen r
    else gr_gen r' = gen + of_nat (sum_list (map (level_generations bp) gs))"
  using assms
proof (induction gs arbitrary: gen r w)
  case (Cons g gs)
  obtain q r1 w1 where l: "barrier_level env bp t step g gen r w = (q, r1, w1)" by (metis prod.collapse)
  note keep = barrier_level_gen [OF l]
  show ?case
  proof (cases q)
    case None
    with Cons.prems l keep show ?thesis by auto
  next
    case (Some gen1)
    with Cons.prems l have "barrier_levels env bp t step gs gen1 r1 w1 = (r', w')" by simp
    from Cons.IH [OF this] keep Cons.prems(2) Some show ?thesis by (simp add: algebra_simps)
  qed
qed auto

text \<open>Where it is a matter of the generation whether a wait ends in time, the crossings of a step are its generations in turn.\<close>

lemma less_cases_12: "(\<forall>i < (if b then 2 else 1 :: nat). P i) \<longleftrightarrow> P 0 \<and> (b \<longrightarrow> P 1)"
  by (auto simp: less_2_cases_iff)

lemma cross_opens:
  assumes "\<And>gen v. fst (bp_wait bp gen v) = opens gen"
  shows "\<exists>w2. cross bp gen w = (opens gen, w2)"
  using assms [of gen "bp_arrive bp gen w"] by (intro exI [of _ "snd (cross bp gen w)"]) (simp add: cross_def prod_eq_iff)

lemma barrier_level_opens:
  assumes "barrier_level env bp t step g gen r w = (q, r', w')" and opens: "\<And>gen v. fst (bp_wait bp gen v) = opens gen"
  shows "q \<noteq> None \<longleftrightarrow> (\<forall>i < level_generations bp g. opens (gen + of_nat i))"
proof (cases "bp_mid bp ! g")
  case True
  obtain ds r1 w1 where a: "(case bp_map bp ! g of
      Some li \<Rightarrow> run_level_snapshot_phase env li t r w | None \<Rightarrow> ([], r, w)) = (ds, r1, w1)"
    by (metis prod.collapse)
  obtain w2 where b: "cross bp gen w1 = (opens gen, w2)" using cross_opens [OF opens] by blast
  obtain r2 w3 where c: "(case bp_map bp ! g of
      Some li \<Rightarrow> run_level_tick_phase env li t (g, step) ds r1 w2 | None \<Rightarrow> (r1, w2)) = (r2, w3)"
    by (metis prod.collapse)
  obtain w4 where d: "cross bp (gen + 1) w3 = (opens (gen + 1), w4)" using cross_opens [OF opens] by blast
  have "q = (if \<not> opens gen then None else if opens (gen + 1) then Some (gen + 1 + 1) else None)"
    using assms(1) unfolding barrier_level_def Let_def by (auto simp: True a b c d split: if_splits)
  then show ?thesis using True unfolding less_cases_12 by auto
next
  case False
  obtain r1 w1 where a: "(case bp_map bp ! g of
      Some li \<Rightarrow> run_level env li t (g, step) r w | None \<Rightarrow> (r, w)) = (r1, w1)"
    by (metis prod.collapse)
  obtain w2 where b: "cross bp gen w1 = (opens gen, w2)" using cross_opens [OF opens] by blast
  have "q = (if opens gen then Some (gen + 1) else None)"
    using assms(1) unfolding barrier_level_def Let_def by (simp add: False a b)
  then show ?thesis using False unfolding less_cases_12 by auto
qed

lemma all_less_add: "(\<forall>i < m + n. P i) \<longleftrightarrow> (\<forall>i < m. P i) \<and> (\<forall>i < n. P (m + i))" for m n :: nat
  by (metis add_less_cancel_left le_add_diff_inverse linorder_not_less trans_less_add1)

lemma barrier_levels_opens:
  assumes "barrier_levels env bp t step gs gen r w = (r', w')" "\<not> gr_barrier_failed r"
    and opens: "\<And>gen v. fst (bp_wait bp gen v) = opens gen"
  shows "gr_barrier_failed r' \<longleftrightarrow>
    \<not> (\<forall>i < sum_list (map (level_generations bp) gs). opens (gen + of_nat i))"
  using assms(1,2)
proof (induction gs arbitrary: gen r w)
  case (Cons g gs)
  obtain q r1 w1 where l: "barrier_level env bp t step g gen r w = (q, r1, w1)" by (metis prod.collapse)
  note keep = barrier_level_gen [OF l] and here = barrier_level_opens [OF l opens]
  let ?m = "level_generations bp g" and ?n = "sum_list (map (level_generations bp) gs)"
  have split: "(\<forall>i < sum_list (map (level_generations bp) (g # gs)). opens (gen + of_nat i)) \<longleftrightarrow>
      (\<forall>i < ?m. opens (gen + of_nat i)) \<and> (\<forall>i < ?n. opens (gen + of_nat ?m + of_nat i))"
    using all_less_add [of ?m ?n "\<lambda>i. opens (gen + of_nat i)"] by (simp add: add.assoc)
  show ?case
  proof (cases q)
    case None
    with Cons.prems l here show ?thesis unfolding split by auto
  next
    case (Some gen1)
    with Cons.prems l have "barrier_levels env bp t step gs gen1 r1 w1 = (r', w')" by simp
    from Cons.IH [OF this] keep here Cons.prems(2) Some show ?thesis unfolding split by auto
  qed
qed auto

lemma sum_generations:
  assumes "length (bp_mid bp) = length (bp_map bp)"
  shows "sum_list (map (level_generations bp) [0..<length (bp_map bp)]) = generations_per_step bp"
proof -
  have "sum_list (map (\<lambda>g. if fs ! g then 2 else 1) [0..<length fs]) = length fs + length (filter (\<lambda>f. f) fs)"
    for fs :: "bool list"
  proof -
    have "map (\<lambda>g. if fs ! g then 2 else 1) [0..<length fs] = map (\<lambda>f. if f then 2 else 1 :: nat) fs"
      by (rule nth_equalityI) simp_all
    moreover have "sum_list (map (\<lambda>f. if f then 2 else 1) fs) = length fs + length (filter (\<lambda>f. f) fs)"
      by (induction fs) simp_all
    ultimately show ?thesis by simp
  qed
  from this [of "bp_mid bp"] assms show ?thesis by (simp add: generations_per_step_def)
qed


section \<open>One process on its own\<close>

lemma run_level_split:
  "run_level_snapshot_phase env li t r w = (ds, r1, w1) \<Longrightarrow>
   run_level_tick_phase env li t at ds r1 w1 = run_level env li t at r w"
  by (simp add: run_level_def)

lemma lone_barrier_level:
  assumes "bp_map bp ! g = Some g" "\<And>gen w. cross bp gen w = (True, w)" "run_level env g t (g, step) r w = (r1, w1)"
  shows "barrier_level env bp t step g gen r w = (Some (gen + of_nat (level_generations bp g)), r1, w1)"
proof (cases "bp_mid bp ! g")
  case True
  obtain ds r2 w2 where a: "run_level_snapshot_phase env g t r w = (ds, r2, w2)" by (metis prod.collapse)
  have "run_level_tick_phase env g t (g, step) ds r2 w2 = (r1, w1)"
    using run_level_split [OF a] assms(3) by simp
  with True a assms(1,2) show ?thesis by (simp add: barrier_level_def)
next
  case False
  with assms show ?thesis by (simp add: barrier_level_def)
qed

lemma lone_barrier_levels:
  assumes "\<forall>g \<in> set gs. bp_map bp ! g = Some g" "\<And>gen w. cross bp gen w = (True, w)"
  shows "barrier_levels env bp t step gs gen r w =
    apfst (gr_gen_update (\<lambda>_. gen + of_nat (sum_list (map (level_generations bp) gs)))) (own_levels env t step gs r w)"
  using assms(1)
proof (induction gs arbitrary: gen r w)
  case (Cons g gs)
  obtain r1 w1 where l: "run_level env g t (g, step) r w = (r1, w1)" by (metis prod.collapse)
  from lone_barrier_level [OF _ assms(2) l] Cons show ?case by (simp add: l add.assoc)
qed simp

text \<open>
  A process alone behind its barrier is a process without one: when it owns every global level and
  every generation opens, a step of the barrier loop does to the scheduler, the bindings and the world
  exactly what a step of the plain loop does, also on the levels whose halves straddle a rendezvous; it
  only counts its generations besides.
\<close>

theorem lone_participant_is_monolith:
  assumes "bp_map bp = map Some [0..<length (lv_levels (ge_levels env))]"
    and "\<And>gen w. bp_wait bp gen (bp_arrive bp gen w) = (True, w)" and "\<not> gr_barrier_failed r"
    and "length (bp_mid bp) = length (bp_map bp)"
  shows "step_live env (Some bp) gating r w =
    apfst (gr_gen_update (\<lambda>_. gr_gen r + of_nat (generations_per_step bp))) (step_live env None gating r w)"
proof -
  have len: "length (bp_map bp) = length (lv_levels (ge_levels env))" by (simp add: assms(1))
  have own: "\<forall>g \<in> set [0..<length (bp_map bp)]. bp_map bp ! g = Some g" by (simp add: assms(1))
  have "cross bp gen w = (True, w)" for gen w using assms(2) by (simp add: cross_def)
  note eq = lone_barrier_levels [OF own this, unfolded sum_generations [OF assms(4)], unfolded len]
  show ?thesis
    using assms(3) by (simp add: step_live_def eq len case_prod_beta Let_def)
qed

section \<open>The pool is not observable\<close>

lemma fused_ids:
  "evaluate_nodes_fused envs snap at t ids s w = (s', w') \<Longrightarrow> map nd_id (sd_nodes s') = map nd_id (sd_nodes s)"
proof (induction ids arbitrary: s w)
  case (Cons i ids)
  show ?case
  proof (cases "index_of i (sd_nodes s)")
    case None
    with Cons show ?thesis by simp
  next
    case (Some j)
    let ?n = "run_qos_windows t (sd_nodes s ! j)"
    have j: "j < length (sd_nodes s)" using index_in_Some Some unfolding index_of_ids by fastforce
    obtain k n1 w1 where d: "decide_node (envs (nd_id ?n)) t (sd_cap_override s) ?n w = ((k, n1), w1)"
      by (metis prod.collapse)
    have n1: "nd_id n1 = nd_id (sd_nodes s ! j)" using decide_node_id [OF d] by simp
    have put: "map nd_id (sd_nodes (put_node j n s)) = map nd_id (sd_nodes s)"
      if "nd_id n = nd_id (sd_nodes s ! j)" for n s
      using that by (simp add: put_node_def map_update list_update_same_conv) (metis list_update_beyond list_update_id map_update not_less)
    show ?thesis
    proof (cases k)
      case None
      with Cons.prems Some d have "evaluate_nodes_fused envs snap at t ids (put_node j n1 s) w1 = (s', w')"
        by (simp add: Let_def)
      from Cons.IH [OF this] put [OF n1] show ?thesis by simp
    next
      case (Some k')
      let ?s1 = "put_node j n1 s"
      obtain es n2 w3 where f: "tick_node (envs (nd_id ?n)) at k' (sd_nodes ?s1 ! j) (snap (nd_id ?n) w1) = (es, n2, w3)"
        by (metis prod.collapse)
      have n2: "nd_id n2 = nd_id (sd_nodes ?s1 ! j)" by (rule tick_node_id [OF f])
      have "evaluate_nodes_fused envs snap at t ids (push_all es (put_node j n2 ?s1)) w3 = (s', w')"
        using Cons.prems \<open>index_of i (sd_nodes s) = Some j\<close> d Some f by (simp add: Let_def)
      from Cons.IH [OF this] put [OF n1] put [OF n2] show ?thesis by simp
    qed
  qed
qed simp

lemma decisions_ok_ids:
  "decisions_ok ds s \<Longrightarrow> map nd_id (sd_nodes s') = map nd_id (sd_nodes s) \<Longrightarrow> decisions_ok ds s'"
  unfolding decisions_ok_def by (metis length_map nth_map)

text \<open>
  How a level is spread over the thread pool is not observable. When nodes touch only their own part
  of the world, the tick half of a level leaves the runtime and the world as evaluating the block nodes
  in graph order and then ticking the decisions one after another does, whatever the size of the pool,
  the order it runs the nodes in, the armed replay pauses and the walk of the level.
\<close>

theorem pool_is_not_observable:
  assumes "ge_envs env = (\<lambda>i. lift_env i (e i))" "decisions_ok ds (gr_sched r)"
    and "distinct (ge_order env (snd at) (fst at))"
    and "set (ge_order env (snd at) (fst at)) = {..<length (sd_nodes (gr_sched r))}"
  shows "\<exists>forced. run_level_tick_phase env li t at ds r w =
    (let (s1, w1) = (if lp_block_ids (ge_plans env ! li) = [] then (gr_sched r, w)
           else evaluate_nodes_fused (ge_envs env) (snapshot_node_inputs env) at t
             (lp_block_ids (ge_plans env ! li)) (gr_sched r) w);
         (s2, w2) = tick_decided (ge_envs env) at ds s1 w1
     in (r\<lparr>gr_sched := s2\<lparr>sd_forced_serial := forced\<rparr>\<rparr>, w2))"
proof -
  obtain s1 w1 where one: "(if lp_block_ids (ge_plans env ! li) = [] then (gr_sched r, w)
      else evaluate_nodes_fused (ge_envs env) (snapshot_node_inputs env) at t
        (lp_block_ids (ge_plans env ! li)) (gr_sched r) w) = (s1, w1)" by (metis prod.collapse)
  have ids: "map nd_id (sd_nodes s1) = map nd_id (sd_nodes (gr_sched r))"
  proof (cases "lp_block_ids (ge_plans env ! li) = []")
    case False
    with one have "evaluate_nodes_fused (ge_envs env) (snapshot_node_inputs env) at t
        (lp_block_ids (ge_plans env ! li)) (gr_sched r) w = (s1, w1)" by simp
    then show ?thesis by (rule fused_ids)
  qed (use one in simp)
  have ok: "decisions_ok ds s1" by (rule decisions_ok_ids [OF assms(2) ids])
  have order: "set (ge_order env (snd at) (fst at)) = {..<length (sd_nodes s1)}"
    using assms(4) ids by (metis length_map)
  obtain forced where "tick_decided_parallel (ge_envs env) at (ge_pool_threads env) (ge_pauses env)
      (ge_order env (snd at) (fst at)) (ge_serial_ids env) (lp_rest_walk (ge_plans env ! li)) ds s1 w1 =
      apfst (sd_forced_serial_update (\<lambda>_. forced)) (tick_decided (ge_envs env) at ds s1 w1)"
    unfolding assms(1) using tick_decided_parallel_serial [OF ok assms(3) order] by blast
  then show ?thesis
    unfolding run_level_tick_phase_def Let_def one prod.case
    by (intro exI [of _ forced]) (simp add: case_prod_beta)
qed

section \<open>A graph of one node\<close>

text \<open>The instance the statements of this theory are applied to.\<close>

definition lone_env :: "(string \<Rightarrow> unit) graph_env" where
  "lone_env =
     \<lparr>ge_envs = (\<lambda>i. lift_env i (plain_env False)), ge_subs = [ListenerOnly],
      ge_receive = (\<lambda>_ w. (([], False), w)), ge_clear = (\<lambda>_ w. w),
      ge_drain_input = (\<lambda>_. Some (\<lambda>_ w. ((1, Some 7), w))),
      ge_snapshot_names = (\<lambda>_. None), ge_snapshot_inputs = (\<lambda>_. None),
      ge_levels = \<lparr>lv_levels = [[''d'']], lv_rank = [''d'' \<mapsto> 0]\<rparr>,
      ge_plans = [\<lparr>lp_other_ids = [''d''], lp_block_ids = [], lp_rest_walk = Unconstrained\<rparr>],
      ge_serial_ids = {}, ge_pool_threads = 4, ge_pauses = False, ge_order = (\<lambda>_ _. [0])\<rparr>"

definition lone_binding :: data_trigger_binding where
  "lone_binding = \<lparr>db_node_id = ''d'', db_drain = Unified 0, db_input_name = Some ''x'', db_warn_suppressed = False\<rparr>"

definition lone_runtime :: graph_runtime where
  "lone_runtime =
     \<lparr>gr_sched = (new_scheduler (Virtual 0))\<lparr>sd_nodes := [new_node ''d'' Data 0]\<rparr>,
      gr_data = [lone_binding], gr_sync = [], gr_gen = 0, gr_barrier_failed = False\<rparr>"

definition lone_participant :: "(string \<Rightarrow> unit) barrier_participant" where
  "lone_participant =
     \<lparr>bp_map = [Some 0], bp_mid = [True], bp_arrive = (\<lambda>_ w. w), bp_wait = (\<lambda>_ w. (True, w))\<rparr>"

theorem drain_stays_in_its_level_witness:
  "let r' = fst (drain_level lone_env 1 lone_runtime (\<lambda>_. ()))
   in sd_nodes (gr_sched r') ! 0 = new_node ''d'' Data 0"
proof -
  obtain r' w' where d: "drain_level lone_env 1 lone_runtime (\<lambda>_. ()) = (r', w')" by (metis prod.collapse)
  have "0 < length (sd_nodes (gr_sched lone_runtime))"
    "level_of (ge_levels lone_env) (nd_id (sd_nodes (gr_sched lone_runtime) ! 0)) \<noteq> Some 1"
    by (simp_all add: lone_runtime_def lone_env_def level_of_def new_node_def)
  from drain_stays_in_its_level [OF d this] show ?thesis
    unfolding d Let_def fst_conv by (simp add: lone_runtime_def)
qed

theorem unified_drain_mints_at_most_one_witness:
  "let (b', s', w') = drain_data_binding lone_env lone_binding (gr_sched lone_runtime) (\<lambda>_. ())
   in pending_data_count ''d'' s' = 1"
proof -
  obtain b' s' w' where d: "drain_data_binding lone_env lone_binding (gr_sched lone_runtime) (\<lambda>_. ()) = (b', s', w')"
    by (metis prod.collapse)
  have h: "db_drain lone_binding = Unified 0"
    "take_unified lone_env lone_binding (ge_clear lone_env 0 (\<lambda>_. ())) = ((1, Some 7), \<lambda>_. ())"
    "index_of (db_node_id lone_binding) (sd_nodes (gr_sched lone_runtime)) = Some 0"
    "nd_policy (sd_nodes (gr_sched lone_runtime) ! 0) = Data"
    by (simp_all add: lone_binding_def lone_env_def lone_runtime_def take_unified_def new_node_def)
  have "db_node_id lone_binding = ''d''" "pending_data_count ''d'' (gr_sched lone_runtime) = 0"
    by (simp_all add: lone_binding_def lone_runtime_def pending_data_count_def new_node_def)
  with unified_drain_mints_at_most_one [OF d h] show ?thesis unfolding d by simp
qed


theorem lone_participant_is_monolith_witness:
  "step_live lone_env (Some lone_participant) 5 lone_runtime (\<lambda>_. ()) =
   apfst (gr_gen_update (\<lambda>_. 2)) (step_live lone_env None 5 lone_runtime (\<lambda>_. ()))"
proof -
  have "bp_map lone_participant = map Some [0..<length (lv_levels (ge_levels lone_env))]"
    "\<And>gen w. bp_wait lone_participant gen (bp_arrive lone_participant gen w) = (True, w)"
    "\<not> gr_barrier_failed lone_runtime" "length (bp_mid lone_participant) = length (bp_map lone_participant)"
    by (simp_all add: lone_participant_def lone_env_def lone_runtime_def)
  note eq = lone_participant_is_monolith [OF this, of 5 "\<lambda>_. ()"]
  have "gr_gen lone_runtime + of_nat (generations_per_step lone_participant) = 2"
    by (simp add: lone_runtime_def lone_participant_def generations_per_step_def)
  with eq show ?thesis by simp
qed

theorem pool_is_not_observable_witness:
  "\<exists>forced. run_level_tick_phase lone_env 0 5 (0, 0) [\<lparr>fd_node_id = ''d'', fd_idx = 0, fd_kind = FkData 5 1\<rparr>]
      lone_runtime (\<lambda>_. ()) =
    (let (s2, w2) = tick_decided (ge_envs lone_env) (0, 0) [\<lparr>fd_node_id = ''d'', fd_idx = 0, fd_kind = FkData 5 1\<rparr>]
           (gr_sched lone_runtime) (\<lambda>_. ())
     in (lone_runtime\<lparr>gr_sched := s2\<lparr>sd_forced_serial := forced\<rparr>\<rparr>, w2))"
proof -
  have h: "ge_envs lone_env = (\<lambda>i. lift_env i (plain_env False))"
    "decisions_ok [\<lparr>fd_node_id = ''d'', fd_idx = 0, fd_kind = FkData 5 1\<rparr>] (gr_sched lone_runtime)"
    "distinct (ge_order lone_env (snd (0, 0)) (fst (0, 0)))"
    "set (ge_order lone_env (snd (0, 0)) (fst (0, 0))) = {..<length (sd_nodes (gr_sched lone_runtime))}"
    by (auto simp: lone_env_def decisions_ok_def lone_runtime_def new_node_def)
  have "(lp_block_ids (ge_plans lone_env ! 0) = []) = True" by (simp add: lone_env_def)
  note plain = this [unfolded simp_thms]
  from pool_is_not_observable [OF h, of 0 5 "\<lambda>_. ()"] show ?thesis
    unfolding plain if_P [OF refl] Let_def prod.case by (simp only: if_True plain simp_thms prod.case Let_def)
qed

end
