(* ===== verification/SyncStamp.thy ===== *)
theory SyncStamp
  imports SyncTransport FloodLatch
begin

text \<open>
  Capture-time Sync matching: decoding \<open>header.stamp\<close> from an untrusted frame, classifying a stamp
  against the input's newest accepted one, and performing one head operation on capture stamps
  (\<open>scheduler/sync_stamp.rs\<close>), with the per-input state the graph runtime keeps around it
  (\<open>graph/sync_capture.rs\<close>).

  The transport under a capture-time operation is the \<open>CaptureIo\<close> trait: two functions on a state,
  \<open>io_op\<close> and \<open>io_stamp\<close>. Log lines are not modelled; the flood latches that gate them are.
\<close>

section \<open>Decoding the stamp\<close>

definition NANOS_PER_SECOND :: u64 where "NANOS_PER_SECOND = 1000000000"

definition MAX_DISCARDS_PER_OP :: nat where "MAX_DISCARDS_PER_OP = 256"

datatype header_stamp_location =
    LocFixed usize
  | LocTable (loc_fixed_size: usize) (loc_index: usize) (loc_stamp_offset: usize) (loc_data_floor: usize)

datatype stamp_decode_error =
    SdFrameSize usize usize
  | SdBelowDataFloor usize usize
  | SdOffsetTable u32 u32 usize usize
  | SdTruncated usize usize
  | SdNegativeSeconds int
  | SdNanosecOutOfRange u32

definition read_u32 :: "bytes \<Rightarrow> usize \<Rightarrow> stamp_decode_error + u32" where
  "read_u32 frame at =
     (let fin = usize_add at 4
      in if at \<le> fin \<and> fin \<le> length frame then Inr (get32 frame at)
         else Inl (SdTruncated fin (length frame)))"

definition TOTAL_SIZE_AT :: usize where "TOTAL_SIZE_AT = 8"
definition OFFSET_TABLE_OFFSET_AT :: usize where "OFFSET_TABLE_OFFSET_AT = 12"
definition OFFSET_TABLE_COUNT_AT :: usize where "OFFSET_TABLE_COUNT_AT = 16"

text \<open>Rust's \<open>?\<close>.\<close>

definition bind_result :: "'e + 'a \<Rightarrow> ('a \<Rightarrow> 'e + 'b) \<Rightarrow> 'e + 'b" where
  "bind_result r f = (case r of Inl e \<Rightarrow> Inl e | Inr a \<Rightarrow> f a)"

text \<open>Where \<open>stamp.sec\<close> sits, once the frame is cut to its declared size.\<close>

definition table_sub_frame :: "bytes \<Rightarrow> usize \<Rightarrow> usize \<Rightarrow> usize \<Rightarrow> usize \<Rightarrow> stamp_decode_error + usize" where
  "table_sub_frame frame stamp_offset data_floor sub_offset sub_len =
     (if sub_offset < data_floor then Inl (SdBelowDataFloor sub_offset data_floor)
      else
        let sub_start = usize_add HEADER_SIZE sub_offset;
            sub_end = usize_add sub_start sub_len;
            stamp_end = usize_add stamp_offset 8
        in if sub_end > length frame then Inl (SdTruncated sub_end (length frame))
           else if sub_len < stamp_end then Inl (SdTruncated (usize_add sub_start stamp_end) sub_end)
           else Inr (usize_add sub_start stamp_offset))"

definition table_sec_at :: "bytes \<Rightarrow> usize \<Rightarrow> usize \<Rightarrow> usize \<Rightarrow> usize \<Rightarrow> stamp_decode_error + usize" where
  "table_sec_at frame fixed_size index stamp_offset data_floor =
     (let table_at = usize_add HEADER_SIZE fixed_size
      in bind_result (read_u32 frame OFFSET_TABLE_OFFSET_AT) (\<lambda>declared_offset.
         bind_result (read_u32 frame OFFSET_TABLE_COUNT_AT) (\<lambda>declared_count.
           if unat declared_offset \<noteq> table_at \<or> index \<ge> unat declared_count
           then Inl (SdOffsetTable declared_offset declared_count table_at index)
           else
             let entry = usize_add table_at (usize_mul index 8)
             in bind_result (read_u32 frame entry) (\<lambda>sub_offset.
                bind_result (read_u32 frame (usize_add entry 4)) (\<lambda>sub_len.
                  table_sub_frame frame stamp_offset data_floor (unat sub_offset) (unat sub_len))))))"

definition sec_position :: "bytes \<Rightarrow> header_stamp_location \<Rightarrow> stamp_decode_error + usize" where
  "sec_position frame location =
     (case location of
        LocFixed offset \<Rightarrow> Inr (usize_add HEADER_SIZE offset)
      | LocTable fixed_size index stamp_offset data_floor \<Rightarrow>
          table_sec_at frame fixed_size index stamp_offset data_floor)"

text \<open>The two fields at a position, as nanoseconds since the epoch.\<close>

definition time_at :: "bytes \<Rightarrow> usize \<Rightarrow> stamp_decode_error + u64" where
  "time_at frame sec_at =
     bind_result (read_u32 frame sec_at) (\<lambda>sec.
     bind_result (read_u32 frame (usize_add sec_at 4)) (\<lambda>nanosec.
       if sint sec < 0 then Inl (SdNegativeSeconds (sint sec))
       else if ucast nanosec \<ge> NANOS_PER_SECOND then Inl (SdNanosecOutOfRange nanosec)
       else Inr (ucast sec * NANOS_PER_SECOND + ucast nanosec)))"

definition capture_stamp_ns :: "bytes \<Rightarrow> header_stamp_location \<Rightarrow> stamp_decode_error + u64" where
  "capture_stamp_ns frame location =
     bind_result (read_u32 frame TOTAL_SIZE_AT) (\<lambda>total_size.
       let tot = unat total_size
       in if tot < HEADER_SIZE \<or> tot > length frame then Inl (SdFrameSize tot (length frame))
          else let cut = take tot frame
               in bind_result (sec_position cut location) (time_at cut))"

section \<open>Order of stamps\<close>

datatype capture_order = InOrder | Backwards | NewEpoch

definition order_capture_stamp :: "u64 option \<Rightarrow> u64 \<Rightarrow> u64 \<Rightarrow> capture_order" where
  "order_capture_stamp high_water ts window_ns =
     (case high_water of
        None \<Rightarrow> InOrder
      | Some hw \<Rightarrow>
          if ts \<ge> hw then InOrder
          else if hw - ts > window_ns then NewEpoch
          else Backwards)"

section \<open>One head operation on capture stamps\<close>

record capture_outcome =
  co_answer :: sync_op_answer
  co_decode_failures :: nat
  co_backwards_drops :: nat
  co_last_decode_error :: "stamp_decode_error option"
  co_new_epoch :: bool

definition plain_outcome :: "sync_op_answer \<Rightarrow> capture_outcome" where
  "plain_outcome ans =
     \<lparr>co_answer = ans, co_decode_failures = 0, co_backwards_drops = 0,
      co_last_decode_error = None, co_new_epoch = False\<rparr>"

type_synonym 'io io_op = "sync_head_op \<Rightarrow> 'io \<Rightarrow> sync_op_answer \<times> 'io"
type_synonym 'io io_stamp = "sync_frame_slot \<Rightarrow> 'io \<Rightarrow> (stamp_decode_error + u64) option"

text \<open>
  One turn of the loop of \<open>capture_head_op\<close>: it ends the operation, or counts the held frame as
  discarded. \<open>capture_loop\<close> runs the turns; \<open>discards\<close> frames were discarded before this one.
\<close>

datatype turn = Finish capture_outcome "u64 option" | Discard capture_outcome

definition capture_turn :: "'io io_stamp \<Rightarrow> u64 \<Rightarrow> u64 option \<Rightarrow> capture_outcome \<Rightarrow> 'io \<Rightarrow> turn" where
  "capture_turn stamp window_ns hw out io =
     (case co_answer out of
        AnsHead _ \<Rightarrow>
          (case stamp SlotHead io of
             None \<Rightarrow> Finish (out\<lparr>co_answer := AnsFailed\<rparr>) hw
           | Some (Inr ts) \<Rightarrow>
               (let ord = order_capture_stamp hw ts window_ns
                in if ord = Backwards
                   then Discard (out\<lparr>co_backwards_drops := co_backwards_drops out + 1\<rparr>)
                   else Finish (out\<lparr>co_answer := AnsHead ts, co_new_epoch := (ord = NewEpoch)\<rparr>)
                          (Some ts))
           | Some (Inl e) \<Rightarrow>
               Discard (out\<lparr>co_decode_failures := co_decode_failures out + 1,
                            co_last_decode_error := Some e\<rparr>))
      | _ \<Rightarrow> Finish out hw)"

function capture_loop :: "'io io_op \<Rightarrow> 'io io_stamp \<Rightarrow> sync_align_site \<Rightarrow> u64 \<Rightarrow> u64 option \<Rightarrow>
    capture_outcome \<Rightarrow> nat \<Rightarrow> 'io \<Rightarrow> capture_outcome \<times> u64 option \<times> 'io" where
  "capture_loop op stamp site window_ns hw out discards io =
     (case capture_turn stamp window_ns hw out io of
        Finish out1 hw1 \<Rightarrow> (out1, hw1, io)
      | Discard out1 \<Rightarrow>
          if MAX_DISCARDS_PER_OP \<le> discards + 1
          then (out1\<lparr>co_answer := AnsNothing\<rparr>, hw, snd (op Void io))
          else capture_loop op stamp site window_ns hw
                 (out1\<lparr>co_answer := fst (op (Advance site) io)\<rparr>) (discards + 1)
                 (snd (op (Advance site) io)))"
  by pat_completeness auto

termination
  by (relation "measure (\<lambda>(_, _, _, _, _, _, d, _). MAX_DISCARDS_PER_OP - d)") auto

declare capture_loop.simps [simp del]

definition peek_answer :: "'io io_op \<Rightarrow> 'io io_stamp \<Rightarrow> sync_head_op \<Rightarrow> u64 \<Rightarrow> u64 option \<Rightarrow> 'io \<Rightarrow>
    sync_op_answer \<times> 'io" where
  "peek_answer op stamp head_op window_ns hw io =
     (let (ans, io1) = op head_op io
      in (case ans of
            AnsStamp _ \<Rightarrow>
              (case stamp SlotNext io1 of
                 Some (Inr ts) \<Rightarrow>
                   (if order_capture_stamp hw ts window_ns = InOrder then AnsStamp ts else AnsNothing)
               | Some (Inl _) \<Rightarrow> AnsNothing
               | None \<Rightarrow> AnsFailed)
          | other \<Rightarrow> other, io1))"

definition capture_walk :: "'io io_op \<Rightarrow> 'io io_stamp \<Rightarrow> sync_align_site \<Rightarrow> sync_head_op \<Rightarrow> u64 \<Rightarrow>
    u64 option \<Rightarrow> 'io \<Rightarrow> capture_outcome \<times> u64 option \<times> 'io" where
  "capture_walk op stamp site head_op window_ns hw io =
     (let (ans, io1) = op head_op io
      in capture_loop op stamp site window_ns hw (plain_outcome ans) 0 io1)"

definition capture_head_op :: "'io io_op \<Rightarrow> 'io io_stamp \<Rightarrow> sync_head_op \<Rightarrow> u64 \<Rightarrow> u64 option \<Rightarrow> 'io \<Rightarrow>
    capture_outcome \<times> u64 option \<times> 'io" where
  "capture_head_op op stamp head_op window_ns hw io =
     (case head_op of
        FillBoundary \<Rightarrow> capture_walk op stamp Boundary head_op window_ns hw io
      | FillRefill \<Rightarrow> capture_walk op stamp Refill head_op window_ns hw io
      | Advance site \<Rightarrow> capture_walk op stamp site head_op window_ns hw io
      | PeekNext _ \<Rightarrow>
          (let (ans, io1) = peek_answer op stamp head_op window_ns hw io
           in (plain_outcome ans, hw, io1))
      | _ \<Rightarrow> (let (ans, io1) = op head_op io in (plain_outcome ans, hw, io1)))"

section \<open>Facts about the decoder\<close>

lemma bind_Inr: "bind_result r f = Inr b \<longleftrightarrow> (\<exists>a. r = Inr a \<and> f a = Inr b)"
  by (cases r) (simp_all add: bind_result_def)

lemma read_u32_Inr:
  assumes "read_u32 frame at = Inr w" "length frame < 2 ^ 32"
  shows "at + 4 \<le> length frame" "w = get32 frame at"
  using assms by (auto simp: read_u32_def Let_def usize_add_def usize_max_def min_def split: if_splits)

lemma sint_nonneg_u32: "\<not> sint w < 0 \<Longrightarrow> unat w < 2 ^ 31" for w :: u32
proof (rule ccontr)
  assume nn: "\<not> sint w < 0" and big: "\<not> unat w < 2 ^ 31"
  have "unat w < 4294967296" "2147483648 \<le> unat w"
    using big unat_lt_2p [of w] by simp_all
  then have "uint w < 4294967296" "2147483648 \<le> uint w"
    unfolding uint_nat by linarith+
  then have u: "uint w < 2 ^ 32" "2 ^ 31 \<le> uint w" by simp_all
  have "sint w = take_bit 32 (uint w + 2 ^ 31) - 2 ^ 31"
    by (simp add: sint_uint signed_take_bit_eq_take_bit_shift)
  also have "take_bit 32 (uint w + 2 ^ 31) = (uint w + 2 ^ 31 - 2 ^ 32) mod 2 ^ 32"
    unfolding take_bit_eq_mod by (rule minus_mod_self2 [symmetric])
  also have "\<dots> = uint w + 2 ^ 31 - 2 ^ 32"
    by (rule mod_pos_pos_trivial) (use u in simp_all)
  finally have "sint w = uint w - 2 ^ 32" by simp
  with nn u show False by simp
qed

lemma time_at_Inr:
  assumes "time_at frame at = Inr v" "length frame < 2 ^ 32"
  shows "at + 8 \<le> length frame" "unat (get32 frame at) < 2 ^ 31"
    "unat (get32 frame (at + 4)) < 10 ^ 9"
    "unat v = unat (get32 frame at) * 10 ^ 9 + unat (get32 frame (at + 4))"
proof -
  from assms(1) obtain sec ns where r: "read_u32 frame at = Inr sec"
    "read_u32 frame (usize_add at 4) = Inr ns" "\<not> sint sec < 0"
    "\<not> NANOS_PER_SECOND \<le> ucast ns" "v = ucast sec * NANOS_PER_SECOND + ucast ns"
    by (auto simp: time_at_def bind_Inr split: if_splits)
  have sec: "at + 4 \<le> length frame" "sec = get32 frame at"
    using read_u32_Inr [OF r(1) assms(2)] by simp_all
  then have "usize_add at 4 = at + 4" using assms(2) by (simp add: usize_add_def usize_max_def)
  then have ns: "at + 8 \<le> length frame" "ns = get32 frame (at + 4)"
    using read_u32_Inr [OF r(2) assms(2)] by simp_all
  have s31: "unat sec < 2 ^ 31" by (rule sint_nonneg_u32 [OF r(3)])
  have n9: "unat ns < 10 ^ 9"
    using r(4) unat_lt_2p [of ns]
    by (simp add: NANOS_PER_SECOND_def word_le_nat_alt unat_ucast_mod)
  have us: "unat (ucast sec :: u64) = unat sec" "unat (ucast ns :: u64) = unat ns"
    using s31 n9 by (simp_all add: unat_ucast_mod)
  have "unat sec * 10 ^ 9 + unat ns < 2 ^ 64" using s31 n9 by simp
  then have "unat v = unat sec * 10 ^ 9 + unat ns"
    by (simp add: r(5) unat_word_ariths us NANOS_PER_SECOND_def)
  with s31 n9 sec(2) ns show "at + 8 \<le> length frame" "unat (get32 frame at) < 2 ^ 31"
    "unat (get32 frame (at + 4)) < 10 ^ 9"
    "unat v = unat (get32 frame at) * 10 ^ 9 + unat (get32 frame (at + 4))"
    by simp_all
qed

lemma get32_take: "i + 4 \<le> n \<Longrightarrow> get32 (take n xs) i = get32 xs i"
  by (simp add: get32_def slice_take)

text \<open>Where a table location's stamp sits: inside its declared sub-frame, past the data floor.\<close>

lemma table_sec_at_Inr:
  assumes "table_sec_at frame fixed_size index stamp_offset data_floor = Inr at" "length frame < 2 ^ 32"
  shows "\<exists>sub_offset sub_len.
    unat (get32 frame 12) = 40 + fixed_size \<and> index < unat (get32 frame 16) \<and>
    sub_offset = unat (get32 frame (40 + fixed_size + 8 * index)) \<and>
    sub_len = unat (get32 frame (40 + fixed_size + 8 * index + 4)) \<and>
    data_floor \<le> sub_offset \<and> 40 + sub_offset + sub_len \<le> length frame \<and>
    at = 40 + sub_offset + stamp_offset \<and> stamp_offset + 8 \<le> sub_len"
proof -
  let ?ta = "usize_add HEADER_SIZE fixed_size"
  let ?en = "usize_add ?ta (usize_mul index 8)"
  from assms(1) obtain off cnt so sl where r: "read_u32 frame 12 = Inr off" "read_u32 frame 16 = Inr cnt"
    "unat off = ?ta" "index < unat cnt" "read_u32 frame ?en = Inr so"
    "read_u32 frame (usize_add ?en 4) = Inr sl"
    "table_sub_frame frame stamp_offset data_floor (unat so) (unat sl) = Inr at"
    by (auto simp: table_sec_at_def bind_Inr Let_def OFFSET_TABLE_OFFSET_AT_def OFFSET_TABLE_COUNT_AT_def
        split: if_splits)
  note rd = read_u32_Inr [OF _ assms(2)]
  have ta: "?ta = 40 + fixed_size"
    using r(3) unat_lt_2p [of off]
    by (simp add: usize_add_def usize_max_def HEADER_SIZE_def min_def split: if_splits)
  have en: "?en = 40 + fixed_size + 8 * index"
    using rd(1) [OF r(5)] assms(2) unfolding ta
    by (simp add: usize_add_def usize_mul_def usize_max_def min_def split: if_splits)
  have en4: "usize_add ?en 4 = 40 + fixed_size + 8 * index + 4"
    using rd(1) [OF r(6)] assms(2) unfolding en
    by (simp add: usize_add_def usize_max_def min_def split: if_splits)
  have ss: "usize_add HEADER_SIZE (unat so) = 40 + unat so"
    using unat_lt_2p [of so] by (simp add: usize_add_def usize_max_def HEADER_SIZE_def)
  have se: "usize_add (40 + unat so) (unat sl) = 40 + unat so + unat sl"
    using unat_lt_2p [of so] unat_lt_2p [of sl] by (simp add: usize_add_def usize_max_def)
  have t: "data_floor \<le> unat so" "40 + unat so + unat sl \<le> length frame"
    "usize_add stamp_offset 8 \<le> unat sl" "at = usize_add (40 + unat so) stamp_offset"
    using r(7) by (auto simp: table_sub_frame_def Let_def ss se split: if_splits)
  have so8: "stamp_offset + 8 \<le> unat sl"
    using t(3) unat_lt_2p [of sl] by (simp add: usize_add_def usize_max_def min_def split: if_splits)
  then have at: "at = 40 + unat so + stamp_offset"
    using t(2,4) assms(2) by (simp add: usize_add_def usize_max_def)
  show ?thesis
    using rd(2) [OF r(1)] rd(2) [OF r(2)] rd(2) [OF r(5)] rd(2) [OF r(6)] r(3,4) t(1,2) so8 at
    unfolding en4 [unfolded ta, unfolded en [unfolded ta]] en [unfolded ta] ta
      en4 [unfolded ta, unfolded en [unfolded ta], simplified] by auto
qed

section \<open>Facts about the loop\<close>

lemma capture_loop_frame:
  assumes "capture_loop op stamp site w hw out d io = (out', hw', io')" "d < MAX_DISCARDS_PER_OP"
    "\<not> co_new_epoch out"
  shows "(case co_answer out' of
      AnsHead ts \<Rightarrow> hw' = Some ts \<and> order_capture_stamp hw ts w \<noteq> Backwards \<and>
        co_new_epoch out' = (order_capture_stamp hw ts w = NewEpoch)
    | _ \<Rightarrow> hw' = hw \<and> \<not> co_new_epoch out')"
    and "d + (co_decode_failures out' + co_backwards_drops out') \<le>
      MAX_DISCARDS_PER_OP + (co_decode_failures out + co_backwards_drops out)"
proof (atomize (full), insert assms,
    induction op stamp site w hw out d io rule: capture_loop.induct)
  case (1 op stamp site w hw out d io)
  show ?case
  proof (cases "capture_turn stamp w hw out io")
    case (Finish out1 hw1)
    with "1.prems"(1) have r: "out' = out1" "hw' = hw1" "io' = io"
      by (simp_all add: capture_loop.simps)
    from Finish "1.prems"(2,3) show ?thesis
      unfolding r
      by (auto simp: capture_turn_def Let_def split: sync_op_answer.splits option.splits sum.splits if_splits)
  next
    case (Discard out1)
    then have o1: "co_decode_failures out1 + co_backwards_drops out1 =
        Suc (co_decode_failures out + co_backwards_drops out)" "\<not> co_new_epoch out1"
      using "1.prems"(3)
      by (auto simp: capture_turn_def Let_def split: sync_op_answer.splits option.splits sum.splits if_splits)
    show ?thesis
    proof (cases "MAX_DISCARDS_PER_OP \<le> d + 1")
      case True
      with Discard "1.prems"(1) have "out' = out1\<lparr>co_answer := AnsNothing\<rparr>" "hw' = hw"
        by (simp_all add: capture_loop.simps)
      with o1 "1.prems"(2) show ?thesis by simp
    next
      case False
      with Discard "1.prems"(1)
      have "capture_loop op stamp site w hw (out1\<lparr>co_answer := fst (op (Advance site) io)\<rparr>) (d + 1)
          (snd (op (Advance site) io)) = (out', hw', io')"
        by (simp add: capture_loop.simps [of _ _ _ _ _ out])
      from "1.IH" [OF Discard False this] False o1 show ?thesis by simp
    qed
  qed
qed

section \<open>The loop over a FIFO input\<close>

definition slot_stamp :: "header_stamp_location \<Rightarrow> 'q sync_slot io_stamp" where
  "slot_stamp loc slot s = map_option (\<lambda>f. capture_stamp_ns f loc) (sync_frame s slot)"

definition undecodable :: "header_stamp_location \<Rightarrow> bytes \<Rightarrow> bool" where
  "undecodable loc f \<longleftrightarrow> (case capture_stamp_ns f loc of Inl _ \<Rightarrow> True | Inr _ \<Rightarrow> False)"

text \<open>A frame the layer discards: its stamp does not decode, or went backwards within the window.\<close>

definition unfit :: "header_stamp_location \<Rightarrow> u64 \<Rightarrow> u64 option \<Rightarrow> bytes \<Rightarrow> bool" where
  "unfit loc w hw f \<longleftrightarrow>
     (case capture_stamp_ns f loc of Inl _ \<Rightarrow> True | Inr ts \<Rightarrow> order_capture_stamp hw ts w = Backwards)"

definition first_answer :: "header_stamp_location \<Rightarrow> bytes list \<Rightarrow> sync_op_answer" where
  "first_answer loc fs =
     (case fs of [] \<Rightarrow> AnsNothing
      | f # _ \<Rightarrow> (case capture_stamp_ns f loc of Inl _ \<Rightarrow> AnsNothing | Inr ts \<Rightarrow> AnsHead ts))"

text \<open>
  What an operation that discards up to \<open>k\<close> frames does to the waiting frames: it drops the unfit
  prefix and holds the first fit frame, or gives up after the \<open>k\<close>-th discard and empties the slot.
\<close>

definition skips_unfit :: "header_stamp_location \<Rightarrow> u64 \<Rightarrow> u64 option \<Rightarrow> nat \<Rightarrow> bytes list \<Rightarrow>
    capture_outcome \<Rightarrow> capture_outcome \<Rightarrow> bytes list \<Rightarrow> bool" where
  "skips_unfit loc w hw k ws out out' ws' \<longleftrightarrow>
     (let bad = take k (takeWhile (unfit loc w hw) ws)
      in ws' = drop (length bad) ws \<and>
         co_answer out' = (if length bad = k then AnsNothing else first_answer loc ws') \<and>
         co_decode_failures out' = co_decode_failures out + length (filter (undecodable loc) bad) \<and>
         co_backwards_drops out' =
           co_backwards_drops out + length (filter (\<lambda>f. \<not> undecodable loc f) bad))"

definition synced :: "('q \<Rightarrow> bytes list) \<Rightarrow> sync_op_answer \<Rightarrow> 'q sync_slot \<Rightarrow> bool" where
  "synced arrived ans s \<longleftrightarrow>
     (case waiting arrived s of
        [] \<Rightarrow> ans = AnsNothing \<and> head_frame s = []
      | f # _ \<Rightarrow> ans = AnsHead (get64 f 24) \<and> head_frame s = [f])"

lemma head_frame_sync_frame: "head_frame s = [f] \<Longrightarrow> sync_frame s SlotHead = Some f"
  by (auto simp: head_frame_def sync_frame_def split: option.splits frozen_slot.splits)

lemma skips_unfit_Nil: "0 < k \<Longrightarrow> co_answer out = AnsNothing \<Longrightarrow> skips_unfit loc w hw k [] out out []"
  by (simp add: skips_unfit_def first_answer_def)

lemma skips_unfit_fit:
  "0 < k \<Longrightarrow> \<not> unfit loc w hw f \<Longrightarrow> co_answer out' = first_answer loc (f # fs) \<Longrightarrow>
   co_decode_failures out' = co_decode_failures out \<Longrightarrow>
   co_backwards_drops out' = co_backwards_drops out \<Longrightarrow>
   skips_unfit loc w hw k (f # fs) out out' (f # fs)"
  by (simp add: skips_unfit_def)

lemma skips_unfit_step:
  assumes "unfit loc w hw f" "skips_unfit loc w hw k fs out1 out' ws'"
    "co_decode_failures out1 = co_decode_failures out + (if undecodable loc f then 1 else 0)"
    "co_backwards_drops out1 = co_backwards_drops out + (if undecodable loc f then 0 else 1)"
  shows "skips_unfit loc w hw (Suc k) (f # fs) out out' ws'"
  using assms by (simp add: skips_unfit_def Let_def)

context frame_queue
begin

lemma void_waiting:
  "slot_ok s \<Longrightarrow> slot_ok (sync_void_head s) \<and> waiting arrived s = head_frame s @ waiting arrived (sync_void_head s)"
  by (simp add: sync_void_head_def slot_frame_defs slot_ok_def)

lemma advance_synced:
  assumes "slot_ok s" "slot_head_op drain probe (Advance site) s = (ans, s1)"
  shows "slot_ok s1" "waiting arrived s = head_frame s @ waiting arrived s1" "synced arrived ans s1"
proof -
  obtain r where r: "sync_discard_head drain s = (r, s1)"
    "ans = (case r of Some t \<Rightarrow> AnsHead t | None \<Rightarrow> AnsNothing)"
    using assms(2) by (auto simp: slot_head_op_def split: prod.splits)
  note d = discard_waiting [OF assms(1) r(1)]
  show "slot_ok s1" "waiting arrived s = head_frame s @ waiting arrived s1" by (rule d)+
  show "synced arrived ans s1"
    using d(3,4) r(2) by (simp add: synced_def split: list.splits)
qed

lemma fill_synced:
  assumes "slot_ok s" "slot_head_op drain probe FillBoundary s = (ans, s1)"
  shows "slot_ok s1" "waiting arrived s1 = waiting arrived s" "synced arrived ans s1"
proof -
  obtain p t where r: "drain_for_trigger drain Boundary s = ((p, t), s1)" "ans = sync_fill_answer p t"
    using assms(2) by (auto simp: slot_head_op_def split: prod.splits)
  note d = fill_waiting [OF assms(1) r(1)]
  show "slot_ok s1" "waiting arrived s1 = waiting arrived s" by (rule d)+
  show "synced arrived ans s1"
    using d(2,3,4) r(2) by (simp add: synced_def split: list.splits)
qed

lemma capture_loop_fifo:
  "slot_ok s \<Longrightarrow> synced arrived (co_answer out) s \<Longrightarrow> d < MAX_DISCARDS_PER_OP \<Longrightarrow>
   capture_loop (slot_head_op drain probe) (slot_stamp loc) site w hw out d s = (out', hw', s') \<Longrightarrow>
   slot_ok s' \<and>
   skips_unfit loc w hw (MAX_DISCARDS_PER_OP - d) (waiting arrived s) out out' (waiting arrived s')"
proof (induction "MAX_DISCARDS_PER_OP - d" arbitrary: d s out)
  case (Suc k)
  let ?turn = "capture_turn (slot_stamp loc) w hw out s"
  show ?case
  proof (cases "waiting arrived s")
    case Nil
    with Suc.prems(2) have a: "co_answer out = AnsNothing" by (simp add: synced_def)
    with Suc.prems(4) have "out' = out" "s' = s"
      by (simp_all add: capture_loop.simps capture_turn_def)
    with Suc.prems(1,3) Nil a show ?thesis by (simp add: skips_unfit_Nil)
  next
    case (Cons f fs)
    with Suc.prems(2) have a: "co_answer out = AnsHead (get64 f 24)" "head_frame s = [f]"
      by (simp_all add: synced_def)
    have st: "slot_stamp loc SlotHead s = Some (capture_stamp_ns f loc)"
      using head_frame_sync_frame [OF a(2)] by (simp add: slot_stamp_def)
    show ?thesis
    proof (cases "unfit loc w hw f")
      case False
      then obtain ts where ts: "capture_stamp_ns f loc = Inr ts" "order_capture_stamp hw ts w \<noteq> Backwards"
        by (auto simp: unfit_def split: sum.splits)
      let ?b = "order_capture_stamp hw ts w = NewEpoch"
      have "?turn = Finish (out\<lparr>co_answer := AnsHead ts, co_new_epoch := ?b\<rparr>) (Some ts)"
        using a st ts by (simp add: capture_turn_def Let_def)
      then have "out' = out\<lparr>co_answer := AnsHead ts, co_new_epoch := ?b\<rparr>" "s' = s"
        using Suc.prems(4) by (simp_all add: capture_loop.simps)
      with Suc.prems(1,3) False ts Cons show ?thesis
        by (auto intro!: skips_unfit_fit simp: first_answer_def)
    next
      case True
      obtain out1 where o1: "?turn = Discard out1"
        "co_decode_failures out1 = co_decode_failures out + (if undecodable loc f then 1 else 0)"
        "co_backwards_drops out1 = co_backwards_drops out + (if undecodable loc f then 0 else 1)"
        using True a st
        by (auto simp: capture_turn_def Let_def unfit_def undecodable_def split: sum.splits)
      show ?thesis
      proof (cases "MAX_DISCARDS_PER_OP \<le> d + 1")
        case last: True
        with o1(1) Suc.prems(4) have r: "out' = out1\<lparr>co_answer := AnsNothing\<rparr>" "s' = sync_void_head s"
          by (auto simp: capture_loop.simps slot_head_op_def)
        have w: "slot_ok s'" "waiting arrived s' = fs"
          using void_waiting [OF Suc.prems(1)] a(2) Cons by (simp_all add: r)
        have k: "MAX_DISCARDS_PER_OP - d = 1" using last Suc.prems(3) by simp
        show ?thesis
          unfolding k Cons using w o1(2,3) True by (simp add: skips_unfit_def r Let_def)
      next
        case more: False
        obtain ans s1 where adv: "slot_head_op drain probe (Advance site) s = (ans, s1)"
          by (metis prod.collapse)
        note s1 = advance_synced [OF Suc.prems(1) adv]
        have w: "waiting arrived s1 = fs" using s1(2) a(2) Cons by simp
        have "capture_loop (slot_head_op drain probe) (slot_stamp loc) site w hw
            (out1\<lparr>co_answer := ans\<rparr>) (d + 1) s1 = (out', hw', s')"
          using o1(1) more Suc.prems(4) adv by (simp add: capture_loop.simps [of _ _ _ _ _ out])
        moreover have "k = MAX_DISCARDS_PER_OP - (d + 1)" "d + 1 < MAX_DISCARDS_PER_OP"
          using Suc.hyps(2) more by simp_all
        ultimately have "slot_ok s' \<and> skips_unfit loc w hw k fs (out1\<lparr>co_answer := ans\<rparr>) out'
            (waiting arrived s')"
          using Suc.hyps(1) [of "d + 1" s1 "out1\<lparr>co_answer := ans\<rparr>"] s1(1,3) w by simp
        then show ?thesis
          unfolding Suc.hyps(2) [symmetric] Cons
          using skips_unfit_step [OF True, of k fs "out1\<lparr>co_answer := ans\<rparr>" out' _ out] o1(2,3) by simp
      qed
    qed
  qed
qed simp

lemma capture_fill_fifo:
  assumes "slot_ok s"
    "capture_head_op (slot_head_op drain probe) (slot_stamp loc) FillBoundary w hw s = (out', hw', s')"
  shows "slot_ok s'"
    and "skips_unfit loc w hw MAX_DISCARDS_PER_OP (waiting arrived s) (plain_outcome AnsNothing) out'
      (waiting arrived s')"
proof -
  obtain ans s1 where f: "slot_head_op drain probe FillBoundary s = (ans, s1)" by (metis prod.collapse)
  note s1 = fill_synced [OF assms(1) f]
  from assms(2) f have l: "capture_loop (slot_head_op drain probe) (slot_stamp loc) Boundary w hw
      (plain_outcome ans) 0 s1 = (out', hw', s')"
    by (simp add: capture_head_op_def capture_walk_def)
  have "slot_ok s' \<and> skips_unfit loc w hw (MAX_DISCARDS_PER_OP - 0) (waiting arrived s1)
      (plain_outcome ans) out' (waiting arrived s')"
    by (rule capture_loop_fifo [OF s1(1) _ _ l])
      (use s1(3) in \<open>simp_all add: plain_outcome_def MAX_DISCARDS_PER_OP_def\<close>)
  then show "slot_ok s'"
    "skips_unfit loc w hw MAX_DISCARDS_PER_OP (waiting arrived s) (plain_outcome AnsNothing) out'
      (waiting arrived s')"
    using s1(2) by (simp_all add: skips_unfit_def plain_outcome_def Let_def)
qed

end

section \<open>Properties\<close>

text \<open>
  A decoded capture stamp is the declared frame's own: the eight bytes read lie inside the frame
  the wire header declares (bytes after it change nothing), at the fixed offset or inside the
  declared sub-frame past the data floor, and the value is exactly
  \<open>sec * 10 ^ 9 + nanosec\<close> of a non-negative \<open>sec\<close> and a \<open>nanosec\<close> below one second.
\<close>

theorem decoded_stamp_is_declared:
  assumes "capture_stamp_ns frame loc = Inr v"
  defines "tot \<equiv> unat (get32 frame 8)"
  shows "40 \<le> tot \<and> tot \<le> length frame \<and>
    capture_stamp_ns (take tot frame @ tail) loc = Inr v \<and>
    (\<exists>at. at + 8 \<le> tot \<and>
       unat v = unat (get32 frame at) * 10 ^ 9 + unat (get32 frame (at + 4)) \<and>
       unat (get32 frame at) < 2 ^ 31 \<and> unat (get32 frame (at + 4)) < 10 ^ 9 \<and>
       (case loc of
          LocFixed offset \<Rightarrow> at = 40 + offset
        | LocTable fixed_size index stamp_offset data_floor \<Rightarrow>
            unat (get32 frame 12) = 40 + fixed_size \<and> index < unat (get32 frame 16) \<and>
            40 + data_floor + stamp_offset \<le> at))"
proof -
  let ?cut = "take tot frame"
  have rd: "read_u32 (xs @ ys) TOTAL_SIZE_AT = Inr (get32 xs 8)" if "12 \<le> length xs" for xs ys :: bytes
    using that by (simp add: read_u32_def TOTAL_SIZE_AT_def usize_add_def usize_max_def get32_append)
  have "12 \<le> length frame"
    using assms(1) by (auto simp: capture_stamp_ns_def bind_Inr read_u32_def TOTAL_SIZE_AT_def
        usize_add_def usize_max_def split: if_splits)
  with rd [of frame "[]"] assms(1) have lim: "40 \<le> tot" "tot \<le> length frame"
    and body: "bind_result (sec_position ?cut loc) (time_at ?cut) = Inr v"
    by (auto simp: capture_stamp_ns_def bind_result_def Let_def tot_def HEADER_SIZE_def split: if_splits)
  have t32: "tot < 2 ^ 32" unfolding tot_def using unat_lt_2p [of "get32 frame 8"] by simp
  have len: "length ?cut = tot" using lim by simp
  have get: "get32 ?cut i = get32 frame i" if "i + 4 \<le> tot" for i
    using that by (rule get32_take)
  have "get32 ?cut 8 = get32 frame 8" using lim by (simp add: get)
  then have tail: "capture_stamp_ns (?cut @ tail) loc = Inr v"
    using rd [of ?cut tail] lim body
    by (simp add: capture_stamp_ns_def bind_result_def [of "Inr _"] Let_def HEADER_SIZE_def
        flip: tot_def)
  from body obtain at where pos: "sec_position ?cut loc = Inr at" and at: "time_at ?cut at = Inr v"
    by (auto simp: bind_Inr)
  note v = time_at_Inr [OF at, unfolded len, OF t32]
  have "case loc of
          LocFixed offset \<Rightarrow> at = 40 + offset
        | LocTable fixed_size index stamp_offset data_floor \<Rightarrow>
            unat (get32 frame 12) = 40 + fixed_size \<and> index < unat (get32 frame 16) \<and>
            40 + data_floor + stamp_offset \<le> at"
  proof (cases loc)
    case (LocFixed offset)
    with pos v(1) t32 show ?thesis
      by (simp add: sec_position_def usize_add_def usize_max_def HEADER_SIZE_def min_def split: if_splits)
  next
    case (LocTable fixed_size index stamp_offset data_floor)
    then have "table_sec_at ?cut fixed_size index stamp_offset data_floor = Inr at"
      using pos by (simp add: sec_position_def)
    from table_sec_at_Inr [OF this] len t32 lim LocTable show ?thesis by (auto simp: get)
  qed
  with v lim tail show ?thesis by (auto simp: get intro!: exI [of _ at])
qed

text \<open>A 48-byte frame whose stamp, 3 s and 7 ns, opens its fixed section.\<close>

definition stamped_frame :: bytes where
  "stamped_frame = to_le 8 0 @ le32 48 @ to_le 28 0 @ le32 3 @ le32 7"

lemma stamped_frame_get: "get32 stamped_frame 8 = 48" "get32 stamped_frame 40 = 3" "get32 stamped_frame 44 = 7"
  "length stamped_frame = 48"
proof -
  show "get32 stamped_frame 8 = 48" "get32 stamped_frame 40 = 3" "get32 stamped_frame 44 = 7"
    by (rule get32_le32; simp add: stamped_frame_def slice_def)+
  show "length stamped_frame = 48" by (simp add: stamped_frame_def)
qed

theorem decoded_stamp_is_declared_witness:
  "unat (get32 stamped_frame 40) * 10 ^ 9 + unat (get32 stamped_frame 44) = 3000000007 \<and>
   capture_stamp_ns (take 48 stamped_frame @ [1, 2, 3]) (LocFixed 0) = Inr 3000000007"
proof -
  have c: "capture_stamp_ns stamped_frame (LocFixed 0) = Inr 3000000007"
    by (simp add: capture_stamp_ns_def bind_result_def read_u32_def TOTAL_SIZE_AT_def usize_add_def
        usize_max_def stamped_frame_get HEADER_SIZE_def sec_position_def time_at_def NANOS_PER_SECOND_def
        take_all)
  from decoded_stamp_is_declared [OF c, of "[1, 2, 3]"] show ?thesis
    by (simp add: stamped_frame_get)
qed

text \<open>
  A capture-time head operation never breaks the input's order, whatever the transport answers:
  an accepted head's stamp is not below the newest accepted one unless it starts a new epoch (falls
  by more than the window), and becomes the new high-water mark; with no accepted head the mark is
  unchanged; and at most 256 frames are discarded.
\<close>

theorem accepted_heads_are_ordered:
  "case capture_head_op op stamp head_op w hw io of (out, hw', io') \<Rightarrow>
     co_decode_failures out + co_backwards_drops out \<le> 256 \<and>
     (if head_op = FillBoundary \<or> head_op = FillRefill \<or> (\<exists>site. head_op = Advance site)
      then (case co_answer out of
        AnsHead ts \<Rightarrow> hw' = Some ts \<and>
          (case hw of
             None \<Rightarrow> \<not> co_new_epoch out
           | Some h \<Rightarrow> if co_new_epoch out then unat ts + unat w < unat h else h \<le> ts)
      | _ \<Rightarrow> hw' = hw \<and> \<not> co_new_epoch out)
      else hw' = hw \<and> \<not> co_new_epoch out)"
proof -
  have ord: "order_capture_stamp hw ts w = NewEpoch \<longleftrightarrow>
      (\<exists>h. hw = Some h \<and> unat ts + unat w < unat h)"
    "order_capture_stamp hw ts w = InOrder \<longleftrightarrow> (\<forall>h. hw = Some h \<longrightarrow> h \<le> ts)" for ts
    by (auto simp: order_capture_stamp_def word_le_nat_alt word_less_nat_alt unat_sub not_le
        split: option.splits)
  have walk: "case capture_walk op stamp site head_op w hw io of (out, hw', io') \<Rightarrow>
      co_decode_failures out + co_backwards_drops out \<le> 256 \<and>
      (case co_answer out of
        AnsHead ts \<Rightarrow> hw' = Some ts \<and> order_capture_stamp hw ts w \<noteq> Backwards \<and>
          co_new_epoch out = (order_capture_stamp hw ts w = NewEpoch)
      | _ \<Rightarrow> hw' = hw \<and> \<not> co_new_epoch out)" for site
  proof -
    obtain ans io1 where o: "op head_op io = (ans, io1)" by (metis prod.collapse)
    obtain out hw' io' where l: "capture_loop op stamp site w hw (plain_outcome ans) 0 io1 = (out, hw', io')"
      by (metis prod.collapse)
    have "capture_walk op stamp site head_op w hw io = (out, hw', io')"
      by (simp add: capture_walk_def o l)
    moreover have "0 < MAX_DISCARDS_PER_OP" by (simp add: MAX_DISCARDS_PER_OP_def)
    ultimately show ?thesis
      using capture_loop_frame [OF l] by (simp add: plain_outcome_def) (simp add: MAX_DISCARDS_PER_OP_def)
  qed
  have fin: "case r of (out, hw', io') \<Rightarrow>
      co_decode_failures out + co_backwards_drops out \<le> 256 \<and>
      (case co_answer out of
        AnsHead ts \<Rightarrow> hw' = Some ts \<and>
          (case hw of
             None \<Rightarrow> \<not> co_new_epoch out
           | Some h \<Rightarrow> if co_new_epoch out then unat ts + unat w < unat h else h \<le> ts)
      | _ \<Rightarrow> hw' = hw \<and> \<not> co_new_epoch out)"
    if "case r of (out, hw', io') \<Rightarrow>
      co_decode_failures out + co_backwards_drops out \<le> 256 \<and>
      (case co_answer out of
        AnsHead ts \<Rightarrow> hw' = Some ts \<and> order_capture_stamp hw ts w \<noteq> Backwards \<and>
          co_new_epoch out = (order_capture_stamp hw ts w = NewEpoch)
      | _ \<Rightarrow> hw' = hw \<and> \<not> co_new_epoch out)" for r :: "capture_outcome \<times> u64 option \<times> 'a"
  proof -
    have "order_capture_stamp hw ts w \<noteq> Backwards \<longleftrightarrow>
        order_capture_stamp hw ts w = NewEpoch \<or> order_capture_stamp hw ts w = InOrder" for ts
      by (cases "order_capture_stamp hw ts w") auto
    with that ord show ?thesis
      by (auto split: prod.splits sync_op_answer.splits option.splits)
  qed
  show ?thesis
    using fin [OF walk [of Boundary]] fin [OF walk [of Refill]] fin [OF walk]
    by (cases head_op) (auto simp: capture_head_op_def plain_outcome_def split: prod.splits)
qed

text \<open>
  C28. Over a FIFO input a capture-time fill is the specification \<open>skips_unfit\<close>: it drops exactly the
  leading frames whose stamp does not decode or went backwards, counts each of them once under its
  cause, and holds the first fit frame with its capture stamp; after 256 discards it stops with an
  empty slot, having dropped exactly those 256.
\<close>

theorem capture_fill_skips_unfit:
  assumes "slot_ok s"
    and "capture_head_op (slot_head_op fifo_drain fifo_probe) (slot_stamp loc) FillBoundary w hw s
      = (out', hw', s')"
  shows "slot_ok s' \<and>
    skips_unfit loc w hw 256 (waiting fifo_arrived s) (plain_outcome AnsNothing) out'
      (waiting fifo_arrived s')"
  using fifo.capture_fill_fifo [OF assms] by (simp add: MAX_DISCARDS_PER_OP_def)

theorem capture_fill_skips_unfit_witness:
  "\<exists>out' hw' s'. capture_head_op (slot_head_op fifo_drain fifo_probe) (slot_stamp (LocFixed 0))
      FillBoundary 5 None (new_slot [replicate 40 0, stamped_frame]) = (out', hw', s') \<and>
    co_answer out' = AnsHead 3000000007 \<and> co_decode_failures out' = 1"
proof -
  let ?s = "new_slot [replicate 40 0, stamped_frame]"
  obtain out' hw' s' where r: "capture_head_op (slot_head_op fifo_drain fifo_probe)
      (slot_stamp (LocFixed 0)) FillBoundary 5 None ?s = (out', hw', s')" by (metis prod.collapse)
  have ok: "slot_ok ?s" by (simp add: slot_ok_def new_slot_def slot_frame_defs)
  have w: "waiting fifo_arrived ?s = [replicate 40 0, stamped_frame]"
    by (simp add: slot_frame_defs new_slot_def fifo_arrived_def whole_def HEADER_SIZE_def stamped_frame_get)
  have z: "from_le (replicate n 0) = 0" for n by (induction n) simp_all
  have "get32 (replicate 40 0) 8 = 0" by (simp add: get32_def slice_def z)
  then have bad: "capture_stamp_ns (replicate 40 0) (LocFixed 0) = Inl (SdFrameSize 0 40)"
    by (simp add: capture_stamp_ns_def bind_result_def read_u32_def TOTAL_SIZE_AT_def usize_add_def
        usize_max_def HEADER_SIZE_def)
  have good: "capture_stamp_ns stamped_frame (LocFixed 0) = Inr 3000000007"
    by (simp add: capture_stamp_ns_def bind_result_def read_u32_def TOTAL_SIZE_AT_def usize_add_def
        usize_max_def stamped_frame_get HEADER_SIZE_def sec_position_def time_at_def NANOS_PER_SECOND_def
        take_all)
  have "co_answer out' = AnsHead 3000000007" "co_decode_failures out' = 1"
    using capture_fill_skips_unfit [OF ok r]
    unfolding w skips_unfit_def Let_def
    by (simp_all add: unfit_def bad good order_capture_stamp_def first_answer_def undecodable_def
        plain_outcome_def)
  with r show ?thesis by blast
qed

end
