(* ===== verification/ReceivePath.thy ===== *)
theory ReceivePath
  imports SyncTransport "HOL-Library.Sublist" "HOL-Library.Multiset"
begin

text \<open>
  The receive path below the slots of an input (\<open>transport/subscriber.rs\<close>): one drain of the queue with its
  bound, the corrupt frames it skips and the error that may end it, the \<open>sample(N)\<close> gate on what survived, the
  replay gate in front of it, and the eviction of the oldest frame by a \<open>drop_oldest\<close> input.

  The queue, its errors and the answers of a replay plan come from outside: a \<open>recv_queue\<close> holds the frames that
  are queued, the receive call at which each further drain fails, if it does, and the answer of the plan to each
  further drain. Every frame that leaves the queue without being handed on is noted in \<open>rv_lost\<close> with the reason; the
  program keeps counters in its place. The counters, the events and the read log of a drain are left out.
\<close>

section \<open>The queue of an input\<close>

datatype loss = Evicted | Decimated u64 | Superseded | Errored

datatype pop_grant = Ungated | Withheld | Granted nat

record sample_gate =
  sg_interval_ns :: u64
  sg_last_accepted_ns :: "u64 option"

record recv_queue =
  rv_frames :: "bytes list"
  rv_capacity :: "nat option"
  rv_gate :: "sample_gate option"
  rv_faults :: "nat option list"
  rv_grants :: "pop_grant list"
  rv_lost :: "(bytes \<times> loss) list"

text \<open>The queue of an input that holds back nothing: no gate, no eviction, no error and no replay.\<close>

definition plain_queue :: "bytes list \<Rightarrow> recv_queue" where
  "plain_queue q =
     \<lparr>rv_frames = q, rv_capacity = None, rv_gate = None, rv_faults = [], rv_grants = [], rv_lost = []\<rparr>"

definition recv_probe :: "recv_queue probe" where
  "recv_probe q = Some (rv_frames q \<noteq> [])"

text \<open>An arrival; a \<open>drop_oldest\<close> input that is at its capacity loses its oldest frame.\<close>

definition recv_push :: "bytes \<Rightarrow> recv_queue \<Rightarrow> recv_queue" where
  "recv_push f q =
     (case (rv_capacity q, rv_frames q) of
        (Some n, oldest # rest) \<Rightarrow>
          if n \<le> length (rv_frames q)
          then q\<lparr>rv_frames := rest @ [f], rv_lost := rv_lost q @ [(oldest, Evicted)]\<rparr>
          else q\<lparr>rv_frames := rv_frames q @ [f]\<rparr>
      | _ \<Rightarrow> q\<lparr>rv_frames := rv_frames q @ [f]\<rparr>)"

section \<open>One drain\<close>

text \<open>What the receive loop has taken: the newest frame kept, those it replaced, and the counts.\<close>

record popped_frames =
  pf_latest :: "bytes option"
  pf_superseded :: "bytes list"
  pf_removed :: nat
  pf_junk :: nat
  pf_delivered :: nat

definition no_frames :: popped_frames where
  "no_frames = \<lparr>pf_latest = None, pf_superseded = [], pf_removed = 0, pf_junk = 0, pf_delivered = 0\<rparr>"

definition take_frame :: "bool \<Rightarrow> bytes \<Rightarrow> popped_frames \<Rightarrow> popped_frames" where
  "take_frame limit_one f p =
     (let p1 = p\<lparr>pf_removed := pf_removed p + 1\<rparr>
      in if limit_one \<and> length f < HEADER_SIZE then p1\<lparr>pf_junk := pf_junk p + 1\<rparr>
         else p1\<lparr>pf_superseded := pf_superseded p @ (case pf_latest p of Some g \<Rightarrow> [g] | None \<Rightarrow> []),
                 pf_latest := Some f, pf_delivered := pf_delivered p + 1\<rparr>)"

text \<open>The loop: the bound on delivered frames, the receive call that fails; the flag is the error.\<close>

fun receive_frames :: "bool \<Rightarrow> nat option \<Rightarrow> nat option \<Rightarrow> bytes list \<Rightarrow> popped_frames \<Rightarrow>
    popped_frames \<times> bool \<times> bytes list" where
  "receive_frames limit_one bound fault q p =
     (if (case bound of Some n \<Rightarrow> n \<le> pf_delivered p | None \<Rightarrow> False) then (p, False, q)
      else if fault = Some 0 then (p, True, q)
      else case q of
             [] \<Rightarrow> (p, False, [])
           | f # fs \<Rightarrow>
               receive_frames limit_one bound (map_option (\<lambda>n. n - 1) fault) fs (take_frame limit_one f p))"

declare receive_frames.simps [simp del]

text \<open>\<open>sample(N)\<close>: \<open>None\<close> refuses the frame; an unreadable stamp passes and leaves the gate.\<close>

definition sample_accept :: "sample_gate \<Rightarrow> bytes \<Rightarrow> sample_gate option" where
  "sample_accept gate f =
     (case wire_timestamp_ns f of
        None \<Rightarrow> Some gate
      | Some ts \<Rightarrow>
          if (case sg_last_accepted_ns gate of None \<Rightarrow> True | Some prev \<Rightarrow> sg_interval_ns gate \<le> sat_sub ts prev)
          then Some (gate\<lparr>sg_last_accepted_ns := Some ts\<rparr>) else None)"

definition drain_body :: "bool \<Rightarrow> nat option \<Rightarrow> recv_queue \<Rightarrow> drain_outcome \<times> recv_queue" where
  "drain_body limit_one budget q =
     (let bound = (case budget of Some n \<Rightarrow> Some n | None \<Rightarrow> if limit_one then Some 1 else None);
          fault = (case rv_faults q of [] \<Rightarrow> None | x # _ \<Rightarrow> x);
          (p, failed, rest) = receive_frames limit_one bound fault (rv_frames q) no_frames;
          popped = of_nat (pf_removed p - pf_junk p);
          q1 = q\<lparr>rv_frames := rest, rv_faults := tl (rv_faults q),
                 rv_lost := rv_lost q @ map (\<lambda>g. (g, Superseded)) (pf_superseded p)\<rparr>
      in if failed
         then (\<lparr>do_slot = FzErr, do_popped = popped, do_latest_ts = None\<rparr>,
               q1\<lparr>rv_lost := rv_lost q1 @ (case pf_latest p of Some g \<Rightarrow> [(g, Errored)] | None \<Rightarrow> [])\<rparr>)
         else case pf_latest p of
                None \<Rightarrow> (\<lparr>do_slot = FzEmpty, do_popped = popped, do_latest_ts = None\<rparr>, q1)
              | Some f \<Rightarrow>
                  (let delivered = \<lparr>do_slot = FzSample f, do_popped = popped, do_latest_ts = wire_timestamp_ns f\<rparr>
                   in case rv_gate q of
                        None \<Rightarrow> (delivered, q1)
                      | Some gate \<Rightarrow>
                          (case sample_accept gate f of
                             Some gate1 \<Rightarrow> (delivered, q1\<lparr>rv_gate := Some gate1\<rparr>)
                           | None \<Rightarrow>
                               (\<lparr>do_slot = FzEmpty, do_popped = popped, do_latest_ts = None\<rparr>,
                                q1\<lparr>rv_lost := rv_lost q1 @
                                     [(f, Decimated (case sg_last_accepted_ns gate of Some prev \<Rightarrow> prev | None \<Rightarrow> 0))]\<rparr>))))"

definition withheld :: drain_outcome where
  "withheld = \<lparr>do_slot = FzEmpty, do_popped = 0, do_latest_ts = None\<rparr>"

text \<open>\<open>drain_with_accounting_impl\<close>, in both consume modes.\<close>

definition recv_drain :: "recv_queue drain" where
  "recv_drain mode q =
     (let q1 = q\<lparr>rv_grants := tl (rv_grants q)\<rparr>
      in case (case rv_grants q of [] \<Rightarrow> Ungated | g # _ \<Rightarrow> g) of
           Ungated \<Rightarrow> drain_body (mode = EachFifo) None q1
         | Withheld \<Rightarrow> (withheld, q1)
         | Granted n \<Rightarrow> drain_body (mode = EachFifo) (Some n) q1)"

section \<open>What a lossy queue promises\<close>

text \<open>
  A drain hands on at most one frame and loses some others, a push may lose one: nothing is invented, repeated or
  reordered, and what is lost is noted, with a reason that the queue can have.
\<close>

definition slot_frames :: "frozen_slot \<Rightarrow> bytes list" where
  "slot_frames z = (case z of FzSample f \<Rightarrow> [f] | _ \<Rightarrow> [])"

definition lost_frames :: "(bytes \<times> loss) list \<Rightarrow> bytes list" where
  "lost_frames ls = filter whole (map fst ls)"

definition kept_of :: "bytes list \<Rightarrow> (bytes \<times> loss) list \<Rightarrow> bytes list \<Rightarrow> bool" where
  "kept_of ys ls xs \<longleftrightarrow> subseq ys xs \<and> mset ys + mset (lost_frames ls) = mset xs"

lemma lost_frames_simps [simp]:
  "lost_frames [] = []" "lost_frames (xs @ ys) = lost_frames xs @ lost_frames ys"
  by (simp_all add: lost_frames_def)

lemma kept_refl [simp]: "kept_of xs [] xs"
  by (simp add: kept_of_def)

lemma kept_prefix: "kept_of ys ls xs \<Longrightarrow> kept_of (zs @ ys) ls (zs @ xs)"
  by (simp add: kept_of_def add.assoc subseq_append')

lemma kept_suffix: "kept_of ys ls xs \<Longrightarrow> kept_of (ys @ zs) ls (xs @ zs)"
  by (auto simp: kept_of_def intro: list_emb_append_mono)

lemma kept_trans: "kept_of zs ms ys \<Longrightarrow> kept_of ys ls xs \<Longrightarrow> kept_of zs (ls @ ms) xs"
proof -
  assume a: "kept_of zs ms ys" "kept_of ys ls xs"
  have "mset zs + mset (lost_frames ms) + mset (lost_frames ls) = mset xs"
    using a unfolding kept_of_def by metis
  moreover have "subseq zs xs" using a unfolding kept_of_def by (blast intro: subseq_order.trans)
  ultimately show ?thesis by (simp add: kept_of_def ac_simps)
qed

lemma kept_all: "kept_of ys ls xs \<Longrightarrow> lost_frames ls = [] \<Longrightarrow> ys = xs"
  by (metis add.right_neutral kept_of_def mset.simps(1) mset_eq_length subseq_same_length)

lemma arrivals_step: "arrivals (e # es) = arrivals [e] @ arrivals es"
  by (cases e) simp_all

locale lossy_queue =
  fixes drain :: "'q drain" and push :: "bytes \<Rightarrow> 'q \<Rightarrow> 'q" and arrived :: "'q \<Rightarrow> bytes list"
    and lost :: "'q \<Rightarrow> (bytes \<times> loss) list" and blame :: "'q \<Rightarrow> bytes \<times> loss \<Rightarrow> bool"
  assumes drain_keeps: "drain EachFifo q = (out, q') \<Longrightarrow> \<exists>ls. lost q' = lost q @ ls \<and>
      kept_of (slot_frames (do_slot out) @ arrived q') ls (arrived q) \<and> list_all (blame q) ls"
    and drain_blame: "drain EachFifo q = (out, q') \<Longrightarrow> blame q' l \<Longrightarrow> blame q l"
    and drain_slot: "drain EachFifo q = (out, q') \<Longrightarrow> list_all whole (slot_frames (do_slot out))"
    and push_keeps: "\<exists>ls. lost (push f q) = lost q @ ls \<and> list_all (blame q) ls \<and>
      kept_of (arrived (push f q)) ls (arrived q @ (if whole f then [f] else []))"
    and push_blame: "blame (push f q) l \<Longrightarrow> blame q l"
begin

text \<open>What an event that keeps its promise does to an input.\<close>

definition keeps :: "'q sync_slot \<Rightarrow> bytes list \<Rightarrow> bytes list \<Rightarrow> 'q sync_slot \<Rightarrow> bool" where
  "keeps s came out s' \<longleftrightarrow> slot_ok s' \<and> (\<forall>l. blame (sl_queue s') l \<longrightarrow> blame (sl_queue s) l) \<and>
     (\<exists>ls. lost (sl_queue s') = lost (sl_queue s) @ ls \<and> list_all (blame (sl_queue s)) ls \<and>
        kept_of (out @ waiting arrived s') ls (waiting arrived s @ came))"

lemma keeps_same_queue:
  assumes "slot_ok s'" "sl_queue s' = sl_queue s" "out @ waiting arrived s' = waiting arrived s"
  shows "keeps s [] out s'"
  using assms by (auto simp: keeps_def)

lemma keeps_drain:
  assumes "drain EachFifo (sl_queue s) = (d, q')" "slot_ok s'" "sl_queue s' = q'"
    and "out @ waiting arrived s' = xs @ slot_frames (do_slot d) @ arrived q'" "waiting arrived s = xs @ arrived (sl_queue s)"
  shows "keeps s [] out s'"
proof -
  obtain ls where ls: "lost q' = lost (sl_queue s) @ ls"
    "kept_of (slot_frames (do_slot d) @ arrived q') ls (arrived (sl_queue s))" "list_all (blame (sl_queue s)) ls"
    using drain_keeps [OF assms(1)] by blast
  from kept_prefix [OF ls(2), of xs] show ?thesis
    using assms(2-5) ls(1,3) drain_blame [OF assms(1)] by (auto simp: keeps_def)
qed

lemma keeps_trans:
  assumes "keeps s as out s1" "keeps s1 bs out' s'"
  shows "keeps s (as @ bs) (out @ out') s'"
proof -
  obtain ls where ls: "lost (sl_queue s1) = lost (sl_queue s) @ ls" "list_all (blame (sl_queue s)) ls"
    "kept_of (out @ waiting arrived s1) ls (waiting arrived s @ as)" using assms(1) by (auto simp: keeps_def)
  obtain ms where ms: "lost (sl_queue s') = lost (sl_queue s1) @ ms" "list_all (blame (sl_queue s1)) ms"
    "kept_of (out' @ waiting arrived s') ms (waiting arrived s1 @ bs)" using assms(2) by (auto simp: keeps_def)
  have "kept_of ((out @ out') @ waiting arrived s') (ls @ ms) (waiting arrived s @ as @ bs)"
    using kept_trans [OF kept_prefix [OF ms(3), of out]] kept_suffix [OF ls(3), of bs] by simp
  moreover have "list_all (blame (sl_queue s)) (ls @ ms)"
    using ls(2) ms(2) assms(1) by (auto simp: keeps_def list_all_iff)
  ultimately show ?thesis using assms ls(1) ms(1) by (auto simp: keeps_def)
qed

lemma drain_frames: "drain EachFifo q = (d, q') \<Longrightarrow> do_slot d = FzSample f \<Longrightarrow> whole f"
  using drain_slot [of q d q'] by (simp add: slot_frames_def)

lemma keeps_event:
  assumes "slot_ok s"
  shows "keeps s (arrivals [e]) (left_by drain e s) (slot_event_step drain probe push e s)"
proof (cases e)
  case (Arrive f)
  show ?thesis
    using push_keeps [of f "sl_queue s"] push_blame [of f "sl_queue s"] assms Arrive
      kept_prefix [of "arrived (push f (sl_queue s))" _ _ "head_frame s @ staged_frame s"]
    by (auto simp: keeps_def slot_frame_defs slot_ok_def)
next
  case Serve
  have mode: "sl_consume_mode s = EachFifo" using assms by (simp add: slot_ok_def)
  obtain d q' where d: "drain EachFifo (sl_queue s) = (d, q')" by (metis prod.collapse)
  show ?thesis
  proof (cases "sl_frozen s = None \<and> sl_next_head s = None")
    case True
    then have "select_slot drain s = (do_slot d, s\<lparr>sl_queue := q'\<rparr>)" using mode d by (simp add: select_slot_def)
    moreover have "slot_ok (s\<lparr>sl_queue := q'\<rparr>)" using assms True by (simp add: slot_ok_def slot_frame_defs)
    ultimately show ?thesis using Serve True
      by (auto simp: slot_frame_defs slot_frames_def intro!: keeps_drain [OF d, where xs = "[]"] split: frozen_slot.splits)
  next
    case False
    then show ?thesis using Serve assms mode
      by (auto simp: select_slot_def slot_frame_defs slot_ok_def intro!: keeps_same_queue split: option.splits frozen_slot.splits)
  qed
next
  case (HeadOp op)
  have mode: "sl_consume_mode s = EachFifo" using assms by (simp add: slot_ok_def)
  obtain d q' where d: "drain EachFifo (sl_queue s) = (d, q')" by (metis prod.collapse)
  note frame = drain_frames [OF d]
  have fill: "keeps s [] [] (snd (drain_for_trigger drain site s))" for site
  proof (cases "held_head s = None \<and> sl_next_head s = None")
    case True
    have hf: "head_frame s = []"
      using True mode by (auto simp: held_head_def head_frame_def split: option.splits frozen_slot.splits)
    show ?thesis using True hf mode d frame assms
      by (auto simp: drain_for_trigger_def note_head_served_def slot_frame_defs slot_frames_def slot_ok_def
          intro!: keeps_drain [OF d, where xs = "[]"] split: frozen_slot.splits)
  next
    case False
    then show ?thesis using mode assms
      by (cases site) (auto simp: drain_for_trigger_def held_head_def note_head_served_def note_head_reoffered_def
          slot_frame_defs slot_ok_def Let_def intro!: keeps_same_queue split: option.splits frozen_slot.splits)
  qed
  show ?thesis
  proof (cases op)
    case (PeekNext site)
    show ?thesis
    proof (cases "sl_next_head s = None \<and> (\<exists>f. sl_frozen s = Some (FzSample f))")
      case True
      then obtain f where f: "sl_frozen s = Some (FzSample f)" by blast
      show ?thesis using True f frame assms HeadOp PeekNext d
        by (auto simp: slot_head_op_def sync_peek_next_stamp_def slot_frame_defs slot_frames_def slot_ok_def Let_def
            intro!: keeps_drain [OF d, where xs = "[f]"] split: frozen_slot.splits)
    next
      case False
      then show ?thesis using assms HeadOp PeekNext
        by (auto simp: slot_head_op_def sync_peek_next_stamp_def intro!: keeps_same_queue split: option.splits frozen_slot.splits)
    qed
  next
    case (Advance site)
    show ?thesis
    proof (cases "sl_next_head s")
      case None
      then show ?thesis using frame assms HeadOp Advance d mode
        by (auto simp: slot_head_op_def sync_discard_head_def note_head_served_def slot_frame_defs slot_frames_def slot_ok_def
            Let_def intro!: keeps_drain [OF d, where xs = "head_frame s"] split: frozen_slot.splits)
    next
      case (Some f)
      then show ?thesis using assms HeadOp Advance
        by (auto simp: slot_head_op_def sync_discard_head_def note_head_served_def slot_frame_defs slot_ok_def Let_def
            intro!: keeps_same_queue)
    qed
  next
    case ProbeNext
    then show ?thesis using assms HeadOp
      by (auto simp: slot_head_op_def intro!: keeps_same_queue split: option.splits bool.splits)
  next
    case Void
    then show ?thesis using assms HeadOp
      by (auto simp: slot_head_op_def sync_void_head_def slot_frame_defs slot_ok_def intro!: keeps_same_queue)
  qed (use HeadOp fill in \<open>simp_all add: slot_head_op_def split_def Let_def\<close>)
qed

lemma keeps_run:
  "slot_ok s \<Longrightarrow> slot_run drain probe push es s = (out, s') \<Longrightarrow> keeps s (arrivals es) out s'"
proof (induction es arbitrary: s out)
  case (Cons e es)
  let ?s = "slot_event_step drain probe push e s"
  obtain ls where ls: "slot_run drain probe push es ?s = (ls, s')" "out = left_by drain e s @ ls"
    using Cons.prems(2) by (auto split: prod.splits)
  note e = keeps_event [OF Cons.prems(1), of e probe]
  have "slot_ok ?s" using e by (simp add: keeps_def)
  from keeps_trans [OF e Cons.IH [OF this ls(1)]] show ?case
    using arrivals_step [of e es] ls(2) by simp
qed (simp add: keeps_def)

end

section \<open>The receive path keeps it\<close>

definition recv_arrived :: "recv_queue \<Rightarrow> bytes list" where
  "recv_arrived q = filter whole (rv_frames q)"

text \<open>Why this queue may lose a frame.\<close>

definition recv_blame :: "recv_queue \<Rightarrow> bytes \<times> loss \<Rightarrow> bool" where
  "recv_blame q l =
     (case snd l of
        Evicted \<Rightarrow> rv_capacity q \<noteq> None
      | Decimated prev \<Rightarrow>
          (case (rv_gate q, wire_timestamp_ns (fst l)) of
             (Some gate, Some ts) \<Rightarrow> sat_sub ts prev < sg_interval_ns gate | _ \<Rightarrow> False)
      | Superseded \<Rightarrow> list_ex (\<lambda>g. case g of Granted n \<Rightarrow> 1 < n | _ \<Rightarrow> False) (rv_grants q)
      | Errored \<Rightarrow> list_ex (\<lambda>g. case g of Granted n \<Rightarrow> 1 < n | _ \<Rightarrow> False) (rv_grants q) \<and>
          list_ex (\<lambda>x. x \<noteq> None) (rv_faults q))"

definition taken_frames :: "popped_frames \<Rightarrow> bytes list" where
  "taken_frames p = pf_superseded p @ (case pf_latest p of Some f \<Rightarrow> [f] | None \<Rightarrow> [])"

lemma take_frame_taken:
  "taken_frames (take_frame True f p) = taken_frames p @ (if whole f then [f] else [])"
  by (auto simp: take_frame_def taken_frames_def whole_def Let_def split: option.splits)

text \<open>The loop takes a prefix of the whole frames, up to its bound; it fails only at its receive call.\<close>

definition counted :: "popped_frames \<Rightarrow> bool" where
  "counted p \<longleftrightarrow> pf_delivered p = length (taken_frames p) \<and> (pf_superseded p \<noteq> [] \<longrightarrow> pf_latest p \<noteq> None)"

lemma receive_frames_keeps:
  "receive_frames True bound fault q p = (p', failed, rest) \<Longrightarrow> counted p \<Longrightarrow>
   taken_frames p' @ filter whole rest = taken_frames p @ filter whole q \<and> counted p' \<and>
   (\<forall>n. bound = Some n \<longrightarrow> pf_delivered p \<le> n \<longrightarrow> pf_delivered p' \<le> n) \<and>
   (failed \<longrightarrow> fault \<noteq> None \<and> (\<forall>n. bound = Some n \<longrightarrow> pf_delivered p' < n))"
proof (induction q arbitrary: fault p)
  case Nil
  then show ?case by (auto simp: receive_frames.simps [of True bound fault "[]"] split: if_splits option.splits)
next
  case (Cons f fs)
  show ?case
  proof (cases "(case bound of Some n \<Rightarrow> n \<le> pf_delivered p | None \<Rightarrow> False) \<or> fault = Some 0")
    case True
    then show ?thesis using Cons.prems
      by (auto simp: receive_frames.simps [of True bound fault "f # fs"] split: if_splits option.splits)
  next
    case False
    let ?p = "take_frame True f p"
    have c: "counted ?p" "pf_delivered ?p = pf_delivered p + (if whole f then 1 else 0)"
      using Cons.prems(2) take_frame_taken [of f p]
      by (auto simp: counted_def take_frame_def whole_def Let_def)
    have "receive_frames True bound (map_option (\<lambda>n. n - 1) fault) fs ?p = (p', failed, rest)"
      using Cons.prems(1) False by (simp add: receive_frames.simps [of True bound fault "f # fs"])
    from Cons.IH [OF this c(1)] show ?thesis
      using False c(2) take_frame_taken [of f p] by (auto split: option.splits if_splits)
  qed
qed

lemma kept_taken:
  assumes "xs = gone @ ys" "lost_frames ls = gone"
  shows "kept_of ys ls xs"
  using assms by (simp add: kept_of_def ac_simps list_emb_append2)

lemma kept_middle:
  assumes "xs = gone @ f # ys" "lost_frames ls = gone"
  shows "kept_of (f # ys) ls xs"
  using kept_taken [of xs gone "f # ys" ls] assms by simp

lemma lost_frames_all: "list_all whole fs \<Longrightarrow> lost_frames (map (\<lambda>g. (g, r)) fs) = fs"
  by (simp add: lost_frames_def comp_def list_all_iff filter_id_conv)

lemma sample_accept_cases:
  "sample_accept gate f = None \<longleftrightarrow> (\<exists>ts prev. wire_timestamp_ns f = Some ts \<and> sg_last_accepted_ns gate = Some prev \<and>
     sat_sub ts prev < sg_interval_ns gate)"
  "sample_accept gate f = Some gate1 \<Longrightarrow> sg_interval_ns gate1 = sg_interval_ns gate"
  by (auto simp: sample_accept_def split: option.splits if_splits)

text \<open>What one drain may lose, by the budget it was granted.\<close>

definition drain_blame :: "nat option \<Rightarrow> recv_queue \<Rightarrow> bytes \<times> loss \<Rightarrow> bool" where
  "drain_blame budget q l =
     (case snd l of
        Evicted \<Rightarrow> False
      | Decimated prev \<Rightarrow>
          (case (rv_gate q, wire_timestamp_ns (fst l)) of
             (Some gate, Some ts) \<Rightarrow> sat_sub ts prev < sg_interval_ns gate | _ \<Rightarrow> False)
      | Superseded \<Rightarrow> (case budget of Some n \<Rightarrow> 1 < n | None \<Rightarrow> False)
      | Errored \<Rightarrow> (case budget of Some n \<Rightarrow> 1 < n | None \<Rightarrow> False) \<and> list_ex (\<lambda>x. x \<noteq> None) (rv_faults q))"

lemma drain_body_keeps:
  assumes "drain_body True budget q = (out, q')"
  shows "\<exists>ls. rv_lost q' = rv_lost q @ ls \<and> kept_of (slot_frames (do_slot out) @ recv_arrived q') ls (recv_arrived q) \<and>
      list_all whole (slot_frames (do_slot out)) \<and> list_all (drain_blame budget q) ls"
    and "rv_capacity q' = rv_capacity q \<and> rv_grants q' = rv_grants q \<and> rv_faults q' = tl (rv_faults q) \<and>
      map_option sg_interval_ns (rv_gate q') = map_option sg_interval_ns (rv_gate q)"
proof -
  let ?bound = "case budget of Some n \<Rightarrow> Some n | None \<Rightarrow> Some 1"
  let ?fault = "case rv_faults q of [] \<Rightarrow> None | x # _ \<Rightarrow> x"
  obtain p failed rest where r: "receive_frames True ?bound ?fault (rv_frames q) no_frames = (p, failed, rest)"
    by (metis prod.collapse)
  have b: "(case budget of Some n \<Rightarrow> Some n | None \<Rightarrow> if True then Some 1 else None) = ?bound" by (cases budget) auto
  have "counted no_frames" "taken_frames no_frames = []" "pf_delivered no_frames = 0"
    by (simp_all add: counted_def taken_frames_def no_frames_def)
  with receive_frames_keeps [OF r] have k: "taken_frames p @ filter whole rest = recv_arrived q"
    "pf_delivered p = length (taken_frames p)" "pf_superseded p \<noteq> [] \<Longrightarrow> pf_latest p \<noteq> None" "\<And>n. ?bound = Some n \<Longrightarrow> pf_delivered p \<le> n"
    "failed \<Longrightarrow> ?fault \<noteq> None \<and> (\<forall>n. ?bound = Some n \<longrightarrow> pf_delivered p < n)"
    by (auto simp: recv_arrived_def counted_def)
  have w: "list_all whole (taken_frames p)"
  proof -
    have "set (taken_frames p) \<subseteq> set (filter whole (rv_frames q))"
      using arg_cong [OF k(1), of set] by (auto simp: recv_arrived_def)
    then show ?thesis by (auto simp: list_all_iff)
  qed
  then have ws: "list_all whole (pf_superseded p)" "\<And>f. pf_latest p = Some f \<Longrightarrow> whole f"
    by (auto simp: taken_frames_def)
  define two where "two = (case budget of Some n \<Rightarrow> 1 < n | None \<Rightarrow> False)"
  have many: two if "pf_superseded p \<noteq> []" "pf_latest p \<noteq> None"
    using that k(2) k(4) [of "the ?bound"] by (cases budget) (auto simp: two_def taken_frames_def neq_Nil_conv)
  let ?super = "map (\<lambda>g. (g, Superseded)) (pf_superseded p)"
  have super: "lost_frames ?super = pf_superseded p" "list_all (drain_blame budget q) ?super"
    using lost_frames_all [OF ws(1)] k(3) many
    by (auto simp: list_all_iff drain_blame_def two_def dest: length_pos_if_in_set)
  have rest: "recv_arrived q' = filter whole rest"
    using assms unfolding drain_body_def Let_def b r
    by (auto simp: recv_arrived_def split: if_splits option.splits)
  note split = k(1) [unfolded taken_frames_def, symmetric]
  show "\<exists>ls. rv_lost q' = rv_lost q @ ls \<and> kept_of (slot_frames (do_slot out) @ recv_arrived q') ls (recv_arrived q) \<and>
      list_all whole (slot_frames (do_slot out)) \<and> list_all (drain_blame budget q) ls"
  proof (cases "pf_latest p")
    case None
    then have none: "pf_superseded p = []" using k(3) by blast
    have "rv_lost q' = rv_lost q" "slot_frames (do_slot out) = []"
      using assms None none unfolding drain_body_def Let_def b r by (auto simp: slot_frames_def split: if_splits)
    then show ?thesis using split None none rest by (intro exI [of _ "[]"]) simp
  next
    case (Some f)
    have wf: "whole f" by (rule ws(2) [OF Some])
    have lost: "lost_frames (?super @ [(f, why)]) = pf_superseded p @ [f]" for why
      using super(1) wf by (simp add: lost_frames_def)
    consider (err) failed | (pass) "\<not> failed" "slot_frames (do_slot out) = [f]" "rv_lost q' = rv_lost q @ ?super"
      | (cut) gate ts prev where "\<not> failed" "rv_gate q = Some gate" "wire_timestamp_ns f = Some ts"
          "sat_sub ts prev < sg_interval_ns gate" "slot_frames (do_slot out) = []"
          "rv_lost q' = rv_lost q @ ?super @ [(f, Decimated prev)]"
      using assms Some sample_accept_cases(1) [of "the (rv_gate q)" f] unfolding drain_body_def Let_def b r
      by (auto simp: slot_frames_def split: if_splits option.splits)
    then show ?thesis
    proof cases
      case err
      have "slot_frames (do_slot out) = []" "rv_lost q' = rv_lost q @ ?super @ [(f, Errored)]"
        using assms Some err unfolding drain_body_def Let_def b r by (auto simp: slot_frames_def)
      moreover have "drain_blame budget q (f, Errored)"
        using k(2) k(5) [OF err] Some
        by (cases budget) (auto simp: drain_blame_def taken_frames_def split: list.splits)
      ultimately show ?thesis
        using kept_taken [OF _ lost [of Errored], of "recv_arrived q" "filter whole rest"] split Some rest super(2)
        by (intro exI [of _ "?super @ [(f, Errored)]"]) simp
    next
      case pass
      then show ?thesis
        using kept_middle [OF _ super(1), of "recv_arrived q" f "filter whole rest"] split Some rest super(2) wf
        by (intro exI [of _ ?super]) simp
    next
      case cut
      then have "drain_blame budget q (f, Decimated prev)" by (simp add: drain_blame_def)
      then show ?thesis
        using kept_taken [OF _ lost [of "Decimated prev"], of "recv_arrived q" "filter whole rest"] split Some rest super(2) cut
        by (intro exI [of _ "?super @ [(f, Decimated prev)]"]) simp
    qed
  qed
  show "rv_capacity q' = rv_capacity q \<and> rv_grants q' = rv_grants q \<and> rv_faults q' = tl (rv_faults q) \<and>
      map_option sg_interval_ns (rv_gate q') = map_option sg_interval_ns (rv_gate q)"
    using assms sample_accept_cases(2) unfolding drain_body_def Let_def b r
    by (auto split: if_splits option.splits)
qed

text \<open>The budget of a drain is one of the plan's grants.\<close>

lemma drain_blame_recv:
  assumes "drain_blame budget (q\<lparr>rv_grants := tl (rv_grants q)\<rparr>) l"
    and "\<And>n. budget = Some n \<Longrightarrow> Granted n \<in> set (rv_grants q)"
  shows "recv_blame q l"
proof -
  have "list_ex (\<lambda>g. case g of Granted n \<Rightarrow> 1 < n | _ \<Rightarrow> False) (rv_grants q)" if "budget = Some n" "1 < n" for n
    using assms(2) [OF that(1)] that(2) by (auto simp: list_ex_iff intro: bexI [of _ "Granted n"])
  then show ?thesis using assms(1)
    by (cases budget) (auto simp: drain_blame_def recv_blame_def split: loss.splits option.splits)
qed

lemma recv_drain_cases:
  obtains (Held) "rv_grants q = Withheld # tl (rv_grants q)" "recv_drain EachFifo q = (withheld, q\<lparr>rv_grants := tl (rv_grants q)\<rparr>)"
  | (Body) budget where "recv_drain EachFifo q = drain_body True budget (q\<lparr>rv_grants := tl (rv_grants q)\<rparr>)"
      "\<And>n. budget = Some n \<Longrightarrow> Granted n \<in> set (rv_grants q)"
proof (cases "rv_grants q")
  case Nil
  then show thesis using Body [of None] by (simp add: recv_drain_def)
next
  case (Cons g gs)
  then show thesis using Held Body [of None] Body [of "case g of Granted n \<Rightarrow> Some n | _ \<Rightarrow> None"]
    by (cases g) (simp_all add: recv_drain_def)
qed

lemma recv_blame_later:
  assumes "rv_capacity q' = rv_capacity q" "map_option sg_interval_ns (rv_gate q') = map_option sg_interval_ns (rv_gate q)"
    and "set (rv_grants q') \<subseteq> set (rv_grants q)" "set (rv_faults q') \<subseteq> set (rv_faults q)" "recv_blame q' l"
  shows "recv_blame q l"
proof -
  have "\<exists>g'. rv_gate q = Some g' \<and> sg_interval_ns g' = sg_interval_ns g" if "rv_gate q' = Some g" for g
    using assms(2) that by (cases "rv_gate q") auto
  then show ?thesis using assms(1,3-5)
    by (auto simp: recv_blame_def list_ex_iff split: loss.splits option.splits; fastforce)
qed

lemma tl_subset: "set (tl xs) \<subseteq> set xs"
  by (cases xs) auto

interpretation recv: lossy_queue recv_drain recv_push recv_arrived rv_lost recv_blame
proof
  fix q out q'
  assume d: "recv_drain EachFifo q = (out, q')"
  show "\<exists>ls. rv_lost q' = rv_lost q @ ls \<and> kept_of (slot_frames (do_slot out) @ recv_arrived q') ls (recv_arrived q) \<and>
      list_all (recv_blame q) ls"
  proof (cases rule: recv_drain_cases [of q])
    case Held
    then show ?thesis using d by (auto simp: withheld_def slot_frames_def recv_arrived_def)
  next
    case (Body budget)
    have "recv_blame q l" if "drain_blame budget (q\<lparr>rv_grants := tl (rv_grants q)\<rparr>) l" for l
      using drain_blame_recv [OF that Body(2)] .
    then show ?thesis
      using drain_body_keeps(1) [OF d [unfolded Body(1)]] by (auto simp: recv_arrived_def list_all_iff)
  qed
  show "list_all whole (slot_frames (do_slot out))"
  proof (cases rule: recv_drain_cases [of q])
    case Held
    then show ?thesis using d by (auto simp: withheld_def slot_frames_def)
  next
    case (Body budget)
    from drain_body_keeps(1) [OF d [unfolded Body(1)]] show ?thesis by blast
  qed
  fix l
  assume "recv_blame q' l"
  then show "recv_blame q l"
  proof (cases rule: recv_drain_cases [of q])
    case Held
    then have "q' = q\<lparr>rv_grants := tl (rv_grants q)\<rparr>" using d by simp
    then show ?thesis using \<open>recv_blame q' l\<close> by (intro recv_blame_later [of q' q]) (simp_all add: tl_subset)
  next
    case (Body budget)
    from drain_body_keeps(2) [OF d [unfolded Body(1)]] show ?thesis
      using \<open>recv_blame q' l\<close> by (intro recv_blame_later [of q' q]) (simp_all add: tl_subset)
  qed
next
  fix f q
  show "\<exists>ls. rv_lost (recv_push f q) = rv_lost q @ ls \<and> list_all (recv_blame q) ls \<and>
      kept_of (recv_arrived (recv_push f q)) ls (recv_arrived q @ (if whole f then [f] else []))"
  proof (cases "recv_push f q = q\<lparr>rv_frames := rv_frames q @ [f]\<rparr>")
    case True
    then show ?thesis by (intro exI [of _ "[]"]) (simp add: recv_arrived_def)
  next
    case False
    then obtain n oldest rest where c: "rv_capacity q = Some n" "rv_frames q = oldest # rest"
      "recv_push f q = q\<lparr>rv_frames := rest @ [f], rv_lost := rv_lost q @ [(oldest, Evicted)]\<rparr>"
      by (auto simp: recv_push_def split: option.splits list.splits if_splits)
    have "kept_of (recv_arrived (recv_push f q)) [(oldest, Evicted)] (recv_arrived q @ (if whole f then [f] else []))"
      by (rule kept_taken [where gone = "filter whole [oldest]"]) (simp_all add: c recv_arrived_def lost_frames_def)
    then show ?thesis using c by (intro exI [of _ "[(oldest, Evicted)]"]) (simp add: recv_blame_def)
  qed
  fix l
  assume "recv_blame (recv_push f q) l"
  then show "recv_blame q l"
    by (rule recv_blame_later [rotated 4]) (auto simp: recv_push_def split: option.splits list.splits if_splits)
qed

section \<open>What an input delivers\<close>

text \<open>With nothing to hold back, a one-frame drain is the pop of a plain queue that skips corrupt frames.\<close>

definition junked :: "nat \<Rightarrow> popped_frames" where
  "junked j = no_frames\<lparr>pf_removed := j, pf_junk := j\<rparr>"

lemma receive_one:
  "receive_frames True (Some 1) None q (junked j) =
    (let k = j + length (takeWhile (\<lambda>f. \<not> whole f) q)
     in case dropWhile (\<lambda>f. \<not> whole f) q of
          [] \<Rightarrow> (junked k, False, [])
        | f # fs \<Rightarrow> ((junked k)\<lparr>pf_removed := k + 1, pf_latest := Some f, pf_delivered := 1\<rparr>, False, fs))"
proof (induction q arbitrary: j)
  case Nil
  then show ?case by (simp add: receive_frames.simps [of True _ _ "[]"] junked_def no_frames_def)
next
  case (Cons f fs)
  show ?case
  proof (cases "whole f")
    case True
    then show ?thesis
      by (simp add: receive_frames.simps [of True _ _ "f # fs"] receive_frames.simps [of True "Some (Suc 0)" None fs]
          take_frame_def whole_def Let_def junked_def no_frames_def)
  next
    case False
    then have "take_frame True f (junked j) = junked (Suc j)"
      by (simp add: take_frame_def whole_def Let_def junked_def no_frames_def)
    then have "receive_frames True (Some 1) None (f # fs) (junked j) = receive_frames True (Some 1) None fs (junked (Suc j))"
      by (simp add: receive_frames.simps [of True _ _ "f # fs"] junked_def no_frames_def)
    then show ?thesis using Cons.IH [of "Suc j"] False by simp
  qed
qed

lemma plain_drain_is_fifo:
  assumes "rv_gate q = None" "rv_faults q = []" "rv_grants q = []"
  shows "recv_drain EachFifo q =
    (fst (fifo_drain EachFifo (rv_frames q)), q\<lparr>rv_frames := snd (fifo_drain EachFifo (rv_frames q))\<rparr>)"
proof -
  obtain fr cap lost where q: "q = \<lparr>rv_frames = fr, rv_capacity = cap, rv_gate = None, rv_faults = [], rv_grants = [], rv_lost = lost\<rparr>"
    using assms by (cases q) auto
  have n: "no_frames = junked 0" by (simp add: junked_def no_frames_def)
  show ?thesis
  proof (cases "dropWhile (\<lambda>f. \<not> whole f) fr")
    case Nil
    have "receive_frames True (Some (Suc 0)) None fr no_frames = (junked (length (takeWhile (\<lambda>f. \<not> whole f) fr)), False, [])"
      unfolding n using receive_one [of fr 0, unfolded Nil list.case] by (simp add: Let_def)
    moreover have "fifo_drain EachFifo fr = (\<lparr>do_slot = FzEmpty, do_popped = 0, do_latest_ts = None\<rparr>, [])"
      by (simp only: fifo_drain.simps Nil list.case)
    ultimately show ?thesis
      by (simp add: q recv_drain_def drain_body_def junked_def no_frames_def del: fifo_drain.simps)
  next
    case (Cons f fs)
    have "receive_frames True (Some (Suc 0)) None fr no_frames =
        ((junked (length (takeWhile (\<lambda>f. \<not> whole f) fr)))\<lparr>pf_removed := Suc (length (takeWhile (\<lambda>f. \<not> whole f) fr)),
          pf_latest := Some f, pf_delivered := 1\<rparr>, False, fs)"
      unfolding n using receive_one [of fr 0, unfolded Cons list.case] by (simp add: Let_def)
    moreover have "fifo_drain EachFifo fr = (\<lparr>do_slot = FzSample f, do_popped = 1, do_latest_ts = wire_timestamp_ns f\<rparr>, fs)"
      by (simp only: fifo_drain.simps Cons list.case)
    ultimately show ?thesis
      by (simp add: q recv_drain_def drain_body_def junked_def no_frames_def del: fifo_drain.simps)
  qed
qed


definition stamped :: "u64 \<Rightarrow> bytes" where
  "stamped ts = replicate 24 0 @ le64 ts @ replicate 8 0"

lemma stamped_frame [simp]:
  "length (stamped ts) = 40" "whole (stamped ts)" "wire_timestamp_ns (stamped ts) = Some ts"
proof -
  have "get64 (stamped ts) 24 = ts" by (rule get64_le64) (simp add: stamped_def slice_def)
  then show "length (stamped ts) = 40" "whole (stamped ts)" "wire_timestamp_ns (stamped ts) = Some ts"
    by (simp_all add: stamped_def whole_def HEADER_SIZE_def wire_timestamp_ns_def)
qed

text \<open>An input of two frames and a gate of ten nanoseconds: the first frame is evicted, the last one decimated.\<close>

definition gated_input :: "recv_queue sync_slot" where
  "gated_input = new_slot ((plain_queue [])\<lparr>rv_capacity := Some 2,
     rv_gate := Some \<lparr>sg_interval_ns = 10, sg_last_accepted_ns = None\<rparr>\<rparr>)"

definition gated_events :: "slot_event list" where
  "gated_events = [Arrive (stamped 1), Arrive (stamped 5), Arrive (stamped 20), HeadOp FillBoundary, Serve,
     HeadOp FillBoundary, Serve, Arrive (stamped 25), HeadOp FillBoundary]"

lemma gated_run:
  "\<exists>s'. slot_run recv_drain recv_probe recv_push gated_events gated_input = ([stamped 5, stamped 20], s') \<and>
    rv_lost (sl_queue s') = [(stamped 1, Evicted), (stamped 25, Decimated 20)] \<and> waiting recv_arrived s' = []"
  by (simp add: gated_events_def gated_input_def new_slot_def plain_queue_def recv_push_def slot_head_op_def drain_for_trigger_def
      held_head_def note_head_served_def select_slot_def recv_drain_def drain_body_def receive_frames.simps take_frame_def
      no_frames_def sample_accept_def sat_sub_def HEADER_SIZE_def slot_frame_defs recv_arrived_def)


end
