(* ===== verification/Barrier.thy ===== *)
theory Barrier
  imports Prelude
begin

text \<open>
  The counting barrier that processes of one graph cross between levels (\<open>barrier.rs\<close>,
  \<open>BarrierShared\<close>): a shared page of atomic words and the lock-free routines \<open>arrive\<close>,
  \<open>try_drop_participant\<close>, \<open>is_open\<close>, \<open>peers_waiting\<close>, \<open>set_expected\<close> and the park mask.

  Each routine is given twice. \<open>arrive\<close> and \<open>try_drop_participant\<close> are the code read as a
  sequential program. \<open>advance_part\<close> performs one access to one shared word, so that participants
  interleave between any two accesses of the code; \<open>barrier_run\<close> is a run of such accesses by any
  number of participants, which arrive, wait and leave as they please. A drop by the supervisor for a
  peer that died before arriving is the leave of that peer. Interleavings are those of one total order
  of accesses: the acquire and release orderings of the code are not weakened here, and kernel waits and
  wakes, which only decide when a waiter polls, are not steps.
\<close>

section \<open>The shared page\<close>

record barrier_shared =
  bs_generation :: u64
  bs_remaining :: u32
  bs_expected :: u32
  bs_wake_seq :: u32
  bs_parked :: u32

datatype arrive_outcome = Opened u64 | Pending

datatype drop_attempt = Stale | Applied arrive_outcome

definition new_barrier :: "u32 \<Rightarrow> barrier_shared" where
  "new_barrier expected =
     \<lparr>bs_generation = 0, bs_remaining = expected, bs_expected = expected, bs_wake_seq = 0, bs_parked = 0\<rparr>"

definition note_activity :: "barrier_shared \<Rightarrow> barrier_shared" where
  "note_activity b = b\<lparr>bs_wake_seq := bs_wake_seq b + 1\<rparr>"

definition wake_waiters :: "barrier_shared \<Rightarrow> barrier_shared" where
  "wake_waiters b = b\<lparr>bs_wake_seq := bs_wake_seq b + 1\<rparr>"

definition open_generation :: "u64 \<Rightarrow> barrier_shared \<Rightarrow> barrier_shared" where
  "open_generation my_gen b =
     wake_waiters (b\<lparr>bs_remaining := bs_expected b, bs_generation := my_gen + 1\<rparr>)"

definition is_open :: "u64 \<Rightarrow> barrier_shared \<Rightarrow> bool" where
  "is_open my_gen b \<longleftrightarrow> my_gen < bs_generation b"

definition peers_waiting :: "barrier_shared \<Rightarrow> bool" where
  "peers_waiting b \<longleftrightarrow> bs_remaining b < bs_expected b"

definition set_expected :: "u32 \<Rightarrow> barrier_shared \<Rightarrow> barrier_shared" where
  "set_expected n b = note_activity (b\<lparr>bs_remaining := n, bs_expected := n\<rparr>)"

definition arrive :: "u64 \<Rightarrow> barrier_shared \<Rightarrow> arrive_outcome \<times> barrier_shared" where
  "arrive my_gen b =
     (if bs_generation b \<noteq> my_gen then (Pending, b)
      else if bs_expected b = 0
      then (Opened (my_gen + 1), wake_waiters (b\<lparr>bs_generation := my_gen + 1\<rparr>))
      else
        let prev = bs_remaining b; b1 = note_activity (b\<lparr>bs_remaining := prev - 1\<rparr>)
        in if prev = 1 then (Opened (my_gen + 1), open_generation my_gen b1)
           else if prev = 0 then (Pending, b1\<lparr>bs_remaining := bs_remaining b1 + 1\<rparr>)
           else (Pending, b1))"

definition try_drop_participant :: "u64 \<Rightarrow> barrier_shared \<Rightarrow> drop_attempt \<times> barrier_shared" where
  "try_drop_participant my_gen b =
     (if my_gen < bs_generation b then (Stale, b)
      else
        let prev = bs_remaining b;
            b1 = note_activity (b\<lparr>bs_expected := sat_sub (bs_expected b) 1, bs_remaining := prev - 1\<rparr>)
        in if prev = 1 then (Applied (Opened (my_gen + 1)), open_generation my_gen b1)
           else if prev = 0 then (Applied Pending, b1\<lparr>bs_remaining := bs_remaining b1 + 1\<rparr>)
           else (Applied Pending, b1))"

definition drop_participant :: "u64 \<Rightarrow> barrier_shared \<Rightarrow> arrive_outcome \<times> barrier_shared" where
  "drop_participant my_gen b =
     (let (a, b1) = try_drop_participant my_gen b
      in (case a of Stale \<Rightarrow> Pending | Applied oc \<Rightarrow> oc, b1))"

text \<open>
  The supervisor's drop of a dead peer. It polls until the generation moves on or its grace is over, then
  applies the drop at the generation it reads; \<open>polls\<close> and \<open>churn\<close> are what the other processes do to
  the page between two polls and between the read and the drop of an attempt.
\<close>

datatype dead_peer_drop = DropApplied bool | NoSlots | ExhaustedRetries

definition MAX_ATTEMPTS :: nat where
  "MAX_ATTEMPTS = 64"

fun disambiguate :: "u64 \<Rightarrow> (barrier_shared \<Rightarrow> barrier_shared) list \<Rightarrow> barrier_shared \<Rightarrow> barrier_shared" where
  "disambiguate g0 [] b = b"
| "disambiguate g0 (f # fs) b = (if g0 < bs_generation b then b else disambiguate g0 fs (f b))"

fun apply_drop :: "nat \<Rightarrow> (nat \<Rightarrow> barrier_shared \<Rightarrow> barrier_shared) \<Rightarrow> barrier_shared \<Rightarrow>
    dead_peer_drop \<times> barrier_shared" where
  "apply_drop 0 churn b = (ExhaustedRetries, b)"
| "apply_drop (Suc k) churn b =
     (case try_drop_participant (bs_generation b) (churn k b) of
        (Applied oc, b1) \<Rightarrow> (DropApplied (oc \<noteq> Pending), b1)
      | (Stale, b1) \<Rightarrow> apply_drop k churn b1)"

definition drop_dead_peer :: "(barrier_shared \<Rightarrow> barrier_shared) list \<Rightarrow>
    (nat \<Rightarrow> barrier_shared \<Rightarrow> barrier_shared) \<Rightarrow> barrier_shared \<Rightarrow> dead_peer_drop \<times> barrier_shared" where
  "drop_dead_peer polls churn b =
     (if bs_expected b = 0 then (NoSlots, b)
      else apply_drop MAX_ATTEMPTS churn (disambiguate (bs_generation b) polls b))"

text \<open>The park mask: a rank past the 32 bits parks without one.\<close>

definition park_enter :: "nat \<Rightarrow> barrier_shared \<Rightarrow> bool \<times> barrier_shared" where
  "park_enter rank b =
     (if 32 \<le> rank then (False, b)
      else (True, b\<lparr>bs_parked := or (bs_parked b) (push_bit rank 1)\<rparr>))"

definition clear_parked_rank :: "nat \<Rightarrow> barrier_shared \<Rightarrow> barrier_shared" where
  "clear_parked_rank rank b =
     (if 32 \<le> rank then b
      else b\<lparr>bs_parked := and (bs_parked b) (not (push_bit rank 1))\<rparr>)"

section \<open>One access at a time\<close>

text \<open>
  Where a participant stands: between boundaries, inside \<open>arrive\<close> or \<open>try_drop_participant\<close> before the
  access the constructor names, polling, or gone. The flag of the opening phases tells a leaver from an
  arriver; the values carried are those the code holds in locals.
\<close>

datatype phase =
    Working
  | LoadExpected
  | VacuousCas
  | CountDown
  | DropExpected
  | CountOut u32
  | Activity (act_leaving: bool) (act_prev: u32)
  | Restore (res_leaving: bool)
  | LoadForRearm (lfr_leaving: bool)
  | Rearm (rearm_leaving: bool) (rearm_value: u32)
  | Publish (pub_leaving: bool)
  | Wake (wake_leaving: bool)
  | Waiting
  | Left

type_synonym participant = "u64 \<times> phase"

definition settle :: "bool \<Rightarrow> phase" where
  "settle leaving = (if leaving then Left else Waiting)"

definition after_count :: "bool \<Rightarrow> u32 \<Rightarrow> phase" where
  "after_count leaving prev =
     (if prev = 1 then LoadForRearm leaving else if prev = 0 then Restore leaving else settle leaving)"

fun micro :: "participant \<Rightarrow> barrier_shared \<Rightarrow> participant \<times> barrier_shared" where
  "micro (g, Working) b = ((g, if bs_generation b \<noteq> g then Waiting else LoadExpected), b)"
| "micro (g, LoadExpected) b = ((g, if bs_expected b = 0 then VacuousCas else CountDown), b)"
| "micro (g, VacuousCas) b =
     (if bs_generation b = g then ((g, Wake False), b\<lparr>bs_generation := g + 1\<rparr>) else ((g, Waiting), b))"
| "micro (g, CountDown) b =
     ((g, Activity False (bs_remaining b)), b\<lparr>bs_remaining := bs_remaining b - 1\<rparr>)"
| "micro (g, DropExpected) b =
     ((g, CountOut (bs_expected b)), b\<lparr>bs_expected := sat_sub (bs_expected b) 1\<rparr>)"
| "micro (g, CountOut old_expected) b =
     ((g, Activity True (bs_remaining b)), b\<lparr>bs_remaining := bs_remaining b - 1\<rparr>)"
| "micro (g, Activity leaving prev) b = ((g, after_count leaving prev), note_activity b)"
| "micro (g, Restore leaving) b = ((g, settle leaving), b\<lparr>bs_remaining := bs_remaining b + 1\<rparr>)"
| "micro (g, LoadForRearm leaving) b = ((g, Rearm leaving (bs_expected b)), b)"
| "micro (g, Rearm leaving e) b = ((g, Publish leaving), b\<lparr>bs_remaining := e\<rparr>)"
| "micro (g, Publish leaving) b = ((g, Wake leaving), b\<lparr>bs_generation := g + 1\<rparr>)"
| "micro (g, Wake leaving) b = ((g, settle leaving), wake_waiters b)"
| "micro (g, Waiting) b = (if is_open g b then (g + 1, Working) else (g, Waiting), b)"
| "micro (g, Left) b = ((g, Left), b)"

definition begin_leave :: "participant \<Rightarrow> barrier_shared \<Rightarrow> participant" where
  "begin_leave p b = (fst p, if fst p < bs_generation b then Left else DropExpected)"

record barrier_system =
  sys_page :: barrier_shared
  sys_parts :: "participant list"

definition advance_part :: "nat \<Rightarrow> barrier_system \<Rightarrow> barrier_system" where
  "advance_part i s =
     (let (p, b) = micro (sys_parts s ! i) (sys_page s)
      in \<lparr>sys_page = b, sys_parts = (sys_parts s)[i := p]\<rparr>)"

definition leave_part :: "nat \<Rightarrow> barrier_system \<Rightarrow> barrier_system" where
  "leave_part i s = s\<lparr>sys_parts := (sys_parts s)[i := begin_leave (sys_parts s ! i) (sys_page s)]\<rparr>"

definition new_system :: "nat \<Rightarrow> barrier_system" where
  "new_system n = \<lparr>sys_page = new_barrier (of_nat n), sys_parts = replicate n (0, Working)\<rparr>"

text \<open>\<open>barrier_run n k s\<close>: \<open>s\<close> is reached from \<open>n\<close> fresh participants by \<open>k\<close> accesses.\<close>

inductive barrier_run :: "nat \<Rightarrow> nat \<Rightarrow> barrier_system \<Rightarrow> bool" for n :: nat where
  Fresh: "barrier_run n 0 (new_system n)"
| Access: "barrier_run n k s \<Longrightarrow> i < n \<Longrightarrow> barrier_run n (Suc k) (advance_part i s)"
| Leave: "barrier_run n k s \<Longrightarrow> i < n \<Longrightarrow> snd (sys_parts s ! i) = Working \<Longrightarrow>
    barrier_run n (Suc k) (leave_part i s)"

section \<open>The invariant\<close>

definition cnt :: "('a \<Rightarrow> bool) \<Rightarrow> 'a list \<Rightarrow> nat" where
  "cnt P xs = length (filter P xs)"

text \<open>Who is still to count at generation \<open>G\<close>, who is among the expected, who is opening.\<close>

fun to_come :: "u64 \<Rightarrow> participant \<Rightarrow> bool" where
  "to_come G (g, Working) = True"
| "to_come G (g, LoadExpected) = True"
| "to_come G (g, VacuousCas) = True"
| "to_come G (g, CountDown) = True"
| "to_come G (g, DropExpected) = True"
| "to_come G (g, CountOut _) = True"
| "to_come G (g, Waiting) = (g \<noteq> G)"
| "to_come G (g, Activity leaving prev) = (\<not> leaving \<and> g \<noteq> G)"
| "to_come G (g, Wake leaving) = (\<not> leaving)"
| "to_come G _ = False"

fun counted_in :: "participant \<Rightarrow> bool" where
  "counted_in (g, CountOut _) = False"
| "counted_in (g, Left) = False"
| "counted_in (g, Activity leaving _) = (\<not> leaving)"
| "counted_in (g, Restore leaving) = (\<not> leaving)"
| "counted_in (g, LoadForRearm leaving) = (\<not> leaving)"
| "counted_in (g, Rearm leaving _) = (\<not> leaving)"
| "counted_in (g, Publish leaving) = (\<not> leaving)"
| "counted_in (g, Wake leaving) = (\<not> leaving)"
| "counted_in _ = True"

fun opener :: "participant \<Rightarrow> bool" where
  "opener (g, Activity _ prev) = (prev = 1)"
| "opener (g, LoadForRearm _) = True"
| "opener (g, Rearm _ _) = True"
| "opener (g, Publish _) = True"
| "opener _ = False"

fun part_ok :: "u64 \<Rightarrow> participant \<Rightarrow> bool" where
  "part_ok G (g, VacuousCas) = False"
| "part_ok G (g, Restore _) = False"
| "part_ok G (g, Left) = True"
| "part_ok G (g, Waiting) = (g = G \<or> Suc (unat g) = unat G)"
| "part_ok G (g, Activity leaving prev) =
     (prev \<noteq> 0 \<and> (if prev = 1 then g = G else leaving \<or> g = G \<or> Suc (unat g) = unat G))"
| "part_ok G (g, Wake leaving) = (leaving \<or> Suc (unat g) = unat G)"
| "part_ok G (g, _) = (g = G)"

fun opener_ok :: "barrier_shared \<Rightarrow> participant \<Rightarrow> bool" where
  "opener_ok b (g, Activity _ prev) = (prev = 1 \<longrightarrow> bs_remaining b = 0)"
| "opener_ok b (g, LoadForRearm _) = (bs_remaining b = 0)"
| "opener_ok b (g, Rearm _ e) = (e = bs_expected b)"
| "opener_ok b (g, Publish _) = (bs_remaining b = bs_expected b)"
| "opener_ok b _ = True"

definition barrier_ok :: "barrier_shared \<Rightarrow> participant list \<Rightarrow> bool" where
  "barrier_ok b ps \<longleftrightarrow>
     list_all (part_ok (bs_generation b)) ps \<and> cnt counted_in ps = unat (bs_expected b) \<and>
     (if cnt opener ps = 0
      then cnt (to_come (bs_generation b)) ps = unat (bs_remaining b) \<and> (bs_remaining b = 0 \<longrightarrow> bs_expected b = 0)
      else cnt opener ps = 1 \<and> cnt (to_come (bs_generation b)) ps = 0 \<and> list_all (opener_ok b) ps)"

lemma cnt_update:
  assumes "i < length xs"
  shows "cnt P (xs[i := y]) + (if P (xs ! i) then 1 else 0) = cnt P xs + (if P y then 1 else 0)"
proof -
  have xs: "xs = take i xs @ xs ! i # drop (Suc i) xs" using assms by (simp add: id_take_nth_drop)
  have "xs[i := y] = take i xs @ y # drop (Suc i) xs" using assms by (simp add: upd_conv_take_nth_drop)
  moreover have "cnt P xs = cnt P (take i xs) + (if P (xs ! i) then 1 else 0) + cnt P (drop (Suc i) xs)"
    by (subst xs) (simp add: cnt_def)
  ultimately show ?thesis by (simp add: cnt_def)
qed

lemma cnt_pos: "i < length xs \<Longrightarrow> P (xs ! i) \<Longrightarrow> 0 < cnt P xs"
  by (auto simp: cnt_def filter_empty_conv)

lemma cnt_0: "cnt P xs = 0 \<longleftrightarrow> (\<forall>x \<in> set xs. \<not> P x)"
  by (auto simp: cnt_def filter_empty_conv)

lemma cnt_cong: "(\<And>x. x \<in> set xs \<Longrightarrow> P x = Q x) \<Longrightarrow> cnt P xs = cnt Q xs"
  unfolding cnt_def by (metis filter_cong)

lemma cnt_le: "cnt P xs \<le> length xs"
  by (simp add: cnt_def)

lemma list_all_update: "list_all P xs \<Longrightarrow> P y \<Longrightarrow> list_all P (xs[i := y])"
  by (auto simp: list_all_iff dest!: set_update_subset_insert [THEN subsetD])

lemma opener_ok_other: "\<not> opener p \<Longrightarrow> opener_ok b p"
  by (cases "(b, p)" rule: opener_ok.cases) auto

lemma opener_ok_cong: "bs_remaining b' = bs_remaining b \<Longrightarrow> bs_expected b' = bs_expected b \<Longrightarrow>
    opener_ok b' p = opener_ok b p"
  by (cases "(b, p)" rule: opener_ok.cases) auto

lemma barrier_okD:
  assumes "barrier_ok b ps" "i < length ps"
  shows "part_ok (bs_generation b) (ps ! i)" "counted_in (ps ! i) \<Longrightarrow> bs_expected b \<noteq> 0"
    "to_come (bs_generation b) (ps ! i) \<Longrightarrow> cnt opener ps = 0"
    "to_come (bs_generation b) (ps ! i) \<Longrightarrow> 0 < bs_remaining b"
    "opener (ps ! i) \<Longrightarrow> cnt opener ps = 1 \<and> opener_ok b (ps ! i) \<and> cnt (to_come (bs_generation b)) ps = 0"
proof -
  note ok = assms(1) [unfolded barrier_ok_def] and i = assms(2)
  show "part_ok (bs_generation b) (ps ! i)" using ok i by (simp add: list_all_length)
  show "bs_expected b \<noteq> 0" if "counted_in (ps ! i)"
    using cnt_pos [OF i, of counted_in, OF that] ok by auto
  show *: "cnt opener ps = 0" if "to_come (bs_generation b) (ps ! i)"
    using cnt_pos [OF i, of "to_come (bs_generation b)", OF that] ok by (auto split: if_splits)
  show "0 < bs_remaining b" if "to_come (bs_generation b) (ps ! i)"
    using cnt_pos [OF i, of "to_come (bs_generation b)", OF that] ok * [OF that]
    by (auto simp: word_gt_0 intro!: gr0I)
  show "cnt opener ps = 1 \<and> opener_ok b (ps ! i) \<and> cnt (to_come (bs_generation b)) ps = 0" if "opener (ps ! i)"
    using cnt_pos [OF i, of opener, OF that] ok i by (auto simp: list_all_length split: if_splits)
qed

text \<open>A step that moves one participant between phases of the same standing.\<close>

lemma ok_frame:
  assumes ok: "barrier_ok b ps" and i: "i < length ps"
    and b: "bs_generation b' = bs_generation b" "bs_remaining b' = bs_remaining b" "bs_expected b' = bs_expected b"
    and p: "counted_in p' = counted_in (ps ! i)" "opener p' = opener (ps ! i)"
      "to_come (bs_generation b) p' = to_come (bs_generation b) (ps ! i)"
      "part_ok (bs_generation b) p'" "opener_ok b p'"
  shows "barrier_ok b' (ps[i := p'])"
proof -
  have "cnt P (ps[i := p']) = cnt P ps" if "P p' = P (ps ! i)" for P
    using cnt_update [OF i, of P p'] that by (auto split: if_splits)
  note c = this [of counted_in, OF p(1)] this [of opener, OF p(2)] this [of "to_come (bs_generation b)", OF p(3)]
  have "list_all (opener_ok b') (ps[i := p'])" if "list_all (opener_ok b) ps"
    using that p(5) by (simp add: list_all_update opener_ok_cong [OF b(2,3), abs_def])
  with ok p(4) show ?thesis
    by (auto simp: barrier_ok_def b c list_all_update split: if_splits)
qed

text \<open>Counting: the one access that decides the opener.\<close>

lemma ok_count:
  assumes ok: "barrier_ok b ps" and i: "i < length ps"
    and q: "to_come (bs_generation b) (ps ! i)" "\<not> opener (ps ! i)" "fst (ps ! i) = bs_generation b"
      "counted_in (ps ! i) = (\<not> leaving)"
  defines "p' \<equiv> (fst (ps ! i), Activity leaving (bs_remaining b))"
  shows "barrier_ok (b\<lparr>bs_remaining := bs_remaining b - 1\<rparr>) (ps[i := p'])"
proof -
  note o0 = barrier_okD(3) [OF ok i q(1)] and r0 = barrier_okD(4) [OF ok i q(1)]
  let ?b = "b\<lparr>bs_remaining := bs_remaining b - 1\<rparr>" and ?G = "bs_generation b"
  have tc: "cnt (to_come ?G) (ps[i := p']) + 1 = unat (bs_remaining b)"
    using cnt_update [OF i, of "to_come ?G" p'] ok o0 q(1,3) by (auto simp: barrier_ok_def p'_def)
  have r1: "unat (bs_remaining b - 1) = unat (bs_remaining b) - 1"
    using r0 by (simp add: unat_minus_one word_gt_0)
  have ci: "cnt counted_in (ps[i := p']) = unat (bs_expected b)"
    using cnt_update [OF i, of counted_in p'] ok q(4) by (auto simp: barrier_ok_def p'_def)
  have op: "cnt opener (ps[i := p']) = (if bs_remaining b = 1 then 1 else 0)"
    using cnt_update [OF i, of opener p'] o0 q(2) by (auto simp: p'_def)
  have pk: "list_all (part_ok ?G) (ps[i := p'])"
    using ok r0 q(3) by (auto simp: barrier_ok_def p'_def word_gt_0 intro!: list_all_update)
  have "list_all (opener_ok ?b) (ps[i := p'])" if "bs_remaining b = 1"
    using o0 that opener_ok_other
    by (intro list_all_update) (auto simp: list_all_iff p'_def cnt_0)
  with tc r1 ci op pk show ?thesis by (auto simp: barrier_ok_def)
qed

text \<open>Leaving the expected, re-arming, and publishing the next generation.\<close>

lemma ok_drop_expected:
  assumes ok: "barrier_ok b ps" and i: "i < length ps" and q: "ps ! i = (g, DropExpected)"
  shows "barrier_ok (b\<lparr>bs_expected := sat_sub (bs_expected b) 1\<rparr>) (ps[i := (g, CountOut old)])"
proof -
  let ?G = "bs_generation b" and ?b = "b\<lparr>bs_expected := sat_sub (bs_expected b) 1\<rparr>"
  have c: "to_come ?G (ps ! i)" using q by simp
  have "cnt counted_in (ps[i := (g, CountOut old)]) = unat (bs_expected b) - 1"
    using cnt_update [OF i, of counted_in "(g, CountOut old)"] ok q by (simp add: barrier_ok_def)
  moreover have "cnt (to_come ?G) (ps[i := (g, CountOut old)]) = cnt (to_come ?G) ps"
    using cnt_update [OF i, of "to_come ?G" "(g, CountOut old)"] q by simp
  moreover have "cnt opener (ps[i := (g, CountOut old)]) = 0"
    using cnt_update [OF i, of opener "(g, CountOut old)"] barrier_okD(3) [OF ok i c] q by simp
  moreover have "list_all (part_ok ?G) (ps[i := (g, CountOut old)])"
    using ok barrier_okD(1) [OF ok i] q by (auto simp: barrier_ok_def intro!: list_all_update)
  ultimately show ?thesis
    using ok barrier_okD(3,4) [OF ok i c] by (simp add: barrier_ok_def sat_simps word_gt_0)
qed

lemma ok_rearm:
  assumes ok: "barrier_ok b ps" and i: "i < length ps" and q: "ps ! i = (g, Rearm leaving e)"
  shows "barrier_ok (b\<lparr>bs_remaining := e\<rparr>) (ps[i := (g, Publish leaving)])"
proof -
  let ?G = "bs_generation b" and ?p = "(g, Publish leaving)"
  have o: "cnt opener ps = 1" "e = bs_expected b" "cnt (to_come ?G) ps = 0"
    using barrier_okD(5) [OF ok i] q by auto
  have oi: "cnt opener (ps[i := ?p]) = 1"
    using cnt_update [OF i, of opener ?p] o q by simp
  have "opener_ok (b\<lparr>bs_remaining := e\<rparr>) x" if x: "x \<in> set (ps[i := ?p])" for x
  proof (cases "x = ?p")
    case False
    then obtain j where j: "j < length ps" "x = ps ! j" "j \<noteq> i"
      using x i by (auto simp: in_set_conv_nth nth_list_update split: if_splits)
    have "cnt opener (ps[i := (g, Left)]) = 0"
      using cnt_update [OF i, of opener "(g, Left)"] o q by simp
    moreover have "x \<in> set (ps[i := (g, Left)])"
      using j by (metis length_list_update nth_list_update_neq nth_mem)
    ultimately have "\<not> opener x" by (simp add: cnt_0)
    then show ?thesis by (rule opener_ok_other)
  qed (simp add: o)
  then have "list_all (opener_ok (b\<lparr>bs_remaining := e\<rparr>)) (ps[i := ?p])" by (simp add: list_all_iff)
  moreover have "cnt counted_in (ps[i := ?p]) = cnt counted_in ps"
    using cnt_update [OF i, of counted_in ?p] q by simp
  moreover have "cnt (to_come ?G) (ps[i := ?p]) = 0"
    using cnt_update [OF i, of "to_come ?G" ?p] o q by simp
  moreover have "list_all (part_ok ?G) (ps[i := ?p])"
    using ok barrier_okD(1) [OF ok i] q by (auto simp: barrier_ok_def intro!: list_all_update)
  ultimately show ?thesis using ok oi by (simp add: barrier_ok_def)
qed

lemma to_come_after_publish:
  assumes "part_ok G p" "\<not> to_come G p" "\<not> opener p" "Suc (unat G) < 2 ^ 64"
  shows "to_come (G + 1) p = counted_in p \<and> part_ok (G + 1) p"
proof -
  have "unat (G + 1) = Suc (unat G)" using assms(4) by (simp add: unat_add_1)
  moreover have "G \<noteq> G + 1" using calculation by (metis n_not_Suc_n)
  ultimately show ?thesis
    using assms(1-3) by (cases "(G, p)" rule: to_come.cases) (auto split: if_splits)
qed

lemma ok_publish:
  assumes ok: "barrier_ok b ps" and i: "i < length ps" and q: "ps ! i = (g, Publish leaving)"
    and small: "Suc (unat (bs_generation b)) < 2 ^ 64"
  shows "barrier_ok (b\<lparr>bs_generation := g + 1\<rparr>) (ps[i := (g, Wake leaving)])"
proof -
  let ?G = "bs_generation b" and ?p = "(g, Wake leaving)"
  have o: "cnt opener ps = 1" "bs_remaining b = bs_expected b" "cnt (to_come ?G) ps = 0" "g = ?G"
    using barrier_okD(5) [OF ok i] barrier_okD(1) [OF ok i] q by auto
  have g1: "unat (?G + 1) = Suc (unat ?G)" using small by (simp add: unat_add_1)
  have oi: "cnt opener (ps[i := ?p]) = 0"
    using cnt_update [OF i, of opener ?p] o(1) q by simp
  have one: "to_come (?G + 1) x = counted_in x \<and> part_ok (?G + 1) x" if x: "x \<in> set (ps[i := ?p])" for x
  proof (cases "x = ?p")
    case False
    then have m: "x \<in> set ps" using x by (auto dest!: set_update_subset_insert [THEN subsetD])
    show ?thesis
    proof (rule to_come_after_publish [OF _ _ _ small])
      show "part_ok ?G x" using ok m by (simp add: barrier_ok_def list_all_iff)
      show "\<not> to_come ?G x" using o(3) m by (simp add: cnt_0)
      show "\<not> opener x" using oi x by (simp add: cnt_0)
    qed
  qed (simp add: g1 o(4))
  have "cnt (to_come (?G + 1)) (ps[i := ?p]) = cnt counted_in (ps[i := ?p])"
    by (rule cnt_cong) (simp add: one)
  moreover have "cnt counted_in (ps[i := ?p]) = cnt counted_in ps"
    using cnt_update [OF i, of counted_in ?p] q by simp
  ultimately show ?thesis
    using ok oi o(2,4) one by (auto simp: barrier_ok_def list_all_iff)
qed

lemma micro_keeps_ok:
  assumes ok: "barrier_ok b ps" and i: "i < length ps" and small: "Suc (unat (bs_generation b)) < 2 ^ 64"
    and m: "micro (ps ! i) b = (p', b')"
  shows "barrier_ok b' (ps[i := p']) \<and> unat (bs_generation b') \<le> Suc (unat (bs_generation b))"
proof -
  obtain g ph where q: "ps ! i = (g, ph)" by (cases "ps ! i")
  have pk: "part_ok (bs_generation b) (g, ph)" using barrier_okD(1) [OF ok i] q by simp
  have le: "unat (g + 1) \<le> Suc (unat (bs_generation b))" if "g = bs_generation b"
    using small that by (simp add: unat_add_1)
  show ?thesis
  proof (cases ph)
    case LoadExpected
    then have "bs_expected b \<noteq> 0" using barrier_okD(2) [OF ok i] q by simp
    then show ?thesis using m q LoadExpected pk by (auto intro!: ok_frame [OF ok i])
  next
    case CountDown
    then show ?thesis using m q pk ok_count [OF ok i, of False] by auto
  next
    case (CountOut old)
    then show ?thesis using m q pk ok_count [OF ok i, of True] by auto
  next
    case DropExpected
    then show ?thesis using m q ok_drop_expected [OF ok i] by auto
  next
    case (Activity leaving prev)
    have "opener_ok b (ps ! i)" if "prev = 1" using barrier_okD(5) [OF ok i] q Activity that by simp
    then show ?thesis using m q Activity pk
      by (auto simp: after_count_def settle_def note_activity_def intro!: ok_frame [OF ok i] split: if_splits)
  next
    case (LoadForRearm leaving)
    then show ?thesis using m q pk by (auto intro!: ok_frame [OF ok i])
  next
    case (Rearm leaving e)
    then show ?thesis using m q ok_rearm [OF ok i] by auto
  next
    case (Publish leaving)
    then show ?thesis using m q pk le ok_publish [OF ok i _ small] by auto
  next
    case (Wake leaving)
    then show ?thesis using m q pk
      by (cases leaving) (auto simp: settle_def wake_waiters_def intro!: ok_frame [OF ok i])
  next
    case Waiting
    have "Suc (unat g) = unat (bs_generation b) \<Longrightarrow> g + 1 = bs_generation b"
      using unat_u64_lt [of "bs_generation b"] unat_add_1 [of g] by (simp add: word_unat_eq_iff)
    moreover have "p' = (if is_open g b then (g + 1, Working) else (g, Waiting))" "b' = b"
      using m q Waiting by auto
    ultimately show ?thesis using q pk Waiting
      by (auto simp: is_open_def simp del: list_update_id intro!: ok_frame [OF ok i])
  next
    case Working
    then show ?thesis using m q pk by (auto intro!: ok_frame [OF ok i])
  next
    case Left
    then have "p' = (g, Left)" "b' = b" using m q by auto
    then show ?thesis using q Left by (auto simp del: list_update_id intro!: ok_frame [OF ok i])
  qed (use pk in simp_all)
qed

lemma barrier_run_length: "barrier_run n k s \<Longrightarrow> length (sys_parts s) = n"
  by (induction rule: barrier_run.induct)
     (auto simp: new_system_def advance_part_def leave_part_def split: prod.splits)

lemma new_system_ok: "n < 2 ^ 32 \<Longrightarrow> barrier_ok (sys_page (new_system n)) (sys_parts (new_system n))"
  by (simp add: new_system_def new_barrier_def barrier_ok_def cnt_def filter_replicate list_all_iff
      unat_of_nat_eq)

lemma barrier_run_ok:
  assumes "barrier_run n k s" "n < 2 ^ 32" "k < 2 ^ 64"
  shows "barrier_ok (sys_page s) (sys_parts s) \<and> unat (bs_generation (sys_page s)) \<le> k"
  using assms
proof (induction rule: barrier_run.induct)
  case Fresh
  then show ?case by (simp add: new_system_ok) (simp add: new_system_def new_barrier_def)
next
  case (Access k s i)
  then have IH: "barrier_ok (sys_page s) (sys_parts s)" "unat (bs_generation (sys_page s)) \<le> k" by auto
  obtain p' b' where m: "micro (sys_parts s ! i) (sys_page s) = (p', b')" by (meson surj_pair)
  from micro_keeps_ok [OF IH(1) _ _ m] IH(2) Access.hyps Access.prems barrier_run_length [OF Access.hyps(1)]
  show ?case by (simp add: advance_part_def m)
next
  case (Leave k s i)
  then have IH: "barrier_ok (sys_page s) (sys_parts s)" "unat (bs_generation (sys_page s)) \<le> k" by auto
  have i: "i < length (sys_parts s)" using Leave.hyps barrier_run_length by simp
  obtain g where q: "sys_parts s ! i = (g, Working)" using Leave.hyps(3) by (metis prod.collapse)
  have "g = bs_generation (sys_page s)" using barrier_okD(1) [OF IH(1) i] q by simp
  then show ?case using IH(2) q
    by (auto simp: leave_part_def begin_leave_def intro!: ok_frame [OF IH(1) i])
qed

section \<open>What the barrier promises\<close>

text \<open>A participant that has counted itself at its generation and has not moved on; one that is leaving.\<close>

fun has_arrived :: "participant \<Rightarrow> bool" where
  "has_arrived (g, Waiting) = True"
| "has_arrived (g, Activity leaving _) = (\<not> leaving)"
| "has_arrived (g, Restore leaving) = (\<not> leaving)"
| "has_arrived (g, LoadForRearm leaving) = (\<not> leaving)"
| "has_arrived (g, Rearm leaving _) = (\<not> leaving)"
| "has_arrived (g, Publish leaving) = (\<not> leaving)"
| "has_arrived (g, Wake leaving) = (\<not> leaving)"
| "has_arrived _ = False"

definition is_leaving :: "participant \<Rightarrow> bool" where
  "is_leaving p \<longleftrightarrow> \<not> counted_in p \<or> snd p = DropExpected"

lemma member_generation:
  assumes "part_ok G p" "counted_in p"
  shows "fst p = G \<or> Suc (unat (fst p)) = unat G \<and> has_arrived p"
  using assms by (cases "(G, p)" rule: part_ok.cases) (auto split: if_splits)

lemma member_to_come: "counted_in p \<Longrightarrow> to_come G p \<or> has_arrived p"
  by (cases p; cases "snd p") auto

lemma run_part_ok:
  assumes "barrier_run n k s" "n < 2 ^ 32" "k < 2 ^ 64" "i < n"
  shows "part_ok (bs_generation (sys_page s)) (sys_parts s ! i)"
  using barrier_run_ok [OF assms(1-3)] barrier_run_length [OF assms(1)] assms(4) barrier_okD(1) by blast

lemma skew_is_one:
  assumes "barrier_run n k s" "n < 2 ^ 32" "k < 2 ^ 64" "i < n" "j < n"
    and "counted_in (sys_parts s ! i)" "counted_in (sys_parts s ! j)"
  shows "unat (fst (sys_parts s ! i)) \<le> Suc (unat (fst (sys_parts s ! j))) \<and>
    (fst (sys_parts s ! j) < fst (sys_parts s ! i) \<longrightarrow> has_arrived (sys_parts s ! j))"
  using member_generation [OF run_part_ok [OF assms(1-3,4)] assms(6)]
    member_generation [OF run_part_ok [OF assms(1-3,5)] assms(7)]
  by (auto simp: word_less_nat_alt)

lemma two_openers:
  assumes "cnt P xs = 1" "i < length xs" "j < length xs" "P (xs ! i)" "P (xs ! j)"
  shows "i = j"
proof (rule ccontr)
  assume "i \<noteq> j"
  have "length (filter P xs) = card {l. l < length xs \<and> P (xs ! l)}" by (rule length_filter_conv_card)
  moreover have "card {i, j} \<le> card {l. l < length xs \<and> P (xs ! l)}"
    using assms by (intro card_mono) auto
  ultimately show False using assms(1) \<open>i \<noteq> j\<close> by (simp add: cnt_def)
qed

lemma opener_waits_for_all:
  assumes "barrier_run n k s" "n < 2 ^ 32" "k < 2 ^ 64" "i < n" "j < n"
    and "opener (sys_parts s ! i)"
  shows "(opener (sys_parts s ! j) \<longrightarrow> j = i) \<and>
    (counted_in (sys_parts s ! j) \<longrightarrow> has_arrived (sys_parts s ! j) \<and>
       fst (sys_parts s ! j) = bs_generation (sys_page s))"
proof -
  have ok: "barrier_ok (sys_page s) (sys_parts s)" using barrier_run_ok [OF assms(1-3)] by simp
  have i: "i < length (sys_parts s)" and j: "j < length (sys_parts s)"
    using assms(4,5) barrier_run_length [OF assms(1)] by simp_all
  note o = barrier_okD(5) [OF ok i assms(6)]
  have nt: "\<not> to_come (bs_generation (sys_page s)) (sys_parts s ! j)" using o j by (simp add: cnt_0)
  have "fst p = G" if "part_ok G p" "counted_in p" "\<not> to_come G p" for G p
    using that by (cases "(G, p)" rule: part_ok.cases) (auto split: if_splits)
  then show ?thesis
    using two_openers [OF _ i j] o assms(6) nt barrier_okD(1) [OF ok j] member_to_come by blast
qed

lemma remaining_is_the_rest:
  assumes "barrier_run n k s" "n < 2 ^ 32" "k < 2 ^ 64" "\<forall>i < n. \<not> opener (sys_parts s ! i)"
  shows "unat (bs_remaining (sys_page s)) = cnt (to_come (bs_generation (sys_page s))) (sys_parts s)"
    "bs_remaining (sys_page s) = 0 \<longrightarrow> bs_expected (sys_page s) = 0"
proof -
  have "cnt opener (sys_parts s) = 0"
    using assms(4) barrier_run_length [OF assms(1)] unfolding cnt_0 by (metis in_set_conv_nth)
  then show "unat (bs_remaining (sys_page s)) = cnt (to_come (bs_generation (sys_page s))) (sys_parts s)"
    "bs_remaining (sys_page s) = 0 \<longrightarrow> bs_expected (sys_page s) = 0"
    using barrier_run_ok [OF assms(1-3)] by (auto simp: barrier_ok_def)
qed

lemma waiters_are_released:
  assumes "barrier_run n k s" "n < 2 ^ 32" "k < 2 ^ 64"
    and all: "\<forall>i < n. snd (sys_parts s ! i) \<in> {Waiting, Left}" and i: "i < n" "snd (sys_parts s ! i) = Waiting"
  shows "\<exists>j < n. snd (sys_parts s ! j) = Waiting \<and> is_open (fst (sys_parts s ! j)) (sys_page s)"
proof -
  let ?b = "sys_page s" and ?ps = "sys_parts s"
  have len: "length ?ps = n" by (rule barrier_run_length [OF assms(1)])
  have no: "\<forall>i < n. \<not> opener (?ps ! i)"
    using all by (metis insertE opener.simps(13,14) prod.collapse singletonD)
  have "counted_in (?ps ! i)" using i by (cases "?ps ! i") auto
  then have "bs_expected ?b \<noteq> 0"
    using barrier_okD(2) barrier_run_ok [OF assms(1-3)] i len by blast
  then have "0 < cnt (to_come (bs_generation ?b)) ?ps"
    using remaining_is_the_rest [OF assms(1-3) no] by (metis unat_eq_zero gr0I)
  then obtain j where j: "j < n" "to_come (bs_generation ?b) (?ps ! j)"
    using len by (auto simp: cnt_def filter_empty_conv in_set_conv_nth)
  obtain g ph where q: "?ps ! j = (g, ph)" by (cases "?ps ! j")
  have "ph \<in> {Waiting, Left}" using all j(1) q by force
  then have "ph = Waiting" "g \<noteq> bs_generation ?b" using j(2) q by auto
  moreover have "part_ok (bs_generation ?b) (g, ph)" using run_part_ok [OF assms(1-3) j(1)] q by simp
  ultimately have "g < bs_generation ?b" by (auto simp: word_less_nat_alt)
  with j(1) q \<open>ph = Waiting\<close> show ?thesis by (auto simp: is_open_def)
qed

text \<open>How many accesses an arrival or a departure still takes at most, and that each one counts down, whatever the page holds.\<close>

fun accesses_left :: "phase \<Rightarrow> nat" where
  "accesses_left Working = 8"
| "accesses_left LoadExpected = 7"
| "accesses_left VacuousCas = 2"
| "accesses_left CountDown = 6"
| "accesses_left DropExpected = 7"
| "accesses_left (CountOut _) = 6"
| "accesses_left (Activity _ _) = 5"
| "accesses_left (LoadForRearm _) = 4"
| "accesses_left (Rearm _ _) = 3"
| "accesses_left (Publish _) = 2"
| "accesses_left (Wake _) = 1"
| "accesses_left (Restore _) = 1"
| "accesses_left Waiting = 0"
| "accesses_left Left = 0"

lemma accesses_left_settled: "accesses_left ph = 0 \<longleftrightarrow> ph \<in> {Waiting, Left}"
  by (cases ph) auto

lemma access_counts_down: "ph \<notin> {Waiting, Left} \<Longrightarrow> accesses_left (snd (fst (micro (g, ph) b))) < accesses_left ph"
  by (cases ph) (auto simp: settle_def after_count_def)

lemma someone_moves:
  assumes "barrier_run n k s" "n < 2 ^ 32" "k < 2 ^ 64" and i: "i < n" "snd (sys_parts s ! i) \<noteq> Left"
  shows "\<exists>j < n. fst (micro (sys_parts s ! j) (sys_page s)) \<noteq> sys_parts s ! j"
proof (cases "\<forall>j < n. snd (sys_parts s ! j) \<in> {Waiting, Left}")
  case True
  then obtain j where "j < n" "snd (sys_parts s ! j) = Waiting" "is_open (fst (sys_parts s ! j)) (sys_page s)"
    using waiters_are_released [OF assms(1-3) True i(1)] i by auto
  then show ?thesis by (intro exI [of _ j]) (cases "sys_parts s ! j", auto)
next
  case False
  then obtain j where j: "j < n" "snd (sys_parts s ! j) \<notin> {Waiting, Left}" by blast
  obtain g ph where q: "sys_parts s ! j = (g, ph)" by (cases "sys_parts s ! j")
  then have "accesses_left (snd (fst (micro (g, ph) (sys_page s)))) \<noteq> accesses_left ph"
    using access_counts_down [of ph g "sys_page s"] j(2) by simp
  then show ?thesis using j(1) q by (intro exI [of _ j]) auto
qed

lemma cnt_mono: "(\<And>x. x \<in> set xs \<Longrightarrow> P x \<Longrightarrow> Q x) \<Longrightarrow> cnt P xs \<le> cnt Q xs"
  unfolding cnt_def by (induction xs) auto

lemma idle_page:
  assumes "barrier_run n k s" "n < 2 ^ 32" "k < 2 ^ 64"
    and all: "\<forall>i < n. snd (sys_parts s ! i) = Working \<or> is_leaving (sys_parts s ! i)"
  shows "\<not> peers_waiting (sys_page s)"
proof -
  let ?b = "sys_page s" and ?ps = "sys_parts s"
  have ok: "barrier_ok ?b ?ps" using barrier_run_ok [OF assms(1-3)] by simp
  have le: "cnt counted_in ?ps \<le> cnt (to_come (bs_generation ?b)) ?ps"
  proof (rule cnt_mono)
    fix p assume "p \<in> set ?ps" "counted_in p"
    then have "snd p \<in> {Working, DropExpected}"
      using all barrier_run_length [OF assms(1)] by (auto simp: in_set_conv_nth is_leaving_def)
    then show "to_come (bs_generation ?b) p" by (cases p) auto
  qed
  show ?thesis
  proof (cases "cnt opener ?ps = 0")
    case True
    then show ?thesis using ok le by (simp add: barrier_ok_def peers_waiting_def word_less_nat_alt)
  next
    case False
    then have "unat (bs_expected ?b) = 0" using ok le by (simp add: barrier_ok_def)
    then show ?thesis by (simp add: peers_waiting_def word_less_nat_alt)
  qed
qed

text \<open>Alone, the accesses of a routine are the routine.\<close>

definition alone :: "participant \<times> barrier_shared \<Rightarrow> participant \<times> barrier_shared" where
  "alone c = micro (fst c) (snd c)"

lemma arrive_alone:
  "\<exists>k \<le> 8. (alone ^^ k) ((g, Working), b) = ((g, Waiting), snd (arrive g b))"
proof -
  consider "bs_generation b \<noteq> g" | "bs_generation b = g" "bs_expected b = 0"
    | "bs_generation b = g" "bs_expected b \<noteq> 0" "bs_remaining b = 1"
    | "bs_generation b = g" "bs_expected b \<noteq> 0" "bs_remaining b = 0"
    | "bs_generation b = g" "bs_expected b \<noteq> 0" "bs_remaining b \<noteq> 1" "bs_remaining b \<noteq> 0" by blast
  then show ?thesis
  proof cases
    case 1
    then show ?thesis by (intro exI [of _ 1]) (simp add: alone_def arrive_def)
  next
    case 2
    then show ?thesis
      by (intro exI [of _ 4]) (simp add: alone_def arrive_def eval_nat_numeral settle_def wake_waiters_def)
  next
    case 3
    then show ?thesis
      by (intro exI [of _ 8]) (simp add: alone_def arrive_def eval_nat_numeral settle_def wake_waiters_def
          after_count_def note_activity_def open_generation_def Let_def)
  next
    case 4
    then show ?thesis
      by (intro exI [of _ 5]) (simp add: alone_def arrive_def eval_nat_numeral settle_def
          after_count_def note_activity_def Let_def)
  next
    case 5
    then show ?thesis
      by (intro exI [of _ 4]) (simp add: alone_def arrive_def eval_nat_numeral settle_def
          after_count_def note_activity_def Let_def)
  qed
qed

lemma leave_alone:
  "\<exists>k \<le> 7. (alone ^^ k) (begin_leave (g, Working) b, b) = ((g, Left), snd (drop_participant g b))"
proof -
  consider "g < bs_generation b" | "\<not> g < bs_generation b" "bs_remaining b = 1"
    | "\<not> g < bs_generation b" "bs_remaining b = 0"
    | "\<not> g < bs_generation b" "bs_remaining b \<noteq> 1" "bs_remaining b \<noteq> 0" by blast
  then show ?thesis
  proof cases
    case 1
    then show ?thesis
      by (intro exI [of _ 0]) (simp add: begin_leave_def drop_participant_def try_drop_participant_def)
  next
    case 2
    then show ?thesis
      by (intro exI [of _ 7]) (simp add: alone_def begin_leave_def drop_participant_def try_drop_participant_def
          eval_nat_numeral settle_def wake_waiters_def after_count_def note_activity_def open_generation_def Let_def)
  next
    case 3
    then show ?thesis
      by (intro exI [of _ 4]) (simp add: alone_def begin_leave_def drop_participant_def try_drop_participant_def
          eval_nat_numeral settle_def after_count_def note_activity_def Let_def)
  next
    case 4
    then show ?thesis
      by (intro exI [of _ 3]) (simp add: alone_def begin_leave_def drop_participant_def try_drop_participant_def
          eval_nat_numeral settle_def after_count_def note_activity_def Let_def)
  qed
qed

text \<open>The bounded drop loop gives up only if the generation moved under every attempt.\<close>

lemma apply_drop_exhausted:
  "fst (apply_drop k churn b) = ExhaustedRetries \<Longrightarrow> k \<noteq> 0 \<Longrightarrow>
     bs_generation b < bs_generation (churn (k - 1) b)"
  by (cases k) (auto simp: try_drop_participant_def Let_def split: if_splits)

lemma drop_dead_peer_in_peace:
  assumes "\<And>k b. bs_generation (churn k b) = bs_generation b" "bs_expected b \<noteq> 0"
  shows "\<exists>opened. fst (drop_dead_peer polls churn b) = DropApplied opened"
  using assms by (auto simp: drop_dead_peer_def MAX_ATTEMPTS_def try_drop_participant_def eval_nat_numeral Let_def)

text \<open>A schedule is a run; \<open>two\<close> is a page of two participants after one.\<close>

lemma schedule_run: "set sched \<subseteq> {..<n} \<Longrightarrow>
    barrier_run n (length sched) (fold advance_part sched (new_system n))"
proof (induction sched rule: rev_induct)
  case Nil
  then show ?case by (simp add: barrier_run.Fresh)
next
  case (snoc i sched)
  then have "i < n" "barrier_run n (length sched) (fold advance_part sched (new_system n))" by auto
  from barrier_run.Access [OF this(2) this(1)] show ?case by simp
qed

definition two :: "nat list \<Rightarrow> barrier_system" where
  "two sched = fold advance_part sched (new_system 2)"

lemma two_run: "set sched \<subseteq> {0, 1} \<Longrightarrow> length sched = k \<Longrightarrow> barrier_run 2 k (two sched)"
  using schedule_run [of sched 2] by (force simp: two_def)

lemmas two_simps = two_def new_system_def new_barrier_def advance_part_def numeral_2_eq_2 settle_def
  after_count_def note_activity_def wake_waiters_def is_open_def

section \<open>Properties\<close>

text \<open>
  C2. The barrier separates generations: whatever the interleaving of the participants' accesses, two that
  are still expected are never more than one generation apart, and where one is ahead the other has
  arrived at the generation it sits at; nobody passes a boundary some peer has not reached.
\<close>

theorem barrier_separates_generations:
  assumes "barrier_run n k s" "n < 2 ^ 32" "k < 2 ^ 64" "i < n" "j < n"
    and "counted_in (sys_parts s ! i)" "counted_in (sys_parts s ! j)"
  shows "unat (fst (sys_parts s ! i)) \<le> Suc (unat (fst (sys_parts s ! j))) \<and>
    (fst (sys_parts s ! j) < fst (sys_parts s ! i) \<longrightarrow> has_arrived (sys_parts s ! j))"
  by (rule skew_is_one [OF assms])

theorem barrier_separates_generations_witness:
  "fst (sys_parts (two [0,0,0,0, 1,1,1,1,1,1,1,1, 0]) ! 0) = 1 \<and>
   has_arrived (sys_parts (two [0,0,0,0, 1,1,1,1,1,1,1,1, 0]) ! 1)"
proof -
  let ?s = "two [0,0,0,0, 1,1,1,1,1,1,1,1, 0]"
  have r: "barrier_run 2 13 ?s" by (rule two_run) simp_all
  have p: "sys_parts ?s = [(1, Working), (0, Waiting)]" by (simp add: two_simps)
  then have "has_arrived (sys_parts ?s ! 1)"
    using barrier_separates_generations [OF r, of 0 1] by simp
  with p show ?thesis by simp
qed

text \<open>
  C31. A generation has one opener, and it opens on all: at most one participant is between counting to
  zero and publishing, arrivals and departures alike, and while one is every participant still expected
  has arrived at the generation being opened; the error paths of an underflow and the vacuous barrier are
  never entered, and with no opener the count is that of the participants still to come.
\<close>

theorem one_opener_for_all:
  assumes "barrier_run n k s" "n < 2 ^ 32" "k < 2 ^ 64" "i < n"
  shows "(opener (sys_parts s ! i) \<longrightarrow> (\<forall>j < n. (opener (sys_parts s ! j) \<longrightarrow> j = i) \<and>
      (counted_in (sys_parts s ! j) \<longrightarrow> has_arrived (sys_parts s ! j) \<and>
         fst (sys_parts s ! j) = bs_generation (sys_page s)))) \<and>
    snd (sys_parts s ! i) \<noteq> VacuousCas \<and> (\<forall>l. snd (sys_parts s ! i) \<noteq> Restore l) \<and>
    ((\<forall>j < n. \<not> opener (sys_parts s ! j)) \<longrightarrow>
      unat (bs_remaining (sys_page s)) = cnt (to_come (bs_generation (sys_page s))) (sys_parts s))"
  using opener_waits_for_all [OF assms(1-4)] run_part_ok [OF assms] remaining_is_the_rest(1) [OF assms(1-3)]
  by (cases "sys_parts s ! i") auto

theorem one_opener_for_all_witness:
  "sys_parts (two [0,0,0,0, 1,1,1,1,1]) = [(0, Waiting), (0, Rearm False 2)] \<and>
   \<not> opener (sys_parts (two [0,0,0,0, 1,1,1,1,1]) ! 0)"
proof -
  let ?s = "two [0,0,0,0, 1,1,1,1,1]"
  have r: "barrier_run 2 9 ?s" by (rule two_run) simp_all
  have p: "sys_parts ?s = [(0, Waiting), (0, Rearm False 2)]" by (simp add: two_simps)
  have "\<forall>j < 2. opener (sys_parts ?s ! j) \<longrightarrow> j = 1"
    using one_opener_for_all [OF r, of 1] p by simp
  moreover have "(0::nat) < 2" by simp
  ultimately have "\<not> opener (sys_parts ?s ! 0)" by (metis zero_neq_one)
  with p show ?thesis by simp
qed

text \<open>
  C16. The barrier cannot hang by itself. Wherever the participants are in their accesses, arriving, leaving or
  polling, and whoever left before: as long as one has not left, some participant's next access moves it, and only
  polling can wait: every other access of an arrival or a departure, of which there are at most eight, brings
  its end nearer, whatever the others did to the page. So when none of them is still on its way, all remaining participants
  poll and one of them finds its generation open. A participant leaves between boundaries: a worker leaves when its
  run has returned, and one whose wait timed out does not.
\<close>

theorem barrier_never_hangs:
  assumes "barrier_run n k s" "n < 2 ^ 32" "k < 2 ^ 64" "i < n" "snd (sys_parts s ! i) \<noteq> Left"
  shows "(\<exists>j < n. fst (micro (sys_parts s ! j) (sys_page s)) \<noteq> sys_parts s ! j) \<and>
    (\<forall>j < n. \<forall>page. snd (sys_parts s ! j) \<notin> {Waiting, Left} \<longrightarrow>
       accesses_left (snd (fst (micro (sys_parts s ! j) page))) < accesses_left (snd (sys_parts s ! j)) \<and>
       accesses_left (snd (sys_parts s ! j)) \<le> 8) \<and>
    ((\<forall>j < n. snd (sys_parts s ! j) \<in> {Waiting, Left}) \<longrightarrow>
       (\<exists>j < n. snd (sys_parts s ! j) = Waiting \<and> is_open (fst (sys_parts s ! j)) (sys_page s)))"
proof -
  have "accesses_left ph \<le> 8" for ph by (cases ph) auto
  moreover have "accesses_left (snd (fst (micro (sys_parts s ! j) page))) < accesses_left (snd (sys_parts s ! j))"
    if "snd (sys_parts s ! j) \<notin> {Waiting, Left}" for j page
    using access_counts_down [of "snd (sys_parts s ! j)" "fst (sys_parts s ! j)" page] that by simp
  moreover have "\<exists>j < n. snd (sys_parts s ! j) = Waiting \<and> is_open (fst (sys_parts s ! j)) (sys_page s)"
    if "\<forall>j < n. snd (sys_parts s ! j) \<in> {Waiting, Left}"
    using waiters_are_released [OF assms(1-3) that assms(4)] that assms(4,5) by auto
  ultimately show ?thesis using someone_moves [OF assms] by blast
qed

text \<open>The first participant polls while the second, on its way out, has still to count itself out.\<close>

definition mid_departure :: barrier_system where
  "mid_departure = advance_part 1 (leave_part 1 (two [0, 0, 0, 0]))"

theorem barrier_never_hangs_witness:
  "sys_parts mid_departure = [(0, Waiting), (0, CountOut 2)] \<and>
   (\<exists>j < 2. fst (micro (sys_parts mid_departure ! j) (sys_page mid_departure)) \<noteq> sys_parts mid_departure ! j)"
proof -
  have p: "sys_parts mid_departure = [(0, Waiting), (0, CountOut 2)]"
    by (simp add: mid_departure_def leave_part_def begin_leave_def two_simps)
  have "barrier_run 2 4 (two [0, 0, 0, 0])" by (rule two_run) simp_all
  then have "barrier_run 2 5 (leave_part 1 (two [0, 0, 0, 0]))"
    using barrier_run.Leave [of 2 4 _ 1] by (simp add: two_simps)
  from barrier_run.Access [OF this, of 1] have "barrier_run 2 6 mid_departure" by (simp add: mid_departure_def)
  from barrier_never_hangs [OF this, of 0] p show ?thesis by simp
qed

text \<open>
  An idle page wakes nobody: while every participant is between boundaries or leaving, at whatever
  access of its departure, \<open>peers_waiting\<close> is false; the order in which a drop lowers the two counts
  is what makes it so.
\<close>

theorem idle_page_wakes_nobody:
  assumes "barrier_run n k s" "n < 2 ^ 32" "k < 2 ^ 64"
    and "\<forall>i < n. snd (sys_parts s ! i) = Working \<or> is_leaving (sys_parts s ! i)"
  shows "\<not> peers_waiting (sys_page s)"
  by (rule idle_page [OF assms])

theorem idle_page_wakes_nobody_witness:
  "sys_parts (two []) = [(0, Working), (0, Working)] \<and> \<not> peers_waiting (sys_page (two []))"
proof -
  have r: "barrier_run 2 0 (two [])" by (rule two_run) simp_all
  have p: "sys_parts (two []) = [(0, Working), (0, Working)]" by (simp add: two_simps)
  with idle_page_wakes_nobody [OF r] show ?thesis by (auto simp: less_2_cases_iff)
qed

text \<open>
  The accesses are the routines: performed without interference, those of an arrival leave the page as
  \<open>arrive\<close> does, with the participant waiting, and those of a departure as \<open>drop_participant\<close> does.
\<close>

theorem accesses_are_the_routines:
  "(\<exists>k \<le> 8. (alone ^^ k) ((g, Working), b) = ((g, Waiting), snd (arrive g b))) \<and>
   (\<exists>k \<le> 7. (alone ^^ k) (begin_leave (g, Working) b, b) = ((g, Left), snd (drop_participant g b)))"
  by (rule conjI [OF arrive_alone leave_alone])

end
