(* ===== verification/TraceMerge.thy ===== *)
theory TraceMerge
  imports NodeFire "HOL-Library.Multiset" "HOL-Library.Product_Lexorder"
begin

text \<open>
  The merge of per-process traces into one (\<open>scheduler/trace_merge.rs\<close>): every fire is tagged with its
  step, its global level, the rank of its process and its position in that process's trace, and the tags
  are sorted. What is shown of it: the result depends on no order in which the processes are handed over,
  and the traces a run leaves when its levels are spread over processes merge into the trace of the same
  run in one process.
\<close>

section \<open>The merge\<close>

record process_trace =
  pt_rank :: nat
  pt_trace :: "trace_entry list"

type_synonym merge_key = "u64 \<times> nat \<times> nat \<times> nat"

datatype merge_error = DuplicateRanks

definition tag_entry :: "nat \<Rightarrow> nat \<times> trace_entry \<Rightarrow> merge_key \<times> trace_entry" where
  "tag_entry rank p = ((te_step (snd p), te_global_level (snd p), rank, fst p), snd p)"

definition tag_trace :: "process_trace \<Rightarrow> (merge_key \<times> trace_entry) list" where
  "tag_trace p = map (tag_entry (pt_rank p)) (enumerate 0 (pt_trace p))"

definition merge_partition_traces :: "process_trace list \<Rightarrow> merge_error + trace_entry list" where
  "merge_partition_traces processes =
     (if length (remdups_adj (sort (map pt_rank processes))) \<noteq> length processes then Inl DuplicateRanks
      else Inr (map snd (sort_key fst (concat (map tag_trace processes)))))"

section \<open>Keys\<close>

lemma dedup_sorted: "sorted xs \<Longrightarrow> length (remdups_adj xs) = length xs \<longleftrightarrow> distinct xs"
proof (induction xs rule: remdups_adj.induct)
  case (3 x y xs)
  have "length (remdups_adj (x # xs)) \<le> length (x # xs)" by (rule remdups_adj_length)
  with 3 show ?case by (auto simp: less_le)
qed simp_all

lemma rank_check: "length (remdups_adj (sort (map pt_rank ps))) = length ps \<longleftrightarrow> distinct (map pt_rank ps)"
  using dedup_sorted [of "sort (map pt_rank ps)"] by simp

lemma tag_trace_key:
  assumes "x \<in> set (tag_trace p)"
  shows "\<exists>q < length (pt_trace p). x = tag_entry (pt_rank p) (q, pt_trace p ! q)"
proof -
  obtain q where "q < length (pt_trace p)" "x = tag_entry (pt_rank p) (q, pt_trace p ! q)"
    using assms by (auto simp: tag_trace_def in_set_conv_nth nth_enumerate_eq)
  then show ?thesis by blast
qed

lemma keys_distinct:
  "distinct (map pt_rank ps) \<Longrightarrow> inj_on fst (set (concat (map tag_trace ps)))"
proof (rule inj_onI)
  fix x y
  assume d: "distinct (map pt_rank ps)" and "x \<in> set (concat (map tag_trace ps))"
    "y \<in> set (concat (map tag_trace ps))" and e: "fst x = fst y"
  then obtain p q where p: "p \<in> set ps" "x \<in> set (tag_trace p)" and q: "q \<in> set ps" "y \<in> set (tag_trace q)"
    by auto
  obtain m n where x: "x = tag_entry (pt_rank p) (m, pt_trace p ! m)"
    and y: "y = tag_entry (pt_rank q) (n, pt_trace q ! n)"
    using tag_trace_key [OF p(2)] tag_trace_key [OF q(2)] by auto
  from e have "pt_rank p = pt_rank q" "m = n" by (simp_all add: x y tag_entry_def)
  then have "p = q" using d p(1) q(1) by (simp add: distinct_map inj_on_def)
  with \<open>m = n\<close> show "x = y" by (simp add: x y)
qed

lemma merge_Inr: "distinct (map pt_rank ps) \<Longrightarrow>
    merge_partition_traces ps = Inr (map snd (sort_key fst (concat (map tag_trace ps))))"
  by (simp add: merge_partition_traces_def rank_check)

lemma merge_permutation:
  assumes "mset ps = mset qs"
  shows "merge_partition_traces ps = merge_partition_traces qs"
proof (cases "distinct (map pt_rank ps)")
  case True
  have d: "distinct (map pt_rank qs)"
    using True assms by (metis mset_eq_imp_distinct_iff mset_map)
  have "mset (concat (map tag_trace ps)) = mset (concat (map tag_trace qs))"
    by (simp add: mset_concat assms flip: sum_mset_sum_list)
  moreover have "mset (sort_key fst (concat (map tag_trace qs))) = mset (concat (map tag_trace qs))"
    by simp
  ultimately have "sort_key fst (concat (map tag_trace ps)) = sort_key fst (concat (map tag_trace qs))"
    using keys_distinct [OF True] by (intro sort_key_inj_key_eq) simp_all
  then show ?thesis by (simp add: merge_Inr True d)
next
  case False
  have "\<not> distinct (map pt_rank qs)" "length ps = length qs"
    using False assms by (metis mset_eq_imp_distinct_iff mset_map, metis size_mset)
  then show ?thesis using False rank_check [of ps] rank_check [of qs]
    by (auto simp: merge_partition_traces_def)
qed

section \<open>A run spread over processes\<close>

text \<open>
  The trace of a run in one process is ordered by step and level; a process that owns some of the levels
  leaves the fires of those, in the same order.
\<close>

definition in_level_order :: "trace_entry list \<Rightarrow> bool" where
  "in_level_order tr \<longleftrightarrow> sorted (map (\<lambda>e. (te_step e, te_global_level e)) tr)"

definition share :: "(nat \<Rightarrow> nat) \<Rightarrow> trace_entry list \<Rightarrow> nat \<Rightarrow> process_trace" where
  "share owner tr r = \<lparr>pt_rank = r, pt_trace = filter (\<lambda>e. owner (te_global_level e) = r) tr\<rparr>"

definition tag_run :: "(nat \<Rightarrow> nat) \<Rightarrow> trace_entry list \<Rightarrow> (merge_key \<times> trace_entry) list" where
  "tag_run owner tr =
     map (\<lambda>i. tag_entry (owner (te_global_level (tr ! i)))
       (length (filter (\<lambda>e. owner (te_global_level e) = owner (te_global_level (tr ! i))) (take i tr)), tr ! i))
       [0..<length tr]"

lemma tag_run_snoc: "tag_run owner (tr @ [e]) = tag_run owner tr @
    [tag_entry (owner (te_global_level e))
       (length (pt_trace (share owner tr (owner (te_global_level e)))), e)]"
  by (simp add: tag_run_def share_def nth_append cong: map_cong)

lemma share_snoc: "tag_trace (share owner (tr @ [e]) r) = tag_trace (share owner tr r) @
    (if owner (te_global_level e) = r then [tag_entry r (length (pt_trace (share owner tr r)), e)] else [])"
  by (simp add: tag_trace_def share_def enumerate_append_eq)

lemma mset_concat_one:
  assumes "distinct rs" "r0 \<in> set rs"
  shows "mset (concat (map (\<lambda>r. f r @ (if r0 = r then [x] else [])) rs)) = add_mset x (mset (concat (map f rs)))"
  using assms
proof (induction rs)
  case (Cons r rs)
  have no: "concat (map (\<lambda>r. f r @ (if r0 = r then [x] else [])) rs) = concat (map f rs)" if "r0 \<notin> set rs"
    using that by (induction rs) auto
  show ?case using Cons no by (cases "r0 = r") auto
qed simp

lemma shares_tagged:
  assumes "distinct rs"
  shows "(\<forall>e \<in> set tr. owner (te_global_level e) \<in> set rs) \<Longrightarrow>
    mset (concat (map tag_trace (map (share owner tr) rs))) = mset (tag_run owner tr)"
proof (induction tr rule: rev_induct)
  case Nil
  have "concat (map tag_trace (map (share owner []) rs)) = []"
    by (induction rs) (simp_all add: tag_trace_def share_def)
  then show ?case by (simp add: tag_run_def)
next
  case (snoc e tr)
  let ?r = "owner (te_global_level e)"
  have "concat (map tag_trace (map (share owner (tr @ [e])) rs)) =
    concat (map (\<lambda>r. tag_trace (share owner tr r) @
      (if ?r = r then [tag_entry ?r (length (pt_trace (share owner tr ?r)), e)] else [])) rs)"
    by (rule arg_cong [of _ _ concat]) (auto simp: share_snoc)
  then show ?case
    using snoc mset_concat_one [OF assms, of ?r "\<lambda>r. tag_trace (share owner tr r)"]
    by (simp add: tag_run_snoc comp_def)
qed

lemma take_prefix_counts:
  assumes "i \<le> j" "j < length tr"
  shows "length (filter P (take i tr)) \<le> length (filter P (take j tr))"
proof -
  have "take j tr = take i tr @ take (j - i) (drop i tr)"
    using assms by (simp add: take_add [symmetric])
  then show ?thesis by simp
qed

lemma tag_run_sorted:
  assumes "in_level_order tr"
  shows "sorted (map fst (tag_run owner tr))"
proof -
  have "fst (tag_run owner tr ! i) \<le> fst (tag_run owner tr ! j)" if ij: "i \<le> j" "j < length tr" for i j
  proof -
    have "(te_step (tr ! i), te_global_level (tr ! i)) \<le> (te_step (tr ! j), te_global_level (tr ! j))"
      using assms ij unfolding in_level_order_def by (auto simp: sorted_iff_nth_mono)
    then show ?thesis
      using ij take_prefix_counts [OF ij] by (auto simp: tag_run_def tag_entry_def less_eq_prod_def)
  qed
  then show ?thesis by (auto simp: sorted_iff_nth_mono tag_run_def)
qed

lemma merge_of_shares:
  assumes "in_level_order tr" "distinct rs" "\<forall>e \<in> set tr. owner (te_global_level e) \<in> set rs"
  shows "merge_partition_traces (map (share owner tr) rs) = Inr tr"
proof -
  let ?ps = "map (share owner tr) rs"
  have d: "distinct (map pt_rank ?ps)" using assms(2) by (simp add: share_def comp_def)
  have "sort_key fst (concat (map tag_trace ?ps)) = tag_run owner tr"
    using shares_tagged [OF assms(2,3)] keys_distinct [OF d] tag_run_sorted [OF assms(1)]
    by (intro sort_key_inj_key_eq) simp_all
  moreover have "map snd (tag_run owner tr) = tr"
    by (rule nth_equalityI) (simp_all add: tag_run_def tag_entry_def)
  ultimately show ?thesis by (simp add: merge_Inr [OF d])
qed

section \<open>Properties\<close>

text \<open>
  C9. A run spread over processes merges back into the run: when every global level is owned by one
  process, merging what the processes recorded gives, entry by entry, the trace of the same run in one
  process, also where a level has several nodes and where a step fires only some of them.
\<close>

theorem split_run_merges_back:
  assumes "in_level_order tr" "distinct ranks" "\<forall>e \<in> set tr. owner (te_global_level e) \<in> set ranks"
  shows "merge_partition_traces (map (share owner tr) ranks) = Inr tr"
  by (rule merge_of_shares [OF assms])

definition sample_entry :: "string \<Rightarrow> u64 \<Rightarrow> nat \<Rightarrow> trace_entry" where
  "sample_entry i step level =
     \<lparr>te_node_id = i, te_step = step, te_fire_time_ns = 0, te_global_level = level, te_duration_ns = 0,
      te_discarded = False\<rparr>"

theorem split_run_merges_back_witness:
  "merge_partition_traces
     [share (\<lambda>l. 1 - l) [sample_entry ''a'' 0 0, sample_entry ''b'' 0 1, sample_entry ''a'' 1 0] 0,
      share (\<lambda>l. 1 - l) [sample_entry ''a'' 0 0, sample_entry ''b'' 0 1, sample_entry ''a'' 1 0] 1] =
   Inr [sample_entry ''a'' 0 0, sample_entry ''b'' 0 1, sample_entry ''a'' 1 0]"
  using split_run_merges_back [of "[sample_entry ''a'' 0 0, sample_entry ''b'' 0 1, sample_entry ''a'' 1 0]"
      "[0, 1]" "\<lambda>l. 1 - l"]
  by (simp add: in_level_order_def sample_entry_def less_eq_prod_def)

text \<open>
  The merge depends on the traces only: it is an error exactly when two processes claim one rank, and
  otherwise it is the same whatever order the processes are handed over in, with every recorded fire in
  it once.
\<close>

theorem merge_ignores_process_order:
  "(mset ps = mset qs \<longrightarrow> merge_partition_traces ps = merge_partition_traces qs) \<and>
   (if distinct (map pt_rank ps)
    then \<exists>tr. merge_partition_traces ps = Inr tr \<and> mset tr = mset (concat (map pt_trace ps))
    else merge_partition_traces ps = Inl DuplicateRanks)"
proof -
  have "map snd (concat (map tag_trace ps)) = concat (map pt_trace ps)"
    by (induction ps) (simp_all add: tag_trace_def tag_entry_def comp_def)
  moreover have "mset (map snd (sort_key fst (concat (map tag_trace ps)))) = mset (map snd (concat (map tag_trace ps)))"
    by (metis mset_map mset_sort)
  moreover have "merge_partition_traces ps = Inl DuplicateRanks" if "\<not> distinct (map pt_rank ps)"
    using that by (simp add: merge_partition_traces_def rank_check)
  ultimately show ?thesis using merge_Inr [of ps] merge_permutation [of ps qs] by auto
qed

theorem merge_ignores_process_order_witness:
  "merge_partition_traces [\<lparr>pt_rank = 0, pt_trace = [sample_entry ''a'' 0 0]\<rparr>, \<lparr>pt_rank = 1, pt_trace = []\<rparr>] =
   merge_partition_traces [\<lparr>pt_rank = 1, pt_trace = []\<rparr>, \<lparr>pt_rank = 0, pt_trace = [sample_entry ''a'' 0 0]\<rparr>]"
  using merge_ignores_process_order
    [of "[\<lparr>pt_rank = 0, pt_trace = [sample_entry ''a'' 0 0]\<rparr>, \<lparr>pt_rank = 1, pt_trace = []\<rparr>]"
        "[\<lparr>pt_rank = 1, pt_trace = []\<rparr>, \<lparr>pt_rank = 0, pt_trace = [sample_entry ''a'' 0 0]\<rparr>]"]
  by (simp add: add_mset_commute)

end
