(* ===== verification/StateCodec.thy ===== *)
theory StateCodec
  imports Wire
begin

text \<open>
  The state codec (\<open>state/sink.rs\<close>, \<open>state/cursor.rs\<close>, \<open>state/impls.rs\<close>): how the fields of a node
  are written into a capture sink and read back from a recorded blob. A capture is a function on the
  sink, since a refused write latches it; a reader is a function on the cursor with its position and its
  budget of container elements.

  The contract of the trait \<open>CerulionState\<close> is the locale \<open>state_codec\<close>: what a capture emits into any
  sink, that its reader reads it back, that the declared floor is one. \<open>canonical_codec\<close> adds that no
  other bytes read as a value. Every impl is shown to keep the contract if the impls it is built from do,
  so the contract of a derived struct is found by composition.
\<close>

section \<open>Errors and sinks\<close>

datatype state_error =
    SinkFull
  | Truncated (tr_needed: nat) (tr_remaining: nat)
  | TrailingBytes nat
  | LengthOverflow nat
  | CountUnjustified (cj_declared: nat) (cj_budget: nat)
  | DuplicateEntry
  | NoncanonicalDuration u32
  | InvalidUtf8
  | InvalidChar u32
  | InvalidBool u8
  | InvalidTag u8
  | ZeroForNonZero
  | OutOfRange nat
  | LockContended
  | NodeCapture

record state_sink =
  ss_bytes :: bytes
  ss_cap :: "nat option"
  ss_refused :: bool

text \<open>\<open>VecSink\<close> has no capacity; \<open>BoundedSink\<close> is clamped to the slice it borrows.\<close>

definition vec_sink :: state_sink where
  "vec_sink = \<lparr>ss_bytes = [], ss_cap = None, ss_refused = False\<rparr>"

definition bounded_sink :: "nat \<Rightarrow> nat \<Rightarrow> state_sink" where
  "bounded_sink buf_len cap = \<lparr>ss_bytes = [], ss_cap = Some (min cap buf_len), ss_refused = False\<rparr>"

definition has_room :: "nat \<Rightarrow> state_sink \<Rightarrow> bool" where
  "has_room n s = (case ss_cap s of Some cap \<Rightarrow> length (ss_bytes s) + n \<le> cap | None \<Rightarrow> True)"

definition sink_write :: "bytes \<Rightarrow> state_sink \<Rightarrow> bool \<times> state_sink" where
  "sink_write bs s =
     (if ss_refused s then (False, s)
      else if has_room (length bs) s then (True, s\<lparr>ss_bytes := ss_bytes s @ bs\<rparr>)
      else (False, s\<lparr>ss_refused := True\<rparr>))"

definition remaining_hint :: "state_sink \<Rightarrow> nat option" where
  "remaining_hint s =
     map_option (\<lambda>cap. if ss_refused s then 0 else cap - length (ss_bytes s)) (ss_cap s)"

definition sink_refuse :: "state_sink \<Rightarrow> state_sink" where
  "sink_refuse s = (if ss_cap s = None then s else s\<lparr>ss_refused := True\<rparr>)"

definition consumed :: "state_sink \<Rightarrow> nat" where
  "consumed s =
     (case ss_cap s of Some cap \<Rightarrow> if ss_refused s then cap else length (ss_bytes s)
      | None \<Rightarrow> length (ss_bytes s))"

type_synonym capture = "state_sink \<Rightarrow> (state_error + unit) \<times> state_sink"

definition put :: "bytes \<Rightarrow> capture" where
  "put bs s = (case sink_write bs s of (True, s1) \<Rightarrow> (Inr (), s1) | (False, s1) \<Rightarrow> (Inl SinkFull, s1))"

definition nothing :: capture where
  "nothing s = (Inr (), s)"

text \<open>The \<open>?\<close> of the sources.\<close>

definition and_then :: "capture \<Rightarrow> capture \<Rightarrow> capture" where
  "and_then f g s = (case f s of (Inl e, s1) \<Rightarrow> (Inl e, s1) | (Inr _, s1) \<Rightarrow> g s1)"

definition write_len :: "nat \<Rightarrow> capture" where
  "write_len n s = (if n < 2 ^ 32 then put (to_le 4 n) s else (Inl (LengthOverflow n), s))"

fun capture_all :: "('a \<Rightarrow> capture) \<Rightarrow> 'a list \<Rightarrow> capture" where
  "capture_all f [] = nothing"
| "capture_all f (x # xs) = and_then (f x) (capture_all f xs)"

section \<open>Cursors\<close>

record state_cursor =
  cu_buf :: bytes
  cu_pos :: nat
  cu_budget :: nat

definition new_cursor :: "bytes \<Rightarrow> state_cursor" where
  "new_cursor buf = \<lparr>cu_buf = buf, cu_pos = 0, cu_budget = length buf\<rparr>"

definition remaining :: "state_cursor \<Rightarrow> nat" where
  "remaining c = length (cu_buf c) - cu_pos c"

definition unread :: "state_cursor \<Rightarrow> bytes" where
  "unread c = drop (cu_pos c) (cu_buf c)"

type_synonym 'a reader = "state_cursor \<Rightarrow> state_error + 'a \<times> state_cursor"

definition take_bytes :: "nat \<Rightarrow> bytes reader" where
  "take_bytes n c =
     (if n > remaining c then Inl (Truncated n (remaining c))
      else Inr (take n (unread c), c\<lparr>cu_pos := cu_pos c + n\<rparr>))"

definition charge_elements :: "nat \<Rightarrow> state_cursor \<Rightarrow> state_cursor" where
  "charge_elements n c = c\<lparr>cu_budget := cu_budget c - n\<rparr>"

definition read_then :: "'a reader \<Rightarrow> ('a \<Rightarrow> 'b reader) \<Rightarrow> 'b reader" where
  "read_then r f c = (case r c of Inl e \<Rightarrow> Inl e | Inr (v, c1) \<Rightarrow> f v c1)"

definition yield :: "'a \<Rightarrow> 'a reader" where
  "yield v c = Inr (v, c)"

definition fail :: "state_error \<Rightarrow> 'a reader" where
  "fail e c = Inl e"

definition read_payload_len :: "nat reader" where
  "read_payload_len = read_then (take_bytes 4) (\<lambda>bs. yield (from_le bs))"

definition read_element_count :: "nat reader" where
  "read_element_count = read_then read_payload_len (\<lambda>declared c.
     if declared > cu_budget c then Inl (CountUnjustified declared (cu_budget c))
     else Inr (declared, charge_elements declared c))"

fun read_n :: "nat \<Rightarrow> 'a reader \<Rightarrow> 'a list reader" where
  "read_n 0 r = yield []"
| "read_n (Suc n) r = read_then r (\<lambda>x. read_then (read_n n r) (\<lambda>xs. yield (x # xs)))"

definition finish_cursor :: "state_cursor \<Rightarrow> state_error + unit" where
  "finish_cursor c = (if remaining c = 0 then Inr () else Inl (TrailingBytes (remaining c)))"

text \<open>Restoring a blob reads one value and asserts that nothing is left.\<close>

definition restore_blob :: "'a reader \<Rightarrow> bytes \<Rightarrow> state_error + 'a" where
  "restore_blob r blob =
     (case r (new_cursor blob) of
        Inl e \<Rightarrow> Inl e
      | Inr (v, c) \<Rightarrow> (case finish_cursor c of Inl e \<Rightarrow> Inl e | Inr _ \<Rightarrow> Inr v))"

section \<open>What a capture emits and a reader reads\<close>

definition appended :: "bytes \<Rightarrow> state_sink \<Rightarrow> state_sink" where
  "appended bs s = s\<lparr>ss_bytes := ss_bytes s @ bs\<rparr>"

definition cut_off :: "bytes \<Rightarrow> state_sink \<Rightarrow> (state_error + unit) \<times> state_sink \<Rightarrow> bool" where
  "cut_off bs s r \<longleftrightarrow> (\<exists>p q. bs = p @ q \<and> has_room (length p) s \<and>
     r = (Inl SinkFull, (appended p s)\<lparr>ss_refused := True\<rparr>))"

text \<open>
  A capture emits \<open>bs\<close>: into a sink that takes all of them it appends them; otherwise it fails as a full
  sink, latched, with a prefix of them behind.
\<close>

definition emits_live :: "bytes \<Rightarrow> capture \<Rightarrow> bool" where
  "emits_live bs f \<longleftrightarrow> (\<forall>s. \<not> ss_refused s \<longrightarrow> has_room 0 s \<longrightarrow>
     (if has_room (length bs) s then f s = (Inr (), appended bs s) else cut_off bs s (f s)))"

definition emits :: "bytes \<Rightarrow> capture \<Rightarrow> bool" where
  "emits bs f \<longleftrightarrow> emits_live bs f \<and>
     (\<forall>s. ss_refused s \<longrightarrow> f s = (if bs = [] then (Inr (), s) else (Inl SinkFull, s)))"

definition reads_back :: "'a reader \<Rightarrow> 'a \<Rightarrow> bytes \<Rightarrow> nat \<Rightarrow> bool" where
  "reads_back r v bs k \<longleftrightarrow> (\<forall>c rest. unread c = bs @ rest \<longrightarrow> k \<le> cu_budget c \<longrightarrow>
     r c = Inr (v, c\<lparr>cu_pos := cu_pos c + length bs, cu_budget := cu_budget c - k\<rparr>))"

lemma has_room_appended: "has_room n (appended bs s) = has_room (length bs + n) s"
  by (simp add: has_room_def appended_def add.assoc split: option.splits)

lemma has_room_mono: "has_room n s \<Longrightarrow> m \<le> n \<Longrightarrow> has_room m s"
  by (auto simp: has_room_def split: option.splits)

lemma appended_refused [simp]: "ss_refused (appended bs s) = ss_refused s"
  by (simp add: appended_def)

lemma appended_simps [simp]: "appended [] s = s" "appended b (appended a s) = appended (a @ b) s"
  by (simp_all add: appended_def)

lemma cut_offI: "bs = p @ q \<Longrightarrow> has_room (length p) s \<Longrightarrow>
    r = (Inl SinkFull, (appended p s)\<lparr>ss_refused := True\<rparr>) \<Longrightarrow> cut_off bs s r"
  by (auto simp: cut_off_def)

lemma emits_live_put: "emits_live bs (put bs)"
  by (auto simp: emits_live_def put_def sink_write_def appended_def intro!: cut_offI [of _ "[]" bs])

lemma emits_put: "bs \<noteq> [] \<Longrightarrow> emits bs (put bs)"
  by (simp add: emits_def emits_live_put) (simp add: put_def sink_write_def)

lemma emits_nothing: "emits [] nothing"
  by (simp add: emits_def emits_live_def nothing_def)

lemma emits_live_and_then:
  assumes "emits_live a f" "emits_live b g"
  shows "emits_live (a @ b) (and_then f g)"
  unfolding emits_live_def
proof (intro allI impI)
  fix s :: state_sink
  assume s: "\<not> ss_refused s" "has_room 0 s"
  show "if has_room (length (a @ b)) s then and_then f g s = (Inr (), appended (a @ b) s)
    else cut_off (a @ b) s (and_then f g s)"
  proof (cases "has_room (length a) s")
    case True
    then have f: "f s = (Inr (), appended a s)" using assms(1) s by (simp add: emits_live_def)
    have "\<not> ss_refused (appended a s)" "has_room 0 (appended a s)"
      using s True by (simp_all add: has_room_appended)
    then have g: "if has_room (length b) (appended a s) then g (appended a s) = (Inr (), appended b (appended a s))
      else cut_off b (appended a s) (g (appended a s))"
      using assms(2) by (simp add: emits_live_def)
    show ?thesis
    proof (cases "has_room (length (a @ b)) s")
      case True
      then show ?thesis using f g by (simp add: and_then_def has_room_appended)
    next
      case False
      then have "cut_off b (appended a s) (g (appended a s))" using g by (simp add: has_room_appended)
      then obtain p q where "b = p @ q" "has_room (length p) (appended a s)"
        "g (appended a s) = (Inl SinkFull, (appended p (appended a s))\<lparr>ss_refused := True\<rparr>)"
        by (auto simp: cut_off_def)
      then have "cut_off (a @ b) s (and_then f g s)"
        using f by (intro cut_offI [of _ "a @ p" q]) (auto simp: and_then_def has_room_appended)
      then show ?thesis using False by simp
    qed
  next
    case False
    then have "\<not> has_room (length (a @ b)) s" using has_room_mono [of "length (a @ b)" s "length a"] by auto
    moreover have "cut_off a s (f s)" using assms(1) s False by (simp add: emits_live_def)
    then obtain p q where "a = p @ q" "has_room (length p) s"
      "f s = (Inl SinkFull, (appended p s)\<lparr>ss_refused := True\<rparr>)" by (auto simp: cut_off_def)
    then have "cut_off (a @ b) s (and_then f g s)"
      by (intro cut_offI [of _ p "q @ b"]) (simp_all add: and_then_def)
    ultimately show ?thesis by simp
  qed
qed

lemma emits_and_then: "emits a f \<Longrightarrow> emits b g \<Longrightarrow> emits (a @ b) (and_then f g)"
  by (auto simp: emits_def emits_live_and_then and_then_def)

lemma emits_and_then_live: "emits a f \<Longrightarrow> a \<noteq> [] \<Longrightarrow> emits_live b g \<Longrightarrow> emits (a @ b) (and_then f g)"
  by (auto simp: emits_def emits_live_and_then and_then_def)

lemma le_prefix_nonempty [simp]: "to_le 4 n \<noteq> []" "to_le 8 n \<noteq> []"
  by (metis length_to_le list.size(3) zero_neq_numeral)+

lemma to_le_numeral: "to_le (numeral n) v = of_nat (v mod 256) # to_le (pred_numeral n) (v div 256)"
  by (metis numeral_eq_Suc to_le.simps(2))

lemma emits_write_len:
  assumes "n < 2 ^ 32"
  shows "emits (to_le 4 n) (write_len n)"
proof -
  have "write_len n = put (to_le 4 n)" using assms by (simp add: write_len_def fun_eq_iff)
  then show ?thesis by (simp add: emits_put)
qed

lemma emits_capture_all: "(\<And>x. x \<in> set xs \<Longrightarrow> emits (e x) (f x)) \<Longrightarrow>
    emits (concat (map e xs)) (capture_all f xs)"
  by (induction xs) (auto simp: emits_nothing intro!: emits_and_then)

lemma remaining_unread: "remaining c = length (unread c)"
  by (simp add: remaining_def unread_def)

lemma reads_backD: "reads_back r v bs k \<Longrightarrow> unread c = bs @ rest \<Longrightarrow> k \<le> cu_budget c \<Longrightarrow>
    r c = Inr (v, c\<lparr>cu_pos := cu_pos c + length bs, cu_budget := cu_budget c - k\<rparr>)"
  by (simp add: reads_back_def)

lemma reads_take: "length bs = n \<Longrightarrow> reads_back (take_bytes n) bs bs 0"
  by (simp add: reads_back_def take_bytes_def remaining_unread)

lemma reads_yield: "reads_back (yield v) v [] 0"
  by (simp add: reads_back_def yield_def)

lemma unread_advance: "unread c = a @ b \<Longrightarrow> unread (c\<lparr>cu_pos := cu_pos c + length a, cu_budget := k\<rparr>) = b"
  by (simp add: unread_def add.commute flip: drop_drop)

lemma reads_then:
  assumes "reads_back r v a k" "reads_back (f v) w b l"
  shows "reads_back (read_then r f) w (a @ b) (k + l)"
  unfolding reads_back_def
proof (intro allI impI)
  fix c rest
  assume c: "unread c = (a @ b) @ rest" "k + l \<le> cu_budget c"
  let ?c = "c\<lparr>cu_pos := cu_pos c + length a, cu_budget := cu_budget c - k\<rparr>"
  have "r c = Inr (v, ?c)" using assms(1) c by (simp add: reads_back_def)
  moreover have "f v ?c = Inr (w, ?c\<lparr>cu_pos := cu_pos ?c + length b, cu_budget := cu_budget ?c - l\<rparr>)"
    using assms(2) c unread_advance [of c a "b @ rest"] by (simp add: reads_back_def)
  ultimately show "read_then r f c =
      Inr (w, c\<lparr>cu_pos := cu_pos c + length (a @ b), cu_budget := cu_budget c - (k + l)\<rparr>)"
    by (simp add: read_then_def add.assoc)
qed

lemma reads_payload_len: "n < 2 ^ 32 \<Longrightarrow> reads_back read_payload_len n (to_le 4 n) 0"
  using reads_then [OF reads_take [of "to_le 4 n" 4], of "\<lambda>bs. yield (from_le bs)" n "[]" 0] reads_yield [of n]
  by (simp add: read_payload_len_def from_le_to_le)

lemma reads_element_count: "n < 2 ^ 32 \<Longrightarrow> reads_back read_element_count n (to_le 4 n) n"
  using reads_then [OF reads_payload_len [of n], of
      "\<lambda>declared c. if declared > cu_budget c then Inl (CountUnjustified declared (cu_budget c))
         else Inr (declared, charge_elements declared c)" n "[]" n]
  by (simp add: read_element_count_def reads_back_def charge_elements_def)

lemma reads_n: "(\<And>x. x \<in> set xs \<Longrightarrow> reads_back r x (e x) (k x)) \<Longrightarrow>
    reads_back (read_n (length xs) r) xs (concat (map e xs)) (sum_list (map k xs))"
proof (induction xs)
  case (Cons x xs)
  have "reads_back (read_then (read_n (length xs) r) (\<lambda>ys. yield (x # ys))) (x # xs)
      (concat (map e xs) @ []) (sum_list (map k xs) + 0)"
    by (rule reads_then [OF _ reads_yield]) (use Cons in simp)
  from reads_then [OF Cons.prems [of x], of "\<lambda>x. read_then (read_n (length xs) r) (\<lambda>ys. yield (x # ys))", OF _ this]
  show ?case by simp
qed (simp add: reads_yield)

end
