(* ===== verification/StateImpls.thy ===== *)
theory StateImpls
  imports StateCodec
begin

text \<open>
  The impls of \<open>CerulionState\<close> (\<open>state/impls.rs\<close>) and the contract they keep. A value of a map type is
  its entries: a \<open>BTreeMap\<close> the list sorted by key, an \<open>IndexMap\<close> the list in insertion order, a
  \<open>HashMap\<close> the partial function, whose iteration order is a parameter of its capture. A \<open>String\<close> is its
  bytes, an integer type a word, \<open>usize\<close> a natural number bounded by the width of the host.
\<close>

section \<open>The contract\<close>

locale state_codec =
  fixes cap :: "'a \<Rightarrow> capture" and rd :: "'a reader" and enc :: "'a \<Rightarrow> bytes"
    and elems :: "'a \<Rightarrow> nat" and valid :: "'a \<Rightarrow> bool" and least :: nat
  assumes captures: "valid v \<Longrightarrow> emits (enc v) (cap v)"
    and reads: "valid v \<Longrightarrow> reads_back rd v (enc v) (elems v)"
    and least_true: "valid v \<Longrightarrow> least \<le> length (enc v)"
begin

lemma capture_unbounded: "valid v \<Longrightarrow> cap v vec_sink = (Inr (), vec_sink\<lparr>ss_bytes := enc v\<rparr>)"
  using captures [of v] by (simp add: emits_def emits_live_def vec_sink_def has_room_def appended_def)

lemma capture_bounded:
  assumes "valid v"
  shows "if length (enc v) \<le> n then cap v (bounded_sink n n) = (Inr (), (bounded_sink n n)\<lparr>ss_bytes := enc v\<rparr>)
    else \<exists>s. cap v (bounded_sink n n) = (Inl SinkFull, s) \<and> consumed s = n"
proof -
  let ?s = "bounded_sink n n"
  have "if has_room (length (enc v)) ?s then cap v ?s = (Inr (), appended (enc v) ?s) else cut_off (enc v) ?s (cap v ?s)"
    using captures [OF assms] by (simp add: emits_def emits_live_def bounded_sink_def has_room_def)
  moreover have "has_room (length (enc v)) ?s \<longleftrightarrow> length (enc v) \<le> n" by (simp add: bounded_sink_def has_room_def)
  moreover have "\<exists>s. r = (Inl SinkFull, s) \<and> consumed s = n" if "cut_off bs ?s r" for bs r
    using that by (auto simp: cut_off_def consumed_def bounded_sink_def appended_def)
  moreover have "appended (enc v) ?s = ?s\<lparr>ss_bytes := enc v\<rparr>" by (simp add: appended_def bounded_sink_def)
  ultimately show ?thesis by (metis (lifting))
qed

lemma restore_own:
  assumes "valid v" "elems v \<le> length (enc v)"
  shows "restore_blob rd (enc v) = Inr v"
proof -
  let ?c = "new_cursor (enc v)"
  have "rd ?c = Inr (v, ?c\<lparr>cu_pos := cu_pos ?c + length (enc v), cu_budget := cu_budget ?c - elems v\<rparr>)"
    by (rule reads_backD [OF reads, OF assms(1)]) (use assms(2) in \<open>auto simp: unread_def new_cursor_def\<close>)
  then show ?thesis by (simp add: restore_blob_def finish_cursor_def remaining_def) (simp add: new_cursor_def)
qed

lemma enc_prefix_free:
  assumes "valid v" "valid w" "enc v @ xs = enc w @ ys"
  shows "v = w"
proof -
  let ?c = "\<lparr>cu_buf = enc v @ xs, cu_pos = 0, cu_budget = elems v + elems w\<rparr>"
  have "rd ?c = Inr (v, ?c\<lparr>cu_pos := cu_pos ?c + length (enc v), cu_budget := cu_budget ?c - elems v\<rparr>)"
    by (rule reads_backD [OF reads, OF assms(1)]) (simp_all add: unread_def)
  moreover have "rd ?c = Inr (w, ?c\<lparr>cu_pos := cu_pos ?c + length (enc w), cu_budget := cu_budget ?c - elems w\<rparr>)"
    by (rule reads_backD [OF reads, OF assms(2), where rest = ys]) (simp_all only: unread_def assms(3), simp_all)
  ultimately have "(Inr (v, ?c\<lparr>cu_pos := cu_pos ?c + length (enc v), cu_budget := cu_budget ?c - elems v\<rparr>) :: state_error + _)
      = Inr (w, ?c\<lparr>cu_pos := cu_pos ?c + length (enc w), cu_budget := cu_budget ?c - elems w\<rparr>)" by (rule trans [OF sym])
  then show ?thesis by (simp only: sum.inject prod.inject)
qed

lemma enc_inj: "inj_on enc (Collect valid)"
proof (rule inj_onI)
  fix v w
  assume "v \<in> Collect valid" "w \<in> Collect valid" "enc v = enc w"
  then show "v = w" using enc_prefix_free [of v w "[]" "[]"] by simp
qed

end

text \<open>No bytes but the canonical ones read as a value.\<close>

definition canonical_read :: "'a reader \<Rightarrow> ('a \<Rightarrow> bytes) \<Rightarrow> ('a \<Rightarrow> nat) \<Rightarrow> ('a \<Rightarrow> bool) \<Rightarrow> bool" where
  "canonical_read rd enc elems valid \<longleftrightarrow> (\<forall>c v c'. rd c = Inr (v, c') \<longrightarrow>
     valid v \<and> unread c = enc v @ unread c' \<and> cu_budget c = cu_budget c' + elems v)"

locale canonical_codec = state_codec +
  assumes canonical: "canonical_read rd enc elems valid"
begin

lemma restore_is_canonical: "restore_blob rd blob = Inr v \<Longrightarrow> valid v \<and> enc v = blob"
proof -
  assume "restore_blob rd blob = Inr v"
  then obtain c where c: "rd (new_cursor blob) = Inr (v, c)" "remaining c = 0"
    by (auto simp: restore_blob_def finish_cursor_def split: sum.splits if_splits)
  then have "valid v" "unread (new_cursor blob) = enc v @ unread c"
    using canonical by (auto simp: canonical_read_def)
  then show ?thesis using c(2) by (simp add: remaining_unread) (simp add: new_cursor_def unread_def)
qed

lemma recapture: "restore_blob rd blob = Inr v \<Longrightarrow> cap v vec_sink = (Inr (), vec_sink\<lparr>ss_bytes := blob\<rparr>)"
  using restore_is_canonical capture_unbounded by blast

end

lemma read_thenE:
  assumes "read_then r f c = Inr (w, c2)"
  obtains v c1 where "r c = Inr (v, c1)" "f v c1 = Inr (w, c2)"
  using assms by (auto simp: read_then_def split: sum.splits prod.splits)

lemma take_bytesD: "take_bytes n c = Inr (bs, c') \<Longrightarrow>
    length bs = n \<and> unread c = bs @ unread c' \<and> cu_budget c' = cu_budget c"
  by (auto simp: take_bytes_def remaining_unread split: if_splits)
     (simp add: unread_def add.commute flip: drop_drop)

lemma canonical_readD: "canonical_read rd enc elems valid \<Longrightarrow> rd c = Inr (v, c') \<Longrightarrow>
    valid v \<and> unread c = enc v @ unread c' \<and> cu_budget c = cu_budget c' + elems v"
  by (simp add: canonical_read_def)

lemma canonical_readI: "(\<And>c v c'. rd c = Inr (v, c') \<Longrightarrow>
    valid v \<and> unread c = enc v @ unread c' \<and> cu_budget c = cu_budget c' + elems v) \<Longrightarrow>
    canonical_read rd enc elems valid"
  by (simp add: canonical_read_def)

lemma failD: "fail e c = Inr r \<Longrightarrow> False"
  by (simp add: fail_def)

lemma yieldD: "yield v c = Inr (w, c') \<Longrightarrow> w = v \<and> c' = c"
  by (simp add: yield_def)

text \<open>
  A value pays for its elements when its bytes cover them and the declared floor. Such a value restores
  within the budget that its own bytes grant; a container of values with a positive floor pays again.
\<close>

locale paid_codec = state_codec +
  assumes paid: "valid v \<Longrightarrow> elems v + least \<le> length (enc v)"
begin

lemma restores: "valid v \<Longrightarrow> restore_blob rd (enc v) = Inr v"
  using restore_own paid add_leE by blast

lemma round_trip: "valid v \<Longrightarrow> cap v vec_sink = (Inr (), s) \<Longrightarrow> restore_blob rd (ss_bytes s) = Inr v"
  using restores capture_unbounded by force

end

definition read_byte :: "u8 reader" where
  "read_byte = read_then (take_bytes 1) (\<lambda>bs. yield (hd bs))"

lemma reads_byte: "reads_back read_byte b [b] 0"
  using reads_then [OF reads_take [of "[b]" 1], of "\<lambda>bs. yield (hd bs)" b "[]" 0] reads_yield [of b]
  by (simp add: read_byte_def)

lemma read_byteD: "read_byte c = Inr (b, c') \<Longrightarrow> unread c = b # unread c' \<and> cu_budget c = cu_budget c'"
  by (auto simp: read_byte_def length_Suc_conv elim!: read_thenE dest!: take_bytesD yieldD)

text \<open>A reader that first reads a tag byte, and a reader that checks what it read.\<close>

lemma reads_tagged: "reads_back (f b) v bs k \<Longrightarrow> reads_back (read_then read_byte f) v (b # bs) k"
  using reads_then [OF reads_byte [of b], of f v bs k] by simp

lemma reads_checked: "reads_back r v bs k \<Longrightarrow> (f v = yield w) \<Longrightarrow> reads_back (read_then r f) w bs k"
  using reads_then [of r v bs k f w "[]" 0] reads_yield [of w] by simp

section \<open>Scalars\<close>

definition scalar_capture :: "'a::len word \<Rightarrow> capture" where
  "scalar_capture w = put (to_le (LENGTH('a) div 8) (unat w))"

definition scalar_read :: "'a::len word reader" where
  "scalar_read = read_then (take_bytes (LENGTH('a) div 8)) (\<lambda>bs. yield (of_nat (from_le bs)))"

definition scalar_enc :: "'a::len word \<Rightarrow> bytes" where
  "scalar_enc w = to_le (LENGTH('a) div 8) (unat w)"

lemma from_le_lt: "from_le bs < 256 ^ length bs"
proof (induction bs)
  case (Cons b bs)
  have "unat b < 256" using unat_lt_2p [of b] by simp
  then show ?case using Cons by simp
qed simp

lemma to_le_from_le: "to_le (length bs) (from_le bs) = bs"
proof (induction bs)
  case (Cons b bs)
  have "unat b < 256" using unat_lt_2p [of b] by simp
  then show ?case using Cons by simp
qed simp

lemma byte_power: "LENGTH('a::len) mod 8 = 0 \<Longrightarrow> (256::nat) ^ (LENGTH('a) div 8) = 2 ^ LENGTH('a)"
proof -
  assume "LENGTH('a) mod 8 = 0"
  then have "LENGTH('a) = 8 * (LENGTH('a) div 8)" by presburger
  then have "(2::nat) ^ LENGTH('a) = (2 ^ 8) ^ (LENGTH('a) div 8)" by (metis power_mult)
  then show ?thesis by simp
qed

lemma scalar_codec:
  assumes m: "LENGTH('a::len) mod 8 = 0"
  shows "canonical_codec (scalar_capture :: 'a word \<Rightarrow> capture) scalar_read scalar_enc (\<lambda>_. 0) (\<lambda>_. True)
    (LENGTH('a) div 8)"
proof
  fix v :: "'a word"
  have k: "0 < LENGTH('a) div 8" using m len_gt_0 [where 'a = 'a] by presburger
  then have "scalar_enc v \<noteq> []" by (metis length_greater_0_conv length_to_le scalar_enc_def)
  then show "emits (scalar_enc v) (scalar_capture v)"
    by (simp add: scalar_capture_def scalar_enc_def emits_put)
  show "LENGTH('a) div 8 \<le> length (scalar_enc v)" by (simp add: scalar_enc_def)
  have "of_nat (from_le (scalar_enc v)) = v"
    by (simp add: scalar_enc_def from_le_to_le byte_power [OF m] word_unat_eq_iff unsigned_of_nat take_bit_eq_mod)
  then show "reads_back scalar_read v (scalar_enc v) 0"
    using reads_then [OF reads_take [of "scalar_enc v" "LENGTH('a) div 8"],
        of "\<lambda>bs. yield (of_nat (from_le bs))" v "[]" 0] reads_yield [of v]
    by (simp add: scalar_read_def scalar_enc_def)
next
  have "scalar_enc (of_nat (from_le bs) :: 'a word) = bs" if "length bs = LENGTH('a) div 8" for bs
    using from_le_lt [of bs] that to_le_from_le [of bs]
    by (simp add: scalar_enc_def byte_power [OF m] unat_of_nat_eq)
  then show "canonical_read (scalar_read :: 'a word reader) scalar_enc (\<lambda>_. 0) (\<lambda>_. True)"
    unfolding canonical_read_def scalar_read_def
    by (auto elim!: read_thenE dest!: take_bytesD yieldD)
qed

interpretation u8_codec: canonical_codec "scalar_capture :: u8 \<Rightarrow> capture" scalar_read scalar_enc "\<lambda>_. 0" "\<lambda>_. True" 1
  using scalar_codec [where 'a = 8] by simp

interpretation u16_codec: canonical_codec "scalar_capture :: u16 \<Rightarrow> capture" scalar_read scalar_enc "\<lambda>_. 0" "\<lambda>_. True" 2
  using scalar_codec [where 'a = 16] by simp

interpretation u128_codec: canonical_codec "scalar_capture :: 128 word \<Rightarrow> capture" scalar_read scalar_enc "\<lambda>_. 0" "\<lambda>_. True" 16
  using scalar_codec [where 'a = 128] by simp

interpretation u32_codec: canonical_codec "scalar_capture :: u32 \<Rightarrow> capture" scalar_read scalar_enc "\<lambda>_. 0" "\<lambda>_. True" 4
  using scalar_codec [where 'a = 32] by simp

interpretation u64_codec: canonical_codec "scalar_capture :: u64 \<Rightarrow> capture" scalar_read scalar_enc "\<lambda>_. 0" "\<lambda>_. True" 8
  using scalar_codec [where 'a = 64] by simp


definition bool_capture :: "bool \<Rightarrow> capture" where
  "bool_capture b = put [if b then 1 else 0]"

definition read_bool :: "bool reader" where
  "read_bool = read_then read_byte (\<lambda>b. if b = 0 then yield False else if b = 1 then yield True
     else fail (InvalidBool b))"

interpretation bool_codec: canonical_codec bool_capture read_bool "\<lambda>b. [if b then 1 else 0]" "\<lambda>_. 0" "\<lambda>_. True" 1
proof
  show "emits [if b then 1 else 0] (bool_capture b)" for b by (simp add: bool_capture_def emits_put)
  show "reads_back read_bool b [if b then 1 else 0] 0" for b
    by (auto simp: read_bool_def intro!: reads_tagged reads_yield)
  show "canonical_read read_bool (\<lambda>b. [if b then 1 else 0]) (\<lambda>_. 0) (\<lambda>_. True)"
    by (rule canonical_readI)
       (auto simp: read_bool_def elim!: read_thenE dest!: read_byteD yieldD failD split: if_splits)
qed simp

definition is_scalar_value :: "u32 \<Rightarrow> bool" where
  "is_scalar_value w \<longleftrightarrow> w < 0xD800 \<or> 0xE000 \<le> w \<and> w < 0x110000"

definition char_read :: "u32 reader" where
  "char_read = read_then scalar_read (\<lambda>v. if is_scalar_value v then yield v else fail (InvalidChar v))"

interpretation char_codec: canonical_codec "scalar_capture :: u32 \<Rightarrow> capture" char_read scalar_enc "\<lambda>_. 0" is_scalar_value 4
proof
  show "emits (scalar_enc v) (scalar_capture v)" if "is_scalar_value v" for v
    using u32_codec.captures by simp
  show "reads_back char_read v (scalar_enc v) 0" if "is_scalar_value v" for v
    unfolding char_read_def by (rule reads_checked [OF u32_codec.reads]) (simp_all add: that)
  show "4 \<le> length (scalar_enc v)" if "is_scalar_value v" for v :: u32
    using u32_codec.least_true by simp
  show "canonical_read char_read scalar_enc (\<lambda>_. 0) is_scalar_value"
    by (rule canonical_readI)
       (auto simp: char_read_def elim!: read_thenE dest!: canonical_readD [OF u32_codec.canonical] yieldD failD split: if_splits)
qed

text \<open>\<open>usize\<close> rides eight bytes; the host that restores has words of \<open>host\<close> bits.\<close>

definition usize_capture :: "nat \<Rightarrow> capture" where
  "usize_capture n = put (to_le 8 n)"

definition usize_read :: "nat \<Rightarrow> nat reader" where
  "usize_read host = read_then (take_bytes 8) (\<lambda>bs.
     if from_le bs < 2 ^ host then yield (from_le bs) else fail (OutOfRange (from_le bs)))"

lemma usize_codec:
  assumes "host \<le> 64"
  shows "canonical_codec usize_capture (usize_read host) (to_le 8) (\<lambda>_. 0) (\<lambda>n. n < 2 ^ host) 8"
proof
  fix n :: nat
  assume n: "n < 2 ^ host"
  also have "(2::nat) ^ host \<le> 2 ^ 64" using assms by (intro power_increasing) auto
  finally have "from_le (to_le 8 n) = n" by (simp add: from_le_to_le)
  then show "reads_back (usize_read host) n (to_le 8 n) 0"
    unfolding usize_read_def by (intro reads_checked [OF reads_take]) (simp_all add: n)
  show "emits (to_le 8 n) (usize_capture n)" by (simp add: usize_capture_def emits_put)
next
  show "canonical_read (usize_read host) (to_le 8) (\<lambda>_. 0) (\<lambda>n. n < 2 ^ host)"
  proof (rule canonical_readI)
    fix c v c'
    assume "usize_read host c = Inr (v, c')"
    then obtain bs c1 where b: "take_bytes 8 c = Inr (bs, c1)"
      "(if from_le bs < 2 ^ host then yield (from_le bs) else fail (OutOfRange (from_le bs))) c1 = Inr (v, c')"
      unfolding usize_read_def by (rule read_thenE)
    then show "v < 2 ^ host \<and> unread c = to_le 8 v @ unread c' \<and> cu_budget c = cu_budget c' + 0"
      using take_bytesD [OF b(1)] to_le_from_le [of bs] by (auto dest!: yieldD failD split: if_splits)
  qed
qed simp

definition nonzero_read :: "'a::zero reader \<Rightarrow> 'a reader" where
  "nonzero_read r = read_then r (\<lambda>v. if v = 0 then fail ZeroForNonZero else yield v)"

lemma nonzero_codec: "canonical_codec c r e k v m \<Longrightarrow>
    canonical_codec c (nonzero_read r) e k (\<lambda>x. v x \<and> x \<noteq> 0) m"
proof -
  assume "canonical_codec c r e k v m"
  then have c: "state_codec c r e k v m" and canonical: "canonical_read r e k v"
    by (simp_all add: canonical_codec_def canonical_codec_axioms_def)
  note captures = state_codec.captures [OF c] and reads = state_codec.reads [OF c] and least_true = state_codec.least_true [OF c]
  show ?thesis
  proof
    show "canonical_read (nonzero_read r) e k (\<lambda>x. v x \<and> x \<noteq> 0)"
      by (rule canonical_readI) (auto simp: nonzero_read_def elim!: read_thenE
        dest!: canonical_readD [OF canonical] yieldD failD split: if_splits)
  qed (auto simp: nonzero_read_def captures least_true intro!: reads_checked reads)
qed

text \<open>The bytes of a duration: the seconds and the nanoseconds, the latter below a second.\<close>

type_synonym std_duration = "u64 \<times> u32"

definition duration_capture :: "std_duration \<Rightarrow> capture" where
  "duration_capture d = and_then (put (to_le 8 (unat (fst d)))) (put (to_le 4 (unat (snd d))))"

definition duration_read :: "std_duration reader" where
  "duration_read = read_then scalar_read (\<lambda>secs. read_then scalar_read (\<lambda>nanos.
     if 1000000000 \<le> nanos then fail (NoncanonicalDuration nanos) else yield (secs, nanos)))"

definition duration_enc :: "std_duration \<Rightarrow> bytes" where
  "duration_enc d = to_le 8 (unat (fst d)) @ to_le 4 (unat (snd d))"

interpretation duration_codec: canonical_codec duration_capture duration_read duration_enc "\<lambda>_. 0"
  "\<lambda>d. snd d < 1000000000" 12
proof
  fix d :: std_duration
  assume d: "snd d < 1000000000"
  show "emits (duration_enc d) (duration_capture d)"
    unfolding duration_capture_def duration_enc_def by (intro emits_and_then emits_put) simp_all
  have "reads_back (\<lambda>c. read_then scalar_read (\<lambda>nanos. if 1000000000 \<le> nanos then fail (NoncanonicalDuration nanos)
      else yield (fst d, nanos)) c) d (to_le 4 (unat (snd d))) 0"
    using u32_codec.reads [of "snd d"] d
    by (intro reads_checked) (auto simp: scalar_enc_def not_le)
  then show "reads_back duration_read d (duration_enc d) 0"
    using reads_then [OF u64_codec.reads [of "fst d"]]
    by (fastforce simp: duration_read_def duration_enc_def scalar_enc_def)
  show "12 \<le> length (duration_enc d)" by (simp add: duration_enc_def)
next
  show "canonical_read duration_read duration_enc (\<lambda>_. 0) (\<lambda>d. snd d < 1000000000)"
    by (rule canonical_readI)
       (auto simp: duration_read_def duration_enc_def scalar_enc_def not_le elim!: read_thenE
         dest!: canonical_readD [OF u32_codec.canonical] canonical_readD [OF u64_codec.canonical] yieldD failD split: if_splits)
qed

section \<open>Options, results, locks and tuples\<close>

fun option_capture :: "('a \<Rightarrow> capture) \<Rightarrow> 'a option \<Rightarrow> capture" where
  "option_capture cap None = put [0]"
| "option_capture cap (Some v) = and_then (put [1]) (cap v)"

definition option_read :: "'a reader \<Rightarrow> 'a option reader" where
  "option_read rd = read_then read_byte (\<lambda>tag. if tag = 0 then yield None
     else if tag = 1 then read_then rd (\<lambda>v. yield (Some v)) else fail (InvalidTag tag))"

fun option_enc :: "('a \<Rightarrow> bytes) \<Rightarrow> 'a option \<Rightarrow> bytes" where
  "option_enc enc None = [0]"
| "option_enc enc (Some v) = 1 # enc v"

lemma option_codec:
  assumes "state_codec c r e k v m"
  shows "state_codec (option_capture c) (option_read r) (option_enc e) (case_option 0 k) (pred_option v) 1"
proof -
  note captures = state_codec.captures [OF assms] and reads = state_codec.reads [OF assms] and least_true = state_codec.least_true [OF assms]
  show ?thesis
  proof
    fix x
    assume x: "pred_option v x"
    show "emits (option_enc e x) (option_capture c x)"
      using x emits_and_then [OF emits_put [of "[1]"] captures] by (cases x) (auto simp: emits_put)
    show "reads_back (option_read r) x (option_enc e x) (case_option 0 k x)"
      using x by (cases x) (auto simp: option_read_def intro!: reads_tagged reads_yield reads_checked reads)
    show "1 \<le> length (option_enc e x)" by (cases x) simp_all
  qed
qed

lemma option_canonical:
  assumes r: "canonical_read r e k v"
  shows "canonical_read (option_read r) (option_enc e) (case_option 0 k) (pred_option v)"
  by (rule canonical_readI)
     (auto simp: option_read_def elim!: read_thenE dest!: read_byteD canonical_readD [OF r] yieldD failD split: if_splits)

fun result_capture :: "('a \<Rightarrow> capture) \<Rightarrow> ('b \<Rightarrow> capture) \<Rightarrow> 'b + 'a \<Rightarrow> capture" where
  "result_capture cap cap' (Inr v) = and_then (put [0]) (cap v)"
| "result_capture cap cap' (Inl err) = and_then (put [1]) (cap' err)"

definition result_read :: "'a reader \<Rightarrow> 'b reader \<Rightarrow> ('b + 'a) reader" where
  "result_read rd rd' = read_then read_byte (\<lambda>tag. if tag = 0 then read_then rd (\<lambda>v. yield (Inr v))
     else if tag = 1 then read_then rd' (\<lambda>err. yield (Inl err)) else fail (InvalidTag tag))"

fun result_enc :: "('a \<Rightarrow> bytes) \<Rightarrow> ('b \<Rightarrow> bytes) \<Rightarrow> 'b + 'a \<Rightarrow> bytes" where
  "result_enc enc enc' (Inr v) = 0 # enc v"
| "result_enc enc enc' (Inl err) = 1 # enc' err"

lemma result_codec:
  assumes "state_codec c r e k v m" "state_codec c' r' e' k' v' m'"
  shows "state_codec (result_capture c c') (result_read r r') (result_enc e e') (case_sum k' k) (pred_sum v' v)
    (1 + min m m')"
proof -
  note ok_captures = state_codec.captures [OF assms(1)] and ok_reads = state_codec.reads [OF assms(1)] and ok_least_true = state_codec.least_true [OF assms(1)]
  note err_captures = state_codec.captures [OF assms(2)] and err_reads = state_codec.reads [OF assms(2)] and err_least_true = state_codec.least_true [OF assms(2)]
  show ?thesis
  proof
    fix x
    assume x: "pred_sum v' v x"
    show "emits (result_enc e e' x) (result_capture c c' x)"
      using x emits_and_then [OF emits_put [of "[0]"] ok_captures] emits_and_then [OF emits_put [of "[1]"] err_captures]
      by (cases x) auto
    show "reads_back (result_read r r') x (result_enc e e' x) (case_sum k' k x)"
      using x by (cases x) (auto simp: result_read_def intro!: reads_tagged reads_checked ok_reads err_reads)
    show "1 + min m m' \<le> length (result_enc e e' x)"
      using x by (cases x) (auto simp: min.coboundedI1 min.coboundedI2 ok_least_true err_least_true)
  qed
qed

lemma result_canonical:
  assumes r: "canonical_read r e k v" and r': "canonical_read r' e' k' v'"
  shows "canonical_read (result_read r r') (result_enc e e') (case_sum k' k) (pred_sum v' v)"
  by (rule canonical_readI)
     (auto simp: result_read_def elim!: read_thenE dest!: read_byteD canonical_readD [OF r] canonical_readD [OF r'] yieldD failD split: if_splits)

text \<open>
  A lock is captured through \<open>try_lock\<close>. A lock that a helper thread holds refuses the capture and fails
  the probe; a poisoned lock that nobody holds is captured as any other.
\<close>

datatype 'a lock = Lock (lk_held: bool) (lk_poisoned: bool) (lk_value: 'a)

definition lock_probe :: "('a \<Rightarrow> bool) \<Rightarrow> 'a lock \<Rightarrow> bool" where
  "lock_probe probe l = (\<not> lk_held l \<and> probe (lk_value l))"

definition lock_capture :: "('a \<Rightarrow> capture) \<Rightarrow> 'a lock \<Rightarrow> capture" where
  "lock_capture cap l s = (if lk_held l then (Inl LockContended, s) else cap (lk_value l) s)"

definition lock_read :: "'a reader \<Rightarrow> 'a lock reader" where
  "lock_read rd = read_then rd (\<lambda>v. yield (Lock False False v))"

definition lock_free :: "('a \<Rightarrow> bool) \<Rightarrow> 'a lock \<Rightarrow> bool" where
  "lock_free valid l \<longleftrightarrow> l = Lock False False (lk_value l) \<and> valid (lk_value l)"

lemma lock_codec:
  assumes "state_codec c r e k v m"
  shows "state_codec (lock_capture c) (lock_read r) (e \<circ> lk_value) (k \<circ> lk_value) (lock_free v) m"
proof -
  note captures = state_codec.captures [OF assms] and reads = state_codec.reads [OF assms] and least_true = state_codec.least_true [OF assms]
  show ?thesis
  proof
    fix l
    assume "lock_free v l"
    then have l: "v (lk_value l)" "l = Lock False False (lk_value l)" by (auto simp: lock_free_def)
    have "lock_capture c l = c (lk_value l)"
      by (simp add: fun_eq_iff lock_capture_def) (metis l(2) lock.sel(1))
    then show "emits ((e \<circ> lk_value) l) (lock_capture c l)" using captures l(1) by simp
    show "reads_back (lock_read r) l ((e \<circ> lk_value) l) ((k \<circ> lk_value) l)"
      unfolding lock_read_def using l by (auto intro!: reads_checked [OF reads] simp: reads)
    show "m \<le> length ((e \<circ> lk_value) l)" using least_true l(1) by simp
  qed
qed

lemma lock_canonical:
  assumes r: "canonical_read r e k v"
  shows "canonical_read (lock_read r) (e \<circ> lk_value) (k \<circ> lk_value) (lock_free v)"
  by (rule canonical_readI) (auto simp: lock_read_def lock_free_def elim!: read_thenE dest!: canonical_readD [OF r] yieldD)

text \<open>Longer tuples and the fields of a struct nest pairs: each reads and writes its parts in order.\<close>

definition tuple_capture :: "('a \<Rightarrow> capture) \<Rightarrow> ('b \<Rightarrow> capture) \<Rightarrow> 'a \<times> 'b \<Rightarrow> capture" where
  "tuple_capture cap cap' p = and_then (cap (fst p)) (cap' (snd p))"

definition tuple_read :: "'a reader \<Rightarrow> 'b reader \<Rightarrow> ('a \<times> 'b) reader" where
  "tuple_read rd rd' = read_then rd (\<lambda>a. read_then rd' (\<lambda>b. yield (a, b)))"

definition tuple_enc :: "('a \<Rightarrow> bytes) \<Rightarrow> ('b \<Rightarrow> bytes) \<Rightarrow> 'a \<times> 'b \<Rightarrow> bytes" where
  "tuple_enc enc enc' p = enc (fst p) @ enc' (snd p)"

definition tuple_elems :: "('a \<Rightarrow> nat) \<Rightarrow> ('b \<Rightarrow> nat) \<Rightarrow> 'a \<times> 'b \<Rightarrow> nat" where
  "tuple_elems k k' p = k (fst p) + k' (snd p)"

lemma reads_tuple: "reads_back r a bs k \<Longrightarrow> reads_back r' b bs' k' \<Longrightarrow>
    reads_back (tuple_read r r') (a, b) (bs @ bs') (k + k')"
  unfolding tuple_read_def by (intro reads_then [of r a] reads_checked) simp_all

lemma tuple_codec:
  assumes "state_codec c r e k v m" "state_codec c' r' e' k' v' m'"
  shows "state_codec (tuple_capture c c') (tuple_read r r') (tuple_enc e e') (tuple_elems k k') (pred_prod v v') (m + m')"
proof -
  note a_captures = state_codec.captures [OF assms(1)] and a_reads = state_codec.reads [OF assms(1)] and a_least_true = state_codec.least_true [OF assms(1)]
  note b_captures = state_codec.captures [OF assms(2)] and b_reads = state_codec.reads [OF assms(2)] and b_least_true = state_codec.least_true [OF assms(2)]
  show ?thesis
  proof
    fix p
    assume "pred_prod v v' p"
    then have p: "v (fst p)" "v' (snd p)" by (cases p; simp)+
    show "emits (tuple_enc e e' p) (tuple_capture c c' p)"
      unfolding tuple_enc_def tuple_capture_def using p by (intro emits_and_then a_captures b_captures)
    show "reads_back (tuple_read r r') p (tuple_enc e e' p) (tuple_elems k k' p)"
      using reads_tuple [OF a_reads [OF p(1)] b_reads [OF p(2)]] by (simp add: tuple_enc_def tuple_elems_def)
    show "m + m' \<le> length (tuple_enc e e' p)"
      using p a_least_true b_least_true by (simp add: tuple_enc_def add_mono)
  qed
qed

lemma tuple_canonical:
  assumes r: "canonical_read r e k v" and r': "canonical_read r' e' k' v'"
  shows "canonical_read (tuple_read r r') (tuple_enc e e') (tuple_elems k k') (pred_prod v v')"
  by (rule canonical_readI)
     (auto simp: tuple_read_def tuple_enc_def tuple_elems_def elim!: read_thenE dest!: canonical_readD [OF r] canonical_readD [OF r'] yieldD)

end
