(* ===== verification/StateContainers.thy ===== *)
theory StateContainers
  imports StateImpls "HOL-Library.Multiset"
begin

text \<open>
  The impls of \<open>CerulionState\<close> for text, sequences, maps and sets (\<open>state/impls.rs\<close>). A sequence declares
  its length first, and the reader draws that many elements from the budget of the blob; a map or set
  refuses a second entry of one key. A hash map or set sorts its keys before it writes them, and refuses a
  sink that cannot hold them before it builds the index.
\<close>

section \<open>Text\<close>

definition is_cont :: "u8 \<Rightarrow> bool" where
  "is_cont b \<longleftrightarrow> 0x80 \<le> b \<and> b < 0xC0"

text \<open>The well-formed sequences of UTF-8, the check of \<open>str::from_utf8\<close>.\<close>

fun is_utf8 :: "bytes \<Rightarrow> bool" where
  "is_utf8 [] = True"
| "is_utf8 (a # bs) =
     (if a < 0x80 then is_utf8 bs
      else if 0xC2 \<le> a \<and> a < 0xE0 then
        (case bs of b # r \<Rightarrow> is_cont b \<and> is_utf8 r | _ \<Rightarrow> False)
      else if 0xE0 \<le> a \<and> a < 0xF0 then
        (case bs of b # c # r \<Rightarrow>
           is_cont b \<and> is_cont c \<and> (a = 0xE0 \<longrightarrow> 0xA0 \<le> b) \<and> (a = 0xED \<longrightarrow> b < 0xA0) \<and> is_utf8 r
         | _ \<Rightarrow> False)
      else if 0xF0 \<le> a \<and> a < 0xF5 then
        (case bs of b # c # d # r \<Rightarrow>
           is_cont b \<and> is_cont c \<and> is_cont d \<and> (a = 0xF0 \<longrightarrow> 0x90 \<le> b) \<and> (a = 0xF4 \<longrightarrow> b < 0x90) \<and> is_utf8 r
         | _ \<Rightarrow> False)
      else False)"

definition write_str :: "bytes \<Rightarrow> capture" where
  "write_str s = and_then (write_len (length s)) (put s)"

definition read_str :: "bytes reader" where
  "read_str = read_then read_payload_len (\<lambda>n. read_then (take_bytes n) (\<lambda>bs.
     if is_utf8 bs then yield bs else fail InvalidUtf8))"

definition str_enc :: "bytes \<Rightarrow> bytes" where
  "str_enc s = to_le 4 (length s) @ s"

lemma read_payload_lenD:
  assumes "read_payload_len c = Inr (n, c')"
  shows "n < 2 ^ 32 \<and> unread c = to_le 4 n @ unread c' \<and> cu_budget c = cu_budget c'"
proof -
  obtain bs where b: "take_bytes 4 c = Inr (bs, c')" "n = from_le bs"
    using assms by (auto simp: read_payload_len_def elim!: read_thenE dest!: yieldD)
  moreover have "from_le bs < 2 ^ 32" using from_le_lt [of bs] take_bytesD [OF b(1)] by simp
  ultimately show ?thesis using take_bytesD [OF b(1)] to_le_from_le [of bs] by auto
qed

interpretation string_codec: canonical_codec write_str read_str str_enc "\<lambda>_. 0"
  "\<lambda>s. is_utf8 s \<and> length s < 2 ^ 32" 4
proof
  fix s :: bytes
  assume s: "is_utf8 s \<and> length s < 2 ^ 32"
  show "emits (str_enc s) (write_str s)"
    unfolding str_enc_def write_str_def
    by (intro emits_and_then_live emits_write_len emits_live_put) (use s in simp_all)
  have "reads_back read_str s (to_le 4 (length s) @ s) (0 + 0)"
    unfolding read_str_def
  proof (rule reads_then [where v = "length s", OF reads_payload_len])
    show "reads_back (read_then (take_bytes (length s)) (\<lambda>bs. if is_utf8 bs then yield bs else fail InvalidUtf8)) s s 0"
      by (rule reads_checked [OF reads_take]) (simp_all add: s)
  qed (use s in simp)
  then show "reads_back read_str s (str_enc s) 0" by (simp add: str_enc_def)
  show "4 \<le> length (str_enc s)" by (simp add: str_enc_def)
next
  show "canonical_read read_str str_enc (\<lambda>_. 0) (\<lambda>s. is_utf8 s \<and> length s < 2 ^ 32)"
    by (rule canonical_readI)
       (auto simp: read_str_def str_enc_def elim!: read_thenE
         dest!: read_payload_lenD take_bytesD yieldD failD split: if_splits)
qed

section \<open>Sequences\<close>

definition vec_capture :: "('a \<Rightarrow> capture) \<Rightarrow> 'a list \<Rightarrow> capture" where
  "vec_capture cap xs = and_then (write_len (length xs)) (capture_all cap xs)"

definition vec_read :: "'a reader \<Rightarrow> 'a list reader" where
  "vec_read rd = read_then read_element_count (\<lambda>n. read_n n rd)"

definition vec_enc :: "('a \<Rightarrow> bytes) \<Rightarrow> 'a list \<Rightarrow> bytes" where
  "vec_enc enc xs = to_le 4 (length xs) @ concat (map enc xs)"

definition vec_elems :: "('a \<Rightarrow> nat) \<Rightarrow> 'a list \<Rightarrow> nat" where
  "vec_elems k xs = length xs + sum_list (map k xs)"

definition vec_ok :: "('a \<Rightarrow> bool) \<Rightarrow> 'a list \<Rightarrow> bool" where
  "vec_ok valid xs \<longleftrightarrow> length xs < 2 ^ 32 \<and> list_all valid xs"

lemma emits_counted: "length xs < 2 ^ 32 \<Longrightarrow> (\<And>x. x \<in> set xs \<Longrightarrow> emits (e x) (f x)) \<Longrightarrow>
    emits (vec_enc e xs) (and_then (write_len (length xs)) (capture_all f xs))"
  unfolding vec_enc_def by (intro emits_and_then emits_write_len emits_capture_all)

lemma vec_codec:
  assumes "state_codec c r e k v m"
  shows "state_codec (vec_capture c) (vec_read r) (vec_enc e) (vec_elems k) (vec_ok v) 4"
proof -
  note captures = state_codec.captures [OF assms] and reads = state_codec.reads [OF assms] and least_true = state_codec.least_true [OF assms]
  show ?thesis
  proof
    fix xs
    assume x: "vec_ok v xs"
    then have v: "v x" if "x \<in> set xs" for x using that by (simp add: vec_ok_def list_all_iff)
    show "emits (vec_enc e xs) (vec_capture c xs)"
      unfolding vec_capture_def using x v by (intro emits_counted captures) (simp_all add: vec_ok_def)
    show "reads_back (vec_read r) xs (vec_enc e xs) (vec_elems k xs)"
      unfolding vec_read_def vec_enc_def vec_elems_def
    proof (rule reads_then [where v = "length xs"])
      show "reads_back read_element_count (length xs) (to_le 4 (length xs)) (length xs)"
        using x by (intro reads_element_count) (simp add: vec_ok_def)
      show "reads_back (read_n (length xs) r) xs (concat (map e xs)) (sum_list (map k xs))"
        using v by (intro reads_n reads)
    qed
    show "4 \<le> length (vec_enc e xs)" by (simp add: vec_enc_def)
  qed
qed

text \<open>A fixed-size array writes no count and draws no budget of its own: its length is structural.\<close>

definition array_read :: "nat \<Rightarrow> 'a reader \<Rightarrow> 'a list reader" where
  "array_read n rd = read_n n rd"

lemma array_codec:
  assumes "state_codec c r e k v m"
  shows "state_codec (capture_all c) (array_read n r) (\<lambda>xs. concat (map e xs)) (\<lambda>xs. sum_list (map k xs))
    (\<lambda>xs. length xs = n \<and> list_all v xs) (n * m)"
proof -
  note captures = state_codec.captures [OF assms] and reads = state_codec.reads [OF assms] and least_true = state_codec.least_true [OF assms]
  show ?thesis
  proof
    fix xs
    assume x: "length xs = n \<and> list_all v xs"
    then have v: "v x" if "x \<in> set xs" for x using that by (simp add: list_all_iff)
    show "emits (concat (map e xs)) (capture_all c xs)" using v by (intro emits_capture_all captures)
    show "reads_back (array_read n r) xs (concat (map e xs)) (sum_list (map k xs))"
      unfolding array_read_def using x v by (metis reads_n reads)
    have "length xs * m \<le> length (concat (map e xs))"
      using v by (induction xs) (auto simp: add_mono least_true)
    then show "n * m \<le> length (concat (map e xs))" using x by simp
  qed
qed

lemma read_nD:
  assumes r: "canonical_read r e k v"
  shows "read_n n r c = Inr (xs, c') \<Longrightarrow> length xs = n \<and> list_all v xs \<and>
    unread c = concat (map e xs) @ unread c' \<and> cu_budget c = cu_budget c' + sum_list (map k xs)"
  by (induction n arbitrary: c xs)
     (force elim!: read_thenE dest!: canonical_readD [OF r] yieldD)+

lemma read_element_countD: "read_element_count c = Inr (n, c') \<Longrightarrow>
    n < 2 ^ 32 \<and> unread c = to_le 4 n @ unread c' \<and> cu_budget c = cu_budget c' + n"
  by (auto simp: read_element_count_def charge_elements_def unread_def elim!: read_thenE
      dest!: read_payload_lenD split: if_splits)

lemma vec_canonical:
  assumes r: "canonical_read r e k v"
  shows "canonical_read (vec_read r) (vec_enc e) (vec_elems k) (vec_ok v)"
  by (rule canonical_readI)
     (auto simp: vec_read_def vec_enc_def vec_elems_def vec_ok_def elim!: read_thenE
       dest!: read_element_countD read_nD [OF r])

lemma array_canonical:
  assumes r: "canonical_read r e k v"
  shows "canonical_read (array_read n r) (\<lambda>xs. concat (map e xs)) (\<lambda>xs. sum_list (map k xs))
    (\<lambda>xs. length xs = n \<and> list_all v xs)"
  by (rule canonical_readI) (auto simp: array_read_def dest!: read_nD [OF r])

section \<open>Maps and sets\<close>

text \<open>
  Reading entries into a container: \<open>ins\<close> says whether the key is new, and a reader refuses an entry whose
  key is not. The container that such an entry would leave is never seen.
\<close>

fun read_entries :: "nat \<Rightarrow> 'e reader \<Rightarrow> ('e \<Rightarrow> 'c \<Rightarrow> bool \<times> 'c) \<Rightarrow> 'c \<Rightarrow> 'c reader" where
  "read_entries 0 rd ins acc = yield acc"
| "read_entries (Suc n) rd ins acc = read_then rd (\<lambda>entry. case ins entry acc of
     (True, acc') \<Rightarrow> read_entries n rd ins acc'
   | (False, _) \<Rightarrow> fail DuplicateEntry)"

lemma read_entries_numeral: "read_entries (numeral n) rd ins acc = read_then rd (\<lambda>entry. case ins entry acc of
     (True, acc') \<Rightarrow> read_entries (pred_numeral n) rd ins acc' | (False, _) \<Rightarrow> fail DuplicateEntry)"
  by (simp add: numeral_eq_Suc)

definition container_read :: "'e reader \<Rightarrow> ('e \<Rightarrow> 'c \<Rightarrow> bool \<times> 'c) \<Rightarrow> 'c \<Rightarrow> 'c reader" where
  "container_read rd ins fresh = read_then read_element_count (\<lambda>n. read_entries n rd ins fresh)"

definition hash_map_insert :: "'k \<times> 'v \<Rightarrow> ('k \<rightharpoonup> 'v) \<Rightarrow> bool \<times> ('k \<rightharpoonup> 'v)" where
  "hash_map_insert entry m = (m (fst entry) = None, m(fst entry \<mapsto> snd entry))"

definition hash_set_insert :: "'k \<Rightarrow> 'k set \<Rightarrow> bool \<times> 'k set" where
  "hash_set_insert x s = (x \<notin> s, insert x s)"

definition btree_map_insert :: "'k::linorder \<times> 'v \<Rightarrow> ('k \<times> 'v) list \<Rightarrow> bool \<times> ('k \<times> 'v) list" where
  "btree_map_insert entry es = (fst entry \<notin> fst ` set es, insort_key fst entry es)"

definition btree_set_insert :: "'k::linorder \<Rightarrow> 'k list \<Rightarrow> bool \<times> 'k list" where
  "btree_set_insert x xs = (x \<notin> set xs, insort x xs)"

definition index_map_insert :: "'k \<times> 'v \<Rightarrow> ('k \<times> 'v) list \<Rightarrow> bool \<times> ('k \<times> 'v) list" where
  "index_map_insert entry es = (fst entry \<notin> fst ` set es, es @ [entry])"

definition index_set_insert :: "'k \<Rightarrow> 'k list \<Rightarrow> bool \<times> 'k list" where
  "index_set_insert x xs = (x \<notin> set xs, xs @ [x])"

fun insert_all :: "('e \<Rightarrow> 'c \<Rightarrow> bool \<times> 'c) \<Rightarrow> 'e list \<Rightarrow> 'c \<Rightarrow> 'c option" where
  "insert_all ins [] acc = Some acc"
| "insert_all ins (x # xs) acc = (case ins x acc of (True, acc') \<Rightarrow> insert_all ins xs acc' | (False, _) \<Rightarrow> None)"

lemma reads_entries: "(\<And>x. x \<in> set xs \<Longrightarrow> reads_back rd x (e x) (k x)) \<Longrightarrow> insert_all ins xs acc = Some acc' \<Longrightarrow>
    reads_back (read_entries (length xs) rd ins acc) acc' (concat (map e xs)) (sum_list (map k xs))"
proof (induction xs arbitrary: acc)
  case (Cons x xs)
  then obtain a where a: "ins x acc = (True, a)" "insert_all ins xs a = Some acc'"
    by (auto split: prod.splits bool.splits)
  have "reads_back (read_entries (length (x # xs)) rd ins acc) acc' (e x @ concat (map e xs)) (k x + sum_list (map k xs))"
    unfolding list.size read_entries.simps add_0_right One_nat_def add_Suc_right
    by (rule reads_then [where v = x]) (use Cons a in \<open>simp_all\<close>)
  then show ?case by simp
qed (simp add: reads_yield)

lemma read_entriesD:
  assumes r: "canonical_read rd e k v"
  shows "read_entries n rd ins acc c = Inr (acc', c') \<Longrightarrow> \<exists>xs. length xs = n \<and> list_all v xs \<and>
    insert_all ins xs acc = Some acc' \<and> unread c = concat (map e xs) @ unread c' \<and>
    cu_budget c = cu_budget c' + sum_list (map k xs)"
proof (induction n arbitrary: acc c)
  case 0
  then show ?case by (auto dest!: yieldD)
next
  case (Suc n)
  then obtain x c1 where x: "rd c = Inr (x, c1)"
    "(case ins x acc of (True, a) \<Rightarrow> read_entries n rd ins a | (False, _) \<Rightarrow> fail DuplicateEntry) c1 = Inr (acc', c')"
    by (auto elim!: read_thenE)
  then obtain a where a: "ins x acc = (True, a)" "read_entries n rd ins a c1 = Inr (acc', c')"
    by (auto dest: failD split: prod.splits bool.splits)
  from Suc.IH [OF a(2)] obtain xs where "length xs = n" "list_all v xs" "insert_all ins xs a = Some acc'"
    "unread c1 = concat (map e xs) @ unread c'" "cu_budget c1 = cu_budget c' + sum_list (map k xs)" by blast
  then show ?case using a(1) canonical_readD [OF r x(1)] by (intro exI [of _ "x # xs"]) simp
qed

text \<open>
  A container that is written entry by entry, in the order of \<open>items\<close>, and rebuilt by inserting them: the
  reader rebuilds it, and accepts no other bytes than its entries in some order.
\<close>

locale keyed_container =
  fixes ins :: "'e \<Rightarrow> 'c \<Rightarrow> bool \<times> 'c" and fresh :: 'c and items :: "'c \<Rightarrow> 'e list" and ok :: "'c \<Rightarrow> bool"
  assumes rebuild: "ok x \<Longrightarrow> insert_all ins (items x) fresh = Some x"
    and fill: "insert_all ins es fresh = Some x \<Longrightarrow> ok x \<and> mset es = mset (items x)"
begin

lemma container_codec:
  assumes "state_codec c r e k v m"
  shows "state_codec (\<lambda>x. vec_capture c (items x)) (container_read r ins fresh) (\<lambda>x. vec_enc e (items x))
    (\<lambda>x. vec_elems k (items x)) (\<lambda>x. ok x \<and> vec_ok v (items x)) 4"
proof -
  note vec = vec_codec [OF assms]
  note vec_captures = state_codec.captures [OF vec] and vec_least_true = state_codec.least_true [OF vec]
  note item_reads = state_codec.reads [OF assms]
  show ?thesis
  proof
    fix x
    assume x: "ok x \<and> vec_ok v (items x)"
    then have v: "v i" if "i \<in> set (items x)" for i using that by (simp add: vec_ok_def list_all_iff)
    show "emits (vec_enc e (items x)) (vec_capture c (items x))" using x vec_captures by simp
    show "4 \<le> length (vec_enc e (items x))" using x vec_least_true by simp
    show "reads_back (container_read r ins fresh) x (vec_enc e (items x)) (vec_elems k (items x))"
      unfolding container_read_def vec_enc_def vec_elems_def
    proof (rule reads_then [where v = "length (items x)"])
      show "reads_back read_element_count (length (items x)) (to_le 4 (length (items x))) (length (items x))"
        using x by (intro reads_element_count) (simp add: vec_ok_def)
      show "reads_back (read_entries (length (items x)) r ins fresh) x (concat (map e (items x))) (sum_list (map k (items x)))"
        by (rule reads_entries) (use x v item_reads rebuild in auto)
    qed
  qed
qed

lemma accepted_up_to_order:
  assumes "canonical_read r e k v" "restore_blob (container_read r ins fresh) blob = Inr x"
  shows "\<exists>es. blob = vec_enc e es \<and> mset es = mset (items x) \<and> list_all v es \<and> ok x \<and> length es < 2 ^ 32"
proof -
  obtain c where c: "container_read r ins fresh (new_cursor blob) = Inr (x, c)" "unread c = []"
    using assms(2) by (auto simp: restore_blob_def finish_cursor_def remaining_unread split: sum.splits if_splits)
  then obtain n c1 where n: "read_element_count (new_cursor blob) = Inr (n, c1)" "read_entries n r ins fresh c1 = Inr (x, c)"
    by (auto simp: container_read_def elim!: read_thenE)
  obtain es where "length es = n" "list_all v es" "insert_all ins es fresh = Some x" "unread c1 = concat (map e es) @ unread c"
    using read_entriesD [OF assms(1) n(2)] by blast
  moreover from this fill have "ok x" "mset es = mset (items x)" by blast+
  moreover have "blob = unread (new_cursor blob)" by (simp add: new_cursor_def unread_def)
  ultimately show ?thesis using read_element_countD [OF n(1)] c(2) by (auto simp: vec_enc_def intro!: exI [of _ es])
qed

end

definition map_items :: "('k::linorder \<rightharpoonup> 'v) \<Rightarrow> ('k \<times> 'v) list" where
  "map_items m = map (\<lambda>k. (k, the (m k))) (sorted_list_of_set (dom m))"

lemma insert_all_hash_map: "insert_all hash_map_insert es m0 = Some m \<longleftrightarrow>
    distinct (map fst es) \<and> fst ` set es \<inter> dom m0 = {} \<and> m = m0 ++ map_of es"
proof (induction es arbitrary: m0)
  case (Cons entry es)
  obtain k v where [simp]: "entry = (k, v)" by force
  have i: "hash_map_insert (k, v) m0 = (m0 k = None, m0(k \<mapsto> v))" by (simp add: hash_map_insert_def)
  have u: "m0(k \<mapsto> v) ++ map_of es = m0 ++ map_of (entry # es)" if "k \<notin> fst ` set es"
    using that by (simp add: map_add_upd_left dom_map_of_conv_image_fst)
  have d: "dom (m0(k \<mapsto> v)) = insert k (dom m0)" by simp
  show ?case
  proof (cases "m0 k = None \<and> k \<notin> fst ` set es")
    case True
    then have "insert_all hash_map_insert (entry # es) m0 = insert_all hash_map_insert es (m0(k \<mapsto> v))" by (simp add: i)
    also have "(\<dots> = Some m) \<longleftrightarrow> distinct (map fst es) \<and> fst ` set es \<inter> insert k (dom m0) = {} \<and>
        m = m0 ++ map_of (entry # es)"
      by (simp only: Cons.IH d u [OF conjunct2 [OF True]])
    finally show ?thesis using True by (simp only:) (auto simp: domIff)
  next
    case False
    then have "insert_all hash_map_insert (entry # es) m0 \<noteq> Some m"
      using Cons.IH [of "m0(k \<mapsto> v)"] by (cases "m0 k") (auto simp add: i d simp del: fun_upd_apply)
    then show ?thesis using False by auto
  qed
qed auto

lemma mset_sorted_set: "distinct xs \<Longrightarrow> mset (sorted_list_of_set (set xs)) = mset (xs :: 'a::linorder list)"
  using set_eq_iff_mset_eq_distinct [of "sorted_list_of_set (set xs)" xs] by simp

lemma mset_map_items:
  assumes "distinct (map fst es)"
  shows "mset (map_items (map_of es)) = mset es"
proof -
  have "mset (map_items (map_of es)) = image_mset (\<lambda>k. (k, the (map_of es k))) (mset (map fst es))"
    unfolding mset_sorted_set [OF assms, symmetric]
    by (simp add: map_items_def dom_map_of_conv_image_fst)
  also have "\<dots> = mset (map (\<lambda>entry. (fst entry, the (map_of es (fst entry)))) es)" by (simp add: image_mset.compositionality comp_def)
  also have "map (\<lambda>entry. (fst entry, the (map_of es (fst entry)))) es = es"
    using assms by (intro map_idI) (auto simp: map_of_is_SomeI)
  finally show ?thesis .
qed

lemma map_items_facts:
  assumes "finite (dom m)"
  shows "distinct (map fst (map_items m))" "map_of (map_items m) = m" "length (map_items m) = card (dom m)"
proof -
  have f: "map fst (map_items m) = sorted_list_of_set (dom m)" by (simp add: map_items_def comp_def)
  show "distinct (map fst (map_items m))" "length (map_items m) = card (dom m)"
    by (simp only: f distinct_sorted_list_of_set) (simp add: map_items_def)
  show "map_of (map_items m) = m"
    unfolding map_items_def using assms by (intro map_of_map_keys) simp
qed

interpretation hash_map: keyed_container hash_map_insert Map.empty map_items "\<lambda>m. finite (dom m)"
proof
  show "insert_all hash_map_insert (map_items m) Map.empty = Some m" if "finite (dom m)" for m :: "'a \<rightharpoonup> 'b"
    using map_items_facts [OF that] by (simp add: insert_all_hash_map)
  show "finite (dom m) \<and> mset es = mset (map_items m)" if "insert_all hash_map_insert es Map.empty = Some m"
    for es and m :: "'a \<rightharpoonup> 'b"
    using that by (auto simp: insert_all_hash_map mset_map_items finite_dom_map_of)
qed

lemma insert_all_hash_set: "insert_all hash_set_insert xs s0 = Some s \<longleftrightarrow>
    distinct xs \<and> set xs \<inter> s0 = {} \<and> s = s0 \<union> set xs"
  by (induction xs arbitrary: s0) (auto simp: hash_set_insert_def split: bool.splits)

interpretation hash_set: keyed_container hash_set_insert "{}" sorted_list_of_set finite
  by unfold_locales (auto simp: insert_all_hash_set mset_sorted_set)

lemma insert_all_index_map: "insert_all index_map_insert es acc = Some x \<longleftrightarrow>
    distinct (map fst es) \<and> fst ` set es \<inter> fst ` set acc = {} \<and> x = acc @ es"
  by (induction es arbitrary: acc) (auto simp: index_map_insert_def split: bool.splits)

interpretation index_map: keyed_container index_map_insert "[]" "\<lambda>es. es" "\<lambda>es. distinct (map fst es)"
  by unfold_locales (auto simp: insert_all_index_map)

lemma insert_all_index_set: "insert_all index_set_insert xs acc = Some x \<longleftrightarrow>
    distinct xs \<and> set xs \<inter> set acc = {} \<and> x = acc @ xs"
  by (induction xs arbitrary: acc) (auto simp: index_set_insert_def split: bool.splits)

interpretation index_set: keyed_container index_set_insert "[]" "\<lambda>xs. xs" distinct
  by unfold_locales (auto simp: insert_all_index_set)

text \<open>A B-tree sorts what it is given, by \<open>key\<close>: the entry's key, or the element itself.\<close>

lemma insort_key_last: "\<forall>y\<in>set xs. f y < (f x :: 'k::linorder) \<Longrightarrow> insort_key f x xs = xs @ [x]"
  by (induction xs) (auto simp: not_le)

lemma insort_key_strict:
  assumes "sorted_wrt (<) (map f xs)" "f x \<notin> f ` set xs"
  shows "sorted_wrt (<) (map f (insort_key (f :: _ \<Rightarrow> 'k::linorder) x xs))"
proof -
  have "mset (map f (insort_key f x xs)) = mset (f x # map f xs)" by simp
  then have "distinct (map f (insort_key f x xs)) \<longleftrightarrow> distinct (f x # map f xs)" by (rule mset_eq_imp_distinct_iff)
  then show ?thesis using assms by (simp add: strict_sorted_iff sorted_insort_key)
qed

lemma btree_rebuild:
  assumes "\<And>x xs. ins x xs = (f x \<notin> f ` set xs, insort_key (f :: _ \<Rightarrow> 'k::linorder) x xs)"
  shows "sorted_wrt (<) (map f (acc @ es)) \<Longrightarrow> insert_all ins es acc = Some (acc @ es)"
proof (induction es arbitrary: acc)
  case (Cons x es)
  then have "\<forall>y\<in>set acc. f y < f x" by (auto simp: sorted_wrt_append)
  then have "ins x acc = (True, acc @ [x])" by (force simp: assms insort_key_last)
  then show ?case using Cons.IH [of "acc @ [x]"] Cons.prems by simp
qed simp

lemma btree_fill:
  assumes "\<And>x xs. ins x xs = (f x \<notin> f ` set xs, insort_key (f :: _ \<Rightarrow> 'k::linorder) x xs)"
  shows "insert_all ins es acc = Some t \<Longrightarrow> sorted_wrt (<) (map f acc) \<Longrightarrow>
    sorted_wrt (<) (map f t) \<and> mset t = mset acc + mset es"
proof (induction es arbitrary: acc)
  case (Cons x es)
  have i: "ins x acc = (f x \<notin> f ` set acc, insort_key f x acc)" by (rule assms)
  then have n: "f x \<notin> f ` set acc" "insert_all ins es (insort_key f x acc) = Some t"
    using Cons.prems(1) by (simp_all del: image_iff split: bool.splits)
  show ?case using Cons.IH [OF n(2) insort_key_strict [OF Cons.prems(2) n(1)]] by simp
qed simp

interpretation btree_map: keyed_container btree_map_insert "[]" "\<lambda>es. es" "\<lambda>es. sorted_wrt (<) (map fst es)"
  using btree_rebuild [of btree_map_insert fst "[]"] btree_fill [of btree_map_insert fst _ "[]"]
  by unfold_locales (auto simp: btree_map_insert_def)

interpretation btree_set: keyed_container btree_set_insert "[]" "\<lambda>xs. xs" "sorted_wrt (<)"
  using btree_rebuild [of btree_set_insert "\<lambda>x. x" "[]"] btree_fill [of btree_set_insert "\<lambda>x. x" _ "[]"]
  by unfold_locales (auto simp: btree_set_insert_def)

section \<open>Hash maps and sets\<close>

text \<open>
  The keys arrive in the iteration order of this process, \<open>iter\<close>. A sink that cannot hold the floor of the
  encoding, or that has fewer bytes left than there are entries, is refused before the index is built.
\<close>

definition guard_sort_scratch :: "nat \<Rightarrow> nat \<Rightarrow> capture" where
  "guard_sort_scratch entries min_bytes_per_entry s =
     (case remaining_hint s of
        Some rem \<Rightarrow> if entries * min_bytes_per_entry + 4 > rem \<or> entries > rem
                    then (Inl SinkFull, sink_refuse s) else (Inr (), s)
      | None \<Rightarrow> (Inr (), s))"

definition hash_map_capture ::
    "('k::linorder \<Rightarrow> capture) \<Rightarrow> ('v \<Rightarrow> capture) \<Rightarrow> nat \<Rightarrow> 'k list \<Rightarrow> ('k \<rightharpoonup> 'v) \<Rightarrow> capture" where
  "hash_map_capture ck cv min_bytes iter m =
     and_then (guard_sort_scratch (length iter) min_bytes)
       (and_then (write_len (length iter))
         (capture_all (\<lambda>k. and_then (ck k) (cv (the (m k)))) (sort iter)))"

definition hash_set_capture :: "('k::linorder \<Rightarrow> capture) \<Rightarrow> nat \<Rightarrow> 'k list \<Rightarrow> capture" where
  "hash_set_capture c min_bytes iter =
     and_then (guard_sort_scratch (length iter) min_bytes)
       (and_then (write_len (length iter)) (capture_all c (sort iter)))"

definition iterates :: "'k list \<Rightarrow> 'k set \<Rightarrow> bool" where
  "iterates iter keys \<longleftrightarrow> distinct iter \<and> set iter = keys"

lemma iterates_sort: "iterates iter keys \<Longrightarrow> sort iter = sorted_list_of_set keys"
  by (auto simp: iterates_def sorted_list_of_set_sort_remdups distinct_remdups_id)

lemma iterates_length: "iterates iter keys \<Longrightarrow> length iter = card keys"
  by (metis distinct_card iterates_def)

lemma emits_guarded:
  assumes f: "emits bs f" and n: "n * floor + 4 \<le> length bs" "n \<le> length bs"
  shows "emits bs (and_then (guard_sort_scratch n floor) f)"
  unfolding emits_def emits_live_def
proof (intro conjI allI impI)
  fix s :: state_sink
  assume s: "\<not> ss_refused s" "has_room 0 s"
  have live: "if has_room (length bs) s then f s = (Inr (), appended bs s) else cut_off bs s (f s)"
    using f s by (simp add: emits_def emits_live_def)
  have stop: "cut_off bs s (Inl SinkFull, sink_refuse s)" if "ss_cap s \<noteq> None"
    using that s by (intro cut_offI [of _ "[]" bs]) (simp_all add: sink_refuse_def)
  show "if has_room (length bs) s then and_then (guard_sort_scratch n floor) f s = (Inr (), appended bs s)
    else cut_off bs s (and_then (guard_sort_scratch n floor) f s)"
  proof (cases "ss_cap s")
    case None
    then show ?thesis using live by (simp add: and_then_def guard_sort_scratch_def remaining_hint_def)
  next
    case (Some cap)
    then have "remaining_hint s = Some (cap - length (ss_bytes s))" using s by (simp add: remaining_hint_def)
    moreover have "has_room (length bs) s \<longleftrightarrow> length bs \<le> cap - length (ss_bytes s)"
      using s Some by (auto simp: has_room_def)
    ultimately show ?thesis using live stop Some n by (auto simp: and_then_def guard_sort_scratch_def)
  qed
next
  fix s :: state_sink
  assume s: "ss_refused s"
  then have "f s = (Inl SinkFull, s)" using f n by (auto simp: emits_def)
  moreover have "sink_refuse s = s" using s by (cases s) (simp add: sink_refuse_def)
  ultimately show "and_then (guard_sort_scratch n floor) f s = (if bs = [] then (Inr (), s) else (Inl SinkFull, s))"
    using s n by (auto simp: and_then_def guard_sort_scratch_def remaining_hint_def split: option.splits)
qed

text \<open>
  At most one value of a type encodes as nothing, so a container of \<open>n\<close> entries has \<open>n\<close> bytes: the second
  disjunct of the guard refuses nothing that fits, whatever floor an impl declares.
\<close>

lemma distinct_encodings:
  "distinct ks \<Longrightarrow> inj_on enc (set ks) \<Longrightarrow>
    length ks \<le> (if [] \<in> enc ` set ks then 1 else 0) + length (concat (map enc ks))"
proof (induction ks)
  case (Cons k ks)
  then have "length ks \<le> (if [] \<in> enc ` set ks then 1 else 0) + length (concat (map enc ks))" by simp
  moreover have "[] \<notin> enc ` set ks" if "enc k = []" using Cons.prems that by (auto simp: inj_on_def)
  ultimately show ?case by (cases "enc k") auto
qed simp

lemma floor_of_entries: "(\<And>x. x \<in> set xs \<Longrightarrow> m \<le> length (enc x)) \<Longrightarrow> length xs * m \<le> length (concat (map enc xs))"
  by (induction xs) (auto simp: add_mono)

lemma hash_entries:
  assumes k: "state_codec ck rk ek kk vk mk"
    and ks: "distinct ks" "list_all vk ks" and e: "\<And>x. x \<in> set ks \<Longrightarrow> length (ek x) \<le> length (e x)"
    and m: "\<And>x. x \<in> set ks \<Longrightarrow> m \<le> length (e x)"
  shows "length ks * m + 4 \<le> length (vec_enc e ks)" "length ks \<le> length (vec_enc e ks)"
proof -
  show "length ks * m + 4 \<le> length (vec_enc e ks)"
    using floor_of_entries [of ks m e] m by (simp add: vec_enc_def)
  have "inj_on ek (set ks)"
    using state_codec.enc_inj [OF k] ks(2) by (auto simp: list_all_iff intro: inj_on_subset)
  then have "length ks \<le> 1 + length (concat (map ek ks))"
    using distinct_encodings [OF ks(1), of ek] by (auto split: if_splits)
  moreover have "length (concat (map ek ks)) \<le> length (concat (map e ks))"
    using e by (induction ks) (auto simp: add_mono)
  ultimately show "length ks \<le> length (vec_enc e ks)" by (simp add: vec_enc_def)
qed

lemma capture_all_map: "capture_all f (map g xs) = capture_all (\<lambda>x. f (g x)) xs"
  by (induction xs) simp_all

text \<open>Whatever order the map hands out its keys in, its capture emits its entries sorted.\<close>

lemma hash_map_emits:
  assumes k: "state_codec ck rk ek kk vk mk" and v: "state_codec cv rv ev kv vv mv"
    and m: "finite (dom m)" "vec_ok (pred_prod vk vv) (map_items m)" and i: "iterates iter (dom m)"
  shows "emits (vec_enc (tuple_enc ek ev) (map_items m)) (hash_map_capture ck cv (mk + mv) iter m)"
proof -
  let ?items = "map_items m" and ?ks = "sorted_list_of_set (dom m)" and ?e = "\<lambda>k. ek k @ ev (the (m k))"
  note entry = tuple_codec [OF k v]
  note entry_captures = state_codec.captures [OF entry] and entry_least_true = state_codec.least_true [OF entry]
  have ks: "sort iter = ?ks" "length iter = length ?items"
    using iterates_sort [OF i] map_items_facts(3) [OF m(1)] iterates_length [OF i] by simp_all
  have ok: "pred_prod vk vv entry" if "entry \<in> set ?items" for entry
    using m(2) that by (simp add: vec_ok_def list_all_iff)
  then have ok': "vk x \<and> vv (the (m x))" if "x \<in> set ?ks" for x
    using that ok [of "(x, the (m x))"] by (simp add: map_items_def)
  have "emits (vec_enc (tuple_enc ek ev) ?items) (and_then (write_len (length ?items)) (capture_all (tuple_capture ck cv) ?items))"
    using m(2) ok by (intro emits_counted entry_captures) (simp_all add: vec_ok_def)
  moreover have "capture_all (tuple_capture ck cv) ?items = capture_all (\<lambda>k. and_then (ck k) (cv (the (m k)))) ?ks"
    by (simp add: map_items_def capture_all_map tuple_capture_def)
  moreover have e: "vec_enc ?e ?ks = vec_enc (tuple_enc ek ev) ?items"
    by (simp add: vec_enc_def map_items_def tuple_enc_def comp_def)
  moreover have "length ?ks * (mk + mv) + 4 \<le> length (vec_enc ?e ?ks)" "length ?ks \<le> length (vec_enc ?e ?ks)"
  proof (rule_tac [!] hash_entries [OF k])
    show "list_all vk ?ks" "list_all vk ?ks" using ok' by (simp_all add: list_all_iff)
    show "mk + mv \<le> length (?e x)" "mk + mv \<le> length (?e x)" if "x \<in> set ?ks" for x
      using entry_least_true [of "(x, the (m x))"] ok' [OF that] by (simp_all add: tuple_enc_def)
  qed simp_all
  ultimately show ?thesis
    unfolding hash_map_capture_def by (intro emits_guarded) (simp_all add: ks map_items_def)
qed

lemma hash_set_emits:
  assumes k: "state_codec c r e k v m" and s: "finite s" "vec_ok v (sorted_list_of_set s)" and i: "iterates iter s"
  shows "emits (vec_enc e (sorted_list_of_set s)) (hash_set_capture c m iter)"
proof -
  note item_captures = state_codec.captures [OF k] and item_least_true = state_codec.least_true [OF k]
  let ?xs = "sorted_list_of_set s"
  have ks: "sort iter = ?xs" "length iter = length ?xs"
    using iterates_sort [OF i] iterates_length [OF i] by simp_all
  have ok: "v x" if "x \<in> set ?xs" for x using s(2) that by (simp add: vec_ok_def list_all_iff)
  have "emits (vec_enc e ?xs) (and_then (write_len (length ?xs)) (capture_all c ?xs))"
    using s(2) ok by (intro emits_counted item_captures) (simp_all add: vec_ok_def)
  moreover have "length ?xs * m + 4 \<le> length (vec_enc e ?xs)" "length ?xs \<le> length (vec_enc e ?xs)"
    using s(2) ok item_least_true by (intro hash_entries [OF k, of ?xs e m]; simp add: vec_ok_def)+
  ultimately show ?thesis unfolding hash_set_capture_def by (intro emits_guarded) (simp_all add: ks)
qed

text \<open>With an iteration order per map, the hash map's impl keeps the contract of its entries.\<close>

lemma hash_map_codec:
  assumes k: "state_codec ck rk ek kk vk mk" and v: "state_codec cv rv ev kv vv mv"
    and i: "\<And>m. finite (dom m) \<Longrightarrow> iterates (iter m) (dom m)"
  shows "state_codec (\<lambda>m. hash_map_capture ck cv (mk + mv) (iter m) m)
    (container_read (tuple_read rk rv) hash_map_insert Map.empty) (\<lambda>m. vec_enc (tuple_enc ek ev) (map_items m))
    (\<lambda>m. vec_elems (tuple_elems kk kv) (map_items m))
    (\<lambda>m. finite (dom m) \<and> vec_ok (pred_prod vk vv) (map_items m)) 4"
proof -
  note listed = hash_map.container_codec [OF tuple_codec [OF k v]]
  note listed_reads = state_codec.reads [OF listed] and listed_least_true = state_codec.least_true [OF listed]
  show ?thesis
    by unfold_locales (use hash_map_emits [OF k v] i listed_reads listed_least_true in auto)
qed

end
