(* ===== verification/StateTypes.thy ===== *)
theory StateTypes
  imports StateContainers "HOL-Library.List_Lexorder"
begin

text \<open>
  The state types of a fragment of the impls (\<open>state/impls.rs\<close>). A \<open>state_type\<close> is the type of a field, a
  \<open>state_value\<close> a value of one; a struct's fields, in declaration order, nest pairs, as do longer tuples. \<open>vcap\<close>,
  \<open>vread\<close>, \<open>vprobe\<close>, \<open>inline_safe\<close> and \<open>min_bytes\<close> resolve the trait's methods and constants by the structure
  of the type, as the compiler resolves the impls.

  A word stands for every scalar of its width, whose bytes are the same: the signed integers, \<open>f32\<close> and \<open>f64\<close> by
  their bits, their \<open>Wrapping\<close>, and an atomic by the value it holds at the boundary. Impls with the same bytes and
  the same reader as one below have its constructor: \<open>VecDeque\<close> and a \<open>Cow\<close> slice that of \<open>Vec\<close>, a \<open>Cow\<close> string
  that of \<open>String\<close>, \<open>RwLock\<close> that of \<open>Mutex\<close>, \<open>Box\<close>, \<open>Rc\<close> and \<open>Arc\<close> that of what they point to,
  \<open>PhantomData\<close> that of the unit, a set that of a map to the unit. The keys of maps and sets are strings, ordered by
  their bytes.

  Not in the fragment are keys of other types, \<open>isize\<close>, the \<open>NonZero\<close> integers, \<open>SystemTime\<close>, the address types,
  a \<open>PathBuf\<close> (which captures only if it is UTF-8) and \<open>&'static str\<close> (which is read only to be compared).
\<close>

section \<open>Types and values\<close>

datatype state_type =
    TUnit | TU8 | TU16 | TU32 | TU128 | TU64 | TUsize | TBool | TChar | TDuration | TString
  | TOption state_type | TResult state_type state_type | TMutex state_type
  | TPair state_type state_type | TArray nat state_type | TVec state_type
  | THashMap state_type | TBTreeMap state_type | TIndexMap state_type

datatype state_value =
    VUnit | VU8 (un_u8: u8) | VU16 (un_u16: u16) | VU128 (un_u128: "128 word") | VU32 (un_u32: u32) | VU64 (un_u64: u64) | VUsize (un_usize: nat)
  | VBool (un_bool: bool) | VChar (un_char: u32) | VDuration (un_duration: std_duration) | VString (un_string: bytes)
  | VOption (un_option: "state_value option") | VResult (un_result: "state_value + state_value")
  | VMutex (un_mutex: "state_value lock") | VPair (un_pair: "state_value \<times> state_value")
  | VArray (un_array: "state_value list") | VVec (un_vec: "state_value list")
  | VHashMap (un_hash: "bytes \<rightharpoonup> state_value") | VBTreeMap (un_btree: "(bytes \<times> state_value) list")
  | VIndexMap (un_index: "(bytes \<times> state_value) list")

type_synonym hash_order = "(bytes \<rightharpoonup> state_value) \<Rightarrow> bytes list"

section \<open>The constants of the trait\<close>

primrec inline_safe :: "state_type \<Rightarrow> bool" where
  "inline_safe TUnit = True" | "inline_safe TU8 = True" | "inline_safe TU16 = True" | "inline_safe TU128 = True" | "inline_safe TU32 = True"
| "inline_safe TU64 = True" | "inline_safe TUsize = True" | "inline_safe TBool = True"
| "inline_safe TChar = True" | "inline_safe TDuration = True" | "inline_safe TString = True"
| "inline_safe (TOption t) = inline_safe t"
| "inline_safe (TResult t t') = (inline_safe t \<and> inline_safe t')"
| "inline_safe (TMutex t) = False"
| "inline_safe (TPair t t') = (inline_safe t \<and> inline_safe t')"
| "inline_safe (TArray n t) = inline_safe t"
| "inline_safe (TVec t) = inline_safe t"
| "inline_safe (THashMap t) = inline_safe t"
| "inline_safe (TBTreeMap t) = inline_safe t"
| "inline_safe (TIndexMap t) = inline_safe t"

primrec min_bytes :: "state_type \<Rightarrow> nat" where
  "min_bytes TUnit = 0" | "min_bytes TU8 = 1" | "min_bytes TU16 = 2" | "min_bytes TU128 = 16" | "min_bytes TU32 = 4"
| "min_bytes TU64 = 8" | "min_bytes TUsize = 8" | "min_bytes TBool = 1"
| "min_bytes TChar = 4" | "min_bytes TDuration = 12" | "min_bytes TString = 4"
| "min_bytes (TOption t) = 1"
| "min_bytes (TResult t t') = 1 + min (min_bytes t) (min_bytes t')"
| "min_bytes (TMutex t) = min_bytes t"
| "min_bytes (TPair t t') = min_bytes t + min_bytes t'"
| "min_bytes (TArray n t) = n * min_bytes t"
| "min_bytes (TVec t) = 4"
| "min_bytes (THashMap t) = 4"
| "min_bytes (TBTreeMap t) = 4"
| "min_bytes (TIndexMap t) = 4"

section \<open>The methods of the trait\<close>

text \<open>The probe answers at once for a type that is inline safe, and else walks the value.\<close>

primrec vprobe :: "state_type \<Rightarrow> state_value \<Rightarrow> bool" where
  "vprobe TUnit v = True" | "vprobe TU8 v = True" | "vprobe TU16 v = True" | "vprobe TU128 v = True" | "vprobe TU32 v = True"
| "vprobe TU64 v = True" | "vprobe TUsize v = True" | "vprobe TBool v = True"
| "vprobe TChar v = True" | "vprobe TDuration v = True" | "vprobe TString v = True"
| "vprobe (TOption t) v = (inline_safe (TOption t) \<or> pred_option (vprobe t) (un_option v))"
| "vprobe (TResult t t') v = (inline_safe (TResult t t') \<or> pred_sum (vprobe t') (vprobe t) (un_result v))"
| "vprobe (TMutex t) v = lock_probe (vprobe t) (un_mutex v)"
| "vprobe (TPair t t') v = (inline_safe (TPair t t') \<or> pred_prod (vprobe t) (vprobe t') (un_pair v))"
| "vprobe (TArray n t) v = (inline_safe (TArray n t) \<or> list_all (vprobe t) (un_array v))"
| "vprobe (TVec t) v = (inline_safe (TVec t) \<or> list_all (vprobe t) (un_vec v))"
| "vprobe (THashMap t) v = (inline_safe (THashMap t) \<or> list_all (\<lambda>e. vprobe t (snd e)) (map_items (un_hash v)))"
| "vprobe (TBTreeMap t) v = (inline_safe (TBTreeMap t) \<or> list_all (\<lambda>e. vprobe t (snd e)) (un_btree v))"
| "vprobe (TIndexMap t) v = (inline_safe (TIndexMap t) \<or> list_all (\<lambda>e. vprobe t (snd e)) (un_index v))"

primrec vcap :: "hash_order \<Rightarrow> state_type \<Rightarrow> state_value \<Rightarrow> capture" where
  "vcap iter TUnit v = nothing"
| "vcap iter TU8 v = scalar_capture (un_u8 v)"
| "vcap iter TU16 v = scalar_capture (un_u16 v)"
| "vcap iter TU128 v = scalar_capture (un_u128 v)"
| "vcap iter TU32 v = scalar_capture (un_u32 v)"
| "vcap iter TU64 v = scalar_capture (un_u64 v)"
| "vcap iter TUsize v = usize_capture (un_usize v)"
| "vcap iter TBool v = bool_capture (un_bool v)"
| "vcap iter TChar v = scalar_capture (un_char v)"
| "vcap iter TDuration v = duration_capture (un_duration v)"
| "vcap iter TString v = write_str (un_string v)"
| "vcap iter (TOption t) v = option_capture (vcap iter t) (un_option v)"
| "vcap iter (TResult t t') v = result_capture (vcap iter t) (vcap iter t') (un_result v)"
| "vcap iter (TMutex t) v = lock_capture (vcap iter t) (un_mutex v)"
| "vcap iter (TPair t t') v = tuple_capture (vcap iter t) (vcap iter t') (un_pair v)"
| "vcap iter (TArray n t) v = capture_all (vcap iter t) (un_array v)"
| "vcap iter (TVec t) v = vec_capture (vcap iter t) (un_vec v)"
| "vcap iter (THashMap t) v =
     hash_map_capture write_str (vcap iter t) (4 + min_bytes t) (iter (un_hash v)) (un_hash v)"
| "vcap iter (TBTreeMap t) v = vec_capture (tuple_capture write_str (vcap iter t)) (un_btree v)"
| "vcap iter (TIndexMap t) v = vec_capture (tuple_capture write_str (vcap iter t)) (un_index v)"

definition wrapped :: "'a reader \<Rightarrow> ('a \<Rightarrow> state_value) \<Rightarrow> state_value reader" where
  "wrapped rd con = read_then rd (\<lambda>x. yield (con x))"

text \<open>The reader on a host whose \<open>usize\<close> has \<open>host\<close> bits.\<close>

primrec vread :: "nat \<Rightarrow> state_type \<Rightarrow> state_value reader" where
  "vread host TUnit = yield VUnit"
| "vread host TU8 = wrapped scalar_read VU8"
| "vread host TU16 = wrapped scalar_read VU16"
| "vread host TU128 = wrapped scalar_read VU128"
| "vread host TU32 = wrapped scalar_read VU32"
| "vread host TU64 = wrapped scalar_read VU64"
| "vread host TUsize = wrapped (usize_read host) VUsize"
| "vread host TBool = wrapped read_bool VBool"
| "vread host TChar = wrapped char_read VChar"
| "vread host TDuration = wrapped duration_read VDuration"
| "vread host TString = wrapped read_str VString"
| "vread host (TOption t) = wrapped (option_read (vread host t)) VOption"
| "vread host (TResult t t') = wrapped (result_read (vread host t) (vread host t')) VResult"
| "vread host (TMutex t) = wrapped (lock_read (vread host t)) VMutex"
| "vread host (TPair t t') = wrapped (tuple_read (vread host t) (vread host t')) VPair"
| "vread host (TArray n t) = wrapped (array_read n (vread host t)) VArray"
| "vread host (TVec t) = wrapped (vec_read (vread host t)) VVec"
| "vread host (THashMap t) = wrapped (container_read (tuple_read read_str (vread host t)) hash_map_insert Map.empty) VHashMap"
| "vread host (TBTreeMap t) = wrapped (container_read (tuple_read read_str (vread host t)) btree_map_insert []) VBTreeMap"
| "vread host (TIndexMap t) = wrapped (container_read (tuple_read read_str (vread host t)) index_map_insert []) VIndexMap"

section \<open>The contract of every type\<close>

text \<open>The canonical bytes of a value, the elements it draws from the budget, and the values of a type.\<close>

primrec venc :: "state_type \<Rightarrow> state_value \<Rightarrow> bytes" where
  "venc TUnit v = []"
| "venc TU8 v = scalar_enc (un_u8 v)"
| "venc TU16 v = scalar_enc (un_u16 v)"
| "venc TU128 v = scalar_enc (un_u128 v)"
| "venc TU32 v = scalar_enc (un_u32 v)"
| "venc TU64 v = scalar_enc (un_u64 v)"
| "venc TUsize v = to_le 8 (un_usize v)"
| "venc TBool v = [if un_bool v then 1 else 0]"
| "venc TChar v = scalar_enc (un_char v)"
| "venc TDuration v = duration_enc (un_duration v)"
| "venc TString v = str_enc (un_string v)"
| "venc (TOption t) v = option_enc (venc t) (un_option v)"
| "venc (TResult t t') v = result_enc (venc t) (venc t') (un_result v)"
| "venc (TMutex t) v = venc t (lk_value (un_mutex v))"
| "venc (TPair t t') v = tuple_enc (venc t) (venc t') (un_pair v)"
| "venc (TArray n t) v = concat (map (venc t) (un_array v))"
| "venc (TVec t) v = vec_enc (venc t) (un_vec v)"
| "venc (THashMap t) v = vec_enc (tuple_enc str_enc (venc t)) (map_items (un_hash v))"
| "venc (TBTreeMap t) v = vec_enc (tuple_enc str_enc (venc t)) (un_btree v)"
| "venc (TIndexMap t) v = vec_enc (tuple_enc str_enc (venc t)) (un_index v)"

primrec velems :: "state_type \<Rightarrow> state_value \<Rightarrow> nat" where
  "velems TUnit v = 0" | "velems TU8 v = 0" | "velems TU16 v = 0" | "velems TU128 v = 0" | "velems TU32 v = 0" | "velems TU64 v = 0"
| "velems TUsize v = 0" | "velems TBool v = 0" | "velems TChar v = 0" | "velems TDuration v = 0"
| "velems TString v = 0"
| "velems (TOption t) v = case_option 0 (velems t) (un_option v)"
| "velems (TResult t t') v = case_sum (velems t') (velems t) (un_result v)"
| "velems (TMutex t) v = velems t (lk_value (un_mutex v))"
| "velems (TPair t t') v = tuple_elems (velems t) (velems t') (un_pair v)"
| "velems (TArray n t) v = sum_list (map (velems t) (un_array v))"
| "velems (TVec t) v = vec_elems (velems t) (un_vec v)"
| "velems (THashMap t) v = vec_elems (tuple_elems (\<lambda>_. 0) (velems t)) (map_items (un_hash v))"
| "velems (TBTreeMap t) v = vec_elems (tuple_elems (\<lambda>_. 0) (velems t)) (un_btree v)"
| "velems (TIndexMap t) v = vec_elems (tuple_elems (\<lambda>_. 0) (velems t)) (un_index v)"

definition is_text :: "bytes \<Rightarrow> bool" where
  "is_text s \<longleftrightarrow> is_utf8 s \<and> length s < 2 ^ 32"

primrec has_type :: "nat \<Rightarrow> state_type \<Rightarrow> state_value \<Rightarrow> bool" where
  "has_type host TUnit v = (v = VUnit)"
| "has_type host TU8 v = (v = VU8 (un_u8 v))"
| "has_type host TU16 v = (v = VU16 (un_u16 v))"
| "has_type host TU128 v = (v = VU128 (un_u128 v))"
| "has_type host TU32 v = (v = VU32 (un_u32 v))"
| "has_type host TU64 v = (v = VU64 (un_u64 v))"
| "has_type host TUsize v = (v = VUsize (un_usize v) \<and> un_usize v < 2 ^ host)"
| "has_type host TBool v = (v = VBool (un_bool v))"
| "has_type host TChar v = (v = VChar (un_char v) \<and> is_scalar_value (un_char v))"
| "has_type host TDuration v = (v = VDuration (un_duration v) \<and> snd (un_duration v) < 1000000000)"
| "has_type host TString v = (v = VString (un_string v) \<and> is_text (un_string v))"
| "has_type host (TOption t) v = (v = VOption (un_option v) \<and> pred_option (has_type host t) (un_option v))"
| "has_type host (TResult t t') v =
     (v = VResult (un_result v) \<and> pred_sum (has_type host t') (has_type host t) (un_result v))"
| "has_type host (TMutex t) v = (v = VMutex (un_mutex v) \<and> lock_free (has_type host t) (un_mutex v))"
| "has_type host (TPair t t') v = (v = VPair (un_pair v) \<and> pred_prod (has_type host t) (has_type host t') (un_pair v))"
| "has_type host (TArray n t) v =
     (v = VArray (un_array v) \<and> length (un_array v) = n \<and> list_all (has_type host t) (un_array v))"
| "has_type host (TVec t) v = (v = VVec (un_vec v) \<and> vec_ok (has_type host t) (un_vec v))"
| "has_type host (THashMap t) v = (v = VHashMap (un_hash v) \<and> finite (dom (un_hash v)) \<and>
     vec_ok (pred_prod is_text (has_type host t)) (map_items (un_hash v)))"
| "has_type host (TBTreeMap t) v = (v = VBTreeMap (un_btree v) \<and> sorted_wrt (<) (map fst (un_btree v)) \<and>
     vec_ok (pred_prod is_text (has_type host t)) (un_btree v))"
| "has_type host (TIndexMap t) v = (v = VIndexMap (un_index v) \<and> distinct (map fst (un_index v)) \<and>
     vec_ok (pred_prod is_text (has_type host t)) (un_index v))"

lemma wrapped_codec:
  assumes "state_codec c r e k ok m" "\<And>x. un (con x) = x"
  shows "state_codec (\<lambda>v. c (un v)) (wrapped r con) (\<lambda>v. e (un v)) (\<lambda>v. k (un v)) (\<lambda>v. v = con (un v) \<and> ok (un v)) m"
proof -
  note captures = state_codec.captures [OF assms(1)] and reads = state_codec.reads [OF assms(1)] and least_true = state_codec.least_true [OF assms(1)]
  show ?thesis
    by unfold_locales
       (auto simp: wrapped_def captures least_true intro!: reads_checked [OF reads])
qed

lemma wrapped_canonical:
  assumes r: "canonical_read r e k ok" and "\<And>x. un (con x) = x"
  shows "canonical_read (wrapped r con) (\<lambda>v. e (un v)) (\<lambda>v. k (un v)) (\<lambda>v. v = con (un v) \<and> ok (un v))"
  using assms(2) by (intro canonical_readI) (auto simp: wrapped_def elim!: read_thenE dest!: canonical_readD [OF r] yieldD)

interpretation text_codec: canonical_codec write_str read_str str_enc "\<lambda>_. 0" is_text 4
  using string_codec.canonical_codec_axioms by (simp add: is_text_def [abs_def])

lemma unit_codec: "state_codec (\<lambda>_. nothing) (yield VUnit) (\<lambda>_. []) (\<lambda>_. 0) (\<lambda>v. v = VUnit) 0"
  by unfold_locales (auto simp: emits_nothing reads_yield)

lemmas plain_codecs = u8_codec.state_codec_axioms u16_codec.state_codec_axioms u128_codec.state_codec_axioms u32_codec.state_codec_axioms u64_codec.state_codec_axioms
  bool_codec.state_codec_axioms char_codec.state_codec_axioms duration_codec.state_codec_axioms
  text_codec.state_codec_axioms

definition orders :: "hash_order \<Rightarrow> bool" where
  "orders iter \<longleftrightarrow> (\<forall>m. finite (dom m) \<longrightarrow> iterates (iter m) (dom m))"

lemma type_codec:
  assumes "orders iter" "host \<le> 64"
  shows "state_codec (vcap iter t) (vread host t) (venc t) (velems t) (has_type host t) (min_bytes t)"
proof (induction t)
  case TUnit
  then show ?case using unit_codec by simp
next
  case TUsize
  have u: "state_codec usize_capture (usize_read host) (to_le 8) (\<lambda>_. 0) (\<lambda>n. n < 2 ^ host) 8"
    using usize_codec [OF assms(2)] by (simp add: canonical_codec_def)
  show ?case using wrapped_codec [OF u, of un_usize VUsize] by simp
next
  case (TOption t)
  from wrapped_codec [OF option_codec [OF this], of un_option VOption] show ?case by simp
next
  case (TResult t t')
  from wrapped_codec [OF result_codec [OF this], of un_result VResult] show ?case by simp
next
  case (TMutex t)
  from wrapped_codec [OF lock_codec [OF this], of un_mutex VMutex] show ?case by simp
next
  case (TPair t t')
  from wrapped_codec [OF tuple_codec [OF this], of un_pair VPair] show ?case by simp
next
  case (TArray n t)
  from wrapped_codec [OF array_codec [OF this, of n], of un_array VArray] show ?case by simp
next
  case (TVec t)
  from wrapped_codec [OF vec_codec [OF this], of un_vec VVec] show ?case by simp
next
  case (THashMap t)
  from wrapped_codec [OF hash_map_codec [OF text_codec.state_codec_axioms this, of iter], of un_hash VHashMap] assms(1)
  show ?case by (simp add: orders_def)
next
  case (TBTreeMap t)
  from wrapped_codec [OF btree_map.container_codec [OF tuple_codec [OF text_codec.state_codec_axioms this]], of un_btree VBTreeMap]
  show ?case by simp
next
  case (TIndexMap t)
  from wrapped_codec [OF index_map.container_codec [OF tuple_codec [OF text_codec.state_codec_axioms this]], of un_index VIndexMap]
  show ?case by simp
qed (use plain_codecs [THEN wrapped_codec] in \<open>force\<close>)+

section \<open>What a reader accepts\<close>

text \<open>
  A blob that a reader accepts yields a value of the type whose encoding has the size of what was read,
  and the elements it declares were drawn from the budget.
\<close>

definition measured_read :: "'a reader \<Rightarrow> ('a \<Rightarrow> bytes) \<Rightarrow> ('a \<Rightarrow> nat) \<Rightarrow> ('a \<Rightarrow> bool) \<Rightarrow> bool" where
  "measured_read rd enc elems valid \<longleftrightarrow> (\<forall>c v c'. rd c = Inr (v, c') \<longrightarrow>
     valid v \<and> length (unread c) = length (enc v) + length (unread c') \<and> cu_budget c = cu_budget c' + elems v)"

lemma measured_readD: "measured_read rd enc elems valid \<Longrightarrow> rd c = Inr (v, c') \<Longrightarrow>
    valid v \<and> length (unread c) = length (enc v) + length (unread c') \<and> cu_budget c = cu_budget c' + elems v"
  by (simp add: measured_read_def)

lemma measured_readI: "(\<And>c v c'. rd c = Inr (v, c') \<Longrightarrow>
    valid v \<and> length (unread c) = length (enc v) + length (unread c') \<and> cu_budget c = cu_budget c' + elems v) \<Longrightarrow>
    measured_read rd enc elems valid"
  by (simp add: measured_read_def)

lemma canonical_measured: "canonical_read rd enc elems valid \<Longrightarrow> measured_read rd enc elems valid"
  by (rule measured_readI) (simp add: canonical_read_def)

lemma wrapped_measured:
  assumes r: "measured_read r e k ok" and "\<And>x. un (con x) = x"
  shows "measured_read (wrapped r con) (\<lambda>v. e (un v)) (\<lambda>v. k (un v)) (\<lambda>v. v = con (un v) \<and> ok (un v))"
  using assms(2) by (intro measured_readI) (auto simp: wrapped_def elim!: read_thenE dest!: measured_readD [OF r] yieldD)

lemma option_measured:
  assumes r: "measured_read r e k v"
  shows "measured_read (option_read r) (option_enc e) (case_option 0 k) (pred_option v)"
  by (rule measured_readI)
     (auto simp: option_read_def elim!: read_thenE dest!: read_byteD measured_readD [OF r] yieldD failD split: if_splits)

lemma result_measured:
  assumes r: "measured_read r e k v" and r': "measured_read r' e' k' v'"
  shows "measured_read (result_read r r') (result_enc e e') (case_sum k' k) (pred_sum v' v)"
  by (rule measured_readI)
     (auto simp: result_read_def elim!: read_thenE
       dest!: read_byteD measured_readD [OF r] measured_readD [OF r'] yieldD failD split: if_splits)

lemma lock_measured:
  assumes r: "measured_read r e k v"
  shows "measured_read (lock_read r) (e \<circ> lk_value) (k \<circ> lk_value) (lock_free v)"
  by (rule measured_readI) (auto simp: lock_read_def lock_free_def elim!: read_thenE dest!: measured_readD [OF r] yieldD)

lemma tuple_measured:
  assumes r: "measured_read r e k v" and r': "measured_read r' e' k' v'"
  shows "measured_read (tuple_read r r') (tuple_enc e e') (tuple_elems k k') (pred_prod v v')"
  by (rule measured_readI)
     (auto simp: tuple_read_def tuple_enc_def tuple_elems_def elim!: read_thenE
       dest!: measured_readD [OF r] measured_readD [OF r'] yieldD)

lemma read_n_measured:
  assumes r: "measured_read r e k v"
  shows "read_n n r c = Inr (xs, c') \<Longrightarrow> length xs = n \<and> list_all v xs \<and>
    length (unread c) = length (concat (map e xs)) + length (unread c') \<and> cu_budget c = cu_budget c' + sum_list (map k xs)"
  by (induction n arbitrary: c xs) (force elim!: read_thenE dest!: measured_readD [OF r] yieldD)+

lemma array_measured:
  assumes r: "measured_read r e k v"
  shows "measured_read (array_read n r) (\<lambda>xs. concat (map e xs)) (\<lambda>xs. sum_list (map k xs))
    (\<lambda>xs. length xs = n \<and> list_all v xs)"
  by (rule measured_readI) (auto simp: array_read_def dest!: read_n_measured [OF r])

lemma vec_measured:
  assumes r: "measured_read r e k v"
  shows "measured_read (vec_read r) (vec_enc e) (vec_elems k) (vec_ok v)"
  by (rule measured_readI)
     (auto simp: vec_read_def vec_enc_def vec_elems_def vec_ok_def elim!: read_thenE
       dest!: read_element_countD read_n_measured [OF r])

lemma read_entries_measured:
  assumes r: "measured_read rd e k v"
  shows "read_entries n rd ins acc c = Inr (acc', c') \<Longrightarrow> \<exists>xs. length xs = n \<and> list_all v xs \<and>
    insert_all ins xs acc = Some acc' \<and> length (unread c) = length (concat (map e xs)) + length (unread c') \<and>
    cu_budget c = cu_budget c' + sum_list (map k xs)"
proof (induction n arbitrary: acc c)
  case 0
  then show ?case by (auto dest!: yieldD)
next
  case (Suc n)
  then obtain x c1 where x: "rd c = Inr (x, c1)"
    "(case ins x acc of (True, a) \<Rightarrow> read_entries n rd ins a | (False, _) \<Rightarrow> fail DuplicateEntry) c1 = Inr (acc', c')"
    by (auto elim!: read_thenE)
  then obtain a where a: "ins x acc = (True, a)" "read_entries n rd ins a c1 = Inr (acc', c')"
    by (auto dest: failD split: prod.splits bool.splits)
  from Suc.IH [OF a(2)] obtain xs where "length xs = n" "list_all v xs" "insert_all ins xs a = Some acc'"
    "length (unread c1) = length (concat (map e xs)) + length (unread c')"
    "cu_budget c1 = cu_budget c' + sum_list (map k xs)" by blast
  then show ?case using a(1) measured_readD [OF r x(1)] by (intro exI [of _ "x # xs"]) simp
qed

lemma vec_by_mset: "mset xs = mset ys \<Longrightarrow> length (vec_enc e xs) = length (vec_enc e ys) \<and>
    vec_elems k xs = vec_elems k ys \<and> vec_ok v xs = vec_ok v ys"
proof -
  assume m: "mset xs = mset ys"
  have "length xs = length ys" by (rule mset_eq_length [OF m])
  moreover have "set xs = set ys" by (rule mset_eq_setD [OF m])
  moreover have "sum_list (map f xs) = sum_list (map f ys)" for f :: "_ \<Rightarrow> nat"
    using m by (metis mset_map sum_mset_sum_list)
  ultimately show ?thesis by (simp add: vec_enc_def vec_elems_def vec_ok_def length_concat comp_def list_all_iff)
qed

context keyed_container
begin

lemma container_measured:
  assumes r: "measured_read r e k v"
  shows "measured_read (container_read r ins fresh) (\<lambda>x. vec_enc e (items x)) (\<lambda>x. vec_elems k (items x))
    (\<lambda>x. ok x \<and> vec_ok v (items x))"
proof (rule measured_readI)
  fix c x c'
  assume "container_read r ins fresh c = Inr (x, c')"
  then obtain n c1 where n: "read_element_count c = Inr (n, c1)" "read_entries n r ins fresh c1 = Inr (x, c')"
    by (auto simp: container_read_def elim!: read_thenE)
  obtain es where es: "length es = n" "list_all v es" "insert_all ins es fresh = Some x"
    "length (unread c1) = length (concat (map e es)) + length (unread c')" "cu_budget c1 = cu_budget c' + sum_list (map k es)"
    using read_entries_measured [OF r n(2)] by blast
  have "ok x" "mset es = mset (items x)" using fill es(3) by blast+
  moreover have "length (unread c) = length (vec_enc e es) + length (unread c')" "cu_budget c = cu_budget c' + vec_elems k es"
    "vec_ok v es"
    using es read_element_countD [OF n(1)] by (simp_all add: vec_enc_def vec_elems_def vec_ok_def)
  ultimately show "(ok x \<and> vec_ok v (items x)) \<and>
      length (unread c) = length (vec_enc e (items x)) + length (unread c') \<and> cu_budget c = cu_budget c' + vec_elems k (items x)"
    using vec_by_mset [of es "items x" e k v] by simp
qed

end

lemma leaf_eta:
  "venc TU8 = (\<lambda>v. scalar_enc (un_u8 v))" "velems TU8 = (\<lambda>v. 0)"
  "has_type host TU8 = (\<lambda>v. v = VU8 (un_u8 v))"
  "venc TU16 = (\<lambda>v. scalar_enc (un_u16 v))" "velems TU16 = (\<lambda>v. 0)"
  "has_type host TU16 = (\<lambda>v. v = VU16 (un_u16 v))"
  "venc TU128 = (\<lambda>v. scalar_enc (un_u128 v))" "velems TU128 = (\<lambda>v. 0)"
  "has_type host TU128 = (\<lambda>v. v = VU128 (un_u128 v))"
  "venc TU32 = (\<lambda>v. scalar_enc (un_u32 v))" "velems TU32 = (\<lambda>v. 0)"
  "has_type host TU32 = (\<lambda>v. v = VU32 (un_u32 v))"
  "venc TU64 = (\<lambda>v. scalar_enc (un_u64 v))" "velems TU64 = (\<lambda>v. 0)"
  "has_type host TU64 = (\<lambda>v. v = VU64 (un_u64 v))"
  "venc TBool = (\<lambda>v. [if un_bool v then 1 else 0])" "velems TBool = (\<lambda>v. 0)"
  "has_type host TBool = (\<lambda>v. v = VBool (un_bool v))"
  "venc TChar = (\<lambda>v. scalar_enc (un_char v))" "velems TChar = (\<lambda>v. 0)"
  "has_type host TChar = (\<lambda>v. v = VChar (un_char v) \<and> is_scalar_value (un_char v))"
  "venc TDuration = (\<lambda>v. duration_enc (un_duration v))" "velems TDuration = (\<lambda>v. 0)"
  "has_type host TDuration = (\<lambda>v. v = VDuration (un_duration v) \<and> snd (un_duration v) < 1000000000)"
  "venc TString = (\<lambda>v. str_enc (un_string v))" "velems TString = (\<lambda>v. 0)"
  "has_type host TString = (\<lambda>v. v = VString (un_string v) \<and> is_text (un_string v))"
  by (simp_all add: fun_eq_iff)

lemmas leaf_canonical = wrapped_canonical [OF u8_codec.canonical, of un_u8 VU8]
  wrapped_canonical [OF u16_codec.canonical, of un_u16 VU16] wrapped_canonical [OF u128_codec.canonical, of un_u128 VU128]
  wrapped_canonical [OF u32_codec.canonical, of un_u32 VU32] wrapped_canonical [OF u64_codec.canonical, of un_u64 VU64]
  wrapped_canonical [OF bool_codec.canonical, of un_bool VBool] wrapped_canonical [OF char_codec.canonical, of un_char VChar]
  wrapped_canonical [OF duration_codec.canonical, of un_duration VDuration]
  wrapped_canonical [OF text_codec.canonical, of un_string VString]

lemma unit_canonical: "canonical_read (yield VUnit) (\<lambda>_. []) (\<lambda>_. 0) (\<lambda>v. v = VUnit)"
  by (rule canonical_readI) (auto dest!: yieldD)

lemma usize_canonical: "host \<le> 64 \<Longrightarrow> canonical_read (usize_read host) (to_le 8) (\<lambda>_. 0) (\<lambda>n. n < 2 ^ host)"
  using usize_codec by (simp add: canonical_codec_def canonical_codec_axioms_def)

lemma type_measured:
  assumes "host \<le> 64"
  shows "measured_read (vread host t) (venc t) (velems t) (has_type host t)"
proof (induction t)
  case TUnit
  then show ?case using canonical_measured [OF unit_canonical] by simp
next
  case TUsize
  show ?case using wrapped_measured [OF canonical_measured [OF usize_canonical [OF assms]], of un_usize VUsize] by simp
next
  case (TOption t)
  from wrapped_measured [OF option_measured [OF this], of un_option VOption] show ?case by simp
next
  case (TResult t t')
  from wrapped_measured [OF result_measured [OF this], of un_result VResult] show ?case by simp
next
  case (TMutex t)
  from wrapped_measured [OF lock_measured [OF this], of un_mutex VMutex] show ?case by simp
next
  case (TPair t t')
  from wrapped_measured [OF tuple_measured [OF this], of un_pair VPair] show ?case by simp
next
  case (TArray n t)
  from wrapped_measured [OF array_measured [OF this, of n], of un_array VArray] show ?case by simp
next
  case (TVec t)
  from wrapped_measured [OF vec_measured [OF this], of un_vec VVec] show ?case by simp
next
  case (THashMap t)
  from wrapped_measured [OF hash_map.container_measured [OF tuple_measured
    [OF canonical_measured [OF text_codec.canonical] this]], of un_hash VHashMap] show ?case by simp
next
  case (TBTreeMap t)
  from wrapped_measured [OF btree_map.container_measured [OF tuple_measured
    [OF canonical_measured [OF text_codec.canonical] this]], of un_btree VBTreeMap] show ?case by simp
next
  case (TIndexMap t)
  from wrapped_measured [OF index_map.container_measured [OF tuple_measured
    [OF canonical_measured [OF text_codec.canonical] this]], of un_index VIndexMap] show ?case by simp
qed (use leaf_canonical [THEN canonical_measured] in \<open>simp_all add: leaf_eta\<close>)

section \<open>Canonical types\<close>

text \<open>A type without a sorted map keeps the order of its blob, so it accepts canonical bytes only.\<close>

primrec order_kept :: "state_type \<Rightarrow> bool" where
  "order_kept TUnit = True" | "order_kept TU8 = True" | "order_kept TU16 = True" | "order_kept TU128 = True" | "order_kept TU32 = True"
| "order_kept TU64 = True" | "order_kept TUsize = True" | "order_kept TBool = True"
| "order_kept TChar = True" | "order_kept TDuration = True" | "order_kept TString = True"
| "order_kept (TOption t) = order_kept t"
| "order_kept (TResult t t') = (order_kept t \<and> order_kept t')"
| "order_kept (TMutex t) = order_kept t"
| "order_kept (TPair t t') = (order_kept t \<and> order_kept t')"
| "order_kept (TArray n t) = order_kept t"
| "order_kept (TVec t) = order_kept t"
| "order_kept (THashMap t) = False"
| "order_kept (TBTreeMap t) = False"
| "order_kept (TIndexMap t) = order_kept t"

lemma index_canonical:
  assumes r: "canonical_read r e k v"
  shows "canonical_read (container_read r index_map_insert []) (vec_enc e) (vec_elems k)
    (\<lambda>es. distinct (map fst es) \<and> vec_ok v es)"
proof (rule canonical_readI)
  fix c x c'
  assume "container_read r index_map_insert [] c = Inr (x, c')"
  then obtain n c1 where n: "read_element_count c = Inr (n, c1)" "read_entries n r index_map_insert [] c1 = Inr (x, c')"
    by (auto simp: container_read_def elim!: read_thenE)
  obtain es where es: "length es = n" "list_all v es" "insert_all index_map_insert es [] = Some x"
    "unread c1 = concat (map e es) @ unread c'" "cu_budget c1 = cu_budget c' + sum_list (map k es)"
    using read_entriesD [OF r n(2)] by blast
  then have "x = es" "distinct (map fst es)" by (simp_all add: insert_all_index_map)
  then show "(distinct (map fst x) \<and> vec_ok v x) \<and> unread c = vec_enc e x @ unread c' \<and> cu_budget c = cu_budget c' + vec_elems k x"
    using es read_element_countD [OF n(1)] by (simp add: vec_enc_def vec_elems_def vec_ok_def)
qed

lemma type_canonical:
  assumes "host \<le> 64"
  shows "order_kept t \<Longrightarrow> canonical_read (vread host t) (venc t) (velems t) (has_type host t)"
proof (induction t)
  case TUnit
  then show ?case using unit_canonical by simp
next
  case TUsize
  show ?case using wrapped_canonical [OF usize_canonical [OF assms], of un_usize VUsize] by simp
next
  case (TOption t)
  then have "canonical_read (vread host t) (venc t) (velems t) (has_type host t)" by simp
  from wrapped_canonical [OF option_canonical [OF this], of un_option VOption] show ?case by simp
next
  case (TResult t t')
  then have "canonical_read (vread host t) (venc t) (velems t) (has_type host t)"
    "canonical_read (vread host t') (venc t') (velems t') (has_type host t')" by simp_all
  from wrapped_canonical [OF result_canonical [OF this], of un_result VResult] show ?case by simp
next
  case (TMutex t)
  then have "canonical_read (vread host t) (venc t) (velems t) (has_type host t)" by simp
  from wrapped_canonical [OF lock_canonical [OF this], of un_mutex VMutex] show ?case by simp
next
  case (TPair t t')
  then have "canonical_read (vread host t) (venc t) (velems t) (has_type host t)"
    "canonical_read (vread host t') (venc t') (velems t') (has_type host t')" by simp_all
  from wrapped_canonical [OF tuple_canonical [OF this], of un_pair VPair] show ?case by simp
next
  case (TArray n t)
  then have "canonical_read (vread host t) (venc t) (velems t) (has_type host t)" by simp
  from wrapped_canonical [OF array_canonical [OF this, of n], of un_array VArray] show ?case by simp
next
  case (TVec t)
  then have "canonical_read (vread host t) (venc t) (velems t) (has_type host t)" by simp
  from wrapped_canonical [OF vec_canonical [OF this], of un_vec VVec] show ?case by simp
next
  case (TIndexMap t)
  then have "canonical_read (vread host t) (venc t) (velems t) (has_type host t)" by simp
  from wrapped_canonical [OF index_canonical [OF tuple_canonical [OF text_codec.canonical this]], of un_index VIndexMap]
  show ?case by simp
qed (use leaf_canonical in \<open>simp_all add: leaf_eta\<close>)

section \<open>Types that pay for their elements\<close>

text \<open>The elements of a sequence have a positive floor; the entries of a map always do.\<close>

primrec floored :: "state_type \<Rightarrow> bool" where
  "floored TUnit = True" | "floored TU8 = True" | "floored TU16 = True" | "floored TU128 = True" | "floored TU32 = True"
| "floored TU64 = True" | "floored TUsize = True" | "floored TBool = True"
| "floored TChar = True" | "floored TDuration = True" | "floored TString = True"
| "floored (TOption t) = floored t"
| "floored (TResult t t') = (floored t \<and> floored t')"
| "floored (TMutex t) = floored t"
| "floored (TPair t t') = (floored t \<and> floored t')"
| "floored (TArray n t) = floored t"
| "floored (TVec t) = (floored t \<and> 0 < min_bytes t)"
| "floored (THashMap t) = floored t"
| "floored (TBTreeMap t) = floored t"
| "floored (TIndexMap t) = floored t"

lemma elements_paid: "(\<And>x. x \<in> set xs \<Longrightarrow> k x + m \<le> length (e x)) \<Longrightarrow>
    sum_list (map k xs) + length xs * m \<le> length (concat (map e xs))"
  by (induction xs) (force simp: algebra_simps)+

lemma sequence_paid:
  assumes "\<And>x. x \<in> set xs \<Longrightarrow> k x + m \<le> length (e x)" "0 < m"
  shows "vec_elems k xs + 4 \<le> length (vec_enc e xs)"
proof -
  have "length xs \<le> length xs * m" using assms(2) by simp
  moreover have "sum_list (map k xs) + length xs * m \<le> length (concat (map e xs))"
    using elements_paid assms(1) by blast
  ultimately show ?thesis unfolding vec_elems_def vec_enc_def length_append length_to_le by linarith
qed

lemma entries_paid:
  assumes "\<And>v. has_type host t v \<Longrightarrow> velems t v + min_bytes t \<le> length (venc t v)"
    "vec_ok (pred_prod is_text (has_type host t)) es"
  shows "vec_elems (tuple_elems (\<lambda>_. 0) (velems t)) es + 4 \<le> length (vec_enc (tuple_enc str_enc (venc t)) es)"
proof (rule sequence_paid [of _ _ "4 + min_bytes t"])
  fix x
  assume "x \<in> set es"
  then have "pred_prod is_text (has_type host t) x" using assms(2) by (simp add: vec_ok_def list_all_iff)
  then have "has_type host t (snd x)" by (cases x) simp
  then show "tuple_elems (\<lambda>_. 0) (velems t) x + (4 + min_bytes t) \<le> length (tuple_enc str_enc (venc t) x)"
    using assms(1) [of "snd x"] by (simp add: tuple_elems_def tuple_enc_def str_enc_def)
qed simp

lemma type_paid: "floored t \<Longrightarrow> has_type host t v \<Longrightarrow> velems t v + min_bytes t \<le> length (venc t v)"
proof (induction t arbitrary: v)
  case (TOption t)
  then show ?case by (cases "un_option v") (force simp: add_leD1)+
next
  case (TResult t t')
  then show ?case by (cases "un_result v") (force simp: min_def)+
next
  case (TMutex t)
  then show ?case by (simp add: lock_free_def)
next
  case (TPair t t')
  then have "velems t (fst (un_pair v)) + min_bytes t \<le> length (venc t (fst (un_pair v)))"
    "velems t' (snd (un_pair v)) + min_bytes t' \<le> length (venc t' (snd (un_pair v)))"
    by (cases "un_pair v"; simp)+
  then show ?case by (simp add: tuple_elems_def tuple_enc_def)
next
  case (TArray n t)
  then show ?case using elements_paid [of "un_array v" "velems t" "min_bytes t" "venc t"] by (auto simp: list_all_iff)
next
  case (TVec t)
  then show ?case using sequence_paid [of "un_vec v" "velems t" "min_bytes t" "venc t"] by (auto simp: list_all_iff vec_ok_def)
next
  case (THashMap t)
  then show ?case using entries_paid [of host t "map_items (un_hash v)"] by simp
next
  case (TBTreeMap t)
  then show ?case using entries_paid [of host t "un_btree v"] by simp
next
  case (TIndexMap t)
  then show ?case using entries_paid [of host t "un_index v"] by simp
qed (simp_all add: scalar_enc_def duration_enc_def str_enc_def)

end
