(* ===== verification/StateCapture.thy ===== *)
theory StateCapture
  imports StateTypes
begin

text \<open>
  The bounded inline walk of an anchor (\<open>state_carrier/anchor.rs\<close>) and the view through which it captures
  the nodes of a graph (\<open>NodeCaptureView\<close> in \<open>graph/runtime.rs\<close>), over the state types: what a capture
  writes, what a restore accepts, which node goes inline and which joins the fork set.
\<close>

section \<open>The inline walk\<close>

datatype unwind_outcome = Unwound | Finished "state_error + unit"

record inline_target =
  it_inline_safe :: bool
  it_probe :: bool
  it_capture :: "state_sink \<Rightarrow> unwind_outcome \<times> state_sink"

datatype fork_reason = NotInlineSafe | ArenaOverflow | EncoderError | CaptureUnwound

record inline_walk_stats =
  inline_nodes :: nat
  forked_nodes :: nat
  bytes_used :: nat
  unwound_nodes :: nat
  gated_nodes :: nat

text \<open>The running state of the walk: its counters (\<open>bytes_used\<close> is the local \<open>used\<close>), fork set and parts.\<close>

record inline_walk =
  iw_stats :: inline_walk_stats
  iw_fork_set :: "(nat \<times> fork_reason) list"
  iw_parts :: "(nat \<times> bytes) list"

definition start_walk :: inline_walk where
  "start_walk = \<lparr>iw_stats = \<lparr>inline_nodes = 0, forked_nodes = 0, bytes_used = 0, unwound_nodes = 0, gated_nodes = 0\<rparr>,
     iw_fork_set = [], iw_parts = []\<rparr>"

fun probe_quiescent :: "inline_target list \<Rightarrow> nat option" where
  "probe_quiescent [] = None"
| "probe_quiescent (n # ns) = (if \<not> it_probe n then Some 0 else map_option Suc (probe_quiescent ns))"

definition defer_node :: "nat \<Rightarrow> fork_reason \<Rightarrow> nat \<Rightarrow> inline_walk \<Rightarrow> inline_walk" where
  "defer_node idx reason charge w = w
     \<lparr>iw_stats := (iw_stats w)
        \<lparr>bytes_used := bytes_used (iw_stats w) + charge,
         unwound_nodes := unwound_nodes (iw_stats w) + (if reason = CaptureUnwound then 1 else 0),
         gated_nodes := gated_nodes (iw_stats w) + (if reason = NotInlineSafe then 1 else 0),
         forked_nodes := forked_nodes (iw_stats w) + 1\<rparr>,
      iw_fork_set := iw_fork_set w @ [(idx, reason)]\<rparr>"

definition publish_part :: "nat \<Rightarrow> bytes \<Rightarrow> inline_walk \<Rightarrow> inline_walk" where
  "publish_part idx payload w = w
     \<lparr>iw_stats := (iw_stats w)
        \<lparr>bytes_used := bytes_used (iw_stats w) + length payload,
         inline_nodes := inline_nodes (iw_stats w) + 1\<rparr>,
      iw_parts := iw_parts w @ [(idx, payload)]\<rparr>"

definition walk_node :: "nat \<Rightarrow> nat \<Rightarrow> inline_target \<Rightarrow> inline_walk \<Rightarrow> inline_walk" where
  "walk_node arena_len idx node w =
     (if \<not> it_inline_safe node then defer_node idx NotInlineSafe 0 w
      else
        let grant = arena_len - bytes_used (iw_stats w) in
        case it_capture node (bounded_sink grant grant) of
          (Finished (Inr _), sink) \<Rightarrow>
            if \<not> ss_refused sink then publish_part idx (ss_bytes sink) w
            else defer_node idx ArenaOverflow (consumed sink) w
        | (Finished (Inl e), sink) \<Rightarrow>
            defer_node idx (if e = SinkFull \<or> ss_refused sink then ArenaOverflow else EncoderError) (consumed sink) w
        | (Unwound, sink) \<Rightarrow> defer_node idx CaptureUnwound (consumed sink) w)"

fun walk_from :: "nat \<Rightarrow> nat \<Rightarrow> inline_target list \<Rightarrow> inline_walk \<Rightarrow> inline_walk" where
  "walk_from arena_len idx [] w = w"
| "walk_from arena_len idx (n # ns) w = walk_from arena_len (Suc idx) ns (walk_node arena_len idx n w)"

definition walk_inline :: "nat \<Rightarrow> inline_target list \<Rightarrow> inline_walk" where
  "walk_inline arena_len nodes = walk_from arena_len 0 nodes start_walk"

text \<open>
  The view of a node whose state has a type: a failed capture comes back under the node's own label, so only
  the sink tells an overflow from an encoder's error.
\<close>

definition node_capture_view :: "hash_order \<Rightarrow> state_type \<times> state_value \<Rightarrow> inline_target" where
  "node_capture_view iter node =
     \<lparr>it_inline_safe = inline_safe (fst node), it_probe = vprobe (fst node) (snd node),
      it_capture = (\<lambda>s. case vcap iter (fst node) (snd node) s of
        (Inr _, s1) \<Rightarrow> (Finished (Inr ()), s1)
      | (Inl _, s1) \<Rightarrow> (Finished (Inl NodeCapture), s1))\<rparr>"

section \<open>The shared budget\<close>

text \<open>What any code can do to a sink through its interface.\<close>

inductive sink_run :: "state_sink \<Rightarrow> state_sink \<Rightarrow> bool" where
  sr_done: "sink_run s s"
| sr_write: "sink_run s s1 \<Longrightarrow> sink_run s (snd (sink_write bs s1))"
| sr_refuse: "sink_run s s1 \<Longrightarrow> sink_run s (sink_refuse s1)"

definition behaves :: "inline_target \<Rightarrow> bool" where
  "behaves node \<longleftrightarrow> (\<forall>s. sink_run s (snd (it_capture node s)))"

lemma sink_run_grant: "sink_run s s1 \<Longrightarrow> s = bounded_sink g g \<Longrightarrow>
    ss_cap s1 = Some g \<and> length (ss_bytes s1) \<le> g"
  by (induction rule: sink_run.induct)
     (auto simp: bounded_sink_def sink_write_def sink_refuse_def has_room_def)

lemma grant_consumed:
  assumes "behaves node" "it_capture node (bounded_sink g g) = (r, s)"
  shows "length (ss_bytes s) \<le> g \<and> consumed s \<le> g"
proof -
  have "sink_run (bounded_sink g g) s" using assms by (metis behaves_def snd_conv)
  from sink_run_grant [OF this refl] show ?thesis by (simp add: consumed_def)
qed

text \<open>
  The books of a walk over the nodes below \<open>n\<close>: no byte is charged past the arena, the parts are charged,
  every node is in exactly one carrier, and the counters count.
\<close>

definition walk_books :: "nat \<Rightarrow> nat \<Rightarrow> inline_walk \<Rightarrow> bool" where
  "walk_books arena_len n w \<longleftrightarrow>
     bytes_used (iw_stats w) \<le> arena_len \<and>
     (\<Sum>p \<leftarrow> iw_parts w. length (snd p)) \<le> bytes_used (iw_stats w) \<and>
     mset (map fst (iw_parts w) @ map fst (iw_fork_set w)) = mset [0..<n] \<and>
     inline_nodes (iw_stats w) = length (iw_parts w) \<and>
     forked_nodes (iw_stats w) = length (iw_fork_set w) \<and>
     unwound_nodes (iw_stats w) = length (filter (\<lambda>f. snd f = CaptureUnwound) (iw_fork_set w)) \<and>
     gated_nodes (iw_stats w) = length (filter (\<lambda>f. snd f = NotInlineSafe) (iw_fork_set w))"

lemma defer_books: "walk_books arena_len n w \<Longrightarrow> charge \<le> arena_len - bytes_used (iw_stats w) \<Longrightarrow>
    walk_books arena_len (Suc n) (defer_node n reason charge w)"
  by (auto simp: walk_books_def defer_node_def)

lemma publish_books: "walk_books arena_len n w \<Longrightarrow> length payload \<le> arena_len - bytes_used (iw_stats w) \<Longrightarrow>
    walk_books arena_len (Suc n) (publish_part n payload w)"
  by (auto simp: walk_books_def publish_part_def)

lemma walk_node_books:
  assumes "behaves node" "walk_books arena_len n w"
  shows "walk_books arena_len (Suc n) (walk_node arena_len n node w)"
proof -
  let ?g = "arena_len - bytes_used (iw_stats w)"
  obtain r s where r: "it_capture node (bounded_sink ?g ?g) = (r, s)" by force
  then have "length (ss_bytes s) \<le> ?g" "consumed s \<le> ?g" using grant_consumed [OF assms(1)] by blast+
  then show ?thesis
    using assms(2) r by (auto simp: walk_node_def Let_def defer_books publish_books split: unwind_outcome.splits sum.splits)
qed

lemma walk_from_books: "list_all behaves nodes \<Longrightarrow> walk_books arena_len n w \<Longrightarrow>
    walk_books arena_len (n + length nodes) (walk_from arena_len n nodes w)"
  by (induction nodes arbitrary: n w) (use walk_node_books in \<open>fastforce simp del: add_Suc simp: add_Suc [symmetric]\<close>)+

section \<open>The codec of a type\<close>

lemma paid_type: "orders iter \<Longrightarrow> host \<le> 64 \<Longrightarrow> floored t \<Longrightarrow>
    paid_codec (vcap iter t) (vread host t) (venc t) (velems t) (has_type host t) (min_bytes t)"
  using type_codec type_paid by (simp add: paid_codec_def paid_codec_axioms_def)

lemma type_captures: "orders iter \<Longrightarrow> host \<le> 64 \<Longrightarrow> has_type host t v \<Longrightarrow>
    vcap iter t v vec_sink = (Inr (), vec_sink\<lparr>ss_bytes := venc t v\<rparr>)"
  using state_codec.capture_unbounded [OF type_codec] by blast

section \<open>The probe\<close>

text \<open>Every lock that a value reaches, without the short circuit of \<open>INLINE_SAFE\<close>.\<close>

primrec locks_free :: "state_type \<Rightarrow> state_value \<Rightarrow> bool" where
  "locks_free TUnit v = True" | "locks_free TU8 v = True" | "locks_free TU16 v = True" | "locks_free TU128 v = True" | "locks_free TU32 v = True"
| "locks_free TU64 v = True" | "locks_free TUsize v = True" | "locks_free TBool v = True"
| "locks_free TChar v = True" | "locks_free TDuration v = True" | "locks_free TString v = True"
| "locks_free (TOption t) v = pred_option (locks_free t) (un_option v)"
| "locks_free (TResult t t') v = pred_sum (locks_free t') (locks_free t) (un_result v)"
| "locks_free (TMutex t) v = (\<not> lk_held (un_mutex v) \<and> locks_free t (lk_value (un_mutex v)))"
| "locks_free (TPair t t') v = pred_prod (locks_free t) (locks_free t') (un_pair v)"
| "locks_free (TArray n t) v = list_all (locks_free t) (un_array v)"
| "locks_free (TVec t) v = list_all (locks_free t) (un_vec v)"
| "locks_free (THashMap t) v = list_all (\<lambda>e. locks_free t (snd e)) (map_items (un_hash v))"
| "locks_free (TBTreeMap t) v = list_all (\<lambda>e. locks_free t (snd e)) (un_btree v)"
| "locks_free (TIndexMap t) v = list_all (\<lambda>e. locks_free t (snd e)) (un_index v)"

lemma inline_safe_locks_free: "inline_safe t \<Longrightarrow> locks_free t v"
  by (induction t arbitrary: v) (auto simp: list_all_iff option.pred_set sum.pred_set pred_prod_beta)

lemma vprobe_locks_free: "vprobe t = locks_free t"
proof (induction t)
qed (rule ext, auto simp: lock_probe_def list_all_iff option.pred_set sum.pred_set pred_prod_beta
  intro: inline_safe_locks_free)+

definition never :: "state_error \<Rightarrow> capture \<Rightarrow> bool" where
  "never e f \<longleftrightarrow> (\<forall>s. fst (f s) \<noteq> Inl e)"

named_theorems never_intros

lemma never_put [never_intros]: "e \<noteq> SinkFull \<Longrightarrow> never e (put bs)"
  by (auto simp: never_def put_def split: prod.splits bool.splits)

lemma never_nothing [never_intros]: "never e nothing"
  by (simp add: never_def nothing_def)

lemma never_and_then [never_intros]: "never e f \<Longrightarrow> never e g \<Longrightarrow> never e (and_then f g)"
  by (auto simp: never_def and_then_def split: prod.splits sum.splits) (metis fst_conv)+

lemma never_write_len [never_intros]:
  assumes "e \<noteq> SinkFull" "e \<noteq> LengthOverflow n"
  shows "never e (write_len n)"
  using assms(2) never_put [OF assms(1)] by (auto simp: never_def write_len_def)

lemma never_capture_all [never_intros]: "(\<And>x. x \<in> set xs \<Longrightarrow> never e (f x)) \<Longrightarrow> never e (capture_all f xs)"
  by (induction xs) (auto intro: never_intros)

lemma never_guard [never_intros]: "e \<noteq> SinkFull \<Longrightarrow> never e (guard_sort_scratch n m)"
  by (simp add: never_def guard_sort_scratch_def split: option.splits)

lemma never_entries:
  assumes "e \<noteq> SinkFull" "\<And>n. e \<noteq> LengthOverflow n" "\<And>x. x \<in> set es \<Longrightarrow> never e (f (snd x))"
  shows "never e (vec_capture (tuple_capture write_str f) es)"
  unfolding vec_capture_def tuple_capture_def write_str_def by (intro never_intros assms)

text \<open>A hash map is finite, and so are the ones inside it.\<close>

primrec finite_maps :: "state_type \<Rightarrow> state_value \<Rightarrow> bool" where
  "finite_maps TUnit v = True" | "finite_maps TU8 v = True" | "finite_maps TU16 v = True" | "finite_maps TU128 v = True" | "finite_maps TU32 v = True"
| "finite_maps TU64 v = True" | "finite_maps TUsize v = True" | "finite_maps TBool v = True"
| "finite_maps TChar v = True" | "finite_maps TDuration v = True" | "finite_maps TString v = True"
| "finite_maps (TOption t) v = pred_option (finite_maps t) (un_option v)"
| "finite_maps (TResult t t') v = pred_sum (finite_maps t') (finite_maps t) (un_result v)"
| "finite_maps (TMutex t) v = finite_maps t (lk_value (un_mutex v))"
| "finite_maps (TPair t t') v = pred_prod (finite_maps t) (finite_maps t') (un_pair v)"
| "finite_maps (TArray n t) v = list_all (finite_maps t) (un_array v)"
| "finite_maps (TVec t) v = list_all (finite_maps t) (un_vec v)"
| "finite_maps (THashMap t) v =
     (finite (dom (un_hash v)) \<and> list_all (\<lambda>e. finite_maps t (snd e)) (map_items (un_hash v)))"
| "finite_maps (TBTreeMap t) v = list_all (\<lambda>e. finite_maps t (snd e)) (un_btree v)"
| "finite_maps (TIndexMap t) v = list_all (\<lambda>e. finite_maps t (snd e)) (un_index v)"

lemma never_contended:
  assumes "orders iter"
  shows "locks_free t v \<Longrightarrow> finite_maps t v \<Longrightarrow> never LockContended (vcap iter t v)"
proof (induction t arbitrary: v)
  case (TOption t)
  then show ?case by (cases "un_option v") (auto intro!: never_intros)
next
  case (TResult t t')
  then show ?case by (cases "un_result v") (auto intro!: never_intros)
next
  case (TMutex t)
  then show ?case by (simp add: never_def lock_capture_def)
next
  case (TPair t t')
  then show ?case by (cases "un_pair v") (auto simp: tuple_capture_def intro!: never_intros)
next
  case (TArray n t)
  then show ?case by (auto simp: list_all_iff intro!: never_intros)
next
  case (TVec t)
  then show ?case by (auto simp: list_all_iff vec_capture_def intro!: never_intros)
next
  case (THashMap t)
  then have "iterates (iter (un_hash v)) (dom (un_hash v))" using assms by (simp add: orders_def)
  then have k: "set (sort (iter (un_hash v))) = dom (un_hash v)" by (simp add: iterates_def)
  show ?case
    using THashMap k by (auto simp: hash_map_capture_def write_str_def map_items_def list_all_iff intro!: never_intros)
next
  case (TBTreeMap t)
  then have "never LockContended (vcap iter t (snd e))" if "e \<in> set (un_btree v)" for e
    using that by (simp add: list_all_iff)
  then show ?case by (simp add: never_entries)
next
  case (TIndexMap t)
  then have "never LockContended (vcap iter t (snd e))" if "e \<in> set (un_index v)" for e
    using that by (simp add: list_all_iff)
  then show ?case by (simp add: never_entries)
qed (auto simp: scalar_capture_def usize_capture_def bool_capture_def duration_capture_def write_str_def intro!: never_intros)

section \<open>The walk over typed nodes\<close>

lemma view_capture:
  assumes "orders iter" "host \<le> 64" "has_type host t v"
  shows "it_capture (node_capture_view iter (t, v)) (bounded_sink g g) =
     (if length (venc t v) \<le> g then (Finished (Inr ()), (bounded_sink g g)\<lparr>ss_bytes := venc t v\<rparr>)
      else (Finished (Inl NodeCapture), snd (vcap iter t v (bounded_sink g g)))) \<and>
    (g < length (venc t v) \<longrightarrow> consumed (snd (vcap iter t v (bounded_sink g g))) = g \<and>
      ss_refused (snd (vcap iter t v (bounded_sink g g))))"
proof -
  note captures = state_codec.captures [OF type_codec [OF assms(1,2)]]
  let ?s = "bounded_sink g g"
  have room: "has_room (length (venc t v)) ?s \<longleftrightarrow> length (venc t v) \<le> g" by (simp add: has_room_def bounded_sink_def)
  have "if has_room (length (venc t v)) ?s then vcap iter t v ?s = (Inr (), appended (venc t v) ?s)
      else cut_off (venc t v) ?s (vcap iter t v ?s)"
    using captures [OF assms(3)] by (simp add: emits_def emits_live_def bounded_sink_def has_room_def)
  then show ?thesis
    unfolding room
    by (auto simp: node_capture_view_def cut_off_def appended_def consumed_def bounded_sink_def split: if_splits)
qed

lemma walk_typed_node:
  assumes "orders iter" "host \<le> 64" "has_type host t v"
  shows "walk_node arena_len n (node_capture_view iter (t, v)) w =
     (if \<not> inline_safe t then defer_node n NotInlineSafe 0 w
      else if length (venc t v) \<le> arena_len - bytes_used (iw_stats w) then publish_part n (venc t v) w
      else defer_node n ArenaOverflow (arena_len - bytes_used (iw_stats w)) w)"
proof -
  have "it_inline_safe (node_capture_view iter (t, v)) = inline_safe t" by (simp add: node_capture_view_def)
  then show ?thesis
    using view_capture [OF assms, of "arena_len - bytes_used (iw_stats w)"]
    by (auto simp: walk_node_def Let_def bounded_sink_def split: if_splits)
qed

text \<open>What the walk over the first \<open>n\<close> nodes has published and deferred.\<close>

definition typed_walk :: "nat \<Rightarrow> (state_type \<times> state_value) list \<Rightarrow> nat \<Rightarrow> inline_walk \<Rightarrow> bool" where
  "typed_walk arena_len nodes n w \<longleftrightarrow>
     (\<forall>(i, payload) \<in> set (iw_parts w). i < n \<and> inline_safe (fst (nodes ! i)) \<and>
        payload = venc (fst (nodes ! i)) (snd (nodes ! i))) \<and>
     (\<forall>(i, reason) \<in> set (iw_fork_set w). i < n \<and>
        reason = (if inline_safe (fst (nodes ! i)) then ArenaOverflow else NotInlineSafe) \<and>
        (reason = ArenaOverflow \<longrightarrow> bytes_used (iw_stats w) = arena_len \<and>
           (\<forall>(j, payload) \<in> set (iw_parts w). i < j \<longrightarrow> payload = [])))"

lemma typed_walk_step:
  assumes it: "orders iter" "host \<le> 64" "has_type host (fst (nodes ! n)) (snd (nodes ! n))"
    and w: "typed_walk arena_len nodes n w" "bytes_used (iw_stats w) \<le> arena_len"
  shows "typed_walk arena_len nodes (Suc n) (walk_node arena_len n (node_capture_view iter (nodes ! n)) w) \<and>
    bytes_used (iw_stats (walk_node arena_len n (node_capture_view iter (nodes ! n)) w)) \<le> arena_len"
proof -
  obtain t v where tv: "nodes ! n = (t, v)" by force
  have old: "i < n" if "(i, x) \<in> set (iw_parts w)" for i x using that w(1) by (auto simp: typed_walk_def)
  show ?thesis
    using it w old unfolding tv walk_typed_node [OF it(1,2), of t v, simplified, OF it(3) [unfolded tv fst_conv snd_conv]]
    by (fastforce simp: typed_walk_def defer_node_def publish_part_def tv)
qed

lemma typed_walk_from:
  assumes it: "orders iter" "host \<le> 64" "\<forall>(t, v) \<in> set nodes. has_type host t v"
  shows "n + k = length nodes \<Longrightarrow> typed_walk arena_len nodes n w \<Longrightarrow> bytes_used (iw_stats w) \<le> arena_len \<Longrightarrow>
    typed_walk arena_len nodes (length nodes)
      (walk_from arena_len n (map (node_capture_view iter) (drop n nodes)) w)"
proof (induction k arbitrary: n w)
  case (Suc k)
  then have n: "n < length nodes" by simp
  then have "has_type host (fst (nodes ! n)) (snd (nodes ! n))" using it(3) nth_mem [of n nodes] by fastforce
  from typed_walk_step [OF it(1,2) this Suc.prems(2,3)]
  show ?case using Suc.IH [of "Suc n"] Suc.prems(1) n by (simp flip: Cons_nth_drop_Suc)
qed simp

lemma start_walk_books: "walk_books arena_len 0 start_walk" "typed_walk arena_len nodes 0 start_walk"
  by (simp_all add: walk_books_def typed_walk_def start_walk_def)

section \<open>Properties\<close>

text \<open>
  C5. A value of a type of the modelled fragment is captured in full by an unbounded sink, and the bytes restore to
  the value, whatever order its hash maps iterate in. The type's sequences have elements of a positive floor, and
  \<open>has_type\<close> says what a value of the type is: its locks are neither held nor poisoned, its strings are UTF-8,
  strings and containers are shorter than 2^32, and a \<open>usize\<close> fits the host, which has at most 64 bits.
\<close>

theorem captured_state_restores:
  assumes "orders iter" "host \<le> 64" "floored t" "has_type host t v"
  shows "\<exists>s. vcap iter t v vec_sink = (Inr (), s) \<and> restore_blob (vread host t) (ss_bytes s) = Inr v"
proof -
  have paid: "paid_codec (vcap iter t) (vread host t) (venc t) (velems t) (has_type host t) (min_bytes t)"
    by (rule paid_type) fact+
  show ?thesis using type_captures [OF assms(1,2,4)] paid_codec.restores [OF paid assms(4)] by simp
qed

definition sorted_order :: hash_order where
  "sorted_order m = sorted_list_of_set (dom m)"

definition sample_state :: "state_type \<times> state_value" where
  "sample_state = (TPair (TMutex (TVec TU32)) (TPair (TOption TString) (THashMap TBool)),
     VPair (VMutex (Lock False False (VVec [VU32 7, VU32 9])),
       VPair (VOption (Some (VString [104, 105])), VHashMap [[122] \<mapsto> VBool True, [97] \<mapsto> VBool False])))"

lemma sample_domain: "dom [[122 :: u8] \<mapsto> VBool True, [97] \<mapsto> VBool False] = {[97], [122]}"
  by auto

lemma sample_keys: "sorted_list_of_set {[97], [122 :: u8]} = [[97], [122]]"
  by (simp add: sorted_list_of_set_unique insort_key.simps)

lemma sorted_orders: "orders sorted_order"
  by (simp add: orders_def sorted_order_def iterates_def)

lemma sample_typed: "has_type 64 (fst sample_state) (snd sample_state)" "floored (fst sample_state)"
  "finite_maps (fst sample_state) (snd sample_state)"
  by (simp_all add: sample_state_def lock_free_def vec_ok_def is_text_def map_items_def sample_domain sample_keys)

theorem captured_state_restores_witness:
  "\<exists>s. vcap sorted_order (fst sample_state) (snd sample_state) vec_sink = (Inr (), s) \<and>
     restore_blob (vread 64 (fst sample_state)) (ss_bytes s) = Inr (snd sample_state)"
  by (rule captured_state_restores) (simp_all add: sorted_orders sample_typed)

text \<open>
  C36. Whatever bytes a blob holds, a restore that accepts it yields a value of the declared type: every bool
  is 0 or 1, every string is UTF-8, no key occurs twice, a sorted map is sorted, no lock is held. The blob has
  the size of the value's own encoding, and the elements of all its containers together are at most its bytes.
\<close>

theorem restored_state_is_typed:
  assumes "host \<le> 64" "restore_blob (vread host t) blob = Inr v"
  shows "has_type host t v \<and> length (venc t v) = length blob \<and> velems t v \<le> length blob"
proof -
  obtain c where c: "vread host t (new_cursor blob) = Inr (v, c)" "remaining c = 0"
    using assms(2) by (auto simp: restore_blob_def finish_cursor_def split: sum.splits if_splits)
  then show ?thesis
    using measured_readD [OF type_measured [OF assms(1)] c(1)]
    by (simp add: remaining_unread) (simp add: new_cursor_def unread_def)
qed

theorem restored_state_is_typed_witness:
  "has_type 64 (TBTreeMap TBool) (VBTreeMap [([97], VBool False), ([98], VBool True)]) \<and>
   length (venc (TBTreeMap TBool) (VBTreeMap [([97], VBool False), ([98], VBool True)])) = 16 \<and>
   velems (TBTreeMap TBool) (VBTreeMap [([97], VBool False), ([98], VBool True)]) \<le> 16"
  using restored_state_is_typed [of 64 "TBTreeMap TBool" "[2,0,0,0, 1,0,0,0,98, 1, 1,0,0,0,97, 0]"
      "VBTreeMap [([97], VBool False), ([98], VBool True)]"]
  by (simp add: restore_blob_def wrapped_def container_read_def read_then_def read_element_count_def read_payload_len_def
      take_bytes_def remaining_def unread_def new_cursor_def yield_def charge_elements_def tuple_read_def read_str_def
      read_bool_def read_byte_def btree_map_insert_def finish_cursor_def read_entries_numeral)

text \<open>
  What a restore accepts captures again, into bytes of the same size that restore to the same value; and a
  type without sorted maps captures the very bytes it was restored from.
\<close>

theorem restored_state_recaptures:
  assumes "orders iter" "host \<le> 64" "restore_blob (vread host t) blob = Inr v"
  shows "\<exists>s. vcap iter t v vec_sink = (Inr (), s) \<and> length (ss_bytes s) = length blob \<and>
    restore_blob (vread host t) (ss_bytes s) = Inr v \<and> (order_kept t \<longrightarrow> ss_bytes s = blob)"
proof -
  obtain c where c: "vread host t (new_cursor blob) = Inr (v, c)" "remaining c = 0"
    using assms(3) by (auto simp: restore_blob_def finish_cursor_def split: sum.splits if_splits)
  then have v: "has_type host t v" "length (venc t v) = length blob" "velems t v \<le> length blob"
    using measured_readD [OF type_measured [OF assms(2)] c(1)]
    by (simp_all add: remaining_unread) (simp_all add: new_cursor_def unread_def)
  have "venc t v = blob" if "order_kept t"
  proof -
    have "canonical_codec (vcap iter t) (vread host t) (venc t) (velems t) (has_type host t) (min_bytes t)"
      using type_codec [OF assms(1,2)] type_canonical [OF assms(2) that]
      by (simp add: canonical_codec_def canonical_codec_axioms_def)
    from canonical_codec.restore_is_canonical [OF this assms(3)] show ?thesis by simp
  qed
  then show ?thesis
    using v type_captures [OF assms(1,2)] state_codec.restore_own [OF type_codec [OF assms(1,2)], of t v] by simp
qed

theorem restored_state_recaptures_witness:
  "\<exists>s. vcap sorted_order (TOption TBool) (VOption (Some (VBool True))) vec_sink = (Inr (), s) \<and> length (ss_bytes s) = 2 \<and>
    restore_blob (vread 64 (TOption TBool)) (ss_bytes s) = Inr (VOption (Some (VBool True))) \<and> ss_bytes s = [1, 1]"
proof -
  have "restore_blob (vread 64 (TOption TBool)) [1, 1] = Inr (VOption (Some (VBool True)))"
    by (simp add: restore_blob_def wrapped_def read_then_def take_bytes_def remaining_def unread_def new_cursor_def
        yield_def option_read_def read_bool_def read_byte_def finish_cursor_def)
  from restored_state_recaptures [OF sorted_orders _ this] show ?thesis by (simp add: numeral_2_eq_2)
qed

text \<open>
  The bytes of a capture do not depend on who captures: another process, with other hash orders, writes
  the same bytes, and so does a bounded sink that can hold them; a smaller one is charged its whole grant.
\<close>

theorem capture_is_the_same_everywhere:
  assumes "orders iter" "orders iter'" "host \<le> 64" "has_type host t v" "vcap iter' t v vec_sink = (Inr (), s)"
  shows "vcap iter t v vec_sink = (Inr (), s) \<and>
    (if length (ss_bytes s) \<le> n
     then vcap iter t v (bounded_sink n n) = (Inr (), (bounded_sink n n)\<lparr>ss_bytes := ss_bytes s\<rparr>)
     else \<exists>s1. vcap iter t v (bounded_sink n n) = (Inl SinkFull, s1) \<and> consumed s1 = n)"
proof -
  have "s = vec_sink\<lparr>ss_bytes := venc t v\<rparr>" using type_captures [OF assms(2-4)] assms(5) by simp
  then show ?thesis
    using type_captures [OF assms(1,3,4)] state_codec.capture_bounded [OF type_codec [OF assms(1,3)] assms(4), of n] by simp
qed

definition reversed_order :: hash_order where
  "reversed_order m = rev (sorted_list_of_set (dom m))"

lemma reversed_orders: "orders reversed_order"
  by (simp add: orders_def reversed_order_def iterates_def)

theorem capture_is_the_same_everywhere_witness:
  "\<exists>s. vcap reversed_order (fst sample_state) (snd sample_state) vec_sink = (Inr (), s) \<and>
    vcap sorted_order (fst sample_state) (snd sample_state) vec_sink = (Inr (), s) \<and>
    (if length (ss_bytes s) \<le> 40
     then vcap sorted_order (fst sample_state) (snd sample_state) (bounded_sink 40 40) =
       (Inr (), (bounded_sink 40 40)\<lparr>ss_bytes := ss_bytes s\<rparr>)
     else \<exists>s1. vcap sorted_order (fst sample_state) (snd sample_state) (bounded_sink 40 40) = (Inl SinkFull, s1) \<and>
       consumed s1 = 40)"
proof -
  have c: "vcap reversed_order (fst sample_state) (snd sample_state) vec_sink =
      (Inr (), vec_sink\<lparr>ss_bytes := venc (fst sample_state) (snd sample_state)\<rparr>)"
    by (rule type_captures [OF reversed_orders _ sample_typed(1)]) simp
  show ?thesis
    using c capture_is_the_same_everywhere [OF sorted_orders reversed_orders _ sample_typed(1) c, of 40] by blast
qed

text \<open>
  When the boundary's probe answers for a node, its capture never meets a held lock: in particular the
  probe's shortcut over an inline-safe type hides none.
\<close>

theorem probed_capture_meets_no_lock:
  assumes "orders iter" "finite_maps t v" "vprobe t v"
  shows "fst (vcap iter t v s) \<noteq> Inl LockContended"
  using never_contended [OF assms(1) _ assms(2)] assms(3) by (simp add: vprobe_locks_free never_def)

theorem probed_capture_meets_no_lock_witness:
  "fst (vcap sorted_order (fst sample_state) (snd sample_state) vec_sink) \<noteq> Inl LockContended"
  using probed_capture_meets_no_lock [OF sorted_orders sample_typed(3), of vec_sink]
  by (simp add: sample_state_def lock_probe_def)

text \<open>
  C23. Over any nodes, whatever their encoders return or whether they unwind, as long as they reach the arena
  through the sink only: the walk charges no more than the arena, the parts lie in what was charged, every
  node is in exactly one carrier, and the counters count them.
\<close>

theorem inline_walk_keeps_its_budget:
  fixes arena_len :: nat
  assumes "list_all behaves nodes"
  defines "w \<equiv> walk_inline arena_len nodes"
  shows "bytes_used (iw_stats w) \<le> arena_len \<and> (\<Sum>p \<leftarrow> iw_parts w. length (snd p)) \<le> bytes_used (iw_stats w) \<and>
    mset (map fst (iw_parts w) @ map fst (iw_fork_set w)) = mset [0..<length nodes] \<and>
    inline_nodes (iw_stats w) + forked_nodes (iw_stats w) = length nodes \<and>
    unwound_nodes (iw_stats w) = length (filter (\<lambda>f. snd f = CaptureUnwound) (iw_fork_set w)) \<and>
    gated_nodes (iw_stats w) = length (filter (\<lambda>f. snd f = NotInlineSafe) (iw_fork_set w))"
proof -
  have b: "walk_books arena_len (length nodes) w"
    using walk_from_books [OF assms(1) start_walk_books(1)] by (simp add: w_def walk_inline_def)
  then have "mset (map fst (iw_parts w) @ map fst (iw_fork_set w)) = mset [0..<length nodes]" by (simp add: walk_books_def)
  from mset_eq_length [OF this] b show ?thesis by (simp add: walk_books_def)
qed

definition panicking_node :: inline_target where
  "panicking_node = \<lparr>it_inline_safe = True, it_probe = True, it_capture = (\<lambda>s. (Unwound, snd (sink_write [1, 2] s)))\<rparr>"

theorem inline_walk_keeps_its_budget_witness:
  "bytes_used (iw_stats (walk_inline 3 [panicking_node, panicking_node])) \<le> 3 \<and>
   iw_fork_set (walk_inline 3 [panicking_node, panicking_node]) = [(0, CaptureUnwound), (1, CaptureUnwound)]"
proof -
  have "sink_run s (snd (sink_write [1, 2] s))" for s by (intro sr_write sr_done)
  then have "list_all behaves [panicking_node, panicking_node]" by (simp add: behaves_def panicking_node_def)
  from inline_walk_keeps_its_budget [OF this, of 3] show ?thesis
    by (simp add: walk_inline_def walk_node_def panicking_node_def start_walk_def defer_node_def Let_def)
qed

text \<open>
  Over typed nodes, each part that the walk publishes is its node's canonical encoding and restores to the
  node's value; a node is forked for its gate or for the arena only; and after the first node that overflows
  the arena is spent, so that no later node gets a byte of it.
\<close>

theorem inline_parts_restore:
  fixes arena_len :: nat
  assumes "orders iter" "host \<le> 64" "\<forall>(t, v) \<in> set nodes. has_type host t v \<and> floored t"
  defines "w \<equiv> walk_inline arena_len (map (node_capture_view iter) nodes)"
  shows "(\<forall>(i, payload) \<in> set (iw_parts w). i < length nodes \<and>
      restore_blob (vread host (fst (nodes ! i))) payload = Inr (snd (nodes ! i))) \<and>
    (\<forall>(i, reason) \<in> set (iw_fork_set w). i < length nodes \<and>
      reason = (if inline_safe (fst (nodes ! i)) then ArenaOverflow else NotInlineSafe) \<and>
      (reason = ArenaOverflow \<longrightarrow> bytes_used (iw_stats w) = arena_len \<and>
        (\<forall>(j, payload) \<in> set (iw_parts w). i < j \<longrightarrow> payload = [])))"
proof -
  have "typed_walk arena_len nodes (length nodes) w"
    using typed_walk_from [OF assms(1,2), of nodes 0 "length nodes" arena_len start_walk] assms(3) start_walk_books
    by (force simp: w_def walk_inline_def start_walk_def)
  moreover have "restore_blob (vread host (fst (nodes ! i))) (venc (fst (nodes ! i)) (snd (nodes ! i))) = Inr (snd (nodes ! i))"
    if "i < length nodes" for i
  proof -
    obtain t v where tv: "nodes ! i = (t, v)" by force
    then have "has_type host t v" "floored t" using assms(3) nth_mem [OF that] by auto
    from paid_codec.restores [OF paid_type [OF assms(1,2) this(2)] this(1)] show ?thesis by (simp add: tv)
  qed
  ultimately show ?thesis by (fastforce simp: typed_walk_def)
qed

theorem inline_parts_restore_witness:
  "iw_parts (walk_inline 10 (map (node_capture_view sorted_order) [(TU8, VU8 5), sample_state, (TU64, VU64 1)])) =
     [(0, [5]), (2, [1, 0, 0, 0, 0, 0, 0, 0])] \<and>
   restore_blob (vread 64 TU8) [5] = Inr (VU8 5) \<and>
   restore_blob (vread 64 TU64) [1, 0, 0, 0, 0, 0, 0, 0] = Inr (VU64 1)"
proof -
  let ?nodes = "[(TU8, VU8 5), sample_state, (TU64, VU64 1)]"
  have "\<forall>(t, v) \<in> set ?nodes. has_type 64 t v \<and> floored t" using sample_typed by (simp add: case_prod_beta)
  moreover have "iw_parts (walk_inline 10 (map (node_capture_view sorted_order) ?nodes)) =
      [(0, [5]), (2, [1, 0, 0, 0, 0, 0, 0, 0])]"
    by (simp add: walk_inline_def walk_node_def node_capture_view_def start_walk_def defer_node_def publish_part_def
        Let_def sample_state_def scalar_capture_def put_def sink_write_def bounded_sink_def has_room_def to_le_numeral)
  ultimately show ?thesis using inline_parts_restore [OF sorted_orders, of 64 ?nodes 10] by auto
qed

text \<open>
  A sequence of units is the exception that the floor excludes: five of them are captured in four bytes, and
  no blob of four bytes grants the budget that reading them back asks for.
\<close>

lemma unit_sequence_is_refused:
  "vcap iter (TVec TUnit) (VVec (replicate 5 VUnit)) vec_sink = (Inr (), vec_sink\<lparr>ss_bytes := [5, 0, 0, 0]\<rparr>) \<and>
   restore_blob (vread host (TVec TUnit)) [5, 0, 0, 0] = Inl (CountUnjustified 5 4)"
proof -
  have "replicate 5 VUnit = [VUnit, VUnit, VUnit, VUnit, VUnit]" by (simp add: numeral_eq_Suc)
  moreover have "to_le 4 (Suc (Suc (Suc (Suc (Suc 0))))) = [5, 0, 0, 0]" by (simp add: to_le_numeral)
  ultimately show ?thesis
    by (simp add: vec_capture_def write_len_def and_then_def put_def sink_write_def vec_sink_def has_room_def nothing_def
        restore_blob_def wrapped_def vec_read_def read_then_def read_element_count_def read_payload_len_def
        take_bytes_def remaining_def unread_def new_cursor_def yield_def)
qed

text \<open>A sorted map accepts its entries in any order, and captures them sorted: the bytes may change.\<close>

lemma unsorted_map_recaptures_sorted:
  "restore_blob (vread 64 (TBTreeMap TUnit)) [2, 0, 0, 0, 1, 0, 0, 0, 98, 1, 0, 0, 0, 97] =
     Inr (VBTreeMap [([97], VUnit), ([98], VUnit)]) \<and>
   venc (TBTreeMap TUnit) (VBTreeMap [([97], VUnit), ([98], VUnit)]) \<noteq> [2, 0, 0, 0, 1, 0, 0, 0, 98, 1, 0, 0, 0, 97]"
  by (simp add: restore_blob_def wrapped_def container_read_def read_then_def read_element_count_def read_payload_len_def
      take_bytes_def remaining_def unread_def new_cursor_def yield_def charge_elements_def tuple_read_def read_str_def
      btree_map_insert_def finish_cursor_def read_entries_numeral vec_enc_def tuple_enc_def str_enc_def to_le_numeral)

end
