(* ===== verification/StateRing.thy ===== *)
theory StateRing
  imports StateContainers "HOL-Library.Product_Lexorder"
begin

text \<open>
  The records of the state ring (\<open>state_ring.rs\<close>, \<open>state/skip_cause.rs\<close>): the 512-byte record and its
  40-byte header, the chunker that turns the bytes of one node's state into records, the skip record that
  names why a node has none, and the assembler that turns a stream of records back into whole anchors.

  A record is a byte list of length 512. The shared-memory ring under it is not modelled: \<open>drain_ring\<close> takes the
  records that a drain read and whether its commit found them overwritten.
\<close>

section \<open>The record\<close>

record state_record_header =
  sr_run_id :: u64
  sr_step :: u64
  sr_node_idx :: u32
  sr_part :: u32
  sr_kind :: u32
  sr_len :: u32
  sr_rank :: u32
  sr_format_version :: u32

definition STATE_RECORD_PAYLOAD :: nat where "STATE_RECORD_PAYLOAD = 472"

definition record_header_bytes :: "state_record_header \<Rightarrow> bytes" where
  "record_header_bytes h = le64 (sr_run_id h) @ le64 (sr_step h) @ le32 (sr_node_idx h) @ le32 (sr_part h) @
     le32 (sr_kind h) @ le32 (sr_len h) @ le32 (sr_rank h) @ le32 (sr_format_version h)"

definition header_from_bytes :: "bytes \<Rightarrow> state_record_header" where
  "header_from_bytes b =
     \<lparr>sr_run_id = get64 b 0, sr_step = get64 b 8, sr_node_idx = get32 b 16, sr_part = get32 b 20,
      sr_kind = get32 b 24, sr_len = get32 b 28, sr_rank = get32 b 32, sr_format_version = get32 b 36\<rparr>"

datatype record_refusal = LenExceedsPayload | UnknownVersion | FormatZeroKind | ZeroedSlot | UnknownKind

text \<open>Kinds 4, 5 and 6 are the chunk, final and skip kinds of format version 1; 1, 2 and 3 those of version 0.\<close>

definition validate_header :: "state_record_header \<Rightarrow> record_refusal + unit" where
  "validate_header h =
     (if unat (sr_len h) > STATE_RECORD_PAYLOAD then Inl LenExceedsPayload
      else if sr_kind h \<in> {4, 5, 6} then
        (if sr_format_version h = 1 then Inr () else Inl UnknownVersion)
      else if sr_kind h \<in> {1, 2, 3} then Inl FormatZeroKind
      else if sr_kind h = 0 then Inl ZeroedSlot
      else Inl UnknownKind)"

text \<open>\<open>encode_record\<close> panics on a payload that the header does not describe.\<close>

definition encode_record :: "state_record_header \<Rightarrow> bytes \<Rightarrow> bytes option" where
  "encode_record h payload =
     (if length payload \<le> STATE_RECORD_PAYLOAD \<and> length payload = unat (sr_len h)
      then Some (record_header_bytes h @ payload @ replicate (STATE_RECORD_PAYLOAD - length payload) 0) else None)"

definition parts_for_len :: "nat \<Rightarrow> nat" where
  "parts_for_len len = (if len = 0 then 1 else (len + STATE_RECORD_PAYLOAD - 1) div STATE_RECORD_PAYLOAD)"

section \<open>Skip records\<close>

datatype skip_cause =
    Contended | LowMemory | StillEncoding | ForkFailed | ChildTimeout | CaptureFailed | ChildPanicked
  | ChildCrashed | RecorderBehind | Unrecognized u32

fun skip_as_wire :: "skip_cause \<Rightarrow> u32" where
  "skip_as_wire Contended = 1"
| "skip_as_wire LowMemory = 2"
| "skip_as_wire StillEncoding = 3"
| "skip_as_wire ForkFailed = 4"
| "skip_as_wire ChildTimeout = 5"
| "skip_as_wire CaptureFailed = 6"
| "skip_as_wire ChildPanicked = 7"
| "skip_as_wire ChildCrashed = 8"
| "skip_as_wire RecorderBehind = 9"
| "skip_as_wire (Unrecognized raw) = raw"

definition skip_from_wire :: "u32 \<Rightarrow> skip_cause" where
  "skip_from_wire raw =
     (if raw = 1 then Contended else if raw = 2 then LowMemory else if raw = 3 then StillEncoding
      else if raw = 4 then ForkFailed else if raw = 5 then ChildTimeout else if raw = 6 then CaptureFailed
      else if raw = 7 then ChildPanicked else if raw = 8 then ChildCrashed else if raw = 9 then RecorderBehind
      else Unrecognized raw)"

text \<open>The detail is cut back to a character boundary: a continuation byte begins no character.\<close>

fun char_cut :: "bytes \<Rightarrow> nat \<Rightarrow> nat" where
  "char_cut s 0 = 0"
| "char_cut s (Suc n) = (if Suc n = length s \<or> (Suc n < length s \<and> \<not> is_cont (s ! Suc n)) then Suc n else char_cut s n)"

definition encode_skip_record ::
    "u64 \<Rightarrow> u64 \<Rightarrow> u32 \<Rightarrow> u32 \<Rightarrow> skip_cause \<Rightarrow> bytes \<Rightarrow> bytes option" where
  "encode_skip_record run_id step node_idx rank cause detail =
     (let cut = char_cut detail (min (length detail) (STATE_RECORD_PAYLOAD - 4));
          payload = le32 (skip_as_wire cause) @ take cut detail
      in encode_record
           \<lparr>sr_run_id = run_id, sr_step = step, sr_node_idx = node_idx, sr_part = 0, sr_kind = 6,
            sr_len = of_nat (4 + cut), sr_rank = rank, sr_format_version = 1\<rparr> payload)"

text \<open>
  \<open>String::from_utf8_lossy\<close>: the length of the next character, or of the longest prefix of one that is
  broken off, which is replaced.
\<close>

fun utf8_step :: "bytes \<Rightarrow> nat \<times> bool" where
  "utf8_step [] = (0, True)"
| "utf8_step (a # bs) =
     (if a < 0x80 then (1, True)
      else if 0xC2 \<le> a \<and> a < 0xE0 then
        (case bs of b # _ \<Rightarrow> if is_cont b then (2, True) else (1, False) | _ \<Rightarrow> (1, False))
      else if 0xE0 \<le> a \<and> a < 0xF0 then
        (case bs of b # r \<Rightarrow>
           if is_cont b \<and> (a = 0xE0 \<longrightarrow> 0xA0 \<le> b) \<and> (a = 0xED \<longrightarrow> b < 0xA0)
           then (case r of c # _ \<Rightarrow> if is_cont c then (3, True) else (2, False) | _ \<Rightarrow> (2, False))
           else (1, False)
         | _ \<Rightarrow> (1, False))
      else if 0xF0 \<le> a \<and> a < 0xF5 then
        (case bs of b # r \<Rightarrow>
           if is_cont b \<and> (a = 0xF0 \<longrightarrow> 0x90 \<le> b) \<and> (a = 0xF4 \<longrightarrow> b < 0x90)
           then (case r of c # r' \<Rightarrow>
                   if is_cont c
                   then (case r' of d # _ \<Rightarrow> if is_cont d then (4, True) else (3, False) | _ \<Rightarrow> (3, False))
                   else (2, False)
                 | _ \<Rightarrow> (2, False))
           else (1, False)
         | _ \<Rightarrow> (1, False))
      else (1, False))"

lemma utf8_step_pos: "0 < fst (utf8_step (a # bs))"
  by (auto split: list.splits)

function utf8_lossy :: "bytes \<Rightarrow> bytes" where
  "utf8_lossy [] = []"
| "utf8_lossy (a # bs) =
     (case utf8_step (a # bs) of (n, valid) \<Rightarrow>
        (if valid then take n (a # bs) else [0xEF, 0xBF, 0xBD]) @ utf8_lossy (drop n (a # bs)))"
  by pat_completeness auto
termination
proof (relation "measure length")
  fix a bs n valid
  assume "(n, valid) = utf8_step (a # bs)"
  then have "0 < n" using utf8_step_pos [of a bs] by (metis fst_conv)
  then show "(drop n (a # bs), a # bs) \<in> measure length" by simp
qed simp

definition decode_skip_payload :: "bytes \<Rightarrow> skip_cause \<times> bytes" where
  "decode_skip_payload payload =
     (if length payload < 4 then (Unrecognized 0, [])
      else (skip_from_wire (get32 payload 0), utf8_lossy (drop 4 payload)))"

section \<open>The chunker\<close>

record state_chunker =
  ch_run_id :: u64
  ch_step :: u64
  ch_node_idx :: u32
  ch_rank :: u32
  ch_next_part :: u32
  ch_buf :: bytes

definition new_chunker :: "u64 \<Rightarrow> u64 \<Rightarrow> u32 \<Rightarrow> u32 \<Rightarrow> state_chunker" where
  "new_chunker run_id step node_idx rank =
     \<lparr>ch_run_id = run_id, ch_step = step, ch_node_idx = node_idx, ch_rank = rank, ch_next_part = 0, ch_buf = []\<rparr>"

definition chunk_header :: "u32 \<Rightarrow> state_chunker \<Rightarrow> state_record_header" where
  "chunk_header kind c =
     \<lparr>sr_run_id = ch_run_id c, sr_step = ch_step c, sr_node_idx = ch_node_idx c, sr_part = ch_next_part c,
      sr_kind = kind, sr_len = of_nat (length (ch_buf c)), sr_rank = ch_rank c, sr_format_version = 1\<rparr>"

definition emit_buffered :: "u32 \<Rightarrow> state_chunker \<Rightarrow> bytes option \<times> state_chunker" where
  "emit_buffered kind c =
     (encode_record (chunk_header kind c) (ch_buf c), c\<lparr>ch_next_part := ch_next_part c + 1, ch_buf := []\<rparr>)"

text \<open>
  The loop of \<open>append\<close>. The buffer is an array of 472 bytes, so it is never longer; the first clause says so to
  the termination proof.
\<close>

function chunk_append :: "bytes \<Rightarrow> state_chunker \<Rightarrow> bytes option list \<times> state_chunker" where
  "chunk_append bytes c =
     (if bytes = [] \<or> STATE_RECORD_PAYLOAD < length (ch_buf c) then ([], c)
      else
        let (out, c1) = (if length (ch_buf c) = STATE_RECORD_PAYLOAD
                         then (case emit_buffered 4 c of (r, c1) \<Rightarrow> ([r], c1)) else ([], c));
            n = min (STATE_RECORD_PAYLOAD - length (ch_buf c1)) (length bytes);
            (out', c2) = chunk_append (drop n bytes) (c1\<lparr>ch_buf := ch_buf c1 @ take n bytes\<rparr>)
        in (out @ out', c2))"
  by pat_completeness auto
termination
  by (relation "measure (\<lambda>(bytes, c). length bytes)")
     (auto simp: emit_buffered_def STATE_RECORD_PAYLOAD_def split: if_splits)

definition chunk_finish :: "state_chunker \<Rightarrow> bytes option \<times> u32" where
  "chunk_finish c = (case emit_buffered 5 c of (r, c1) \<Rightarrow> (r, ch_next_part c1))"

section \<open>The assembler\<close>

datatype torn_cause =
    PartOutOfOrder (po_expected: u32) (po_got: u32)
  | ShortChunk (sc_part: u32) (sc_len: u32)
  | TruncatedAnchor (ta_parts_seen: u32)

type_synonym anchor_key = "u64 \<times> u64 \<times> u32"

datatype state_anchor_event =
    Complete anchor_key u32 bytes
  | Torn anchor_key torn_cause
  | Skipped anchor_key skip_cause bytes
  | SkipAfterComplete anchor_key skip_cause bytes
  | MalformedShort nat
  | Malformed record_refusal

datatype anchor_state = OpenAnchor u32 bytes | Voided

record state_assembler =
  sa_open :: "anchor_key \<rightharpoonup> anchor_state"
  sa_completed :: "u64 \<times> u32 \<rightharpoonup> u64"
  sa_armed :: bool
  sa_discarded :: nat
  sa_torn_drains :: nat
  sa_skips_after_complete :: nat

definition passthrough :: state_assembler where
  "passthrough = \<lparr>sa_open = Map.empty, sa_completed = Map.empty, sa_armed = False, sa_discarded = 0,
     sa_torn_drains = 0, sa_skips_after_complete = 0\<rparr>"

definition armed :: state_assembler where
  "armed = passthrough\<lparr>sa_armed := True\<rparr>"

definition header_key :: "state_record_header \<Rightarrow> anchor_key" where
  "header_key h = (sr_run_id h, sr_step h, sr_node_idx h)"

definition set_open :: "anchor_key \<Rightarrow> anchor_state option \<Rightarrow> state_assembler \<Rightarrow> state_assembler" where
  "set_open key st a = a\<lparr>sa_open := (sa_open a)(key := st)\<rparr>"

definition note_completed :: "state_record_header \<Rightarrow> state_assembler \<Rightarrow> state_assembler" where
  "note_completed h a =
     (let k = (sr_run_id h, sr_node_idx h)
      in a\<lparr>sa_completed := (sa_completed a)(k \<mapsto>
             (case sa_completed a k of None \<Rightarrow> sr_step h | Some s \<Rightarrow> max s (sr_step h)))\<rparr>)"

definition feed_skip :: "state_record_header \<Rightarrow> bytes \<Rightarrow> state_assembler \<Rightarrow> state_anchor_event \<times> state_assembler" where
  "feed_skip h payload a =
     (let key = header_key h; a1 = set_open key None a; (cause, detail) = decode_skip_payload payload
      in if sa_completed a1 (sr_run_id h, sr_node_idx h) = Some (sr_step h)
         then (SkipAfterComplete key cause detail, a1\<lparr>sa_skips_after_complete := sa_skips_after_complete a1 + 1\<rparr>)
         else (Skipped key cause detail, a1))"

definition feed_chunk ::
    "state_record_header \<Rightarrow> bytes \<Rightarrow> state_assembler \<Rightarrow> state_anchor_event option \<times> state_assembler" where
  "feed_chunk h payload a =
     (let key = header_key h; final = (sr_kind h = 5); short = (\<not> final \<and> unat (sr_len h) \<noteq> STATE_RECORD_PAYLOAD)
      in case sa_open a key of
           None \<Rightarrow>
             if sr_part h \<noteq> 0
             then (Some (Torn key (PartOutOfOrder 0 (sr_part h))), if final then a else set_open key (Some Voided) a)
             else if short then (Some (Torn key (ShortChunk (sr_part h) (sr_len h))), set_open key (Some Voided) a)
             else if final then (Some (Complete key 1 payload), note_completed h a)
             else (None, set_open key (Some (OpenAnchor 1 payload)) a)
         | Some Voided \<Rightarrow> (None, if final then set_open key None a else a)
         | Some (OpenAnchor next_part buf) \<Rightarrow>
             if sr_part h \<noteq> next_part
             then (Some (Torn key (PartOutOfOrder next_part (sr_part h))), set_open key (if final then None else Some Voided) a)
             else if short then (Some (Torn key (ShortChunk (sr_part h) (sr_len h))), set_open key (Some Voided) a)
             else if final
             then (Some (Complete key (next_part + 1) (buf @ payload)), note_completed h (set_open key None a))
             else (None, set_open key (Some (OpenAnchor (next_part + 1) (buf @ payload))) a))"

definition feed :: "bytes \<Rightarrow> state_assembler \<Rightarrow> state_anchor_event option \<times> state_assembler" where
  "feed rec a =
     (if length rec < 512 then (Some (MalformedShort (length rec)), a)
      else
        let h = header_from_bytes (take 40 rec) in
        case validate_header h of
          Inl reason \<Rightarrow> (Some (Malformed reason), a)
        | Inr _ \<Rightarrow>
            if sa_armed a \<and> sr_part h \<noteq> 0 then (None, a\<lparr>sa_discarded := sa_discarded a + 1\<rparr>)
            else
              let a1 = a\<lparr>sa_armed := False\<rparr>; payload = slice rec 40 (40 + unat (sr_len h)) in
              if sr_kind h = 6 then (case feed_skip h payload a1 of (ev, a2) \<Rightarrow> (Some ev, a2))
              else feed_chunk h payload a1)"

fun feed_all :: "bytes list \<Rightarrow> state_assembler \<Rightarrow> state_anchor_event list \<times> state_assembler" where
  "feed_all [] a = ([], a)"
| "feed_all (r # rs) a =
     (case feed r a of (ev, a1) \<Rightarrow> case feed_all rs a1 of (evs, a2) \<Rightarrow>
        (case ev of None \<Rightarrow> evs | Some e \<Rightarrow> e # evs, a2))"

definition finish_assembler :: "state_assembler \<Rightarrow> state_anchor_event list \<times> state_assembler" where
  "finish_assembler a =
     (List.map_filter (\<lambda>key. case sa_open a key of
          Some (OpenAnchor next_part _) \<Rightarrow> Some (Torn key (TruncatedAnchor next_part)) | _ \<Rightarrow> None)
        (sorted_list_of_set (dom (sa_open a))),
      a\<lparr>sa_open := Map.empty\<rparr>)"

definition note_torn_drain :: "state_assembler \<Rightarrow> state_assembler" where
  "note_torn_drain a = a\<lparr>sa_open := Map.empty, sa_torn_drains := sa_torn_drains a + 1\<rparr>"

text \<open>
  A drain of the ring: \<open>read\<close> is what it read, or that it was already lapped, and \<open>committed\<close> whether the
  records were still whole when it had read them.
\<close>

datatype drain_result = Consumed nat | Lapped

definition drain_ring :: "bytes list option \<Rightarrow> bool \<Rightarrow> state_assembler \<Rightarrow> state_anchor_event list \<times> drain_result \<times> state_assembler" where
  "drain_ring read committed a =
     (case read of
        None \<Rightarrow> ([], Lapped, note_torn_drain a)
      | Some recs \<Rightarrow>
          (case feed_all recs a of (evs, a1) \<Rightarrow>
             if committed then (evs, Consumed (length recs), a1) else ([], Lapped, note_torn_drain a1)))"

section \<open>Text in a skip record\<close>

lemma utf8_step_is_utf8: "is_utf8 (a # bs) = (snd (utf8_step (a # bs)) \<and> is_utf8 (drop (fst (utf8_step (a # bs))) (a # bs)))"
  by (auto split: list.splits)

lemma utf8_step_valid:
  assumes "utf8_step (a # bs) = (n, True)"
  shows "n \<le> length (a # bs)" "0 < i \<Longrightarrow> i < n \<Longrightarrow> is_cont ((a # bs) ! i)" "n \<le> m \<Longrightarrow> utf8_step (take m (a # bs)) = (n, True)"
proof -
  show "n \<le> length (a # bs)" using assms by (auto split: list.splits if_splits)
  show "is_cont ((a # bs) ! i)" if "0 < i" "i < n"
    using assms that by (auto simp: nth_Cons less_Suc_eq numeral_eq_Suc split: list.splits if_splits nat.splits)
  show "utf8_step (take m (a # bs)) = (n, True)" if "n \<le> m"
    using assms that by (auto simp: take_Cons split: list.splits if_splits nat.splits)
qed

lemma utf8_take: "is_utf8 s \<Longrightarrow> n = length s \<or> n < length s \<and> \<not> is_cont (s ! n) \<Longrightarrow> is_utf8 (take n s)"
proof (induction s arbitrary: n rule: length_induct)
  case (1 s)
  show ?case
  proof (cases "s = [] \<or> n = 0")
    case False
    then obtain a bs where s: "s = a # bs" by (cases s) auto
    obtain k where k: "utf8_step s = (k, True)" "is_utf8 (drop k s)"
      using 1(2) utf8_step_is_utf8 [of a bs] unfolding s by (cases "utf8_step (a # bs)") auto
    have k0: "0 < k" using utf8_step_pos [of a bs] k(1) s by simp
    have kl: "k \<le> length s" using utf8_step_valid(1) k(1) s by blast
    have kn: "k \<le> n"
    proof (rule ccontr)
      assume "\<not> k \<le> n"
      then have "is_cont (s ! n)" using utf8_step_valid(2) [of a bs k n] k(1) s False by simp
      then show False using 1(3) kl \<open>\<not> k \<le> n\<close> by auto
    qed
    have "is_utf8 (take (n - k) (drop k s))"
      by (rule 1(1) [rule_format]) (use k0 kl kn k(2) 1(3) False in auto)
    moreover have "utf8_step (take n s) = (k, True)" using utf8_step_valid(3) [of a bs k n] k(1) s kn by blast
    moreover have "take n s = a # take (n - 1) bs" using s False by (cases n) auto
    moreover have "drop k (take n s) = take (n - k) (drop k s)" by (rule drop_take)
    ultimately show ?thesis using utf8_step_is_utf8 [of a "take (n - 1) bs"] by (metis fst_conv snd_conv)
  qed auto
qed

lemma utf8_lossy_valid: "is_utf8 s \<Longrightarrow> utf8_lossy s = s"
proof (induction s rule: utf8_lossy.induct)
  case (2 a bs)
  obtain n v where n: "utf8_step (a # bs) = (n, v)" by force
  then have v: "v" "is_utf8 (drop n (a # bs))" using 2(2) utf8_step_is_utf8 [of a bs] by (metis fst_conv snd_conv)+
  then have "utf8_lossy (drop n (a # bs)) = drop n (a # bs)" using 2(1) [OF n [symmetric]] by blast
  then show ?case using n v(1) by (simp del: utf8_step.simps)
qed simp

lemma char_cut_facts: "n \<le> length s \<Longrightarrow> char_cut s n \<le> n \<and>
    (char_cut s n = 0 \<or> char_cut s n = length s \<or> char_cut s n < length s \<and> \<not> is_cont (s ! char_cut s n))"
  by (induction n) auto

lemma char_cut_whole: "char_cut s (length s) = length s"
  by (cases "length s") auto

section \<open>Records on the wire\<close>

lemma length_record_header [simp]: "length (record_header_bytes h) = 40"
  by (simp add: record_header_bytes_def)

lemma header_bytes_back: "header_from_bytes (record_header_bytes h) = h"
proof -
  have "get64 (record_header_bytes h) 0 = sr_run_id h" "get64 (record_header_bytes h) 8 = sr_step h"
    by (rule get64_le64, simp add: record_header_bytes_def slice_def)+
  moreover have "get32 (record_header_bytes h) 16 = sr_node_idx h" "get32 (record_header_bytes h) 20 = sr_part h"
    "get32 (record_header_bytes h) 24 = sr_kind h" "get32 (record_header_bytes h) 28 = sr_len h"
    "get32 (record_header_bytes h) 32 = sr_rank h" "get32 (record_header_bytes h) 36 = sr_format_version h"
    by (rule get32_le32, simp add: record_header_bytes_def slice_def)+
  ultimately show ?thesis by (simp add: header_from_bytes_def)
qed

definition record_with :: "state_record_header \<Rightarrow> bytes \<Rightarrow> bytes" where
  "record_with h payload = record_header_bytes h @ payload @ replicate (STATE_RECORD_PAYLOAD - length payload) 0"

definition fits_header :: "state_record_header \<Rightarrow> bytes \<Rightarrow> bool" where
  "fits_header h payload \<longleftrightarrow> length payload \<le> STATE_RECORD_PAYLOAD \<and> length payload = unat (sr_len h)"

lemma encode_record_iff: "encode_record h payload = Some r \<longleftrightarrow> fits_header h payload \<and> r = record_with h payload"
  by (auto simp: encode_record_def fits_header_def record_with_def)

lemma record_with_parts:
  assumes "fits_header h payload"
  shows "length (record_with h payload) = 512" "header_from_bytes (take 40 (record_with h payload)) = h"
    "slice (record_with h payload) 40 (40 + unat (sr_len h)) = payload"
  using assms by (simp_all add: record_with_def fits_header_def header_bytes_back STATE_RECORD_PAYLOAD_def slice_def)

lemma feed_record:
  assumes "fits_header h payload" "validate_header h = Inr ()" "\<not> sa_armed a"
  shows "feed (record_with h payload) a =
    (if sr_kind h = 6 then (case feed_skip h payload a of (ev, a2) \<Rightarrow> (Some ev, a2)) else feed_chunk h payload a)"
proof -
  have "a\<lparr>sa_armed := False\<rparr> = a" using assms(3) by (cases a) simp
  then show ?thesis using record_with_parts [OF assms(1)] assms(2,3) by (simp add: feed_def Let_def \<open>a\<lparr>sa_armed := False\<rparr> = a\<close>)
qed

section \<open>What the chunker writes\<close>

text \<open>A blob is cut into pieces of 472 bytes; the last is the rest, full when the length is a multiple.\<close>

function pieces :: "bytes \<Rightarrow> bytes list" where
  "pieces bs = (if length bs \<le> STATE_RECORD_PAYLOAD then [bs]
     else take STATE_RECORD_PAYLOAD bs # pieces (drop STATE_RECORD_PAYLOAD bs))"
  by pat_completeness auto
termination
  by (relation "measure length") (auto simp: STATE_RECORD_PAYLOAD_def)

declare pieces.simps [simp del] chunk_append.simps [simp del]

fun number :: "(u32 \<Rightarrow> bytes \<Rightarrow> 'b) \<Rightarrow> u32 \<Rightarrow> bytes list \<Rightarrow> 'b list" where
  "number f n [] = []"
| "number f n (p # ps) = f n p # number f (n + 1) ps"

definition chunk_record :: "state_chunker \<Rightarrow> u32 \<Rightarrow> u32 \<Rightarrow> bytes \<Rightarrow> bytes" where
  "chunk_record c kind part p = record_with (chunk_header kind (c\<lparr>ch_next_part := part, ch_buf := p\<rparr>)) p"

definition blob_records :: "state_chunker \<Rightarrow> bytes \<Rightarrow> bytes list" where
  "blob_records c blob =
     (let ps = pieces blob
      in number (chunk_record c 4) 0 (butlast ps) @ [chunk_record c 5 (of_nat (length ps - 1)) (last ps)])"

lemma pieces_nonempty [simp]: "pieces bs \<noteq> []"
  by (subst pieces.simps) simp

lemma pieces_short: "length bs \<le> STATE_RECORD_PAYLOAD \<Longrightarrow> pieces bs = [bs]"
  by (subst pieces.simps) simp

lemma pieces_full: "length p = STATE_RECORD_PAYLOAD \<Longrightarrow> bs \<noteq> [] \<Longrightarrow> pieces (p @ bs) = p # pieces bs"
  by (subst pieces.simps) simp

lemma pieces_long: "\<not> length bs \<le> STATE_RECORD_PAYLOAD \<Longrightarrow>
    pieces bs = take STATE_RECORD_PAYLOAD bs # pieces (drop STATE_RECORD_PAYLOAD bs)"
  by (subst pieces.simps) simp

lemma pieces_induct [case_names short long]:
  fixes P :: "bytes \<Rightarrow> bool"
  assumes "\<And>bs. length bs \<le> STATE_RECORD_PAYLOAD \<Longrightarrow> P bs"
    "\<And>bs. \<not> length bs \<le> STATE_RECORD_PAYLOAD \<Longrightarrow> P (drop STATE_RECORD_PAYLOAD bs) \<Longrightarrow> P bs"
  shows "P bs"
  using assms by (induction bs rule: pieces.induct) blast

lemma pieces_concat: "concat (pieces bs) = bs"
  by (induction bs rule: pieces_induct) (simp_all add: pieces_short pieces_long)

lemma pieces_sizes: "(\<forall>p \<in> set (butlast (pieces bs)). length p = STATE_RECORD_PAYLOAD) \<and>
    length (last (pieces bs)) \<le> STATE_RECORD_PAYLOAD"
proof (induction bs rule: pieces_induct)
  case (long bs)
  then show ?case using pieces_long [of bs] by simp
qed (simp add: pieces_short)

lemma parts_step: "parts_for_len n = (if n \<le> STATE_RECORD_PAYLOAD then 1 else Suc (parts_for_len (n - STATE_RECORD_PAYLOAD)))"
proof -
  have "(n + 471) div 472 = 1" if "n \<noteq> 0" "n \<le> 472" by (rule div_nat_eqI) (use that in simp_all)
  moreover have "(n + 471) div 472 = Suc ((n - 472 + 471) div 472)" if "472 < n"
    using that div_add_self2 [of 472 "n - 1"] by simp
  ultimately show ?thesis by (simp add: parts_for_len_def STATE_RECORD_PAYLOAD_def add.commute)
qed

lemma length_pieces: "length (pieces bs) = parts_for_len (length bs)"
proof (induction bs rule: pieces_induct)
  case (long bs)
  then show ?case using pieces_long [of bs] parts_step [of "length bs"] by simp
next
  case (short bs)
  then show ?case using parts_step [of "length bs"] by (simp add: pieces_short)
qed

lemma pieces_resume: "pieces (x @ y) = butlast (pieces x) @ pieces (last (pieces x) @ y)"
  by (induction x rule: pieces_induct) (simp_all add: pieces_short pieces_long)

lemma chunk_fits: "length p \<le> STATE_RECORD_PAYLOAD \<Longrightarrow> fits_header (chunk_header kind (c\<lparr>ch_next_part := part, ch_buf := p\<rparr>)) p"
  by (simp add: fits_header_def chunk_header_def STATE_RECORD_PAYLOAD_def unat_of_nat_eq)

lemma emit_chunk:
  assumes "length (ch_buf c) \<le> STATE_RECORD_PAYLOAD"
  shows "emit_buffered kind c =
    (Some (chunk_record c kind (ch_next_part c) (ch_buf c)), c\<lparr>ch_next_part := ch_next_part c + 1, ch_buf := []\<rparr>)"
proof -
  have "c\<lparr>ch_next_part := ch_next_part c, ch_buf := ch_buf c\<rparr> = c" by simp
  then show ?thesis
    using chunk_fits [OF assms, where kind = kind and c = c and part = "ch_next_part c"]
    by (simp add: emit_buffered_def chunk_record_def encode_record_iff)
qed

lemma chunk_record_ids [simp]: "chunk_record (c\<lparr>ch_next_part := n, ch_buf := b\<rparr>) = chunk_record c"
  "chunk_record (c\<lparr>ch_buf := b\<rparr>) = chunk_record c" "chunk_record (c\<lparr>ch_next_part := n\<rparr>) = chunk_record c"
  by (simp_all add: fun_eq_iff chunk_record_def)

lemma number_append: "number f n (xs @ ys) = number f n xs @ number f (n + of_nat (length xs)) ys"
  by (induction xs arbitrary: n) (simp_all add: algebra_simps)

lemma chunk_append_pieces:
  assumes "length (ch_buf c) \<le> STATE_RECORD_PAYLOAD"
  shows "chunk_append bytes c =
    (let ps = pieces (ch_buf c @ bytes)
     in (map Some (number (chunk_record c 4) (ch_next_part c) (butlast ps)),
         c\<lparr>ch_next_part := ch_next_part c + of_nat (length ps - 1), ch_buf := last ps\<rparr>))"
  using assms
proof (induction bytes c rule: chunk_append.induct)
  case (1 bytes c)
  show ?case
  proof (cases "bytes = []")
    case True
    then show ?thesis using 1(2) by (simp add: chunk_append.simps pieces_short)
  next
    case False
    define full where "full \<longleftrightarrow> length (ch_buf c) = STATE_RECORD_PAYLOAD"
    define c1 where "c1 = (if full then c\<lparr>ch_next_part := ch_next_part c + 1, ch_buf := []\<rparr> else c)"
    define out where "out = (if full then [Some (chunk_record c 4 (ch_next_part c) (ch_buf c))] else [])"
    define n where "n = min (STATE_RECORD_PAYLOAD - length (ch_buf c1)) (length bytes)"
    have e: "(if length (ch_buf c) = STATE_RECORD_PAYLOAD
        then (case emit_buffered 4 c of (r, c1) \<Rightarrow> ([r], c1)) else ([], c)) = (out, c1)"
      using emit_chunk [OF 1(2), of 4] by (simp add: out_def c1_def full_def)
    have small: "length (ch_buf c1 @ take n bytes) \<le> STATE_RECORD_PAYLOAD"
      using 1(2) by (auto simp: n_def c1_def STATE_RECORD_PAYLOAD_def)
    have step: "chunk_append bytes c =
        (case chunk_append (drop n bytes) (c1\<lparr>ch_buf := ch_buf c1 @ take n bytes\<rparr>) of (out', c2) \<Rightarrow> (out @ out', c2))"
      using False 1(2) by (subst chunk_append.simps) (simp add: e Let_def n_def)
    have ih: "chunk_append (drop n bytes) (c1\<lparr>ch_buf := ch_buf c1 @ take n bytes\<rparr>) =
        (let ps = pieces (ch_buf c1 @ bytes)
         in (map Some (number (chunk_record c 4) (ch_next_part c1) (butlast ps)),
             c\<lparr>ch_next_part := ch_next_part c1 + of_nat (length ps - 1), ch_buf := last ps\<rparr>))"
      using 1(1) [OF _ e [symmetric] refl n_def] False 1(2) small by (simp add: Let_def c1_def)
    show ?thesis
    proof (cases full)
      case True
      then have "pieces (ch_buf c @ bytes) = ch_buf c # pieces bytes" using False by (simp add: full_def pieces_full)
      then show ?thesis
        using True step ih by (simp add: Let_def c1_def out_def) (cases "pieces bytes", simp_all)
    next
      case False
      then show ?thesis using step ih by (simp add: Let_def c1_def out_def)
    qed
  qed
qed

text \<open>A sink over the ring: the records of any sequence of writes, and of the finish.\<close>

fun write_all :: "bytes list \<Rightarrow> state_chunker \<Rightarrow> bytes option list \<times> state_chunker" where
  "write_all [] c = ([], c)"
| "write_all (w # ws) c =
     (case chunk_append w c of (out, c1) \<Rightarrow> case write_all ws c1 of (out', c2) \<Rightarrow> (out @ out', c2))"

definition sink_records :: "bytes list \<Rightarrow> state_chunker \<Rightarrow> bytes option list \<times> u32" where
  "sink_records writes c =
     (case write_all writes c of (out, c1) \<Rightarrow> case chunk_finish c1 of (r, parts) \<Rightarrow> (out @ [r], parts))"

lemma write_all_pieces:
  "length (ch_buf c) \<le> STATE_RECORD_PAYLOAD \<Longrightarrow> write_all writes c =
    (let ps = pieces (ch_buf c @ concat writes)
     in (map Some (number (chunk_record c 4) (ch_next_part c) (butlast ps)),
         c\<lparr>ch_next_part := ch_next_part c + of_nat (length ps - 1), ch_buf := last ps\<rparr>))"
proof (induction writes arbitrary: c)
  case Nil
  then show ?case by (simp add: pieces_short)
next
  case (Cons w ws)
  let ?ps = "pieces (ch_buf c @ w)"
  let ?c1 = "c\<lparr>ch_next_part := ch_next_part c + of_nat (length ?ps - 1), ch_buf := last ?ps\<rparr>"
  have "length (ch_buf ?c1) \<le> STATE_RECORD_PAYLOAD" using pieces_sizes [of "ch_buf c @ w"] by simp
  note ih = Cons.IH [OF this]
  have r: "pieces (ch_buf c @ w @ concat ws) = butlast ?ps @ pieces (last ?ps @ concat ws)"
    using pieces_resume [of "ch_buf c @ w" "concat ws"] by simp
  have "length (pieces (ch_buf c @ w @ concat ws)) - 1 = length ?ps - 1 + (length (pieces (last ?ps @ concat ws)) - 1)"
    using pieces_nonempty [of "last ?ps @ concat ws"] by (simp add: r) (cases "pieces (last ?ps @ concat ws)"; simp)
  then show ?case
    using chunk_append_pieces [OF Cons.prems, of w] ih
    by (simp add: Let_def r number_append butlast_append of_nat_add [symmetric] del: of_nat_add)
qed

lemma sink_records_blob:
  assumes "ch_next_part c = 0" "ch_buf c = []"
  shows "sink_records writes c = (map Some (blob_records c (concat writes)), of_nat (parts_for_len (length (concat writes))))"
proof -
  let ?ps = "pieces (concat writes)"
  have w: "write_all writes c = (map Some (number (chunk_record c 4) 0 (butlast ?ps)),
      c\<lparr>ch_next_part := of_nat (length ?ps - 1), ch_buf := last ?ps\<rparr>)"
    using write_all_pieces [of c writes] assms by (simp add: Let_def)
  have "1 \<le> length ?ps" using pieces_nonempty [of "concat writes"] by (cases ?ps) simp_all
  then have "(of_nat (length ?ps - 1) :: u32) + 1 = of_nat (length ?ps)" by (simp add: of_nat_diff)
  then show ?thesis
    using w emit_chunk [of "c\<lparr>ch_next_part := of_nat (length ?ps - 1), ch_buf := last ?ps\<rparr>" 5] pieces_sizes [of "concat writes"]
    by (simp add: sink_records_def chunk_finish_def blob_records_def Let_def length_pieces)
qed

section \<open>What the assembler makes of them\<close>

fun event_key :: "state_anchor_event \<Rightarrow> anchor_key option" where
  "event_key (Complete k _ _) = Some k"
| "event_key (Torn k _) = Some k"
| "event_key (Skipped k _ _) = Some k"
| "event_key (SkipAfterComplete k _ _) = Some k"
| "event_key (MalformedShort _) = None"
| "event_key (Malformed _) = None"

definition chunker_key :: "state_chunker \<Rightarrow> anchor_key" where
  "chunker_key c = (ch_run_id c, ch_step c, ch_node_idx c)"

text \<open>A record is one of \<open>k\<close>'s when a reader accepts it and its header has that key.\<close>

definition record_of :: "anchor_key \<Rightarrow> bytes \<Rightarrow> bool" where
  "record_of k r \<longleftrightarrow> 512 \<le> length r \<and> validate_header (header_from_bytes (take 40 r)) = Inr () \<and>
     header_key (header_from_bytes (take 40 r)) = k"

lemma set_open_simps [simp]: "sa_open (set_open k st a) = (sa_open a)(k := st)" "sa_armed (set_open k st a) = sa_armed a"
  "sa_completed (set_open k st a) = sa_completed a"
  by (simp_all add: set_open_def)

lemma note_completed_simps [simp]: "sa_open (note_completed h a) = sa_open a" "sa_armed (note_completed h a) = sa_armed a"
  by (simp_all add: note_completed_def Let_def)

lemma feed_chunk_local: "header_key h \<noteq> k \<Longrightarrow> feed_chunk h p a = (ev, a1) \<Longrightarrow>
    sa_open a1 k = sa_open a k \<and> sa_armed a1 = sa_armed a \<and> (\<forall>e. ev = Some e \<longrightarrow> event_key e \<noteq> Some k)"
  by (auto simp: feed_chunk_def Let_def split: option.splits anchor_state.splits if_splits)

lemma feed_skip_local: "header_key h \<noteq> k \<Longrightarrow> feed_skip h p a = (e, a1) \<Longrightarrow>
    sa_open a1 k = sa_open a k \<and> sa_armed a1 = sa_armed a \<and> event_key e \<noteq> Some k"
  by (auto simp: feed_skip_def Let_def split: prod.splits if_splits)

lemma chunk_record_of: "length p \<le> STATE_RECORD_PAYLOAD \<Longrightarrow> kind \<in> {4, 5} \<Longrightarrow> record_of (chunker_key c) (chunk_record c kind n p)"
  using record_with_parts [OF chunk_fits, where kind1 = kind and c1 = c and part1 = n and payload = p]
  by (auto simp: record_of_def chunk_record_def chunk_header_def validate_header_def header_key_def chunker_key_def
      unat_of_nat_eq STATE_RECORD_PAYLOAD_def)

lemma feed_chunk_record:
  assumes "length p \<le> STATE_RECORD_PAYLOAD" "kind \<in> {4, 5}" "\<not> sa_armed a"
  shows "feed (chunk_record c kind n p) a = feed_chunk (chunk_header kind (c\<lparr>ch_next_part := n, ch_buf := p\<rparr>)) p a"
proof -
  let ?h = "chunk_header kind (c\<lparr>ch_next_part := n, ch_buf := p\<rparr>)"
  have "validate_header ?h = Inr ()" "sr_kind ?h \<noteq> 6"
    using assms(1,2) by (auto simp: chunk_header_def validate_header_def unat_of_nat_eq STATE_RECORD_PAYLOAD_def)
  then show ?thesis using feed_record [OF chunk_fits [OF assms(1), where kind = kind and c = c and part = n] _ assms(3)] by (simp add: chunk_record_def)
qed

lemma feed_other_any:
  assumes "\<not> record_of k r" "feed r a = (ev, a1)"
  shows "sa_open a1 k = sa_open a k \<and> (\<forall>e. ev = Some e \<longrightarrow> event_key e \<noteq> Some k)"
  using assms feed_chunk_local [of "header_from_bytes (take 40 r)" k] feed_skip_local [of "header_from_bytes (take 40 r)" k]
  by (force simp: feed_def record_of_def Let_def not_less split: if_splits sum.splits prod.splits)

lemma blob_records_nth:
  assumes "r \<in> set (blob_records c blob)"
  shows "\<exists>i < length (pieces blob). r =
    chunk_record c (if Suc i = length (pieces blob) then 5 else 4) (of_nat i) (pieces blob ! i)"
proof -
  have n: "set (number f n xs) = (\<lambda>i. f (n + of_nat i) (xs ! i)) ` {..<length xs}" for f :: "u32 \<Rightarrow> bytes \<Rightarrow> bytes" and n xs
  proof (induction xs arbitrary: n)
    case (Cons x xs)
    have "{..<length (x # xs)} = insert 0 (Suc ` {..<length xs})" by (auto simp: lessThan_Suc_eq_insert_0)
    then show ?case by (simp add: Cons.IH image_image algebra_simps)
  qed simp
  let ?ps = "pieces blob"
  have l: "0 < length ?ps" by simp
  show ?thesis
  proof (cases "r \<in> set (number (chunk_record c 4) 0 (butlast ?ps))")
    case True
    then obtain i where i: "i < length ?ps - 1" "r = chunk_record c 4 (of_nat i) (butlast ?ps ! i)" by (auto simp: n)
    then show ?thesis by (intro exI [of _ i]) (auto simp: nth_butlast)
  next
    case False
    then have "r = chunk_record c 5 (of_nat (length ?ps - 1)) (last ?ps)" using assms by (simp add: blob_records_def Let_def)
    moreover have "Suc (length ?ps - 1) = length ?ps" "?ps ! (length ?ps - 1) = last ?ps"
      using l by (simp_all add: last_conv_nth)
    ultimately show ?thesis using l by (intro exI [of _ "length ?ps - 1"]) (simp only: if_True refl, simp)
  qed
qed

lemma piece_sizes:
  assumes "i < length (pieces blob)"
  shows "length (pieces blob ! i) \<le> STATE_RECORD_PAYLOAD"
    "Suc i \<noteq> length (pieces blob) \<Longrightarrow> length (pieces blob ! i) = STATE_RECORD_PAYLOAD"
proof -
  have b: "pieces blob ! i \<in> set (butlast (pieces blob))" if "Suc i \<noteq> length (pieces blob)"
  proof -
    have "i < length (butlast (pieces blob))" using assms that by simp
    then show ?thesis by (metis nth_butlast nth_mem)
  qed
  then show "Suc i \<noteq> length (pieces blob) \<Longrightarrow> length (pieces blob ! i) = STATE_RECORD_PAYLOAD"
    using pieces_sizes [of blob] by blast
  show "length (pieces blob ! i) \<le> STATE_RECORD_PAYLOAD"
  proof (cases "Suc i = length (pieces blob)")
    case True
    then have "pieces blob ! i = last (pieces blob)" by (simp add: last_conv_nth flip: True)
    then show ?thesis using pieces_sizes [of blob] by simp
  next
    case False
    then show ?thesis using b pieces_sizes [of blob] by fastforce
  qed
qed

text \<open>An anchor in flight holds the first pieces of the blob.\<close>

definition in_flight :: "bytes \<Rightarrow> anchor_state option \<Rightarrow> bool" where
  "in_flight blob st \<longleftrightarrow> (\<forall>n buf. st = Some (OpenAnchor n buf) \<longrightarrow>
     (\<exists>m. 0 < m \<and> m < length (pieces blob) \<and> n = of_nat m \<and> buf = concat (take m (pieces blob))))"

lemma in_flight_simps [simp]: "in_flight blob None" "in_flight blob (Some Voided)"
  by (simp_all add: in_flight_def)

lemma same_part: "i < 2 ^ 32 \<Longrightarrow> j < 2 ^ 32 \<Longrightarrow> (of_nat i :: u32) = of_nat j \<Longrightarrow> i = j"
proof -
  assume a: "i < 2 ^ 32" "j < 2 ^ 32" "(of_nat i :: u32) = of_nat j"
  have "unat (of_nat k :: u32) = k" if "k < 2 ^ 32" for k using that by (intro unat_of_nat_eq) simp
  then show "i = j" using a by metis
qed

lemma feed_blob_record:
  assumes r: "r \<in> set (blob_records c blob)" and f: "feed r a = (ev, a1)"
    and few: "parts_for_len (length blob) < 2 ^ 32"
    and inv: "in_flight blob (sa_open a (chunker_key c))"
  shows "in_flight blob (sa_open a1 (chunker_key c)) \<and>
    (\<forall>n b. ev = Some (Complete (chunker_key c) n b) \<longrightarrow> n = of_nat (parts_for_len (length blob)) \<and> b = blob)"
proof -
  let ?ps = "pieces blob"
  have l: "length ?ps < 2 ^ 32" using few by (simp add: length_pieces)
  obtain i where i: "i < length ?ps" "r = chunk_record c (if Suc i = length ?ps then 5 else 4) (of_nat i) (?ps ! i)"
    using blob_records_nth [OF r] by blast
  let ?p = "?ps ! i" and ?k = "chunker_key c"
  define kind where "kind = (if Suc i = length ?ps then 5 else 4 :: u32)"
  define h where "h = chunk_header kind (c\<lparr>ch_next_part := of_nat i, ch_buf := ?p\<rparr>)"
  have fits: "fits_header h ?p" unfolding h_def by (rule chunk_fits [OF piece_sizes(1) [OF i(1)]])
  have rec: "r = record_with h ?p" using i(2) by (simp add: h_def kind_def chunk_record_def)
  have ok: "validate_header h = Inr ()"
    using fits by (simp add: validate_header_def fits_header_def h_def kind_def chunk_header_def)
  have k: "sr_kind h = kind" "kind \<noteq> 6" "kind = 5 \<longleftrightarrow> Suc i = length ?ps" by (simp_all add: h_def kind_def chunk_header_def)
  have h: "header_key h = ?k" "sr_part h = of_nat i" "sr_kind h = 5 \<longleftrightarrow> Suc i = length ?ps" "unat (sr_len h) = length ?p"
    using fits k by (simp_all add: fits_header_def) (simp_all add: h_def chunk_header_def header_key_def chunker_key_def)
  have zero: "of_nat i = (0 :: u32) \<longleftrightarrow> i = 0" using same_part [of i 0] i(1) l by auto
  have feed: "feed r a = (if sa_armed a \<and> of_nat i \<noteq> (0 :: u32) then (None, a\<lparr>sa_discarded := sa_discarded a + 1\<rparr>)
      else feed_chunk h ?p (a\<lparr>sa_armed := False\<rparr>))"
    using record_with_parts [OF fits] ok h(2) k(1,2) unfolding rec feed_def Let_def by simp
  have full: "length ?p = STATE_RECORD_PAYLOAD" if "Suc i \<noteq> length ?ps" using piece_sizes(2) [OF i(1) that] .
  show ?thesis
  proof (cases "sa_armed a \<and> of_nat i \<noteq> (0 :: u32)")
    case True
    then show ?thesis using f feed inv by auto
  next
    case False
    then have f: "feed_chunk h ?p (a\<lparr>sa_armed := False\<rparr>) = (ev, a1)" using f feed by (simp only: if_False)
    show ?thesis
    proof (cases "sa_open a ?k")
      case None
      show ?thesis
      proof (cases "i = 0")
        case True
        show ?thesis
        proof (cases "Suc i = length ?ps")
          case True
          then have "?ps = [?p]" using \<open>i = 0\<close> by (cases ?ps) auto
          then have "?p = blob" using pieces_concat [of blob] by (metis concat.simps append_Nil2)
          moreover have "parts_for_len (length blob) = 1" using True \<open>i = 0\<close> length_pieces [of blob] by simp
          then have "(of_nat (parts_for_len (length blob)) :: u32) = 1" by (simp only: of_nat_1)
          ultimately show ?thesis using f None True h \<open>i = 0\<close> by (auto simp: feed_chunk_def Let_def)
        next
          case False
          then have "1 < length ?ps" using i(1) \<open>i = 0\<close> by linarith
          then have "in_flight blob (Some (OpenAnchor 1 ?p))"
            unfolding in_flight_def using \<open>i = 0\<close>
            by (auto simp: take_Suc_conv_app_nth intro!: exI [of _ 1])
          then show ?thesis using f None False h \<open>i = 0\<close> full by (auto simp: feed_chunk_def Let_def)
        qed
      next
        case False
        then show ?thesis using f None h zero by (auto simp: feed_chunk_def Let_def split: if_splits)
      qed
    next
      case (Some st)
      show ?thesis
      proof (cases st)
        case Voided
        then show ?thesis using f Some h by (auto simp: feed_chunk_def Let_def split: if_splits)
      next
        case (OpenAnchor n buf)
        then obtain m where m: "0 < m" "m < length ?ps" "n = of_nat m" "buf = concat (take m ?ps)"
          using inv Some by (auto simp: in_flight_def)
        have cat: "concat (take m ?ps) @ ?ps ! m = concat (take (Suc m) ?ps)" using m(2) by (simp add: take_Suc_conv_app_nth)
        show ?thesis
        proof (cases "of_nat i = n")
          case True
          then have im: "i = m" using same_part [of i m] i(1) m l by simp
          show ?thesis
          proof (cases "Suc i = length ?ps")
            case True
            then have "buf @ ?p = blob" using cat im m(4) pieces_concat [of blob] by simp
            moreover have "n + 1 = of_nat (parts_for_len (length blob))"
              using True im m(3) by (simp add: length_pieces [symmetric] add.commute flip: of_nat_Suc)
            ultimately show ?thesis using f Some OpenAnchor True h \<open>of_nat i = n\<close> by (auto simp: feed_chunk_def Let_def)
          next
            case False
            have "in_flight blob (Some (OpenAnchor (n + 1) (buf @ ?p)))"
              unfolding in_flight_def using False i(1) im m cat
              by (auto simp: add.commute intro!: exI [of _ "Suc m"])
            then show ?thesis using f Some OpenAnchor False h full \<open>of_nat i = n\<close> by (auto simp: feed_chunk_def Let_def)
          qed
        next
          case False
          then show ?thesis using f Some OpenAnchor h by (auto simp: feed_chunk_def Let_def split: if_splits)
        qed
      qed
    qed
  qed
qed

lemma feed_skip_record:
  assumes "record_of k r" "sr_kind (header_from_bytes (take 40 r)) = 6" "feed r a = (ev, a1)"
  shows "(sa_open a1 k = sa_open a k \<or> sa_open a1 k = None) \<and> (\<forall>n b. ev \<noteq> Some (Complete k n b))"
  using assms by (auto simp: feed_def record_of_def feed_skip_def Let_def split: if_splits prod.splits)

definition events_of :: "anchor_key \<Rightarrow> state_anchor_event list \<Rightarrow> state_anchor_event list" where
  "events_of k evs = filter (\<lambda>e. event_key e = Some k) evs"

lemma feed_all_Cons: "feed r a = (ev, a1) \<Longrightarrow>
    fst (feed_all (r # rs) a) = (case ev of None \<Rightarrow> [] | Some e \<Rightarrow> [e]) @ fst (feed_all rs a1)"
  by (simp split: option.splits prod.splits)

lemma quiet_key: "filter (record_of k) rs = [] \<Longrightarrow> events_of k (fst (feed_all rs a)) = []"
proof (induction rs arbitrary: a)
  case (Cons r rs)
  obtain ev a1 where f: "feed r a = (ev, a1)" by force
  have r: "\<not> record_of k r" "filter (record_of k) rs = []" using Cons.prems by (auto split: if_splits)
  show ?case using feed_other_any [OF r(1) f] Cons.IH [OF r(2)] feed_all_Cons [OF f]
    by (auto simp: events_of_def split: option.splits)
qed (simp add: events_of_def)

lemma feed_other_disarmed: "\<not> record_of k r \<Longrightarrow> \<not> sa_armed a \<Longrightarrow> feed r a = (ev, a1) \<Longrightarrow> \<not> sa_armed a1"
  by (auto simp: feed_def feed_skip_def feed_chunk_def Let_def split: if_splits sum.splits prod.splits option.splits anchor_state.splits)

text \<open>
  An anchor whose first pieces \<open>ds\<close> have arrived, and whose other records are still in the stream between
  those of other nodes.
\<close>

lemma rest_completes:
  assumes "filter (record_of (chunker_key c)) rs =
      number (chunk_record c 4) (of_nat (length ds)) (butlast qs) @
      [chunk_record c 5 (of_nat (length ds + length qs - 1)) (last qs)]"
    and "qs \<noteq> []" "\<forall>q \<in> set (butlast qs). length q = STATE_RECORD_PAYLOAD" "length (last qs) \<le> STATE_RECORD_PAYLOAD"
    and "\<not> sa_armed a" "length ds + length qs < 2 ^ 32"
    and "sa_open a (chunker_key c) = (if ds = [] then None else Some (OpenAnchor (of_nat (length ds)) (concat ds)))"
  shows "events_of (chunker_key c) (fst (feed_all rs a)) =
    [Complete (chunker_key c) (of_nat (length ds + length qs)) (concat (ds @ qs))]"
  using assms
proof (induction rs arbitrary: a ds qs)
  case (Cons r rs)
  let ?k = "chunker_key c"
  obtain ev a1 where f: "feed r a = (ev, a1)" by force
  show ?case
  proof (cases "record_of ?k r")
    case False
    have "filter (record_of ?k) rs = filter (record_of ?k) (r # rs)" using False by simp
    then have "events_of ?k (fst (feed_all rs a1)) = [Complete ?k (of_nat (length ds + length qs)) (concat (ds @ qs))]"
      using Cons.prems feed_other_any [OF False f] feed_other_disarmed [OF False Cons.prems(5) f] by (intro Cons.IH) simp_all
    then show ?thesis using feed_other_any [OF False f] feed_all_Cons [OF f, of rs]
      by (auto simp: events_of_def split: option.splits)
  next
    case True
    have n0: "of_nat (length ds) = (0 :: u32) \<longleftrightarrow> ds = []"
      using same_part [of "length ds" 0] Cons.prems(6) by auto
    obtain q qs' where q: "qs = q # qs'" using Cons.prems(2) by (cases qs) auto
    have q_le: "length q \<le> STATE_RECORD_PAYLOAD" using Cons.prems(3,4) q by (cases qs') auto
    show ?thesis
    proof (cases "qs' = []")
      case True
      then have r: "r = chunk_record c 5 (of_nat (length ds)) q" "filter (record_of ?k) rs = []"
        using Cons.prems(1) \<open>record_of ?k r\<close> q by simp_all
      let ?h = "chunk_header 5 (c\<lparr>ch_next_part := of_nat (length ds), ch_buf := q\<rparr>)"
      have "feed r a = feed_chunk ?h q a" using feed_chunk_record [OF q_le _ Cons.prems(5), of 5] r(1) by simp
      then have "ev = Some (Complete ?k (of_nat (length ds) + 1) (concat ds @ q))"
        using f Cons.prems(7) n0
        by (auto simp: feed_chunk_def Let_def chunk_header_def header_key_def chunker_key_def split: if_splits)
      then show ?thesis using feed_all_Cons [OF f, of rs] quiet_key [OF r(2), of a1] True q
        by (simp add: events_of_def add.commute)
    next
      case False
      then have full: "length q = STATE_RECORD_PAYLOAD" using Cons.prems(3) q by simp
      have r: "r = chunk_record c 4 (of_nat (length ds)) q" "filter (record_of ?k) rs =
          number (chunk_record c 4) (of_nat (length (ds @ [q]))) (butlast qs') @
          [chunk_record c 5 (of_nat (length (ds @ [q]) + length qs' - 1)) (last qs')]"
        using Cons.prems(1) \<open>record_of ?k r\<close> q False by (simp_all add: add.commute)
      let ?h = "chunk_header 4 (c\<lparr>ch_next_part := of_nat (length ds), ch_buf := q\<rparr>)"
      have l: "unat (sr_len ?h) = STATE_RECORD_PAYLOAD"
        by (simp add: chunk_header_def full) (simp add: STATE_RECORD_PAYLOAD_def)
      have "feed r a = feed_chunk ?h q a" using feed_chunk_record [OF q_le _ Cons.prems(5), of 4] r(1) by simp
      also have "\<dots> = (None, set_open ?k (Some (OpenAnchor (of_nat (length (ds @ [q]))) (concat (ds @ [q])))) a)"
        using Cons.prems(7) n0 l
        by (auto simp: feed_chunk_def Let_def chunk_header_def header_key_def chunker_key_def add.commute)
      finally have "ev = None" "a1 = set_open ?k (Some (OpenAnchor (of_nat (length (ds @ [q]))) (concat (ds @ [q])))) a"
        using f by simp_all
      then show ?thesis
        using Cons.IH [OF r(2)] Cons.prems(3-6) q False feed_all_Cons [OF f, of rs] by (simp add: add.commute)
    qed
  qed
qed simp

section \<open>Properties\<close>

definition payload_of :: "bytes \<Rightarrow> bytes" where
  "payload_of r = slice r 40 (40 + unat (sr_len (header_from_bytes (take 40 r))))"

lemma payload_of_chunk: "length p \<le> STATE_RECORD_PAYLOAD \<Longrightarrow> payload_of (chunk_record c kind n p) = p"
  using record_with_parts [OF chunk_fits, where payload = p and kind1 = kind and c1 = c and part1 = n]
  by (simp add: payload_of_def chunk_record_def)

lemma number_map: "(\<And>n p. p \<in> set ps \<Longrightarrow> g (f n p) = p) \<Longrightarrow> map g (number f n ps) = ps"
  by (induction ps arbitrary: n) simp_all

lemma length_number [simp]: "length (number f n ps) = length ps"
  by (induction ps arbitrary: n) simp_all

text \<open>
  However the encoder splits its writes, the sink over the ring publishes the same records: as many as
  \<open>parts_for_len\<close> says, each of 512 bytes, each one that a reader accepts under the anchor's key, and their
  payloads put together are the bytes that were written.
\<close>

theorem sink_publishes_the_blob:
  "\<exists>rs. sink_records writes (new_chunker run_id step node_idx rank) = (map Some rs, of_nat (length rs)) \<and>
     sink_records [concat writes] (new_chunker run_id step node_idx rank) = (map Some rs, of_nat (length rs)) \<and>
     length rs = parts_for_len (length (concat writes)) \<and> concat (map payload_of rs) = concat writes \<and>
     (\<forall>r \<in> set rs. length r = 512 \<and> record_of (run_id, step, node_idx) r)"
proof -
  let ?c = "new_chunker run_id step node_idx rank" and ?blob = "concat writes"
  let ?rs = "blob_records ?c ?blob" and ?ps = "pieces ?blob"
  have c: "ch_next_part ?c = 0" "ch_buf ?c = []" "chunker_key ?c = (run_id, step, node_idx)"
    by (simp_all add: new_chunker_def chunker_key_def)
  have "length ?rs = length ?ps" by (simp add: blob_records_def Let_def)
  then have n: "length ?rs = parts_for_len (length ?blob)" by (simp add: length_pieces)
  have sizes: "\<forall>p \<in> set (butlast ?ps). length p \<le> STATE_RECORD_PAYLOAD" "length (last ?ps) \<le> STATE_RECORD_PAYLOAD"
    using pieces_sizes [of ?blob] by auto
  have "map payload_of ?rs = butlast ?ps @ [last ?ps]"
    using sizes by (simp add: blob_records_def Let_def payload_of_chunk number_map)
  then have "concat (map payload_of ?rs) = ?blob" by (simp only: append_butlast_last_id [OF pieces_nonempty] pieces_concat)
  moreover have "length r = 512 \<and> record_of (run_id, step, node_idx) r" if r: "r \<in> set ?rs" for r
  proof -
    obtain i where i: "i < length ?ps" "r = chunk_record ?c (if Suc i = length ?ps then 5 else 4) (of_nat i) (?ps ! i)"
      using blob_records_nth [OF r] by blast
    then show ?thesis
      using record_with_parts(1) [OF chunk_fits [OF piece_sizes(1) [OF i(1)]]]
        chunk_record_of [OF piece_sizes(1) [OF i(1)], of _ ?c] c(3) by (auto simp: chunk_record_def)
  qed
  ultimately show ?thesis
    using sink_records_blob [OF c(1,2)] n by (intro exI [of _ ?rs]) simp
qed

theorem sink_publishes_the_blob_witness:
  "\<exists>rs. sink_records [[1], [], [2, 3]] (new_chunker 9 100 7 0) = (map Some rs, of_nat (length rs)) \<and>
     length rs = 1 \<and> concat (map payload_of rs) = [1, 2, 3]"
  using sink_publishes_the_blob [of "[[1], [], [2, 3]]" 9 100 7 0]
  by (auto simp: parts_for_len_def STATE_RECORD_PAYLOAD_def)

text \<open>
  Records of an anchor that reach a reader in their order complete it with the bytes that were captured,
  whatever records of other nodes, steps or runs, skips and malformed ones lie between them.
\<close>

theorem interleaved_anchor_completes:
  assumes "filter (record_of (run_id, step, node_idx)) rs = blob_records (new_chunker run_id step node_idx rank) blob"
    and "parts_for_len (length blob) < 2 ^ 32" "\<not> sa_armed a" "sa_open a (run_id, step, node_idx) = None"
  shows "events_of (run_id, step, node_idx) (fst (feed_all rs a)) =
    [Complete (run_id, step, node_idx) (of_nat (parts_for_len (length blob))) blob]"
proof -
  let ?c = "new_chunker run_id step node_idx rank"
  have k: "chunker_key ?c = (run_id, step, node_idx)" by (simp add: chunker_key_def new_chunker_def)
  show ?thesis
    using rest_completes [of ?c rs "[]" "pieces blob" a] assms pieces_sizes [of blob]
    by (simp add: k blob_records_def Let_def length_pieces pieces_concat)
qed

lemma record_of_key: "record_of k r \<Longrightarrow> record_of k' r \<Longrightarrow> k = k'"
  by (simp add: record_of_def)

lemma small_blob: "length blob \<le> STATE_RECORD_PAYLOAD \<Longrightarrow> blob_records c blob = [chunk_record c 5 0 blob]"
  by (simp add: blob_records_def Let_def pieces_short)

definition sample_chunker :: "u32 \<Rightarrow> state_chunker" where
  "sample_chunker node = new_chunker 1 100 node 0"

lemma sample_record: "record_of (1, 100, node) (chunk_record (sample_chunker node) 5 0 [1, 2])"
  using chunk_record_of [of "[1, 2]" 5 "sample_chunker node" 0]
  by (simp add: sample_chunker_def new_chunker_def chunker_key_def STATE_RECORD_PAYLOAD_def)

theorem interleaved_anchor_completes_witness:
  "events_of (1, 100, 7) (fst (feed_all
     [chunk_record (sample_chunker 8) 5 0 [1, 2], [], chunk_record (sample_chunker 7) 5 0 [1, 2]] passthrough)) =
     [Complete (1, 100, 7) 1 [1, 2]]"
proof -
  let ?rs = "[chunk_record (sample_chunker 8) 5 0 [1, 2], [], chunk_record (sample_chunker 7) 5 0 [1, 2]]"
  have "\<not> record_of (1, 100, 7) (chunk_record (sample_chunker 8) 5 0 [1, 2])"
    using record_of_key [OF sample_record [of 8]] by force
  then have "filter (record_of (1, 100, 7)) ?rs = blob_records (new_chunker 1 100 7 0) [1, 2]"
    using sample_record [of 7] small_blob [of "[1, 2]" "sample_chunker 7"]
    by (simp add: record_of_def STATE_RECORD_PAYLOAD_def sample_chunker_def)
  from interleaved_anchor_completes [OF this, of passthrough] show ?thesis
    by (simp add: parts_for_len_def STATE_RECORD_PAYLOAD_def passthrough_def)
qed

lemma served_whole:
  assumes "\<forall>r \<in> set rs. record_of (chunker_key c) r \<longrightarrow>
      r \<in> set (blob_records c blob) \<or> sr_kind (header_from_bytes (take 40 r)) = 6"
    and "parts_for_len (length blob) < 2 ^ 32"
  shows "in_flight blob (sa_open a (chunker_key c)) \<Longrightarrow> Complete (chunker_key c) n b \<in> set (fst (feed_all rs a)) \<Longrightarrow>
    n = of_nat (parts_for_len (length blob)) \<and> b = blob"
  using assms(1)
proof (induction rs arbitrary: a)
  case (Cons r rs)
  let ?k = "chunker_key c"
  obtain ev a1 where f: "feed r a = (ev, a1)" by force
  have "in_flight blob (sa_open a1 ?k) \<and>
      (\<forall>n b. ev = Some (Complete ?k n b) \<longrightarrow> n = of_nat (parts_for_len (length blob)) \<and> b = blob)"
  proof (cases "record_of ?k r")
    case False
    show ?thesis using feed_other_any [OF False f] Cons.prems(1) by fastforce
  next
    case True
    then consider "r \<in> set (blob_records c blob)" | "sr_kind (header_from_bytes (take 40 r)) = 6"
      using Cons.prems(3) by auto
    then show ?thesis
    proof cases
      case 1
      show ?thesis by (rule feed_blob_record [OF 1 f assms(2) Cons.prems(1)])
    next
      case 2
      show ?thesis using feed_skip_record [OF True 2 f] Cons.prems(1) by auto
    qed
  qed
  then show ?case using Cons.IH [of a1] Cons.prems(2,3) feed_all_Cons [OF f, of rs] by (auto split: option.splits)
qed simp

text \<open>
  C11. Whatever happens to the records of an anchor on their way, lost, repeated, reordered, cut by skips, read from
  the middle, and whatever records of other anchors come in between: as long as each record of the anchor that
  reaches a fresh assembler is one that the sender cut from its blob, or a skip, an anchor that is served is that
  whole blob, with its number of parts. A reader never hands out a short or a mixed blob. The blob has fewer than 2^32
  parts.
\<close>

theorem no_short_anchor_is_served:
  assumes "\<forall>r \<in> set rs. record_of (run_id, step, node_idx) r \<longrightarrow>
      r \<in> set (blob_records (new_chunker run_id step node_idx rank) blob) \<or> sr_kind (header_from_bytes (take 40 r)) = 6"
    and "parts_for_len (length blob) < 2 ^ 32" "a = passthrough \<or> a = armed"
    and "Complete (run_id, step, node_idx) n b \<in> set (fst (feed_all rs a))"
  shows "b = blob \<and> n = of_nat (parts_for_len (length blob))"
proof -
  let ?c = "new_chunker run_id step node_idx rank"
  have k: "chunker_key ?c = (run_id, step, node_idx)" by (simp add: chunker_key_def new_chunker_def)
  have "sa_open a (chunker_key ?c) = None" using assms(3) by (auto simp: passthrough_def armed_def)
  then show ?thesis using served_whole [of rs ?c blob a n b] assms by (simp add: k)
qed

theorem no_short_anchor_is_served_witness:
  "\<exists>n b. Complete (1, 100, 7) n b \<in> set (fst (feed_all (replicate 2 (chunk_record (sample_chunker 7) 5 0 [1, 2])) passthrough)) \<and>
     b = [1, 2] \<and> n = 1"
proof -
  let ?r = "chunk_record (sample_chunker 7) 5 0 [1, 2]" and ?k = "(1, 100, 7) :: anchor_key"
  have two: "length ([1, 2] :: bytes) \<le> STATE_RECORD_PAYLOAD" by (simp add: STATE_RECORD_PAYLOAD_def)
  have b: "blob_records (new_chunker 1 100 7 0) [1, 2] = [?r]"
    using small_blob [OF two, of "sample_chunker 7"] by (simp add: sample_chunker_def)
  have "feed ?r passthrough = feed_chunk (chunk_header 5 ((sample_chunker 7)\<lparr>ch_next_part := 0, ch_buf := [1, 2]\<rparr>)) [1, 2] passthrough"
    by (rule feed_chunk_record [OF two]) (simp_all add: passthrough_def)
  then have "fst (feed ?r passthrough) = Some (Complete ?k 1 [1, 2])"
    by (simp add: feed_chunk_def Let_def chunk_header_def header_key_def passthrough_def sample_chunker_def new_chunker_def)
  then have c: "Complete ?k 1 [1, 2] \<in> set (fst (feed_all (replicate 2 ?r) passthrough))"
    by (simp add: numeral_2_eq_2 split: prod.splits option.splits) auto
  moreover have "[1, 2] = ([1, 2] :: bytes) \<and> (1 :: u32) = of_nat (parts_for_len (length ([1, 2] :: bytes)))"
    by (rule no_short_anchor_is_served [of "replicate 2 ?r" 1 100 7 0 "[1, 2]" passthrough])
       (use c b in \<open>simp_all add: parts_for_len_def STATE_RECORD_PAYLOAD_def\<close>)
  ultimately show ?thesis by blast
qed

text \<open>
  A skip record that a writer publishes is read back as a skip of that anchor with the named cause, and a
  detail that fits comes back whole; a longer one comes back cut at a character, never garbled.
\<close>

theorem skip_record_names_its_cause:
  assumes "is_utf8 detail" "\<And>raw. cause = Unrecognized raw \<Longrightarrow> raw = 0 \<or> 9 < raw"
    and "\<not> sa_armed a" "sa_completed a (run_id, node_idx) \<noteq> Some step"
  shows "\<exists>r n. encode_skip_record run_id step node_idx rank cause detail = Some r \<and> length r = 512 \<and>
    fst (feed r a) = Some (Skipped (run_id, step, node_idx) cause (take n detail)) \<and> is_utf8 (take n detail) \<and>
    (length detail \<le> 468 \<longrightarrow> take n detail = detail) \<and> sa_open (snd (feed r a)) (run_id, step, node_idx) = None"
proof -
  define cut where "cut = char_cut detail (min (length detail) 468)"
  define payload where "payload = le32 (skip_as_wire cause) @ take cut detail"
  define h where "h = \<lparr>sr_run_id = run_id, sr_step = step, sr_node_idx = node_idx, sr_part = 0, sr_kind = 6,
    sr_len = of_nat (4 + cut), sr_rank = rank, sr_format_version = 1\<rparr>"
  have c: "cut \<le> min (length detail) 468"
    "cut = 0 \<or> cut = length detail \<or> cut < length detail \<and> \<not> is_cont (detail ! cut)"
    using char_cut_facts [of "min (length detail) 468" detail] by (simp_all add: cut_def)
  then have len: "length payload = 4 + cut" "4 + cut < 2 ^ 32" by (simp_all add: payload_def)
  then have "unat (sr_len h) = 4 + cut" unfolding h_def by (simp only: state_record_header.simps) (intro unat_of_nat_eq, simp)
  then have fits: "fits_header h payload" using c len by (simp add: fits_header_def STATE_RECORD_PAYLOAD_def)
  have e: "encode_skip_record run_id step node_idx rank cause detail = Some (record_with h payload)"
  proof -
    have "STATE_RECORD_PAYLOAD - 4 = 468" by (simp add: STATE_RECORD_PAYLOAD_def)
    then show ?thesis
      using fits unfolding encode_skip_record_def Let_def cut_def [symmetric]
      by (simp only: encode_record_iff cut_def [symmetric] payload_def [symmetric] h_def [symmetric] simp_thms)
  qed
  have u: "is_utf8 (take cut detail)" using utf8_take [OF assms(1), of cut] c(2) by auto
  have "skip_from_wire (skip_as_wire cause) = cause"
    using assms(2) by (cases cause) (auto simp: skip_from_wire_def word_less_nat_alt)
  moreover have "get32 payload 0 = skip_as_wire cause" by (rule get32_le32) (simp add: payload_def slice_def)
  moreover have "drop 4 payload = take cut detail" "\<not> length payload < 4" by (simp_all add: payload_def len(1))
  ultimately have d: "decode_skip_payload payload = (cause, take cut detail)"
    using utf8_lossy_valid [OF u] by (simp add: decode_skip_payload_def)
  have v: "validate_header h = Inr ()"
    using fits by (simp add: validate_header_def fits_header_def) (simp add: h_def)
  have "feed (record_with h payload) a =
      (Some (Skipped (run_id, step, node_idx) cause (take cut detail)), set_open (run_id, step, node_idx) None a)"
    using feed_record [OF fits v assms(3)] assms(4) d by (simp add: feed_skip_def h_def header_key_def Let_def)
  moreover have "take cut detail = detail" if "length detail \<le> 468"
    using that char_cut_whole [of detail] by (simp add: cut_def)
  ultimately show ?thesis
    using e u record_with_parts(1) [OF fits] by (intro exI [of _ "record_with h payload"] exI [of _ cut]) simp
qed

theorem skip_record_names_its_cause_witness:
  "\<exists>r n. encode_skip_record 1 100 7 0 RecorderBehind [0xC3, 0xA9] = Some r \<and> length r = 512 \<and>
    fst (feed r passthrough) = Some (Skipped (1, 100, 7) RecorderBehind (take n [0xC3, 0xA9])) \<and>
    is_utf8 (take n [0xC3, 0xA9]) \<and> take n [0xC3, 0xA9] = [0xC3, 0xA9] \<and>
    sa_open (snd (feed r passthrough)) (1, 100, 7) = None"
  using skip_record_names_its_cause [of "[0xC3, 0xA9]" RecorderBehind passthrough 1 7 100 0]
  by (simp add: is_cont_def passthrough_def)

text \<open>
  A drain that finds its records overwritten takes back the events it produced and drops the anchors in
  flight, but not what it remembers of completed ones. A skip that follows for an anchor the drain had seen
  complete, and took back, is reported as one for which the data was served.
\<close>

lemma taken_back_anchor_still_outranks_its_skip:
  fixes a :: state_assembler
  defines "a \<equiv> snd (snd (drain_ring (Some [chunk_record (sample_chunker 7) 5 0 [1, 2]]) False passthrough))"
  shows "fst (drain_ring (Some [chunk_record (sample_chunker 7) 5 0 [1, 2]]) False passthrough) = [] \<and>
    (\<exists>r d. encode_skip_record 1 100 7 0 ChildCrashed [] = Some r \<and>
       fst (feed r a) = Some (SkipAfterComplete (1, 100, 7) ChildCrashed d))"
proof -
  let ?r = "chunk_record (sample_chunker 7) 5 0 [1, 2]"
  have "feed ?r passthrough = feed_chunk (chunk_header 5 ((sample_chunker 7)\<lparr>ch_next_part := 0, ch_buf := [1, 2]\<rparr>)) [1, 2] passthrough"
    by (rule feed_chunk_record) (simp_all add: passthrough_def STATE_RECORD_PAYLOAD_def)
  then have f: "feed ?r passthrough = (Some (Complete (1, 100, 7) 1 [1, 2]), passthrough\<lparr>sa_completed := [(1, 7) \<mapsto> 100]\<rparr>)"
    by (simp add: feed_chunk_def Let_def chunk_header_def header_key_def passthrough_def sample_chunker_def new_chunker_def
        note_completed_def)
  define h :: state_record_header where "h = \<lparr>sr_run_id = 1, sr_step = 100, sr_node_idx = 7, sr_part = 0, sr_kind = 6,
    sr_len = 4, sr_rank = 0, sr_format_version = 1\<rparr>"
  have fits: "fits_header h (le32 8)" by (simp add: fits_header_def h_def STATE_RECORD_PAYLOAD_def)
  have e: "encode_skip_record 1 100 7 0 ChildCrashed [] = Some (record_with h (le32 8))"
    using fits by (simp add: encode_skip_record_def encode_record_iff h_def)
  have a: "a = passthrough\<lparr>sa_completed := [(1, 7) \<mapsto> 100], sa_torn_drains := 1\<rparr>"
    by (simp add: a_def drain_ring_def f note_torn_drain_def) (simp add: passthrough_def)
  have v: "validate_header h = Inr ()" by (simp add: validate_header_def h_def STATE_RECORD_PAYLOAD_def)
  have na: "\<not> sa_armed a" by (simp add: a passthrough_def)
  have "fst (decode_skip_payload (le32 8)) = ChildCrashed"
  proof -
    have "get32 (le32 8) 0 = 8" by (rule get32_le32) (simp add: slice_def)
    then show ?thesis by (simp add: decode_skip_payload_def skip_from_wire_def)
  qed
  then have "fst (feed (record_with h (le32 8)) a) = Some (SkipAfterComplete (1, 100, 7) ChildCrashed (snd (decode_skip_payload (le32 8))))"
    using feed_record [OF fits v na] by (cases "decode_skip_payload (le32 8)") (simp add: feed_skip_def h_def header_key_def a Let_def)
  then show ?thesis using e by (auto simp: drain_ring_def f)
qed

end
