(* ===== verification/AnchorBlob.thy ===== *)
theory AnchorBlob
  imports StateContainers "HOL-Library.List_Lexorder"
begin

text \<open>
  The framing of a node's anchor (\<open>state_restore.rs\<close>): the blob's header with the shape of its state, and
  the framework section, the scheduler's own timing and trigger state of the node, in its four versions.

  The name-keyed tables are \<open>BTreeMap\<close>s, lists of entries sorted by name. A decoder's position is the
  suffix of the section that it has not read; a refusal's reason is a value of \<open>section_problem\<close>.
\<close>

section \<open>The framework section\<close>

record node_framework_state =
  nf_next_fire_ns :: "u64 option"
  nf_pending_data_count :: u64
  nf_sync_input_timestamps :: "(bytes \<times> u64) list"
  nf_input_service :: "(bytes \<times> u32 option) list option"
  nf_sync_capture_high_water :: "(bytes \<times> u64) list"
  nf_sync_epoch_floor :: "u64 option"

definition default_framework_state :: node_framework_state where
  "default_framework_state = \<lparr>nf_next_fire_ns = None, nf_pending_data_count = 0, nf_sync_input_timestamps = [],
     nf_input_service = None, nf_sync_capture_high_water = [], nf_sync_epoch_floor = None\<rparr>"

definition has_capture_tail :: "node_framework_state \<Rightarrow> bool" where
  "has_capture_tail s \<longleftrightarrow> nf_sync_capture_high_water s \<noteq> [] \<or> nf_sync_epoch_floor s \<noteq> None"

definition framework_is_empty :: "node_framework_state \<Rightarrow> bool" where
  "framework_is_empty s \<longleftrightarrow> nf_next_fire_ns s = None \<and> nf_pending_data_count s = 0 \<and>
     nf_sync_input_timestamps s = [] \<and> \<not> has_capture_tail s \<and>
     (case nf_input_service s of None \<Rightarrow> True | Some m \<Rightarrow> list_all (\<lambda>e. snd e = None) m)"

datatype input_service_cursor = Absent | NothingServed | Served u32

definition service_cursor :: "node_framework_state \<Rightarrow> bytes \<Rightarrow> input_service_cursor" where
  "service_cursor s input =
     (case map_option (\<lambda>m. map_of m input) (nf_input_service s) of
        None \<Rightarrow> Absent
      | Some None \<Rightarrow> Absent
      | Some (Some None) \<Rightarrow> NothingServed
      | Some (Some (Some seq)) \<Rightarrow> Served seq)"

definition wire_version :: "node_framework_state \<Rightarrow> nat" where
  "wire_version s =
     (if nf_sync_epoch_floor s \<noteq> None then 4
      else if has_capture_tail s then 3
      else if nf_input_service s \<noteq> None then 2
      else 1)"

definition table_len :: "nat \<Rightarrow> (bytes \<times> 'v) list \<Rightarrow> nat" where
  "table_len width m = sum_list (map (\<lambda>e. 4 + length (fst e) + width) m)"

definition encoded_len :: "node_framework_state \<Rightarrow> nat" where
  "encoded_len s = 25 + table_len 8 (nf_sync_input_timestamps s)
     + (case nf_input_service s of
          Some m \<Rightarrow> 4 + table_len 5 m
        | None \<Rightarrow> if has_capture_tail s then 4 else 0)
     + (if has_capture_tail s then 4 + table_len 8 (nf_sync_capture_high_water s) else 0)
     + (if nf_sync_epoch_floor s \<noteq> None then 9 else 0)"

text \<open>A count or length above \<open>u32\<close> is refused as a full sink.\<close>

definition write_u32 :: "nat \<Rightarrow> capture" where
  "write_u32 n s = (if n < 2 ^ 32 then put (to_le 4 n) s else (Inl SinkFull, s))"

definition write_entry :: "('v \<Rightarrow> capture) \<Rightarrow> bytes \<times> 'v \<Rightarrow> capture" where
  "write_entry f e = and_then (write_u32 (length (fst e))) (and_then (put (fst e)) (f (snd e)))"

definition write_table :: "('v \<Rightarrow> capture) \<Rightarrow> (bytes \<times> 'v) list \<Rightarrow> capture" where
  "write_table f m = and_then (write_u32 (length m)) (capture_all (write_entry f) m)"

definition write_seq :: "u32 option \<Rightarrow> capture" where
  "write_seq seq = and_then (put [if seq \<noteq> None then 1 else 0])
     (put (le32 (case seq of Some n \<Rightarrow> n | None \<Rightarrow> 0)))"

definition encode_framework :: "node_framework_state \<Rightarrow> capture" where
  "encode_framework s =
     and_then (put (to_le 4 (wire_version s)))
     (and_then (put [if nf_next_fire_ns s \<noteq> None then 1 else 0])
     (and_then (put (le64 (case nf_next_fire_ns s of Some n \<Rightarrow> n | None \<Rightarrow> 0)))
     (and_then (put (le64 (nf_pending_data_count s)))
     (and_then (write_table (\<lambda>ts. put (le64 ts)) (nf_sync_input_timestamps s))
     (and_then
       (case nf_input_service s of
          Some m \<Rightarrow> write_table write_seq m
        | None \<Rightarrow> if has_capture_tail s then put (to_le 4 0) else nothing)
     (and_then
       (if has_capture_tail s then write_table (\<lambda>ts. put (le64 ts)) (nf_sync_capture_high_water s) else nothing)
       (case nf_sync_epoch_floor s of
          Some floor \<Rightarrow> and_then (put [1]) (put (le64 floor))
        | None \<Rightarrow> nothing)))))))"

datatype section_problem =
    ShorterThanPrefix | VersionBelowFirst nat | BadPresenceByte u8 | NoCountWord | NoLengthPrefix
  | EntryDoesNotFit nat | NameNotUtf8 | NameTwice bytes | NoEpochFloor
  | ShorterThanFraming | DeclaredBelowFloor nat | DeclaredPastEnd nat

text \<open>
  The loop over a table: each entry is a name's length, the name and a value of \<open>width\<close> bytes, read by
  \<open>rv\<close>. The result is the map and the rest of the section.
\<close>

fun read_table ::
    "nat \<Rightarrow> (bytes \<Rightarrow> section_problem + 'v) \<Rightarrow> nat \<Rightarrow> (bytes \<times> 'v) list \<Rightarrow> bytes \<Rightarrow>
     section_problem + (bytes \<times> 'v) list \<times> bytes" where
  "read_table width rv 0 m rest = Inr (m, rest)"
| "read_table width rv (Suc n) m rest =
     (if length rest < 4 then Inl NoLengthPrefix
      else
        let name_len = from_le (take 4 rest) in
        if length rest < 4 + name_len + width then Inl (EntryDoesNotFit name_len)
        else
          let name = take name_len (drop 4 rest); v = take width (drop (4 + name_len) rest) in
          if \<not> is_utf8 name then Inl NameNotUtf8
          else case rv v of
              Inl p \<Rightarrow> Inl p
            | Inr x \<Rightarrow>
                (case btree_map_insert (name, x) m of
                   (False, _) \<Rightarrow> Inl (NameTwice name)
                 | (True, m') \<Rightarrow> read_table width rv n m' (drop (4 + name_len + width) rest)))"

definition read_stamp :: "bytes \<Rightarrow> section_problem + u64" where
  "read_stamp v = Inr (get64 v 0)"

definition read_seq :: "bytes \<Rightarrow> section_problem + u32 option" where
  "read_seq v =
     (let present = v ! 0 in
      if present > 1 then Inl (BadPresenceByte present)
      else Inr (if present = 1 then Some (get32 v 1) else None))"

definition counted_table ::
    "nat \<Rightarrow> (bytes \<Rightarrow> section_problem + 'v) \<Rightarrow> bytes \<Rightarrow> section_problem + (bytes \<times> 'v) list \<times> bytes" where
  "counted_table width rv rest =
     (if length rest < 4 then Inl NoCountWord
      else read_table width rv (from_le (take 4 rest)) [] (drop 4 rest))"

definition read_floor :: "bytes \<Rightarrow> section_problem + u64 option" where
  "read_floor rest =
     (if length rest < 9 then Inl NoEpochFloor
      else if rest ! 0 > 1 then Inl (BadPresenceByte (rest ! 0))
      else Inr (if rest ! 0 = 1 then Some (get64 rest 1) else None))"

definition decode_framework :: "bytes \<Rightarrow> section_problem + node_framework_state" where
  "decode_framework b =
     (if length b < 25 then Inl ShorterThanPrefix
      else
        let version = from_le (slice b 0 4); present = b ! 4 in
        if version < 1 then Inl (VersionBelowFirst version)
        else if present > 1 then Inl (BadPresenceByte present)
        else case read_table 8 read_stamp (from_le (slice b 21 25)) [] (drop 25 b) of
            Inl p \<Rightarrow> Inl p
          | Inr (inputs, rest) \<Rightarrow>
             (case (if version \<ge> 2
                    then (case counted_table 5 read_seq rest of Inl p \<Rightarrow> Inl p | Inr (m, r) \<Rightarrow> Inr (Some m, r))
                    else Inr (None, rest)) of
                Inl p \<Rightarrow> Inl p
              | Inr (service, rest) \<Rightarrow>
                 (case (if version \<ge> 3 then counted_table 8 read_stamp rest else Inr ([], rest)) of
                    Inl p \<Rightarrow> Inl p
                  | Inr (high, rest) \<Rightarrow>
                     (case (if version \<ge> 4 then read_floor rest else Inr None) of
                        Inl p \<Rightarrow> Inl p
                      | Inr floor \<Rightarrow>
                          Inr \<lparr>nf_next_fire_ns = (if present = 1 then Some (get64 b 5) else None),
                               nf_pending_data_count = get64 b 13, nf_sync_input_timestamps = inputs,
                               nf_input_service = service, nf_sync_capture_high_water = high,
                               nf_sync_epoch_floor = floor\<rparr>))))"

section \<open>The anchor blob\<close>

record anchor_blob =
  ab_state_shape :: u64
  ab_framework :: bytes
  ab_payload :: bytes

datatype restore_refusal = UnframedAnchor nat | MalformedFrameworkSection section_problem

text \<open>The two magics spell CERSTATE and CERSTAT2.\<close>

definition ANCHOR_BLOB_MAGIC :: bytes where
  "ANCHOR_BLOB_MAGIC = [67, 69, 82, 83, 84, 65, 84, 69]"

definition ANCHOR_BLOB_MAGIC_V2 :: bytes where
  "ANCHOR_BLOB_MAGIC_V2 = [67, 69, 82, 83, 84, 65, 84, 50]"

definition write_header :: "u64 \<Rightarrow> capture" where
  "write_header shape = and_then (put ANCHOR_BLOB_MAGIC) (put (le64 shape))"

definition write_header_with_framework :: "u64 \<Rightarrow> node_framework_state \<Rightarrow> capture" where
  "write_header_with_framework shape s =
     and_then (put ANCHOR_BLOB_MAGIC_V2)
     (and_then (put (le64 shape)) (and_then (write_u32 (encoded_len s)) (encode_framework s)))"

definition decode_anchor :: "bytes \<Rightarrow> restore_refusal + anchor_blob" where
  "decode_anchor b =
     (if length b < 16 then Inl (UnframedAnchor (length b))
      else
        let magic = slice b 0 8; shape = get64 b 8 in
        if magic = ANCHOR_BLOB_MAGIC
        then Inr \<lparr>ab_state_shape = shape, ab_framework = [], ab_payload = drop 16 b\<rparr>
        else if magic \<noteq> ANCHOR_BLOB_MAGIC_V2 then Inl (UnframedAnchor (length b))
        else if length b < 20 then Inl (MalformedFrameworkSection ShorterThanFraming)
        else
          let section_len = from_le (slice b 16 20) in
          if section_len < 25 then Inl (MalformedFrameworkSection (DeclaredBelowFloor section_len))
          else if length b < 20 + section_len then Inl (MalformedFrameworkSection (DeclaredPastEnd section_len))
          else Inr \<lparr>ab_state_shape = shape, ab_framework = slice b 20 (20 + section_len),
                    ab_payload = drop (20 + section_len) b\<rparr>)"

definition anchor_framework_state :: "anchor_blob \<Rightarrow> restore_refusal + node_framework_state option" where
  "anchor_framework_state a =
     (if ab_framework a = [] then Inr None
      else case decode_framework (ab_framework a) of
          Inl p \<Rightarrow> Inl (MalformedFrameworkSection p)
        | Inr s \<Rightarrow> Inr (Some s))"

definition capture_anchor_blob :: "u64 \<Rightarrow> capture \<Rightarrow> capture" where
  "capture_anchor_blob shape state = and_then (write_header shape) state"

definition capture_anchor_blob_with_framework :: "u64 \<Rightarrow> node_framework_state \<Rightarrow> capture \<Rightarrow> capture" where
  "capture_anchor_blob_with_framework shape s state = and_then (write_header_with_framework shape s) state"

section \<open>What is written, and what is read back\<close>

definition entry_bytes :: "('v \<Rightarrow> bytes) \<Rightarrow> bytes \<times> 'v \<Rightarrow> bytes" where
  "entry_bytes f e = to_le 4 (length (fst e)) @ fst e @ f (snd e)"

definition table_bytes :: "('v \<Rightarrow> bytes) \<Rightarrow> (bytes \<times> 'v) list \<Rightarrow> bytes" where
  "table_bytes f m = to_le 4 (length m) @ concat (map (entry_bytes f) m)"

definition seq_bytes :: "u32 option \<Rightarrow> bytes" where
  "seq_bytes seq = [if seq \<noteq> None then 1 else 0] @ le32 (case seq of Some n \<Rightarrow> n | None \<Rightarrow> 0)"

definition framework_bytes :: "node_framework_state \<Rightarrow> bytes" where
  "framework_bytes s =
     to_le 4 (wire_version s) @ [if nf_next_fire_ns s \<noteq> None then 1 else 0] @
     le64 (case nf_next_fire_ns s of Some n \<Rightarrow> n | None \<Rightarrow> 0) @ le64 (nf_pending_data_count s) @
     table_bytes le64 (nf_sync_input_timestamps s) @
     (case nf_input_service s of Some m \<Rightarrow> table_bytes seq_bytes m
      | None \<Rightarrow> if has_capture_tail s then to_le 4 0 else []) @
     (if has_capture_tail s then table_bytes le64 (nf_sync_capture_high_water s) else []) @
     (case nf_sync_epoch_floor s of Some floor \<Rightarrow> [1] @ le64 floor | None \<Rightarrow> [])"

text \<open>The tables a runtime holds: sorted names, each a string, sizes within \<open>u32\<close>.\<close>

definition table_ok :: "(bytes \<times> 'v) list \<Rightarrow> bool" where
  "table_ok m \<longleftrightarrow> length m < 2 ^ 32 \<and> sorted_wrt (<) (map fst m) \<and>
     list_all (\<lambda>e. is_utf8 (fst e) \<and> length (fst e) < 2 ^ 32) m"

definition framework_ok :: "node_framework_state \<Rightarrow> bool" where
  "framework_ok s \<longleftrightarrow> table_ok (nf_sync_input_timestamps s) \<and> table_ok (nf_sync_capture_high_water s) \<and>
     (case nf_input_service s of None \<Rightarrow> True | Some m \<Rightarrow> table_ok m)"

lemma to_le_4_nonempty [simp]: "le32 w \<noteq> []" "le64 x \<noteq> []"
  by (simp_all add: le32_def le64_def)

lemma write_u32_put: "n < 2 ^ 32 \<Longrightarrow> write_u32 n = put (to_le 4 n)"
  by (simp add: write_u32_def fun_eq_iff)

lemma emits_entry:
  assumes "length (fst e) < 2 ^ 32" "emits (f (snd e)) (g (snd e))"
  shows "emits (entry_bytes f e) (write_entry g e)"
proof -
  have "emits_live (fst e @ f (snd e)) (and_then (put (fst e)) (g (snd e)))"
    using assms(2) by (intro emits_live_and_then emits_live_put) (simp add: emits_def)
  then have "emits (to_le 4 (length (fst e)) @ fst e @ f (snd e))
      (and_then (put (to_le 4 (length (fst e)))) (and_then (put (fst e)) (g (snd e))))"
    by (intro emits_and_then_live emits_put) simp_all
  then show ?thesis using assms(1) by (simp add: entry_bytes_def write_entry_def write_u32_put)
qed

lemma emits_table:
  assumes "table_ok m" "\<And>v. emits (f v) (g v)"
  shows "emits (table_bytes f m) (write_table g m)"
proof -
  have "emits (concat (map (entry_bytes f) m)) (capture_all (write_entry g) m)"
    using assms by (intro emits_capture_all emits_entry) (auto simp: table_ok_def list_all_iff)
  moreover have "length m < 2 ^ 32" using assms(1) by (simp add: table_ok_def)
  ultimately show ?thesis
    unfolding table_bytes_def write_table_def by (simp add: write_u32_put emits_and_then emits_put)
qed

lemma emits_stamp: "emits (le64 v) (put (le64 v))"
  by (simp add: emits_put)

lemma emits_seq: "emits (seq_bytes v) (write_seq v)"
  unfolding seq_bytes_def write_seq_def by (intro emits_and_then emits_put) simp_all

lemma emits_framework:
  assumes "framework_ok s"
  shows "emits (framework_bytes s) (encode_framework s)"
proof -
  have t: "table_ok (nf_sync_input_timestamps s)" "table_ok (nf_sync_capture_high_water s)"
    "\<And>m. nf_input_service s = Some m \<Longrightarrow> table_ok m"
    using assms by (simp_all add: framework_ok_def)
  have "emits (case nf_input_service s of Some m \<Rightarrow> table_bytes seq_bytes m
        | None \<Rightarrow> if has_capture_tail s then to_le 4 0 else [])
      (case nf_input_service s of Some m \<Rightarrow> write_table write_seq m
        | None \<Rightarrow> if has_capture_tail s then put (to_le 4 0) else nothing)"
    using t(3) by (auto simp: emits_put emits_nothing intro: emits_table emits_seq split: option.splits)
  moreover have "emits (if has_capture_tail s then table_bytes le64 (nf_sync_capture_high_water s) else [])
      (if has_capture_tail s then write_table (\<lambda>ts. put (le64 ts)) (nf_sync_capture_high_water s) else nothing)"
    using emits_table [OF t(2) emits_stamp] by (simp add: emits_nothing)
  moreover have "emits (case nf_sync_epoch_floor s of Some floor \<Rightarrow> [1] @ le64 floor | None \<Rightarrow> [])
      (case nf_sync_epoch_floor s of Some floor \<Rightarrow> and_then (put [1]) (put (le64 floor)) | None \<Rightarrow> nothing)"
    by (auto simp: emits_nothing split: option.splits intro!: emits_and_then [of "[1]", simplified] emits_put)
  ultimately show ?thesis
    unfolding framework_bytes_def encode_framework_def
    by (intro emits_and_then emits_put emits_table t(1)) simp_all
qed

lemma length_table_bytes: "(\<And>v. length (f v) = w) \<Longrightarrow> length (table_bytes f m) = 4 + table_len w m"
  by (induction m) (simp_all add: table_bytes_def table_len_def entry_bytes_def)

lemma length_framework_bytes: "length (framework_bytes s) = encoded_len s"
proof -
  have "length (seq_bytes v) = 5" for v by (simp add: seq_bytes_def)
  then show ?thesis
    by (simp add: framework_bytes_def encoded_len_def length_table_bytes split: option.splits)
qed

lemma read_table_entries:
  assumes "\<And>v. length (f v) = w" "\<And>v. rv (f v) = Inr v"
  shows "sorted_wrt (<) (map fst (acc @ m)) \<Longrightarrow> list_all (\<lambda>e. is_utf8 (fst e) \<and> length (fst e) < 2 ^ 32) m \<Longrightarrow>
    read_table w rv (length m) acc (concat (map (entry_bytes f) m) @ rest) = Inr (acc @ m, rest)"
proof (induction m arbitrary: acc)
  case (Cons e m)
  obtain name v where [simp]: "e = (name, v)" by force
  let ?rest = "concat (map (entry_bytes f) m) @ rest"
  have n: "is_utf8 name" "length name < 2 ^ 32" using Cons.prems(2) by simp_all
  have i: "btree_map_insert (name, v) acc = (True, acc @ [(name, v)])"
    using Cons.prems(1) insort_key_last [of acc fst "(name, v)"]
    by (force simp: btree_map_insert_def sorted_wrt_append)
  have "from_le (to_le 4 (length name)) = length name" using n(2) by (simp add: from_le_to_le)
  then have "read_table w rv (Suc (length m)) acc (to_le 4 (length name) @ name @ f v @ ?rest) =
      read_table w rv (length m) (acc @ [(name, v)]) ?rest"
    using n i assms(1) [of v] assms(2) [of v] by (simp add: Let_def)
  moreover have "concat (map (entry_bytes f) (e # m)) @ rest = to_le 4 (length name) @ name @ f v @ ?rest"
    by (simp add: entry_bytes_def)
  moreover have "read_table w rv (length m) (acc @ [(name, v)]) ?rest = Inr (acc @ e # m, rest)"
    using Cons.IH [of "acc @ [(name, v)]"] Cons.prems by simp
  ultimately show ?case by (simp only: list.size add_0_right One_nat_def add_Suc_right)
qed simp

lemma read_table_bytes:
  assumes "\<And>v. length (f v) = w" "\<And>v. rv (f v) = Inr v" "table_ok m"
  shows "counted_table w rv (table_bytes f m @ rest) = Inr (m, rest)"
proof -
  have "from_le (to_le 4 (length m)) = length m" using assms(3) by (simp add: table_ok_def from_le_to_le)
  then show ?thesis
    using read_table_entries [OF assms(1,2), of "[]" m rest] assms(3)
    by (simp add: counted_table_def table_bytes_def table_ok_def)
qed

lemma read_stamp_le64: "read_stamp (le64 v) = Inr v"
  using get64_le64 [of "le64 v" 0 v] by (simp add: read_stamp_def slice_def)

lemma read_seq_bytes: "read_seq (seq_bytes v) = Inr v"
proof -
  have "get32 (seq_bytes v) 1 = (case v of Some n \<Rightarrow> n | None \<Rightarrow> 0)"
    by (rule get32_le32) (simp add: seq_bytes_def slice_def)
  then show ?thesis by (cases v) (simp_all add: read_seq_def seq_bytes_def)
qed

text \<open>
  A version 3 section carries the version 2 table, so a section with capture state and no table of its own
  states an empty one.
\<close>

definition as_stated :: "node_framework_state \<Rightarrow> node_framework_state" where
  "as_stated s = (if has_capture_tail s \<and> nf_input_service s = None then s\<lparr>nf_input_service := Some []\<rparr> else s)"

lemma decode_framework_bytes:
  assumes "framework_ok s"
  shows "decode_framework (framework_bytes s @ later) = Inr (as_stated s)"
proof -
  define prefix where "prefix = to_le 4 (wire_version s) @ [if nf_next_fire_ns s \<noteq> None then 1 else 0 :: u8] @
     le64 (case nf_next_fire_ns s of Some n \<Rightarrow> n | None \<Rightarrow> 0) @ le64 (nf_pending_data_count s)"
  define inputs where "inputs = nf_sync_input_timestamps s"
  define service where "service = (case nf_input_service s of Some m \<Rightarrow> table_bytes seq_bytes m
      | None \<Rightarrow> if has_capture_tail s then to_le 4 0 else [])"
  define high where "high = (if has_capture_tail s then table_bytes le64 (nf_sync_capture_high_water s) else [])"
  define floor where "floor = (case nf_sync_epoch_floor s of Some floor \<Rightarrow> [1] @ le64 floor | None \<Rightarrow> [])"
  let ?b = "prefix @ to_le 4 (length inputs) @ concat (map (entry_bytes le64) inputs) @ service @ high @ floor @ later"
  have b: "framework_bytes s @ later = ?b"
    by (simp add: framework_bytes_def prefix_def inputs_def service_def high_def floor_def table_bytes_def)
  have t: "table_ok inputs" "table_ok (nf_sync_capture_high_water s)" "\<And>m. nf_input_service s = Some m \<Longrightarrow> table_ok m"
    using assms by (simp_all add: framework_ok_def inputs_def)
  have v: "wire_version s < 2 ^ 32" "1 \<le> wire_version s" by (simp_all add: wire_version_def)
  have p: "length prefix = 21" by (simp add: prefix_def)
  have "slice ?b 0 4 = to_le 4 (wire_version s)" "slice ?b 21 25 = to_le 4 (length inputs)"
    by (simp_all add: prefix_def slice_def)
  then have words: "from_le (slice ?b 0 4) = wire_version s" "from_le (slice ?b 21 25) = length inputs"
    using v(1) t(1) by (simp_all add: from_le_to_le table_ok_def)
  have fire: "?b ! 4 = (if nf_next_fire_ns s \<noteq> None then 1 else 0)"
    "get64 ?b 5 = (case nf_next_fire_ns s of Some n \<Rightarrow> n | None \<Rightarrow> 0)" "get64 ?b 13 = nf_pending_data_count s"
    by (simp add: prefix_def nth_append, (rule get64_le64, simp add: prefix_def slice_def)+)
  have read_inputs: "read_table 8 read_stamp (length inputs) [] (drop 25 ?b) = Inr (inputs, service @ high @ floor @ later)"
    using read_table_entries [where f = le64 and w = 8 and rv = read_stamp and acc = "[]" and m = inputs] t(1) p
    by (simp add: read_stamp_le64 table_ok_def)
  have read_service: "(if 2 \<le> wire_version s
      then (case counted_table 5 read_seq (service @ high @ floor @ later) of Inl p \<Rightarrow> Inl p | Inr (m, r) \<Rightarrow> Inr (Some m, r))
      else Inr (None, service @ high @ floor @ later)) = Inr (nf_input_service (as_stated s), high @ floor @ later)"
  proof (cases "nf_input_service s")
    case None
    have "counted_table 5 read_seq (to_le 4 0 @ x) = Inr ([], x)" for x
      by (simp add: counted_table_def from_le_to_le)
    then show ?thesis using None by (auto simp: service_def wire_version_def as_stated_def has_capture_tail_def)
  next
    case (Some m)
    have "length (seq_bytes v) = 5" for v by (simp add: seq_bytes_def)
    from read_table_bytes [OF this read_seq_bytes t(3) [OF Some]] show ?thesis
      using Some by (auto simp: service_def wire_version_def as_stated_def)
  qed
  have read_high: "(if 3 \<le> wire_version s then counted_table 8 read_stamp (high @ floor @ later) else Inr ([], high @ floor @ later)) =
      Inr (nf_sync_capture_high_water s, floor @ later)"
    using read_table_bytes [OF _ read_stamp_le64 t(2), of 8]
    by (auto simp: high_def wire_version_def has_capture_tail_def split: option.splits)
  have read_floor: "(if 4 \<le> wire_version s then read_floor (floor @ later) else Inr None) = Inr (nf_sync_epoch_floor s)"
  proof (cases "nf_sync_epoch_floor s")
    case (Some x)
    have "get64 (floor @ later) 1 = x" by (rule get64_le64) (simp add: floor_def Some slice_def)
    then show ?thesis by (simp add: Some floor_def wire_version_def read_floor_def)
  qed (simp add: wire_version_def)
  have stated: "as_stated s = \<lparr>nf_next_fire_ns = nf_next_fire_ns s, nf_pending_data_count = nf_pending_data_count s,
      nf_sync_input_timestamps = inputs, nf_input_service = nf_input_service (as_stated s),
      nf_sync_capture_high_water = nf_sync_capture_high_water s, nf_sync_epoch_floor = nf_sync_epoch_floor s\<rparr>"
    by (simp add: as_stated_def inputs_def)
  have "\<not> length ?b < 25" using p by simp
  then show ?thesis
    unfolding b decode_framework_def Let_def words read_inputs fire read_service sum.case prod.case read_high read_floor
    using v(2) by (subst stated) (auto split: option.splits)
qed

lemma decode_later_version:
  assumes "25 \<le> length b" "from_le (slice b 0 4) = 4" "4 \<le> v" "v < 2 ^ 32"
  shows "decode_framework (to_le 4 v @ drop 4 b) = decode_framework b"
proof -
  let ?b = "to_le 4 v @ drop 4 b"
  have same: "slice ?b i j = slice b i j" if "4 \<le> i" for i j
    using that by (simp add: slice_def)
  have "drop 25 ?b = drop 25 b" "?b ! 4 = b ! 4" using assms(1) by (simp_all add: nth_append)
  moreover have "get64 ?b i = get64 b i" if "4 \<le> i" for i using same [OF that, of "i + 8"] by (simp add: get64_def)
  moreover have "from_le (slice ?b 0 4) = v" using assms(4) by (simp add: slice_def from_le_to_le)
  moreover have "length ?b = length b" using assms(1) by simp
  ultimately have words: "drop 25 ?b = drop 25 b" "?b ! 4 = b ! 4" "get64 ?b 5 = get64 b 5" "get64 ?b 13 = get64 b 13"
    "from_le (slice ?b 0 4) = v" "length ?b = length b" "slice ?b 21 25 = slice b 21 25"
    using same by simp_all
  have ge: "(2 \<le> v) = True" "(3 \<le> v) = True" "(4 \<le> v) = True" "(v < 1) = False"
    "(2 \<le> (4 :: nat)) = True" "(3 \<le> (4 :: nat)) = True" "(4 \<le> (4 :: nat)) = True" "((4 :: nat) < 1) = False"
    using assms(3) by simp_all
  show ?thesis unfolding decode_framework_def Let_def words assms(2) ge if_False ..
qed

lemma decode_anchor_framed:
  assumes "25 \<le> length section" "length section < 2 ^ 32"
  shows "decode_anchor (ANCHOR_BLOB_MAGIC_V2 @ le64 shape @ to_le 4 (length section) @ section @ payload) =
    Inr \<lparr>ab_state_shape = shape, ab_framework = section, ab_payload = payload\<rparr>"
proof -
  let ?b = "ANCHOR_BLOB_MAGIC_V2 @ le64 shape @ to_le 4 (length section) @ section @ payload"
  have m: "length ANCHOR_BLOB_MAGIC_V2 = 8" "ANCHOR_BLOB_MAGIC_V2 \<noteq> ANCHOR_BLOB_MAGIC"
    by (simp_all add: ANCHOR_BLOB_MAGIC_V2_def ANCHOR_BLOB_MAGIC_def)
  have "slice ?b 0 8 = ANCHOR_BLOB_MAGIC_V2" "slice ?b 16 20 = to_le 4 (length section)" "slice ?b 20 (20 + length section) = section"
    "drop (20 + length section) ?b = payload"
    using m(1) by (simp_all add: slice_def)
  moreover have "get64 ?b 8 = shape" by (rule get64_le64) (simp add: slice_def m(1))
  moreover have "from_le (to_le 4 (length section)) = length section" using assms(2) by (simp add: from_le_to_le)
  ultimately show ?thesis using assms m by (simp add: decode_anchor_def Let_def)
qed

lemma decode_anchor_plain: "decode_anchor (ANCHOR_BLOB_MAGIC @ le64 shape @ payload) =
    Inr \<lparr>ab_state_shape = shape, ab_framework = [], ab_payload = payload\<rparr>"
proof -
  let ?b = "ANCHOR_BLOB_MAGIC @ le64 shape @ payload"
  have m: "length ANCHOR_BLOB_MAGIC = 8" by (simp add: ANCHOR_BLOB_MAGIC_def)
  then have "slice ?b 0 8 = ANCHOR_BLOB_MAGIC" by (simp add: slice_def)
  moreover have "get64 ?b 8 = shape" by (rule get64_le64) (simp add: slice_def m)
  ultimately show ?thesis using m by (simp add: decode_anchor_def Let_def)
qed

section \<open>What a decoder accepts\<close>

lemma read_table_accepts:
  "read_table w rv n m rest = Inr (m', rest') \<Longrightarrow>
    sorted_wrt (<) (map fst m) \<Longrightarrow> list_all (\<lambda>e. is_utf8 (fst e) \<and> length (fst e) < 2 ^ 32) m \<Longrightarrow>
    sorted_wrt (<) (map fst m') \<and> list_all (\<lambda>e. is_utf8 (fst e) \<and> length (fst e) < 2 ^ 32) m' \<and> length m' = length m + n"
proof (induction n arbitrary: m rest)
  case (Suc n)
  let ?l = "from_le (take 4 rest)"
  let ?name = "take ?l (drop 4 rest)"
  obtain x where x: "is_utf8 ?name" "fst (?name, x :: 'a) \<notin> fst ` set m"
    "read_table w rv n (insort_key fst (?name, x) m) (drop (4 + ?l + w) rest) = Inr (m', rest')"
    using Suc.prems(1) by (auto simp: Let_def btree_map_insert_def split: if_splits sum.splits prod.splits bool.splits)
  have "?l < 2 ^ 32" using from_le_lt [of "take 4 rest"] Suc.prems(1) by (auto simp: min_def split: if_splits)
  then have "length ?name < 2 ^ 32" by (simp add: min_def)
  then have "list_all (\<lambda>e. is_utf8 (fst e) \<and> length (fst e) < 2 ^ 32) (insort_key fst (?name, x) m)"
    using Suc.prems(3) x(1) by (simp add: list_all_iff set_insort_key)
  from Suc.IH [OF x(3) insort_key_strict [OF Suc.prems(2) x(2)] this] show ?case by simp
qed simp

lemma table_ok_Nil [simp]: "table_ok []"
  by (simp add: table_ok_def)

lemma counted_table_accepts:
  assumes "counted_table w rv rest = Inr (m, rest')"
  shows "table_ok m"
proof -
  have "read_table w rv (from_le (take 4 rest)) [] (drop 4 rest) = Inr (m, rest')" "4 \<le> length rest"
    using assms by (auto simp: counted_table_def split: if_splits)
  moreover from this(2) have "from_le (take 4 rest) < 2 ^ 32" using from_le_lt [of "take 4 rest"] by (simp add: min_absorb2)
  ultimately show ?thesis using read_table_accepts by (fastforce simp: table_ok_def)
qed

lemma decode_framework_accepts:
  assumes "decode_framework b = Inr s"
  shows "framework_ok s \<and> as_stated s = s"
proof -
  let ?v = "from_le (slice b 0 4)"
  obtain inputs rest service rest2 high rest3 floor where d:
    "25 \<le> length b" "read_table 8 read_stamp (from_le (slice b 21 25)) [] (drop 25 b) = Inr (inputs, rest)"
    "(if ?v \<ge> 2 then (case counted_table 5 read_seq rest of Inl p \<Rightarrow> Inl p | Inr (m, r) \<Rightarrow> Inr (Some m, r))
      else Inr (None, rest)) = Inr (service, rest2)"
    "(if ?v \<ge> 3 then counted_table 8 read_stamp rest2 else Inr ([], rest2)) = Inr (high, rest3)"
    "(if ?v \<ge> 4 then read_floor rest3 else Inr None) = Inr floor"
    "s = \<lparr>nf_next_fire_ns = (if b ! 4 = 1 then Some (get64 b 5) else None), nf_pending_data_count = get64 b 13,
      nf_sync_input_timestamps = inputs, nf_input_service = service, nf_sync_capture_high_water = high,
      nf_sync_epoch_floor = floor\<rparr>"
    using assms unfolding decode_framework_def Let_def by (auto simp: not_less split: if_splits sum.splits prod.splits)
  have "from_le (slice b 21 25) < 2 ^ 32" using from_le_lt [of "slice b 21 25"] d(1) by (simp add: slice_def)
  then have "table_ok inputs" using read_table_accepts [OF d(2)] by (simp add: table_ok_def)
  moreover have "table_ok high" using d(4) by (auto dest: counted_table_accepts split: if_splits)
  moreover have "\<And>m. service = Some m \<Longrightarrow> table_ok m"
    using d(3) by (auto dest: counted_table_accepts split: if_splits sum.splits prod.splits)
  moreover have "\<not> has_capture_tail s \<or> service \<noteq> None"
    using d(3-5) unfolding d(6) has_capture_tail_def by (auto split: if_splits sum.splits prod.splits)
  ultimately show ?thesis unfolding d(6) by (auto simp: framework_ok_def as_stated_def split: option.splits)
qed

section \<open>Properties\<close>

text \<open>
  C29. A framework section is written in the bytes that \<open>encoded_len\<close> announces, in every version, and reads
  back as it was stated, whatever a later version appends to it; a section with capture state and no table
  of service cursors states an empty one. A section that a later version wrote, which is one of version 4 with a
  higher version word and more bytes behind it, reads back as its version 4 part.
\<close>

theorem framework_section_round_trip:
  assumes "framework_ok s"
  shows "\<exists>sink. encode_framework s vec_sink = (Inr (), sink) \<and> length (ss_bytes sink) = encoded_len s \<and>
    decode_framework (ss_bytes sink @ later) = Inr (as_stated s) \<and>
    (\<forall>version. wire_version s = 4 \<and> 4 \<le> version \<and> version < 2 ^ 32 \<longrightarrow>
       decode_framework (to_le 4 version @ drop 4 (ss_bytes sink) @ later) = Inr (as_stated s))"
proof -
  have "encode_framework s vec_sink = (Inr (), appended (framework_bytes s) vec_sink)"
    using emits_framework [OF assms] by (simp add: emits_def emits_live_def vec_sink_def has_room_def)
  moreover have "decode_framework (to_le 4 version @ drop 4 (framework_bytes s) @ later) = Inr (as_stated s)"
    if "wire_version s = 4" "4 \<le> version" "version < 2 ^ 32" for version
  proof -
    have "from_le (slice (framework_bytes s @ later) 0 4) = 4"
      using that(1) by (simp add: framework_bytes_def slice_def from_le_to_le)
    moreover have "25 \<le> length (framework_bytes s @ later)" by (simp add: length_framework_bytes encoded_len_def)
    moreover have "drop 4 (framework_bytes s @ later) = drop 4 (framework_bytes s) @ later"
      by (simp add: framework_bytes_def)
    ultimately show ?thesis
      using decode_later_version [of "framework_bytes s @ later" version] decode_framework_bytes [OF assms, of later] that(2,3)
      by simp
  qed
  ultimately show ?thesis
    using decode_framework_bytes [OF assms, of later] length_framework_bytes [of s]
    by (simp add: appended_def vec_sink_def)
qed

definition sample_framework :: node_framework_state where
  "sample_framework = default_framework_state\<lparr>nf_next_fire_ns := Some 70, nf_sync_input_timestamps := [([97], 3), ([98], 4)],
     nf_sync_capture_high_water := [([97], 9)]\<rparr>"

lemma sample_framework_ok: "framework_ok sample_framework"
  by (simp add: sample_framework_def default_framework_state_def framework_ok_def table_ok_def)

theorem framework_section_round_trip_witness:
  "\<exists>sink. encode_framework (sample_framework\<lparr>nf_sync_epoch_floor := Some 12\<rparr>) vec_sink = (Inr (), sink) \<and>
    decode_framework (ss_bytes sink @ [0xFF]) =
      Inr (sample_framework\<lparr>nf_sync_epoch_floor := Some 12, nf_input_service := Some []\<rparr>) \<and>
    decode_framework (to_le 4 7 @ drop 4 (ss_bytes sink) @ [0xFF]) =
      Inr (sample_framework\<lparr>nf_sync_epoch_floor := Some 12, nf_input_service := Some []\<rparr>)"
proof -
  let ?s = "sample_framework\<lparr>nf_sync_epoch_floor := Some 12\<rparr>"
  have "framework_ok ?s" using sample_framework_ok by (simp add: framework_ok_def)
  moreover have "wire_version ?s = 4"
    "as_stated ?s = sample_framework\<lparr>nf_sync_epoch_floor := Some 12, nf_input_service := Some []\<rparr>"
    by (simp_all add: wire_version_def as_stated_def has_capture_tail_def sample_framework_def default_framework_state_def)
  ultimately show ?thesis using framework_section_round_trip [of ?s "[0xFF]"] by auto
qed

text \<open>
  Any bytes that a section's reader accepts state a well-formed section: sorted tables without a name
  twice, names that are UTF-8, a table of cursors wherever capture state is stated. Written again, it reads
  back as the same section.
\<close>

theorem accepted_section_is_well_formed:
  assumes "decode_framework b = Inr s"
  shows "framework_ok s \<and> decode_framework (framework_bytes s @ later) = Inr s"
  using decode_framework_accepts [OF assms] decode_framework_bytes [of s later] by simp

theorem accepted_section_is_well_formed_witness:
  "framework_ok default_framework_state \<and>
   decode_framework (framework_bytes default_framework_state @ [1, 2]) = Inr default_framework_state"
proof -
  have "framework_ok default_framework_state" by (simp add: framework_ok_def default_framework_state_def)
  from decode_framework_bytes [OF this, of "[]"] have "decode_framework (framework_bytes default_framework_state) = Inr default_framework_state"
    by (simp add: as_stated_def has_capture_tail_def default_framework_state_def)
  then show ?thesis using accepted_section_is_well_formed by blast
qed

end
