(* ===== verification/RestorePlan.thy ===== *)
theory RestorePlan
  imports StateRing AnchorBlob
begin

text \<open>
  The decisions of a restore (\<open>state_restore.rs\<close>): which anchor a replay resumes from, the shape gate, the
  loss gate, the frames before the anchor that are fed again, and the sequence at which a publisher resumes.
  Names of nodes and topics are strings, ordered by their bytes.
\<close>

section \<open>The resume plan\<close>

datatype anchor_outcome = OutcomeComplete | OutcomeTorn | OutcomeSkipped skip_cause

record anchor_fact =
  af_run_id :: u64
  af_step :: u64
  af_node :: bytes
  af_outcome :: anchor_outcome

record restore_request =
  rq_run_id :: u64
  rq_required_nodes :: "bytes list"
  rq_first_recorded_step :: u64
  rq_facts :: "anchor_fact list"

record resume_anchor =
  ra_run_id :: u64
  ra_step :: u64

datatype restore_plan = FromStart | FromAnchor resume_anchor

datatype node_anchor_problem = ProblemMissing | ProblemTorn | ProblemSkipped skip_cause

record topic_loss =
  tl_topic :: bytes
  tl_frames_lost :: u64
  tl_prefix_lost :: u64

datatype plan_refusal =
    AnchorIncomplete u64 "(bytes \<times> node_anchor_problem) list" nat
  | LossyTopics "topic_loss list"
  | ShapeDrift bytes u64 u64
  | BacklogDisagreement bytes "(bytes \<times> u32) list"
  | BacklogShortfall bytes u32 u32
  | MultiPublisherTopicNotSeedable bytes
  | SequenceSeedUnavailable bytes
  | StrictStateUnsatisfied "bytes list"

definition first_replay_step :: "resume_anchor \<Rightarrow> u64" where
  "first_replay_step a = (if ra_step a = - 1 then ra_step a else ra_step a + 1)"

definition fact_of :: "restore_request \<Rightarrow> u64 \<Rightarrow> bytes \<Rightarrow> anchor_fact option" where
  "fact_of rq anchor_step node =
     List.find (\<lambda>f. af_run_id f = rq_run_id rq \<and> af_step f = anchor_step \<and> af_node f = node) (rq_facts rq)"

fun judge_nodes ::
    "(bytes \<Rightarrow> anchor_fact option) \<Rightarrow> bytes list \<Rightarrow> (bytes \<times> node_anchor_problem) list \<times> nat" where
  "judge_nodes recorded_fact [] = ([], 0)"
| "judge_nodes recorded_fact (node # nodes) =
     (case judge_nodes recorded_fact nodes of (problems, complete) \<Rightarrow>
        (case map_option af_outcome (recorded_fact node) of
           Some OutcomeComplete \<Rightarrow> (problems, complete + 1)
         | Some OutcomeTorn \<Rightarrow> ((node, ProblemTorn) # problems, complete)
         | Some (OutcomeSkipped cause) \<Rightarrow> ((node, ProblemSkipped cause) # problems, complete)
         | None \<Rightarrow> ((node, ProblemMissing) # problems, complete)))"

definition plan_restore :: "restore_request \<Rightarrow> plan_refusal + restore_plan" where
  "plan_restore rq =
     (if rq_first_recorded_step rq = 0 then Inr FromStart
      else
        let anchor_step = rq_first_recorded_step rq - 1 in
        case judge_nodes (fact_of rq anchor_step) (rq_required_nodes rq) of (problems, complete) \<Rightarrow>
          if problems = [] then Inr (FromAnchor \<lparr>ra_run_id = rq_run_id rq, ra_step = anchor_step\<rparr>)
          else Inl (AnchorIncomplete anchor_step problems complete))"

section \<open>The gates\<close>

definition classify_shape :: "bytes \<Rightarrow> u64 \<Rightarrow> u64 \<Rightarrow> plan_refusal + unit" where
  "classify_shape node recorded current = (if recorded = current then Inr () else Inl (ShapeDrift node recorded current))"

definition refuse_lossy_reexecuted_topics :: "bytes list \<Rightarrow> topic_loss list \<Rightarrow> plan_refusal + unit" where
  "refuse_lossy_reexecuted_topics reexecuted losses =
     (let lossy = filter (\<lambda>l. (tl_frames_lost l > 0 \<or> tl_prefix_lost l > 0) \<and> tl_topic l \<in> set reexecuted) losses
      in if lossy = [] then Inr () else Inl (LossyTopics lossy))"

definition enforce_strict_state :: "bytes list \<Rightarrow> bool \<Rightarrow> plan_refusal + unit" where
  "enforce_strict_state nodes_without_state strict =
     (if \<not> strict \<or> nodes_without_state = [] then Inr () else Inl (StrictStateUnsatisfied nodes_without_state))"

section \<open>The backlog\<close>

record backlog_claim =
  bc_topic :: bytes
  bc_consumer :: bytes
  bc_pending :: u32

record topic_frame_count =
  tf_topic :: bytes
  tf_frames_at_or_before_anchor :: u32

definition claimants :: "backlog_claim list \<Rightarrow> bytes \<Rightarrow> (bytes \<times> u32) list" where
  "claimants claims t = sort (map (\<lambda>c. (bc_consumer c, bc_pending c)) (filter (\<lambda>c. bc_topic c = t) claims))"

definition frames_available :: "topic_frame_count list \<Rightarrow> bytes \<Rightarrow> u32" where
  "frames_available available t =
     (case List.find (\<lambda>c. tf_topic c = t) available of Some c \<Rightarrow> tf_frames_at_or_before_anchor c | None \<Rightarrow> 0)"

fun admit_topics ::
    "backlog_claim list \<Rightarrow> topic_frame_count list \<Rightarrow> bytes list \<Rightarrow> plan_refusal + (bytes \<times> u32) list" where
  "admit_topics claims available [] = Inr []"
| "admit_topics claims available (t # ts) =
     (let cs = claimants claims t; first = snd (hd cs); have = frames_available available t in
      if \<exists>c \<in> set cs. snd c \<noteq> first then Inl (BacklogDisagreement t cs)
      else if first = 0 then admit_topics claims available ts
      else if have < first then Inl (BacklogShortfall t first have)
      else case admit_topics claims available ts of Inl e \<Rightarrow> Inl e | Inr m \<Rightarrow> Inr ((t, first) # m))"

text \<open>The topics in the order of the map; the admission is a map by topic.\<close>

definition plan_backlog_admission ::
    "backlog_claim list \<Rightarrow> topic_frame_count list \<Rightarrow> plan_refusal + (bytes \<times> u32) list" where
  "plan_backlog_admission claims available =
     admit_topics claims available (sort (remdups (map bc_topic claims)))"

definition admitted :: "(bytes \<times> u32) list \<Rightarrow> bytes \<Rightarrow> u32" where
  "admitted m t = (case map_of m t of Some n \<Rightarrow> n | None \<Rightarrow> 0)"

section \<open>The sequence of a publisher\<close>

datatype seed_rung = LastFrameBeforeAnchor | FirstFrameAfterAnchor | CapturedCommit

datatype topic_writers = SingleWriter | MultiPublisher

record seed_evidence =
  se_last_at_or_before_anchor :: "u32 option"
  se_first_after_anchor :: "u32 option"
  se_captured_last_commit :: "u32 option"

record sequence_seed =
  sq_topic :: bytes
  sq_seed :: u32
  sq_rung :: seed_rung

definition seed_publisher_sequence :: "bytes \<Rightarrow> topic_writers \<Rightarrow> seed_evidence \<Rightarrow> plan_refusal + sequence_seed" where
  "seed_publisher_sequence t writers ev =
     (if writers = MultiPublisher then Inl (MultiPublisherTopicNotSeedable t)
      else case se_last_at_or_before_anchor ev of
          Some n \<Rightarrow> Inr \<lparr>sq_topic = t, sq_seed = n + 1, sq_rung = LastFrameBeforeAnchor\<rparr>
        | None \<Rightarrow>
           (case se_first_after_anchor ev of
              Some first \<Rightarrow> Inr \<lparr>sq_topic = t, sq_seed = first, sq_rung = FirstFrameAfterAnchor\<rparr>
            | None \<Rightarrow>
               (case se_captured_last_commit ev of
                  Some commit \<Rightarrow> Inr \<lparr>sq_topic = t, sq_seed = commit + 1, sq_rung = CapturedCommit\<rparr>
                | None \<Rightarrow> Inl (SequenceSeedUnavailable t))))"

section \<open>What the decisions guarantee\<close>

lemma judge_nodes_spec:
  "judge_nodes recorded_fact nodes = (problems, complete) \<Longrightarrow>
    (problems = [] \<longleftrightarrow> (\<forall>n \<in> set nodes. map_option af_outcome (recorded_fact n) = Some OutcomeComplete)) \<and>
    complete + length problems = length nodes \<and>
    map fst problems = filter (\<lambda>n. map_option af_outcome (recorded_fact n) \<noteq> Some OutcomeComplete) nodes \<and>
    (\<forall>(n, p) \<in> set problems. n \<in> set nodes \<and> map_option af_outcome (recorded_fact n) =
       (case p of ProblemMissing \<Rightarrow> None | ProblemTorn \<Rightarrow> Some OutcomeTorn | ProblemSkipped c \<Rightarrow> Some (OutcomeSkipped c)))"
proof (induction nodes arbitrary: problems complete)
  case (Cons n nodes)
  obtain ps k where j: "judge_nodes recorded_fact nodes = (ps, k)" by force
  show ?case
    using Cons.IH [OF j] Cons.prems j
    by (cases "map_option af_outcome (recorded_fact n)"; (cases "the (map_option af_outcome (recorded_fact n))")?)
       (auto split: anchor_outcome.splits)
qed simp



lemma claimants_set: "set (claimants claims t) = {(bc_consumer c, bc_pending c) | c. c \<in> set claims \<and> bc_topic c = t}"
  by (auto simp: claimants_def)

lemma admit_topics_spec:
  assumes "distinct ts" "\<forall>t \<in> set ts. \<exists>c \<in> set claims. bc_topic c = t"
  shows "case admit_topics claims available ts of
      Inr m \<Rightarrow> fst ` set m \<subseteq> set ts \<and> (\<forall>c \<in> set claims. bc_topic c \<in> set ts \<longrightarrow>
        admitted m (bc_topic c) = bc_pending c \<and> bc_pending c \<le> frames_available available (bc_topic c))
    | Inl (BacklogDisagreement t cs) \<Rightarrow> cs = claimants claims t \<and> (\<exists>a \<in> set cs. \<exists>b \<in> set cs. snd a \<noteq> snd b)
    | Inl (BacklogShortfall t claimed have) \<Rightarrow> have = frames_available available t \<and> have < claimed \<and>
        (\<exists>c \<in> set claims. bc_topic c = t \<and> bc_pending c = claimed)
    | Inl _ \<Rightarrow> False"
  using assms
proof (induction ts)
  case (Cons t ts)
  let ?cs = "claimants claims t"
  obtain c0 where "c0 \<in> set claims" "bc_topic c0 = t" using Cons.prems(2) by auto
  then have "?cs \<noteq> []" using claimants_set [of claims t] by force
  then have hd: "hd ?cs \<in> set ?cs" by simp
  then obtain c1 where c1: "c1 \<in> set claims" "bc_topic c1 = t" "bc_pending c1 = snd (hd ?cs)"
    using claimants_set [of claims t] by force
  show ?case
  proof (cases "\<exists>c \<in> set ?cs. snd c \<noteq> snd (hd ?cs)")
    case True
    then show ?thesis using hd by (auto simp: Let_def)
  next
    case False
    then have all: "bc_pending c = snd (hd ?cs)" if "c \<in> set claims" "bc_topic c = t" for c
      using that claimants_set [of claims t] by force
    have ih: "case admit_topics claims available ts of
        Inr m \<Rightarrow> fst ` set m \<subseteq> set ts \<and> (\<forall>c \<in> set claims. bc_topic c \<in> set ts \<longrightarrow>
          admitted m (bc_topic c) = bc_pending c \<and> bc_pending c \<le> frames_available available (bc_topic c))
      | Inl (BacklogDisagreement t cs) \<Rightarrow> cs = claimants claims t \<and> (\<exists>a \<in> set cs. \<exists>b \<in> set cs. snd a \<noteq> snd b)
      | Inl (BacklogShortfall t claimed have) \<Rightarrow> have = frames_available available t \<and> have < claimed \<and>
          (\<exists>c \<in> set claims. bc_topic c = t \<and> bc_pending c = claimed)
      | Inl _ \<Rightarrow> False" by (rule Cons.IH) (use Cons.prems in auto)
    have out: "admitted m t = 0" if "fst ` set m \<subseteq> set ts" for m :: "(bytes \<times> u32) list"
    proof -
      have "map_of m t = None" using that Cons.prems(1) by (auto simp: map_of_eq_None_iff)
      then show ?thesis by (simp add: admitted_def)
    qed
    show ?thesis
    proof (cases "snd (hd ?cs) = 0")
      case True
      then show ?thesis using False ih all out
        by (auto simp: Let_def split: sum.splits plan_refusal.splits)
    next
      case nonzero: False
      show ?thesis
      proof (cases "frames_available available t < snd (hd ?cs)")
        case True
        then show ?thesis using False nonzero c1 by (auto simp: Let_def)
      next
        case enough: False
        have step: "admit_topics claims available (t # ts) =
            (case admit_topics claims available ts of Inl e \<Rightarrow> Inl e | Inr m \<Rightarrow> Inr ((t, snd (hd ?cs)) # m))"
          using False nonzero enough by (auto simp: Let_def)
        show ?thesis
        proof (cases "admit_topics claims available ts")
          case (Inl e)
          then show ?thesis using ih unfolding step by simp
        next
          case (Inr m)
          then show ?thesis using ih all enough Cons.prems(1) unfolding step by (auto simp: admitted_def not_less)
        qed
      qed
    qed
  qed
qed simp

text \<open>
  An admission gives every consumer the depth that it captured, and the recording holds that many frames;
  it is refused only over a topic whose consumers captured different depths, which are all named, or whose
  frames the recording does not hold.
\<close>

theorem admission_serves_every_consumer:
  "case plan_backlog_admission claims available of
     Inr m \<Rightarrow> (\<forall>c \<in> set claims. admitted m (bc_topic c) = bc_pending c \<and>
        bc_pending c \<le> frames_available available (bc_topic c))
   | Inl (BacklogDisagreement t cs) \<Rightarrow> cs = claimants claims t \<and> (\<exists>a \<in> set cs. \<exists>b \<in> set cs. snd a \<noteq> snd b)
   | Inl (BacklogShortfall t claimed have) \<Rightarrow> have = frames_available available t \<and> have < claimed \<and>
       (\<exists>c \<in> set claims. bc_topic c = t \<and> bc_pending c = claimed)
   | Inl _ \<Rightarrow> False"
proof -
  let ?ts = "sort (remdups (map bc_topic claims))"
  have "distinct ?ts" "\<forall>t \<in> set ?ts. \<exists>c \<in> set claims. bc_topic c = t" "bc_topic ` set claims = set ?ts" by auto
  note spec = admit_topics_spec [OF this(1,2), of available] and ts = this(3)
  have topic: "bc_topic c \<in> set ?ts" if "c \<in> set claims" for c using that ts by auto
  show ?thesis
  proof (cases "plan_backlog_admission claims available")
    case (Inl e)
    then show ?thesis using spec by (simp add: plan_backlog_admission_def)
  next
    case (Inr m)
    then show ?thesis using spec topic by (simp add: plan_backlog_admission_def)
  qed
qed

theorem admission_serves_every_consumer_witness:
  "plan_backlog_admission [\<lparr>bc_topic = [116], bc_consumer = [97], bc_pending = 2\<rparr>]
       [\<lparr>tf_topic = [116], tf_frames_at_or_before_anchor = 3\<rparr>] = Inr [([116], 2)] \<and>
   admitted [([116], 2)] [116] = 2 \<and> (2 :: u32) \<le> 3"
proof -
  let ?c = "\<lparr>bc_topic = [116], bc_consumer = [97], bc_pending = 2\<rparr>"
  let ?a = "[\<lparr>tf_topic = [116], tf_frames_at_or_before_anchor = 3\<rparr>]"
  have "plan_backlog_admission [?c] ?a = Inr [([116], 2)]"
    by (simp add: plan_backlog_admission_def claimants_def frames_available_def)
  with admission_serves_every_consumer [of "[?c]" ?a] show ?thesis by (simp add: frames_available_def)
qed

text \<open>
  A publisher that commits its \<open>i\<close>-th frame at \<open>stamps ! i\<close> with sequence \<open>start + i\<close>; the recording holds the
  frames from the \<open>k\<close>-th to the one before \<open>k + m\<close>, and the capture may hold the last commit.
\<close>

definition recorded_frames :: "u64 list \<Rightarrow> u32 \<Rightarrow> nat \<Rightarrow> nat \<Rightarrow> (u64 \<times> u32) list" where
  "recorded_frames stamps start k m = map (\<lambda>i. (stamps ! i, start + of_nat i)) [k ..< k + m]"

definition evidence_at :: "u64 \<Rightarrow> (u64 \<times> u32) list \<Rightarrow> u32 option \<Rightarrow> seed_evidence" where
  "evidence_at anchor frames captured =
     (let before = filter (\<lambda>f. fst f \<le> anchor) frames; after = filter (\<lambda>f. anchor < fst f) frames
      in \<lparr>se_last_at_or_before_anchor = (if before = [] then None else Some (snd (last before))),
          se_first_after_anchor = (if after = [] then None else Some (snd (hd after))),
          se_captured_last_commit = captured\<rparr>)"

lemma sorted_below:
  assumes "sorted (xs :: u64 list)" "i < length xs"
  shows "xs ! i \<le> a \<longleftrightarrow> i < length (filter (\<lambda>x. x \<le> a) xs)"
  using assms
proof (induction xs arbitrary: i)
  case (Cons x xs)
  show ?case
  proof (cases "x \<le> a")
    case True
    then show ?thesis using Cons by (cases i) auto
  next
    case False
    then have "\<forall>y \<in> set (x # xs). \<not> y \<le> a" using Cons.prems(1) by fastforce
    then have "filter (\<lambda>x. x \<le> a) (x # xs) = []" by simp
    moreover have "\<not> (x # xs) ! i \<le> a" using \<open>\<forall>y \<in> set (x # xs). \<not> y \<le> a\<close> nth_mem [OF Cons.prems(2)] by blast
    ultimately show ?thesis by simp
  qed
qed simp

lemma filter_upt_below: "(\<And>i. k \<le> i \<Longrightarrow> i < n \<Longrightarrow> P i \<longleftrightarrow> i < c) \<Longrightarrow> k \<le> c \<Longrightarrow> c \<le> n \<Longrightarrow>
    filter P [k ..< n] = [k ..< c] \<and> filter (\<lambda>i. \<not> P i) [k ..< n] = [c ..< n]"
proof -
  assume p: "\<And>i. k \<le> i \<Longrightarrow> i < n \<Longrightarrow> P i \<longleftrightarrow> i < c" and c: "k \<le> c" "c \<le> n"
  have "[k ..< n] = [k ..< c] @ [c ..< n]" using c upt_add_eq_append [of k c "n - c"] by simp
  moreover have "filter P [k ..< c] = [k ..< c]" "filter (\<lambda>i. \<not> P i) [k ..< c] = []"
    using p c by (simp_all add: filter_empty_conv)
  moreover have "filter P [c ..< n] = []" "filter (\<lambda>i. \<not> P i) [c ..< n] = [c ..< n]"
    using p c by (simp_all add: filter_empty_conv)
  ultimately show ?thesis by simp
qed

text \<open>
  C39. When the recording holds a gap-free stretch of a single writer's frames that reaches the anchor from one
  side or the other, every rung of the ladder that answers gives the same seed: the sequence of the publisher's
  next frame, also where the counter wraps.
\<close>

theorem seed_continues_the_counter:
  fixes start :: u32 and anchor :: u64 and stamps :: "u64 list"
  assumes "sorted stamps" "k + m \<le> length stamps"
  defines "c \<equiv> length (filter (\<lambda>t. t \<le> anchor) stamps)"
  assumes "k \<le> c" "c \<le> k + m" "\<And>s. captured = Some s \<Longrightarrow> s + 1 = start + of_nat c"
  shows "case seed_publisher_sequence t SingleWriter (evidence_at anchor (recorded_frames stamps start k m) captured) of
      Inr seed \<Rightarrow> sq_topic seed = t \<and> sq_seed seed = start + of_nat c
    | Inl e \<Rightarrow> e = SequenceSeedUnavailable t \<and> m = 0 \<and> captured = None"
proof -
  let ?f = "\<lambda>i. (stamps ! i, start + of_nat i) :: u64 \<times> u32"
  have "stamps ! i \<le> anchor \<longleftrightarrow> i < c" if "i < k + m" for i
    using sorted_below [OF assms(1), of i anchor] that assms(2) by (simp add: c_def)
  then have split: "filter (\<lambda>i. stamps ! i \<le> anchor) [k ..< k + m] = [k ..< c]"
    "filter (\<lambda>i. \<not> stamps ! i \<le> anchor) [k ..< k + m] = [c ..< k + m]"
    using filter_upt_below [of k "k + m" "\<lambda>i. stamps ! i \<le> anchor" c] assms(4,5) by simp_all
  have before: "filter (\<lambda>f. fst f \<le> anchor) (recorded_frames stamps start k m) = map ?f [k ..< c]"
    using split(1) by (simp add: recorded_frames_def filter_map comp_def)
  have after: "filter (\<lambda>f. anchor < fst f) (recorded_frames stamps start k m) = map ?f [c ..< k + m]"
    using split(2) by (simp add: recorded_frames_def filter_map comp_def not_le)
  show ?thesis
  proof (cases "k < c")
    case True
    then have "snd (last (map ?f [k ..< c])) + 1 = start + of_nat c" "map ?f [k ..< c] \<noteq> []"
      by (simp_all add: last_map of_nat_diff)
    then show ?thesis using before by (simp add: seed_publisher_sequence_def evidence_at_def Let_def)
  next
    case False
    then have b: "map ?f [k ..< c] = []" by simp
    show ?thesis
    proof (cases "c < k + m")
      case True
      then have "snd (hd (map ?f [c ..< k + m])) = start + of_nat c" "map ?f [c ..< k + m] \<noteq> []"
        by (simp_all add: upt_conv_Cons)
      then show ?thesis using before after b by (auto simp: seed_publisher_sequence_def evidence_at_def Let_def)
    next
      case False
      then show ?thesis using before after b assms(4-6) \<open>\<not> k < c\<close>
        by (auto simp: seed_publisher_sequence_def evidence_at_def Let_def split: option.splits)
    qed
  qed
qed

theorem seed_continues_the_counter_witness:
  "\<exists>seed. seed_publisher_sequence [116] SingleWriter (evidence_at 25 (recorded_frames [10, 20, 30] (- 2) 2 1) None) = Inr seed \<and>
     sq_seed seed = 0"
proof -
  have "case seed_publisher_sequence [116] SingleWriter (evidence_at 25 (recorded_frames [10, 20, 30] (- 2) 2 1) None) of
      Inr seed \<Rightarrow> sq_topic seed = [116] \<and> sq_seed seed = - 2 + of_nat (length (filter (\<lambda>t. t \<le> 25) [10, 20, 30 :: u64]))
    | Inl e \<Rightarrow> e = SequenceSeedUnavailable [116] \<and> (1 :: nat) = 0 \<and> (None :: u32 option) = None"
    by (rule seed_continues_the_counter) simp_all
  then show ?thesis by (auto split: sum.splits)
qed

end
