(* ===== verification/Credit.thy ===== *)
theory Credit
  imports SchedNode FloodLatch
begin

text \<open>
  The credit of a \<open>block\<close> edge (\<open>credit.rs\<close>): the shared word that mirrors the consumer's queue, the gate
  that defers a producer while the queue is full (\<open>graph/runtime.rs\<close>), its stall detector, and the debt of a
  frame held in a matcher slot (\<open>transport/subscriber.rs\<close>).

  As for the barrier, each routine is given as the code reads; after that, \<open>credit_run\<close> lets the one producer
  and the consumer of an edge between processes interleave between any two accesses to the word or the queue.
  The queue itself is outside the repository: here it is the number of frames in it.
\<close>

section \<open>The word\<close>

record credit_shared =
  cr_outstanding :: u64
  cr_depth :: u32
  cr_wake_seq :: u32
  cr_parked :: u32
  cr_epoch :: u32

definition new_credit :: "u32 \<Rightarrow> credit_shared" where
  "new_credit depth = \<lparr>cr_outstanding = 0, cr_depth = depth, cr_wake_seq = 0, cr_parked = 0, cr_epoch = 0\<rparr>"

definition reinit_credit :: "u32 \<Rightarrow> credit_shared \<Rightarrow> credit_shared" where
  "reinit_credit depth w = w
     \<lparr>cr_outstanding := 0, cr_depth := depth, cr_wake_seq := 0, cr_parked := 0, cr_epoch := cr_epoch w + 1\<rparr>"

datatype credit_refusal = ZeroDepth | Unarmed

definition reject_zero_depth :: "u32 \<Rightarrow> credit_refusal + unit" where
  "reject_zero_depth depth = (if depth = 0 then Inl ZeroDepth else Inr ())"

definition reject_unarmed :: "u32 \<Rightarrow> credit_refusal + unit" where
  "reject_unarmed epoch = (if epoch = 0 then Inl Unarmed else Inr ())"

definition is_full :: "credit_shared \<Rightarrow> bool" where
  "is_full w \<longleftrightarrow> ucast (cr_depth w) \<le> cr_outstanding w"

definition try_claim :: "credit_shared \<Rightarrow> bool" where
  "try_claim w \<longleftrightarrow> \<not> is_full w"

definition record_published_n :: "u64 \<Rightarrow> credit_shared \<Rightarrow> u64 \<times> credit_shared" where
  "record_published_n n w = (cr_outstanding w + n, w\<lparr>cr_outstanding := cr_outstanding w + n\<rparr>)"

definition record_published :: "credit_shared \<Rightarrow> u64 \<times> credit_shared" where
  "record_published = record_published_n 1"

text \<open>The flag is whether the kernel is asked to wake the parked.\<close>

definition note_credit_freed :: "credit_shared \<Rightarrow> bool \<times> credit_shared" where
  "note_credit_freed w = (cr_parked w \<noteq> 0, w\<lparr>cr_wake_seq := cr_wake_seq w + 1\<rparr>)"

definition record_drained :: "u64 \<Rightarrow> credit_shared \<Rightarrow> bool \<times> credit_shared" where
  "record_drained removed w =
     (if removed = 0 then (False, w)
      else note_credit_freed (w\<lparr>cr_outstanding := sat_sub (cr_outstanding w) removed\<rparr>))"

definition PARKED_MASK_BITS :: u32 where
  "PARKED_MASK_BITS = 32"

definition fits_mask :: "u32 \<Rightarrow> bool" where
  "fits_mask slot \<longleftrightarrow> slot < PARKED_MASK_BITS"

definition credit_park_enter :: "u32 \<Rightarrow> credit_shared \<Rightarrow> bool \<times> credit_shared" where
  "credit_park_enter slot w =
     (if \<not> fits_mask slot then (False, w)
      else (True, w\<lparr>cr_parked := or (cr_parked w) (push_bit (unat slot) 1)\<rparr>))"

definition clear_parked_producer :: "u32 \<Rightarrow> credit_shared \<Rightarrow> credit_shared" where
  "clear_parked_producer slot w =
     (if \<not> fits_mask slot then w
      else w\<lparr>cr_parked := and (cr_parked w) (not (push_bit (unat slot) 1))\<rparr>)"

definition credit_park_exit :: "u32 \<Rightarrow> credit_shared \<Rightarrow> credit_shared" where
  "credit_park_exit slot w =
     (if \<not> fits_mask slot then w
      else w\<lparr>cr_parked := and (cr_parked w) (not (push_bit (unat slot) 1))\<rparr>)"

section \<open>The gate of a producer\<close>

definition CREDIT_STALL_UNMOVED_OBSERVATIONS :: u32 where
  "CREDIT_STALL_UNMOVED_OBSERVATIONS = 1000"

record stall_watch =
  sw_last_seq :: u32
  sw_unmoved :: u32
  sw_latch :: failure_latch

definition new_stall_watch :: stall_watch where
  "new_stall_watch = \<lparr>sw_last_seq = 0, sw_unmoved = 0, sw_latch = latch_new\<rparr>"

datatype stall_report = Moving "u64 option" | Counting | Stalled regime_decision

definition report_moving :: "stall_watch \<Rightarrow> stall_report \<times> stall_watch" where
  "report_moving s = (let (recovered, l) = latch_on_success (sw_latch s) in (Moving recovered, s\<lparr>sw_latch := l\<rparr>))"

definition report_stalled :: "stall_watch \<Rightarrow> stall_report \<times> stall_watch" where
  "report_stalled s = (let (decision, l) = latch_on_failure (sw_latch s) in (Stalled decision, s\<lparr>sw_latch := l\<rparr>))"

text \<open>The counter in memory wraps; the value that the call compares and returns saturates.\<close>

definition observe_deferred :: "u32 \<Rightarrow> stall_watch \<Rightarrow> u32 \<times> stall_report \<times> stall_watch" where
  "observe_deferred seq s =
     (if sw_last_seq s \<noteq> seq
      then (0, report_moving (s\<lparr>sw_last_seq := seq, sw_unmoved := 0\<rparr>))
      else
        let n = sat_add (sw_unmoved s) 1; s1 = s\<lparr>sw_last_seq := seq, sw_unmoved := sw_unmoved s + 1\<rparr>
        in (n, if CREDIT_STALL_UNMOVED_OBSERVATIONS \<le> n then report_stalled s1 else (Counting, s1)))"

definition observe_below_threshold :: "stall_watch \<Rightarrow> stall_report \<times> stall_watch" where
  "observe_below_threshold s = report_moving (s\<lparr>sw_unmoved := 0\<rparr>)"

text \<open>One edge of a producer; \<open>ed_deferred\<close> and \<open>ed_regimes\<close> are the consumer's counters.\<close>

record block_edge =
  ed_threshold :: u64
  ed_armed :: bool
  ed_stall :: "stall_watch option"
  ed_deferred :: u64
  ed_regimes :: u64

definition observe_edge :: "credit_shared \<Rightarrow> block_edge \<Rightarrow> bool \<times> block_edge" where
  "observe_edge w e =
     (if ed_threshold e \<le> cr_outstanding w
      then (True, e\<lparr>ed_stall := map_option (\<lambda>s. snd (snd (observe_deferred (cr_wake_seq w) s))) (ed_stall e),
                   ed_armed := False,
                   ed_regimes := (if ed_armed e then ed_regimes e + 1 else ed_regimes e),
                   ed_deferred := ed_deferred e + 1\<rparr>)
      else (False, e\<lparr>ed_armed := True, ed_stall := map_option (\<lambda>s. snd (observe_below_threshold s)) (ed_stall e)\<rparr>))"

fun block_gate :: "(credit_shared \<times> block_edge) list \<Rightarrow> bool \<times> block_edge list" where
  "block_gate [] = (False, [])"
| "block_gate ((w, e) # es) =
     (let (d, e1) = observe_edge w e; (ds, es1) = block_gate es in (d \<or> ds, e1 # es1))"

definition compose_pre_fire_decision :: "bool \<Rightarrow> bool \<Rightarrow> ('s \<Rightarrow> bool \<times> 's) \<Rightarrow> 's \<Rightarrow> bool \<times> 's" where
  "compose_pre_fire_decision throttle_deferred replay_bypass block_deferred s =
     (if throttle_deferred then (True, s)
      else if replay_bypass then (False, s)
      else block_deferred s)"

text \<open>The composed closure: \<open>throttle\<close> holds the window, the fire count and the last fire of a throttled node.\<close>

definition pre_fire_check :: "(u64 \<times> u64 \<times> u64) option \<Rightarrow> bool \<Rightarrow> credit_shared list \<Rightarrow> u64 \<Rightarrow>
    block_edge list \<Rightarrow> bool \<times> block_edge list" where
  "pre_fire_check throttle bypass words now_ns edges =
     compose_pre_fire_decision
       (case throttle of Some (throttle_ns, fires, last_fire) \<Rightarrow> throttle_defers fires now_ns last_fire throttle_ns
        | None \<Rightarrow> False)
       bypass (\<lambda>es. block_gate (zip words es)) edges"

section \<open>Parking on the word\<close>

record park_edge =
  pk_threshold :: u64
  pk_baseline_full :: bool
  pk_baseline_seq :: u32

definition park_baseline :: "credit_shared \<Rightarrow> park_edge \<Rightarrow> park_edge" where
  "park_baseline w e = e\<lparr>pk_baseline_seq := cr_wake_seq w, pk_baseline_full := (pk_threshold e \<le> cr_outstanding w)\<rparr>"

definition credit_got :: "(credit_shared \<times> park_edge) list \<Rightarrow> bool" where
  "credit_got = list_ex (\<lambda>(w, e). pk_baseline_full e \<and>
     (cr_wake_seq w \<noteq> pk_baseline_seq e \<or> cr_outstanding w < pk_threshold e))"

section \<open>The debt of held frames\<close>

definition reconcile_block_slot_debt :: "bool \<Rightarrow> bool \<Rightarrow> bool \<Rightarrow> nat \<times> credit_shared \<Rightarrow> nat \<times> credit_shared" where
  "reconcile_block_slot_debt block_fifo frozen_is_sample next_is_some st =
     (case st of (debt, w) \<Rightarrow>
        if \<not> block_fifo then (debt, w)
        else
          let held = (if frozen_is_sample then 1 else 0) + (if next_is_some then 1 else 0)
          in if held = debt then (debt, w)
             else if debt < held then (held, snd (record_published_n (of_nat (held - debt)) w))
             else (held, snd (record_drained (of_nat (debt - held)) w)))"

section \<open>One access at a time\<close>

text \<open>
  The producer of an edge and its consumer, in two processes. The producer's phases: between ticks; admitted
  by the gate; a frame sent and not yet counted; its parked bit set; its snapshot taken; found full; asleep
  in the kernel; returned from the park. The consumer's: between drains; frames popped and not yet recorded;
  recorded, the epoch still to bump; the epoch bumped, the mask still to read; all recorded, the debt of the
  slots still to restate. Until it is restated, a popped frame that the matcher keeps is in nobody's count.
\<close>

datatype producer_phase =
    PWork | PAdmitted | PSent | PBitSet | PSnapped u32 | PFull u32 | PAsleep u32 | PWoken

datatype consumer_phase = CIdle | CPopped nat nat | CRing nat | CWake nat | CRestate nat

record credit_system =
  cs_word :: credit_shared
  cs_queue :: nat
  cs_debt :: nat
  cs_producer :: producer_phase
  cs_consumer :: consumer_phase

text \<open>
  A step of the producer. \<open>choice\<close> decides what the code leaves open: to park rather than to ask the gate,
  to publish nothing in a tick, to return from the kernel for no reason.
\<close>

definition producer_step :: "bool \<Rightarrow> credit_system \<Rightarrow> credit_system" where
  "producer_step choice s =
     (let w = cs_word s in
      case cs_producer s of
        PWork \<Rightarrow>
          if choice then s\<lparr>cs_word := snd (credit_park_enter 0 w), cs_producer := PBitSet\<rparr>
          else s\<lparr>cs_producer := (if try_claim w then PAdmitted else PWork)\<rparr>
      | PAdmitted \<Rightarrow>
          if choice then s\<lparr>cs_producer := PWork\<rparr> else s\<lparr>cs_queue := cs_queue s + 1, cs_producer := PSent\<rparr>
      | PSent \<Rightarrow> s\<lparr>cs_word := snd (record_published w), cs_producer := PWork\<rparr>
      | PBitSet \<Rightarrow> s\<lparr>cs_producer := PSnapped (cr_wake_seq w)\<rparr>
      | PSnapped snap \<Rightarrow> s\<lparr>cs_producer := (if is_full w then PFull snap else PWoken)\<rparr>
      | PFull snap \<Rightarrow> s\<lparr>cs_producer := (if cr_wake_seq w = snap then PAsleep snap else PWoken)\<rparr>
      | PAsleep snap \<Rightarrow> if choice then s\<lparr>cs_producer := PWoken\<rparr> else s
      | PWoken \<Rightarrow> s\<lparr>cs_word := credit_park_exit 0 w, cs_producer := PWork\<rparr>)"

text \<open>
  A step of the consumer. Its choices are how many frames the drain pops (popping none records nothing), how
  many of them the matcher keeps, at most one, and how many frames the slots hold when the debt is restated:
  a frame of the slots may have been served, and only a kept one can have entered them. A restatement upwards
  is one access; downwards it is a drain's record, which rings.
\<close>

definition woken :: "producer_phase \<Rightarrow> producer_phase" where
  "woken p = (case p of PAsleep _ \<Rightarrow> PWoken | _ \<Rightarrow> p)"

definition restate_access :: "nat \<Rightarrow> credit_system \<Rightarrow> credit_system" where
  "restate_access h s =
     (let w = cs_word s; debt = cs_debt s
      in if h = debt then s\<lparr>cs_consumer := CIdle\<rparr>
         else if debt < h
         then s\<lparr>cs_word := snd (record_published_n (of_nat (h - debt)) w), cs_debt := h, cs_consumer := CIdle\<rparr>
         else s\<lparr>cs_word := w\<lparr>cr_outstanding := sat_sub (cr_outstanding w) (of_nat (debt - h))\<rparr>, cs_debt := h,
                cs_consumer := CRing 0\<rparr>)"

definition consumer_step :: "nat \<times> nat \<times> nat \<Rightarrow> credit_system \<Rightarrow> credit_system" where
  "consumer_step choice s =
     (case choice of (pops, kept, held) \<Rightarrow>
      let w = cs_word s in
      case cs_consumer s of
        CIdle \<Rightarrow>
          let m = min pops (cs_queue s)
          in if m = 0 then s\<lparr>cs_consumer := CRestate 0\<rparr>
             else s\<lparr>cs_queue := cs_queue s - m, cs_consumer := CPopped m (min kept 1)\<rparr>
      | CPopped m k \<Rightarrow>
          s\<lparr>cs_word := w\<lparr>cr_outstanding := sat_sub (cr_outstanding w) (of_nat m)\<rparr>, cs_consumer := CRing k\<rparr>
      | CRing k \<Rightarrow> s\<lparr>cs_word := w\<lparr>cr_wake_seq := cr_wake_seq w + 1\<rparr>, cs_consumer := CWake k\<rparr>
      | CWake k \<Rightarrow>
          s\<lparr>cs_producer := (if cr_parked w \<noteq> 0 then woken (cs_producer s) else cs_producer s), cs_consumer := CRestate k\<rparr>
      | CRestate k \<Rightarrow> restate_access (min held (min 2 (cs_debt s + k))) s)"

definition new_edge :: "u32 \<Rightarrow> credit_system" where
  "new_edge depth = \<lparr>cs_word = new_credit depth, cs_queue = 0, cs_debt = 0, cs_producer = PWork, cs_consumer = CIdle\<rparr>"

inductive credit_run :: "u32 \<Rightarrow> nat \<Rightarrow> credit_system \<Rightarrow> bool" for depth :: u32 where
  Minted: "credit_run depth 0 (new_edge depth)"
| Producer: "credit_run depth k s \<Longrightarrow> credit_run depth (Suc k) (producer_step choice s)"
| Consumer: "credit_run depth k s \<Longrightarrow> credit_run depth (Suc k) (consumer_step c s)"

section \<open>The invariant\<close>

text \<open>Frames in flight on either side of the count, and the phases that hold the parked bit.\<close>

definition uncounted :: "producer_phase \<Rightarrow> nat" where
  "uncounted p = (if p = PSent then 1 else 0)"

definition unrecorded :: "consumer_phase \<Rightarrow> nat" where
  "unrecorded c = (case c of CPopped m _ \<Rightarrow> m | _ \<Rightarrow> 0)"

text \<open>Kept frames that are recorded as drained and not yet restated; a drain that is about to ring; a fire under way.\<close>

definition in_hand :: "consumer_phase \<Rightarrow> nat" where
  "in_hand c = (case c of CRing k \<Rightarrow> k | CWake k \<Rightarrow> k | CRestate k \<Rightarrow> k | _ \<Rightarrow> 0)"

definition rings :: "consumer_phase \<Rightarrow> bool" where
  "rings c = (case c of CRing _ \<Rightarrow> True | _ \<Rightarrow> False)"

definition wakes :: "consumer_phase \<Rightarrow> bool" where
  "wakes c = (case c of CWake _ \<Rightarrow> True | _ \<Rightarrow> False)"

definition publishing :: "producer_phase \<Rightarrow> nat" where
  "publishing p = (if p \<in> {PAdmitted, PSent} then 1 else 0)"

fun snapshot_of :: "producer_phase \<Rightarrow> u32 option" where
  "snapshot_of (PSnapped snap) = Some snap"
| "snapshot_of (PFull snap) = Some snap"
| "snapshot_of (PAsleep snap) = Some snap"
| "snapshot_of _ = None"

definition holds_bit :: "producer_phase \<Rightarrow> bool" where
  "holds_bit p \<longleftrightarrow> p \<notin> {PWork, PAdmitted, PSent}"

text \<open>
  A producer that found the word full knows that it still is, or that a drain is about to move the epoch off
  its snapshot, or that the epoch has moved; asleep, the last means that a drain is about to wake it.
\<close>

fun watched :: "credit_system \<Rightarrow> producer_phase \<Rightarrow> bool" where
  "watched s (PFull snap) = (cr_wake_seq (cs_word s) = snap \<longrightarrow> is_full (cs_word s) \<or> rings (cs_consumer s))"
| "watched s (PAsleep snap) =
     (if cr_wake_seq (cs_word s) = snap then is_full (cs_word s) \<or> rings (cs_consumer s) else wakes (cs_consumer s))"
| "watched s _ = True"

definition mirror_ok :: "u32 \<Rightarrow> credit_system \<Rightarrow> bool" where
  "mirror_ok depth s \<longleftrightarrow>
     (let w = cs_word s; p = cs_producer s; c = cs_consumer s; out = unat (cr_outstanding w);
          unserved = cs_queue s + unrecorded c + cs_debt s
      in cr_depth w = depth \<and> cs_debt s \<le> 2 \<and> in_hand c \<le> 1 \<and>
         unserved \<le> out + uncounted p \<and> out + uncounted p \<le> unserved + 1 \<and>
         out + publishing p + in_hand c \<le> unat depth + 1 \<and>
         out + publishing p \<le> unat depth + (if cs_debt s = 0 then 0 else 1) \<and>
         (publishing p = 1 \<longrightarrow> 1 \<le> unat depth) \<and>
         (\<forall>m k. c = CPopped m k \<longrightarrow> 1 \<le> m \<and> k \<le> 1))"

definition wake_ok :: "nat \<Rightarrow> credit_system \<Rightarrow> bool" where
  "wake_ok k s \<longleftrightarrow>
     (let w = cs_word s; p = cs_producer s
      in unat (cr_wake_seq w) \<le> k \<and> (\<forall>snap. snapshot_of p = Some snap \<longrightarrow> snap \<le> cr_wake_seq w) \<and>
         (holds_bit p \<longrightarrow> bit (cr_parked w) 0) \<and> watched s p)"

lemma is_full_unat: "is_full w \<longleftrightarrow> unat (cr_depth w) \<le> unat (cr_outstanding w)"
  using unat_lt_2p [of "cr_depth w"] by (simp add: is_full_def word_le_nat_alt unat_ucast_mod)

lemmas mirror_defs = mirror_ok_def Let_def uncounted_def unrecorded_def publishing_def in_hand_def
lemmas wake_defs = wake_ok_def Let_def holds_bit_def rings_def wakes_def

lemma mirror_ok_producer:
  assumes ok: "mirror_ok depth s"
  shows "mirror_ok depth (producer_step choice s)"
proof (cases "cs_producer s")
  case PSent
  have "unat (cr_outstanding (cs_word s)) + 1 < 2 ^ 64"
    using ok PSent unat_lt_2p [of depth] by (simp add: mirror_defs split: if_splits)
  then have "unat (cr_outstanding (cs_word s) + 1) = unat (cr_outstanding (cs_word s)) + 1" by (intro unat_add_1) simp
  then show ?thesis using ok PSent
    by (auto simp: mirror_defs producer_step_def record_published_def record_published_n_def)
qed (use ok in \<open>auto simp: mirror_defs producer_step_def try_claim_def is_full_unat credit_park_enter_def
    credit_park_exit_def split: if_splits\<close>)

lemma unat_sat_sub_of_nat: "n < 2 ^ 64 \<Longrightarrow> unat (sat_sub w (of_nat n :: u64)) = unat w - n"
  by (simp add: unat_sat_sub unat_of_nat_eq)

lemma mirror_ok_consumer:
  assumes ok: "mirror_ok depth s"
  shows "mirror_ok depth (consumer_step c s)"
proof -
  obtain pops kept held where c: "c = (pops, kept, held)" by (cases c)
  let ?w = "cs_word s" and ?out = "unat (cr_outstanding (cs_word s))"
  have small: "?out < 2 ^ 33" "uncounted (cs_producer s) \<le> publishing (cs_producer s)"
    "publishing (cs_producer s) \<le> 1"
    using ok unat_lt_2p [of depth] by (simp_all add: mirror_ok_def Let_def uncounted_def publishing_def split: if_splits)
  show ?thesis
  proof (cases "cs_consumer s")
    case CIdle
    then show ?thesis using ok c by (auto simp: mirror_defs consumer_step_def restate_access_def)
  next
    case (CPopped m k)
    then have "m < 2 ^ 64" using ok small by (simp add: mirror_ok_def Let_def unrecorded_def uncounted_def split: if_splits)
    note sub = unat_sat_sub_of_nat [OF this, of "cr_outstanding ?w"]
    show ?thesis using ok c CPopped sub small(2,3)
      by (auto simp: mirror_ok_def Let_def unrecorded_def in_hand_def consumer_step_def restate_access_def split: if_splits)
  next
    case (CRing k)
    then show ?thesis using ok c by (simp add: mirror_ok_def Let_def unrecorded_def in_hand_def consumer_step_def restate_access_def)
  next
    case (CWake k)
    then show ?thesis using ok c
      by (cases "cs_producer s") (auto simp: mirror_defs consumer_step_def restate_access_def woken_def)
  next
    case (CRestate k)
    let ?h = "min held (min 2 (cs_debt s + k))"
    have up: "unat (cr_outstanding ?w + of_nat d) = ?out + d" if "d \<le> 2" for d
      using that small(1) by (simp add: unat_word_ariths unat_of_nat_eq)
    have down: "unat (sat_sub (cr_outstanding ?w) (of_nat d)) = ?out - d" if "d \<le> 2" for d
      using that by (intro unat_sat_sub_of_nat) simp
    have d: "cs_debt s \<le> 2" "k \<le> 1" using ok CRestate by (simp_all add: mirror_ok_def Let_def in_hand_def)
    define h where "h = ?h"
    have h: "h \<le> 2" "h \<le> cs_debt s + k" by (simp_all add: h_def)
    consider "h = cs_debt s" | "cs_debt s < h" | "h < cs_debt s" by linarith
    then show ?thesis
    proof cases
      case 1
      then show ?thesis using ok CRestate c small(2,3)
        by (simp add: mirror_ok_def Let_def unrecorded_def in_hand_def consumer_step_def restate_access_def flip: h_def)
    next
      case 2
      then have step: "consumer_step c s = s\<lparr>cs_word := (cs_word s)\<lparr>cr_outstanding := cr_outstanding ?w + of_nat (h - cs_debt s)\<rparr>,
          cs_debt := h, cs_consumer := CIdle\<rparr>"
        using CRestate c by (simp add: consumer_step_def restate_access_def Let_def record_published_n_def flip: h_def)
      have one: "h = cs_debt s + 1" "k = 1" using 2 h d by linarith+
      have "unat (cr_outstanding ?w + of_nat (h - cs_debt s)) = ?out + 1" using up [of 1] by (simp add: one)
      then show ?thesis unfolding step using ok CRestate small(2,3) d h
        by (simp add: one del: of_nat_diff) (simp add: mirror_ok_def Let_def unrecorded_def in_hand_def split: if_splits)
    next
      case 3
      then have step: "consumer_step c s = s\<lparr>cs_word := (cs_word s)\<lparr>cr_outstanding := sat_sub (cr_outstanding ?w) (of_nat (cs_debt s - h))\<rparr>,
          cs_debt := h, cs_consumer := CRing 0\<rparr>"
        using CRestate c by (simp add: consumer_step_def restate_access_def Let_def flip: h_def)
      have "unat (sat_sub (cr_outstanding ?w) (of_nat (cs_debt s - h))) = ?out - (cs_debt s - h)" using down d by simp
      moreover have "publishing (cs_producer s) = 0 \<or> publishing (cs_producer s) = 1 \<and> 1 \<le> unat depth"
        using ok small(3) by (auto simp: mirror_ok_def Let_def)
      ultimately show ?thesis unfolding step using ok CRestate small(2) d h 3
        by (cases "h = 0") (auto simp: mirror_ok_def Let_def unrecorded_def in_hand_def)
    qed
  qed
qed

lemma wake_ok_producer: "wake_ok k s \<Longrightarrow> wake_ok (Suc k) (producer_step choice s)"
  by (cases "cs_producer s")
     (auto simp: wake_defs producer_step_def credit_park_enter_def fits_mask_def PARKED_MASK_BITS_def bit_or_iff
        push_bit_of_1 credit_park_exit_def record_published_def record_published_n_def split: if_splits)

lemma bit_0_nonzero: "bit (w :: 'a :: len word) 0 \<Longrightarrow> w \<noteq> 0"
  by auto

lemma wake_ok_consumer:
  assumes ok: "wake_ok k s" and k: "Suc k < 2 ^ 32" and m: "mirror_ok depth s"
  shows "wake_ok (Suc k) (consumer_step c s)"
proof -
  obtain pops kept held where c: "c = (pops, kept, held)" by (cases c)
  show ?thesis
  proof (cases "cs_consumer s")
    case (CRing h)
    have "unat (cr_wake_seq (cs_word s)) \<le> k" using ok by (simp add: wake_defs)
    then have "unat (cr_wake_seq (cs_word s) + 1) = unat (cr_wake_seq (cs_word s)) + 1"
      using k by (intro unat_add_1) simp
    then show ?thesis using ok CRing c
      by (cases "cs_producer s") (auto simp: wake_defs consumer_step_def restate_access_def is_full_unat word_le_nat_alt split: if_splits)
  next
    case (CWake h)
    then show ?thesis using ok c bit_0_nonzero [of "cr_parked (cs_word s)"]
      by (cases "cs_producer s") (auto simp: wake_defs consumer_step_def restate_access_def woken_def split: if_splits)
  next
    case CIdle
    then show ?thesis using ok c by (cases "cs_producer s") (auto simp: wake_defs consumer_step_def restate_access_def is_full_unat)
  next
    case (CPopped n h)
    then show ?thesis using ok c
      by (cases "cs_producer s") (auto simp: wake_defs consumer_step_def restate_access_def is_full_unat split: if_splits)
  next
    case (CRestate h)
    let ?h = "min held (min 2 (cs_debt s + h))"
    have "unat (cr_outstanding (cs_word s)) < 2 ^ 33"
      using m unat_lt_2p [of depth] by (simp add: mirror_ok_def Let_def split: if_splits)
    then have up: "unat (cr_outstanding (cs_word s) + of_nat d) = unat (cr_outstanding (cs_word s)) + d" if "d \<le> 2" for d
      using that by (simp add: unat_word_ariths unat_of_nat_eq)
    define h where "h = ?h"
    have "unat (cr_outstanding (cs_word s)) \<le> unat (cr_outstanding (cs_word s) + of_nat (h - cs_debt s))"
      using up [of "h - cs_debt s"] by (simp add: h_def)
    then show ?thesis using ok CRestate
      by (cases "cs_producer s")
         (auto simp: c wake_defs consumer_step_def restate_access_def is_full_unat record_published_n_def simp flip: h_def split: if_splits)
  qed
qed

lemma credit_run_mirror: "credit_run depth k s \<Longrightarrow> mirror_ok depth s"
proof (induction rule: credit_run.induct)
  case Minted
  show ?case by (simp add: mirror_defs new_edge_def new_credit_def)
qed (simp_all add: mirror_ok_producer mirror_ok_consumer)

lemma credit_run_wake: "credit_run depth k s \<Longrightarrow> k < 2 ^ 32 \<Longrightarrow> wake_ok k s"
proof (induction rule: credit_run.induct)
  case Minted
  show ?case by (simp add: wake_defs new_edge_def new_credit_def)
qed (simp_all add: wake_ok_producer wake_ok_consumer [OF _ _ credit_run_mirror])

section \<open>What the edge guarantees\<close>


definition credit_act :: "bool + nat \<times> nat \<times> nat \<Rightarrow> credit_system \<Rightarrow> credit_system" where
  "credit_act a s = (case a of Inl choice \<Rightarrow> producer_step choice s | Inr c \<Rightarrow> consumer_step c s)"

lemma credit_run_acts: "credit_run depth k s \<Longrightarrow> credit_run depth (k + length acts) (fold credit_act acts s)"
proof (induction acts arbitrary: k s)
  case (Cons a acts)
  have "credit_run depth (Suc k) (credit_act a s)"
    using Cons.prems by (auto simp: credit_act_def intro: credit_run.intros split: sum.splits)
  from Cons.IH [OF this] show ?case by simp
qed simp

lemma acts_run: "n = length acts \<Longrightarrow> credit_run depth n (fold credit_act acts (new_edge depth))"
  using credit_run_acts [OF credit_run.Minted, of depth acts] by simp

lemmas act_simps = credit_act_def producer_step_def consumer_step_def restate_access_def new_edge_def new_credit_def
  try_claim_def is_full_def record_published_def record_published_n_def credit_park_enter_def credit_park_exit_def
  fits_mask_def PARKED_MASK_BITS_def woken_def sat_sub_def

text \<open>A producer admitted between a pop and the restatement: two frames unserved on an edge of depth one.\<close>

definition early_admission :: "(bool + nat \<times> nat \<times> nat) list" where
  "early_admission = [Inl False, Inl False, Inl False, Inr (1, 1, 1), Inr (1, 1, 1), Inl False,
     Inr (1, 1, 1), Inr (1, 1, 1), Inr (1, 1, 1), Inl False, Inl False]"

lemma early_admission_passes_depth:
  "let s = fold credit_act early_admission (new_edge 1)
   in cs_queue s = 1 \<and> cs_debt s = 1 \<and> unat (cr_outstanding (cs_word s)) = 2"
  by (simp add: act_simps early_admission_def)


text \<open>
  C19. No wake is lost: a producer asleep on the word while there is room has a drain under way that wakes it,
  in at most two more accesses; when the consumer is between drains, a sleeping producer's edge is full.
\<close>

theorem blocked_producer_is_woken:
  assumes "credit_run depth k s" "k < 2 ^ 32" "cs_producer s = PAsleep snap"
  shows "(cs_consumer s = CIdle \<longrightarrow> is_full (cs_word s)) \<and>
    (try_claim (cs_word s) \<longrightarrow> cs_producer (consumer_step m (consumer_step n s)) = PWoken)"
proof -
  have ok: "wake_ok k s" by (rule credit_run_wake [OF assms(1,2)])
  then have "(\<exists>k. cs_consumer s = CRing k) \<or> (\<exists>k. cs_consumer s = CWake k)" if "try_claim (cs_word s)"
    using that assms(3) by (auto simp: wake_defs try_claim_def split: if_splits consumer_phase.splits)
  moreover have "cr_parked (cs_word s) \<noteq> 0" using ok assms(3) bit_0_nonzero by (auto simp: wake_defs)
  moreover have "cs_consumer s = CIdle \<longrightarrow> is_full (cs_word s)"
    using ok assms(3) by (auto simp: wake_defs split: if_splits)
  ultimately show ?thesis using assms(3) by (cases m; cases n) (auto simp: consumer_step_def restate_access_def woken_def Let_def)
qed

theorem blocked_producer_is_woken_witness:
  "cs_producer (fold credit_act [Inl False, Inl False, Inl False, Inl True, Inl False, Inl False, Inl False, Inr (1, 0, 0), Inr (1, 0, 0)] (new_edge 1)) =
     PAsleep 0 \<and>
   cs_producer (consumer_step (0, 0, 0) (consumer_step (0, 0, 0)
     (fold credit_act [Inl False, Inl False, Inl False, Inl True, Inl False, Inl False, Inl False, Inr (1, 0, 0), Inr (1, 0, 0)] (new_edge 1)))) = PWoken"
proof -
  let ?s = "fold credit_act [Inl False, Inl False, Inl False, Inl True, Inl False, Inl False, Inl False, Inr (1, 0, 0), Inr (1, 0, 0)] (new_edge 1)"
  have r: "credit_run 1 9 ?s" by (rule acts_run) simp
  have p: "cs_producer ?s = PAsleep 0" "try_claim (cs_word ?s)" by (simp_all add: act_simps)
  from blocked_producer_is_woken [OF r _ p(1)] p show ?thesis by simp
qed

text \<open>
  The count is raised after the frame is sent, so the consumer may pop a frame that is not yet counted. Its
  decrement then stops at zero and the count stays one too high for good. At depth one that is a full edge
  with nothing in its queue: no producer step and no drain ever changes it again.
\<close>

definition wedged :: "credit_system \<Rightarrow> bool" where
  "wedged s \<longleftrightarrow> cs_queue s = 0 \<and> cs_debt s = 0 \<and> is_full (cs_word s) \<and> cs_producer s \<notin> {PAdmitted, PSent} \<and>
     in_hand (cs_consumer s) = 0 \<and> (\<forall>m k. cs_consumer s \<noteq> CPopped m k)"

lemma wedged_stays: "wedged s \<Longrightarrow> wedged (credit_act a s)"
  by (auto simp: wedged_def credit_act_def producer_step_def consumer_step_def restate_access_def is_full_def try_claim_def woken_def in_hand_def
      credit_park_enter_def credit_park_exit_def Let_def split: producer_phase.splits consumer_phase.splits sum.splits prod.splits)

lemma wedged_forever: "wedged s \<Longrightarrow> wedged (fold credit_act acts s)"
  by (induction acts arbitrary: s) (simp_all add: wedged_stays)

lemma depth_one_edge_can_wedge:
  "wedged (fold credit_act acts (fold credit_act [Inl False, Inl False, Inr (1, 0, 0), Inr (1, 0, 0), Inr (1, 0, 0), Inr (1, 0, 0), Inl False] (new_edge 1)))"
proof -
  have "wedged (fold credit_act [Inl False, Inl False, Inr (1, 0, 0), Inr (1, 0, 0), Inr (1, 0, 0), Inr (1, 0, 0), Inl False] (new_edge 1))"
    by (simp add: wedged_def in_hand_def act_simps)
  then show ?thesis by (rule wedged_forever)
qed

section \<open>What the gate guarantees\<close>

text \<open>The regime_openings of an edge: the maximal runs of full observations, the first one if the edge was armed.\<close>

fun regime_openings :: "bool \<Rightarrow> bool list \<Rightarrow> nat" where
  "regime_openings ready [] = 0"
| "regime_openings ready (f # fs) = (if f \<and> ready then 1 else 0) + regime_openings (\<not> f) fs"

definition full_at :: "block_edge \<Rightarrow> credit_shared \<Rightarrow> bool" where
  "full_at e w \<longleftrightarrow> ed_threshold e \<le> cr_outstanding w"

definition watch_edge :: "credit_shared list \<Rightarrow> block_edge \<Rightarrow> block_edge" where
  "watch_edge ws e = fold (\<lambda>w e. snd (observe_edge w e)) ws e"

lemma watch_edge_counts:
  "ed_deferred (watch_edge ws e) = ed_deferred e + of_nat (length (filter (full_at e) ws)) \<and>
   ed_regimes (watch_edge ws e) = ed_regimes e + of_nat (regime_openings (ed_armed e) (map (full_at e) ws))"
proof (induction ws arbitrary: e)
  case (Cons w ws)
  have "full_at (snd (observe_edge w e)) = full_at e" by (auto simp: full_at_def observe_edge_def)
  then show ?case
    using Cons [of "snd (observe_edge w e)"] by (auto simp: watch_edge_def observe_edge_def full_at_def algebra_simps)
qed (simp add: watch_edge_def)

lemma block_gate_all: "block_gate es = (list_ex (\<lambda>(w, e). full_at e w) es, map (\<lambda>(w, e). snd (observe_edge w e)) es)"
  by (induction es rule: block_gate.induct) (auto simp: observe_edge_def full_at_def Let_def split: prod.splits)

text \<open>
  The gate before a fire: a node is deferred exactly when its throttle window is open or, outside a replay,
  one of its edges is full. Nothing is counted on the throttle's account or in a replay; else every edge is
  observed, also past the first full one.
\<close>

theorem pre_fire_gate_decides:
  assumes "length words = length edges"
  shows "pre_fire_check throttle bypass words now edges =
    (let throttled = (case throttle of Some (t, fires, fired) \<Rightarrow> 0 < fires \<and> unat now - unat fired < unat t | None \<Rightarrow> False)
     in if throttled \<or> bypass then (throttled, edges)
        else (\<exists>i < length edges. full_at (edges ! i) (words ! i),
              map2 (\<lambda>w e. snd (observe_edge w e)) words edges))"
proof -
  have "list_ex (\<lambda>(w, e). full_at e w) (zip words edges) = (\<exists>i < length edges. full_at (edges ! i) (words ! i))"
    using assms by (auto simp: list_ex_length)
  then show ?thesis
    by (auto simp: pre_fire_check_def compose_pre_fire_decision_def block_gate_all throttle_defers_def Let_def
        word_less_nat_alt unat_sat_sub split: option.splits prod.splits)
qed

definition sample_edge :: block_edge where
  "sample_edge = \<lparr>ed_threshold = 2, ed_armed = True, ed_stall = None, ed_deferred = 0, ed_regimes = 0\<rparr>"

theorem pre_fire_gate_decides_witness:
  "fst (pre_fire_check (Some (10, 1, 95)) False [(new_credit 2)\<lparr>cr_outstanding := 2\<rparr>] 100 [sample_edge]) \<and>
   pre_fire_check None False [(new_credit 2)\<lparr>cr_outstanding := 2\<rparr>] 100 [sample_edge] =
     (True, [sample_edge\<lparr>ed_armed := False, ed_regimes := 1, ed_deferred := 1\<rparr>])"
  using pre_fire_gate_decides [of "[(new_credit 2)\<lparr>cr_outstanding := 2\<rparr>]" "[sample_edge]" "Some (10, 1, 95)" False 100]
    pre_fire_gate_decides [of "[(new_credit 2)\<lparr>cr_outstanding := 2\<rparr>]" "[sample_edge]" None False 100]
  by (simp add: sample_edge_def full_at_def observe_edge_def)

text \<open>
  Over any observations of an edge the consumer's counters are exact: one deferral per full observation,
  one regime per maximal run of them.
\<close>

theorem deferrals_are_counted_exactly:
  "ed_deferred (watch_edge ws e) = ed_deferred e + of_nat (length (filter (full_at e) ws)) \<and>
   ed_regimes (watch_edge ws e) = ed_regimes e + of_nat (regime_openings (ed_armed e) (map (full_at e) ws))"
  by (rule watch_edge_counts)

section \<open>What the stall detector guarantees\<close>

definition stall_run :: "u32 \<Rightarrow> nat \<Rightarrow> stall_watch \<Rightarrow> stall_watch" where
  "stall_run seq n = (\<lambda>s. snd (snd (observe_deferred seq s))) ^^ n"

lemma stall_run_state:
  assumes "sw_last_seq s = seq" "sw_unmoved s = 0" "\<not> fl_failing (sw_latch s)" "n < 2 ^ 32 - 1"
  shows "sw_last_seq (stall_run seq n s) = seq \<and> unat (sw_unmoved (stall_run seq n s)) = n \<and>
    fl_failing (sw_latch (stall_run seq n s)) = (1000 \<le> n)"
  using assms(4)
proof (induction n)
  case 0
  then show ?case using assms by (simp add: stall_run_def)
next
  case (Suc n)
  let ?s = "stall_run seq n s"
  have ih: "sw_last_seq ?s = seq" "unat (sw_unmoved ?s) = n" "fl_failing (sw_latch ?s) = (1000 \<le> n)"
    using Suc by simp_all
  have n: "unat (sw_unmoved ?s + 1) = Suc n" using ih(2) Suc.prems by (subst unat_add_1) simp_all
  have "unat (sat_add (sw_unmoved ?s) 1) = Suc n" using ih(2) Suc.prems by (simp add: unat_sat_add)
  then have le: "CREDIT_STALL_UNMOVED_OBSERVATIONS \<le> sat_add (sw_unmoved ?s) 1 \<longleftrightarrow> 1000 \<le> Suc n"
    by (simp add: word_le_nat_alt CREDIT_STALL_UNMOVED_OBSERVATIONS_def)
  have "stall_run seq (Suc n) s = snd (snd (observe_deferred seq ?s))" by (simp add: stall_run_def)
  then show ?case
    using ih n le by (auto simp: observe_deferred_def report_stalled_def latch_on_failure_def Let_def split: prod.splits)
qed

text \<open>
  The stall detector separates a stopped consumer from a slow one: it speaks up only after a thousand
  deferred observations in a row without a single freeing drain, loudly the first time; an epoch that moved
  starts the count again.
\<close>

theorem stall_needs_a_thousand_still_observations:
  assumes "sw_last_seq s = seq" "sw_unmoved s = 0" "\<not> fl_failing (sw_latch s)" "n < 2 ^ 32 - 1"
  shows "(case observe_deferred seq (stall_run seq n s) of (count, report, _) \<Rightarrow> unat count = Suc n \<and>
      (report = Counting \<longleftrightarrow> Suc n < 1000) \<and> (report = Stalled Loud \<longleftrightarrow> Suc n = 1000)) \<and>
    (\<forall>seq'. seq' \<noteq> seq \<longrightarrow> fst (observe_deferred seq' (stall_run seq n s)) = 0 \<and>
       \<not> fl_failing (sw_latch (snd (snd (observe_deferred seq' (stall_run seq n s))))))"
proof -
  let ?s = "stall_run seq n s"
  note st = stall_run_state [OF assms]
  have c: "unat (sat_add (sw_unmoved ?s) 1) = Suc n" using st assms(4) by (simp add: unat_sat_add)
  then have "CREDIT_STALL_UNMOVED_OBSERVATIONS \<le> sat_add (sw_unmoved ?s) 1 \<longleftrightarrow> 1000 \<le> Suc n"
    by (simp add: word_le_nat_alt CREDIT_STALL_UNMOVED_OBSERVATIONS_def)
  then show ?thesis
    using st c by (auto simp: observe_deferred_def report_stalled_def report_moving_def latch_on_failure_def
        latch_on_success_def Let_def)
qed

theorem stall_needs_a_thousand_still_observations_witness:
  "unat (fst (observe_deferred 0 (stall_run 0 999 new_stall_watch))) = 1000 \<and>
   fst (snd (observe_deferred 0 (stall_run 0 999 new_stall_watch))) = Stalled Loud"
  using stall_needs_a_thousand_still_observations [of new_stall_watch 0 999]
  by (simp add: new_stall_watch_def latch_new_def split: prod.splits)

text \<open>The stored count wraps: after the longest stall it starts from zero, and the detector falls silent.\<close>

lemma stall_count_wraps:
  assumes "sw_last_seq s = seq" "sw_unmoved s = - 1"
  shows "fst (observe_deferred seq s) = - 1 \<and>
    (case observe_deferred seq (snd (snd (observe_deferred seq s))) of (count, report, _) \<Rightarrow> count = 1 \<and> report = Counting)"
  using assms by (auto simp: observe_deferred_def report_stalled_def CREDIT_STALL_UNMOVED_OBSERVATIONS_def sat_add_def
      unat_max_word word_le_nat_alt Let_def split: prod.splits)

section \<open>The debt keeps the count\<close>

text \<open>
  An input whose two ends run on one thread: what its queue and its slots hold. A publish is the one of a fire
  that the gate admits, and counts one frame; a drain pops \<open>n\<close> of the queue's frames, of which the matcher keeps
  those in its slots, and the debt is restated. Events that these rules exclude leave the edge as it is.
\<close>

record local_edge =
  le_queue :: nat
  le_frozen :: bool
  le_next :: bool
  le_debt :: nat
  le_word :: credit_shared

definition held :: "local_edge \<Rightarrow> nat" where
  "held e = (if le_frozen e then 1 else 0) + (if le_next e then 1 else 0)"

definition restate :: "local_edge \<Rightarrow> local_edge" where
  "restate e = (let (debt, w) = reconcile_block_slot_debt True (le_frozen e) (le_next e) (le_debt e, le_word e)
     in e\<lparr>le_debt := debt, le_word := w\<rparr>)"

datatype edge_event = Publish | Move nat bool bool

definition edge_step :: "edge_event \<Rightarrow> local_edge \<Rightarrow> local_edge" where
  "edge_step ev e =
     (case ev of
        Publish \<Rightarrow>
          if try_claim (le_word e)
          then e\<lparr>le_queue := le_queue e + 1, le_word := snd (record_published (le_word e))\<rparr> else e
      | Move n frozen staged \<Rightarrow>
          if le_queue e < n \<or> held e + n < held (e\<lparr>le_frozen := frozen, le_next := staged\<rparr>) then e
          else restate (e\<lparr>le_queue := le_queue e - n, le_frozen := frozen, le_next := staged,
                    le_word := snd (record_drained (of_nat n) (le_word e))\<rparr>))"

definition new_local_edge :: "u32 \<Rightarrow> local_edge" where
  "new_local_edge depth =
     \<lparr>le_queue = 0, le_frozen = False, le_next = False, le_debt = 0, le_word = new_credit depth\<rparr>"

definition edge_ok :: "u32 \<Rightarrow> local_edge \<Rightarrow> bool" where
  "edge_ok depth e \<longleftrightarrow> le_debt e = held e \<and> unat (cr_outstanding (le_word e)) = le_queue e + held e \<and>
     le_queue e + held e \<le> unat depth \<and> cr_depth (le_word e) = depth"

lemma record_drained_unat: "n < 2 ^ 64 \<Longrightarrow> unat (cr_outstanding (snd (record_drained (of_nat n) w))) = unat (cr_outstanding w) - n"
  by (auto simp: record_drained_def note_credit_freed_def unat_sat_sub unat_of_nat_eq
      dest: arg_cong [where f = unat])

lemma record_drained_depth [simp]: "cr_depth (snd (record_drained n w)) = cr_depth w"
  by (simp add: record_drained_def note_credit_freed_def)

lemma reconcile_spec:
  assumes "debt \<le> 2" "debt \<le> unat (cr_outstanding w)" "unat (cr_outstanding w) < 2 ^ 33"
    and "reconcile_block_slot_debt True f g (debt, w) = (debt', w')"
  shows "debt' = (if f then 1 else 0) + (if g then 1 else 0) \<and> cr_depth w' = cr_depth w \<and>
    unat (cr_outstanding w') + debt = unat (cr_outstanding w) + debt'"
proof -
  define h :: nat where "h = (if f then 1 else 0) + (if g then 1 else 0)"
  have up: "unat (cr_outstanding w + of_nat d) = unat (cr_outstanding w) + d" if "d \<le> 2" for d
    using that assms(3) by (simp add: unat_word_ariths unat_of_nat_eq)
  have down: "unat (cr_outstanding (snd (record_drained (of_nat d) w))) = unat (cr_outstanding w) - d" if "d \<le> 2" for d
    using that by (intro record_drained_unat) simp
  have r: "(debt', w') = (if h = debt then (debt, w)
      else if debt < h then (h, snd (record_published_n (of_nat (h - debt)) w))
      else (h, snd (record_drained (of_nat (debt - h)) w)))"
    using assms(4) by (simp add: reconcile_block_slot_debt_def flip: h_def)
  moreover have "h \<le> 2" by (simp add: h_def)
  ultimately show ?thesis
    using up [of "h - debt"] down [of "debt - h"] assms(1,2) unfolding h_def [symmetric]
    by (simp add: record_published_n_def del: of_nat_diff split: if_splits)
qed

lemma edge_step_ok:
  assumes ok: "edge_ok depth e"
  shows "edge_ok depth (edge_step ev e)"
proof (cases ev)
  case Publish
  have "unat (cr_outstanding (le_word e)) + 1 < 2 ^ 64"
    using ok unat_lt_2p [of depth] by (simp add: edge_ok_def)
  then have "unat (cr_outstanding (le_word e) + 1) = unat (cr_outstanding (le_word e)) + 1" by (intro unat_add_1) simp
  then show ?thesis
    using ok Publish by (auto simp: edge_ok_def edge_step_def held_def record_published_def record_published_n_def
        try_claim_def is_full_unat)
next
  case (Move n f g)
  define w where "w = snd (record_drained (of_nat n) (le_word e))"
  let ?h = "held (e\<lparr>le_frozen := f, le_next := g\<rparr>)"
  obtain debt' w' where r: "reconcile_block_slot_debt True f g (le_debt e, w) = (debt', w')" by fastforce
  show ?thesis
  proof (cases "le_queue e < n \<or> held e + n < ?h")
    case True
    then show ?thesis using ok Move by (simp add: edge_step_def)
  next
    case False
    have n: "n \<le> le_queue e" "le_queue e + held e < 2 ^ 32" using False ok unat_lt_2p [of depth] by (simp_all add: edge_ok_def)
    have w: "unat (cr_outstanding w) = le_queue e - n + held e" "cr_depth w = depth"
      using record_drained_unat [of n "le_word e"] n ok by (simp_all add: w_def edge_ok_def)
    have h: "le_debt e = held e" "held e \<le> 2" using ok by (simp_all add: edge_ok_def held_def)
    have s: "debt' = ?h \<and> cr_depth w' = cr_depth w \<and> unat (cr_outstanding w') + le_debt e = unat (cr_outstanding w) + debt'"
      using reconcile_spec [OF _ _ _ r] w n h by (simp add: held_def)
    moreover have "edge_step ev e = e\<lparr>le_queue := le_queue e - n, le_frozen := f, le_next := g, le_word := w', le_debt := debt'\<rparr>"
      using False Move r by (simp add: edge_step_def restate_def flip: w_def)
    moreover have "held (e\<lparr>le_queue := q, le_frozen := f, le_next := g, le_word := v, le_debt := d\<rparr>) = ?h" for q v d
      by (simp add: held_def)
    ultimately show ?thesis using w n(1) h(1) False ok by (simp add: edge_ok_def) linarith
  qed
qed

lemma edge_ok_admits: "edge_ok depth e \<Longrightarrow> try_claim (le_word e) \<longleftrightarrow> le_queue e + held e < unat depth"
  by (auto simp: edge_ok_def try_claim_def is_full_unat)

text \<open>
  C32. On an edge whose ends run on one thread the credit is exact: over any publishes that the gate admits, drains and
  restatements of the debt, the count is the number of frames in the queue and in the matcher's slots, they are at
  most the depth of the edge, and the gate admits the producer exactly when they are fewer.
\<close>

theorem local_credit_is_conserved:
  "let e = fold edge_step evs (new_local_edge depth)
   in le_debt e = held e \<and> unat (cr_outstanding (le_word e)) = le_queue e + held e \<and>
      le_queue e + held e \<le> unat depth \<and> (try_claim (le_word e) \<longleftrightarrow> le_queue e + held e < unat depth)"
proof -
  have "edge_ok depth e \<Longrightarrow> edge_ok depth (fold edge_step evs e)" for e
    by (induction evs arbitrary: e) (simp_all add: edge_step_ok)
  moreover have "edge_ok depth (new_local_edge depth)"
    by (simp add: edge_ok_def new_local_edge_def held_def new_credit_def)
  ultimately have "edge_ok depth (fold edge_step evs (new_local_edge depth))" by blast
  then show ?thesis using edge_ok_admits by (simp add: edge_ok_def Let_def)
qed

lemma held_frame_takes_room:
  "\<not> try_claim (le_word (fold edge_step [Publish, Move 1 True False, Publish] (new_local_edge 2)))"
  by (simp add: edge_step_def new_local_edge_def new_credit_def try_claim_def is_full_def record_published_def
      record_published_n_def record_drained_def note_credit_freed_def restate_def reconcile_block_slot_debt_def held_def
      sat_sub_def Let_def)

end
