(* ===== verification/AnchorPath.thy ===== *)
theory AnchorPath
  imports StateCapture RestorePlan FloodLatch
begin

text \<open>
  The anchor boundary of the runtime (\<open>take_anchor_inner\<close> in \<open>graph/runtime.rs\<close>): when an anchor is refused,
  what it publishes when it is taken, and that what it publishes comes back at the other end of the ring as
  the states of the nodes. It composes the inline walk, the framing of a blob, the records of the ring, the
  assembler and the readers.

  Reaping the previous child, and the child that captures the fork set, are process control and not modelled:
  whether a worker is busy, and whether the child is this process's own, are parameters.
\<close>

section \<open>The room precheck\<close>

definition ANCHOR_RING_HEADROOM_RECORDS :: nat where
  "ANCHOR_RING_HEADROOM_RECORDS = 64"

definition anchor_framing_bytes :: "node_framework_state list \<Rightarrow> nat" where
  "anchor_framing_bytes framework = (\<Sum>f \<leftarrow> framework. if framework_is_empty f then 16 else 20 + encoded_len f)"

definition anchor_ring_records_needed :: "nat \<Rightarrow> nat \<Rightarrow> nat \<Rightarrow> nat" where
  "anchor_ring_records_needed arena_len framing_bytes node_count =
     parts_for_len arena_len + (if framing_bytes = 0 then 0 else parts_for_len framing_bytes) + node_count +
     ANCHOR_RING_HEADROOM_RECORDS"

section \<open>Refusals\<close>

record anchor_skip_report =
  as_unpublished :: u64
  as_latch :: failure_latch

datatype skip_log = RoomAgain "u64 option" | Undeliverable regime_decision

definition note_skips :: "nat \<Rightarrow> anchor_skip_report \<Rightarrow> skip_log \<times> anchor_skip_report" where
  "note_skips unpublished r =
     (if unpublished = 0
      then (let (recovered, l) = latch_on_success (as_latch r) in (RoomAgain recovered, r\<lparr>as_latch := l\<rparr>))
      else (let (decision, l) = latch_on_failure (as_latch r)
            in (Undeliverable decision,
                r\<lparr>as_unpublished := as_unpublished r + of_nat unpublished, as_latch := l\<rparr>)))"

text \<open>The ring of this process; \<open>ar_room\<close> is whether the push of a refusal to a node finds room.\<close>

record anchor_ring =
  ar_run_id :: u64
  ar_rank :: u32
  ar_free_records :: "nat option"
  ar_room :: "u32 \<Rightarrow> bool"

definition push_anchor_skip_all ::
    "anchor_ring \<Rightarrow> u64 \<Rightarrow> u32 list \<Rightarrow> skip_cause \<Rightarrow> bytes \<Rightarrow> anchor_skip_report \<Rightarrow>
     bytes option list \<times> anchor_skip_report" where
  "push_anchor_skip_all ring step idxs cause detail report =
     (map (\<lambda>i. encode_skip_record (ar_run_id ring) step i (ar_rank ring) cause detail) (filter (ar_room ring) idxs),
      snd (note_skips (length (filter (\<lambda>i. \<not> ar_room ring i) idxs)) report))"

section \<open>The boundary\<close>

text \<open>A node of the ring's manifest: whether its mutex is held, how it captures, its shape, its framework state.\<close>

record anchor_node =
  an_node_idx :: u32
  an_locked :: bool
  an_target :: inline_target
  an_shape :: "u64 option"
  an_framework :: node_framework_state

definition write_frame :: "u64 \<Rightarrow> node_framework_state \<Rightarrow> capture" where
  "write_frame shape framework =
     (if framework_is_empty framework then write_header shape else write_header_with_framework shape framework)"

text \<open>The sink of the ring takes any write; the framing fails only by itself, and then no payload follows.\<close>

definition part_writes :: "u64 \<Rightarrow> node_framework_state \<Rightarrow> bytes \<Rightarrow> bytes list" where
  "part_writes shape framework payload =
     (case write_frame shape framework vec_sink of
        (Inr _, s) \<Rightarrow> [ss_bytes s, payload]
      | (Inl _, s) \<Rightarrow> [ss_bytes s])"

definition publish_anchor_part :: "anchor_ring \<Rightarrow> u64 \<Rightarrow> anchor_node list \<Rightarrow> nat \<times> bytes \<Rightarrow> bytes option list" where
  "publish_anchor_part ring step nodes part =
     (let n = nodes ! fst part in
      case an_shape n of
        None \<Rightarrow> []
      | Some shape \<Rightarrow>
          fst (sink_records (part_writes shape (an_framework n) (snd part))
            (new_chunker (ar_run_id ring) step (an_node_idx n) (ar_rank ring))))"

datatype anchor_taken =
    StillEncodingMemoed
  | AnchorRefused skip_cause
  | NothingToCapture
  | Captured inline_walk "bytes option list"

definition anchor_needs :: "nat \<Rightarrow> anchor_node list \<Rightarrow> nat" where
  "anchor_needs arena_len nodes =
     anchor_ring_records_needed arena_len (anchor_framing_bytes (map an_framework nodes)) (length nodes)"

definition take_anchor ::
    "bool \<Rightarrow> bool \<Rightarrow> anchor_ring \<Rightarrow> u64 \<Rightarrow> nat \<Rightarrow> anchor_node list \<Rightarrow> anchor_taken" where
  "take_anchor busy_workers ours ring step arena_len nodes =
     (if busy_workers then if ours then StillEncodingMemoed else AnchorRefused StillEncoding
      else if list_ex an_locked nodes then AnchorRefused Contended
      else if nodes = [] then NothingToCapture
      else if probe_quiescent (map an_target nodes) \<noteq> None then AnchorRefused Contended
      else if (case ar_free_records ring of Some free \<Rightarrow> free < anchor_needs arena_len nodes | None \<Rightarrow> False)
      then AnchorRefused RecorderBehind
      else
        let w = walk_inline arena_len (map an_target nodes)
        in Captured w (concat (map (publish_anchor_part ring step nodes) (iw_parts w))))"

section \<open>The records fit the room that was checked\<close>

lemma parts_for_len_le: "parts_for_len n \<le> Suc (n div STATE_RECORD_PAYLOAD)"
proof -
  have "(n + 472 - 1) div 472 \<le> (n + 472) div 472" by (rule div_le_mono) simp
  then have "(n + 472 - 1) div 472 \<le> Suc (n div 472)" by simp
  then show ?thesis by (simp add: parts_for_len_def STATE_RECORD_PAYLOAD_def)
qed

lemma parts_for_len_ge: "n \<le> STATE_RECORD_PAYLOAD * parts_for_len n"
proof -
  have "n \<le> 472 * ((n + 472 - 1) div 472)"
    using mult_div_mod_eq [of 472 "n + 472 - 1"] mod_less_divisor [of 472 "n + 472 - 1"] by linarith
  then show ?thesis by (simp add: parts_for_len_def STATE_RECORD_PAYLOAD_def)
qed

lemma parts_for_len_mono: "m \<le> n \<Longrightarrow> parts_for_len m \<le> parts_for_len n"
proof -
  assume "m \<le> n"
  then have "(m + 472 - 1) div 472 \<le> (n + 472 - 1) div 472" by (intro div_le_mono) simp
  moreover have "1 \<le> (n + 472 - 1) div 472" if "n \<noteq> 0" using div_le_mono [of 472 "n + 472 - 1" 472] that by simp
  ultimately show ?thesis using \<open>m \<le> n\<close> by (auto simp: parts_for_len_def STATE_RECORD_PAYLOAD_def)
qed

lemma sum_div_le: "(\<Sum>x \<leftarrow> xs. f x div k) \<le> (\<Sum>x \<leftarrow> xs. f x) div (k :: nat)"
proof (induction xs)
  case (Cons x xs)
  have "f x div k + (\<Sum>x \<leftarrow> xs. f x) div k \<le> (f x + (\<Sum>x \<leftarrow> xs. f x)) div k"
    using div_add1_eq [of "f x" "\<Sum>x \<leftarrow> xs. f x" k] by linarith
  then show ?case using Cons by simp
qed simp

lemma sum_parts_le: "(\<Sum>x \<leftarrow> xs. parts_for_len (f x)) \<le> (\<Sum>x \<leftarrow> xs. f x) div STATE_RECORD_PAYLOAD + length xs"
proof -
  have "(\<Sum>x \<leftarrow> xs. parts_for_len (f x)) \<le> (\<Sum>x \<leftarrow> xs. Suc (f x div STATE_RECORD_PAYLOAD))"
    by (rule sum_list_mono) (rule parts_for_len_le)
  also have "\<dots> = (\<Sum>x \<leftarrow> xs. f x div STATE_RECORD_PAYLOAD) + length xs"
    by (induction xs) simp_all
  finally show ?thesis using sum_div_le [of f STATE_RECORD_PAYLOAD xs] by linarith
qed

lemma sum_list_sub_distinct:
  "distinct is \<Longrightarrow> set is \<subseteq> {..< length xs} \<Longrightarrow> (\<Sum>i \<leftarrow> is. f (xs ! i)) \<le> (\<Sum>x \<leftarrow> xs. f x :: nat)" for "is" xs
proof -
  assume d: "distinct is" and s: "set is \<subseteq> {..< length xs}"
  have "(\<Sum>i \<leftarrow> is. f (xs ! i)) = (\<Sum>i \<in> set is. f (xs ! i))" using d by (simp add: sum_list_distinct_conv_sum_set)
  also have "\<dots> \<le> (\<Sum>i < length xs. f (xs ! i))" using s by (intro sum_mono2) auto
  also have "\<dots> = (\<Sum>x \<leftarrow> xs. f x)" by (simp add: sum_list_sum_nth atLeast0LessThan)
  finally show ?thesis .
qed

definition frame_bytes :: "u64 \<Rightarrow> node_framework_state \<Rightarrow> bytes" where
  "frame_bytes shape framework =
     (if framework_is_empty framework then ANCHOR_BLOB_MAGIC @ le64 shape
      else ANCHOR_BLOB_MAGIC_V2 @ le64 shape @ to_le 4 (encoded_len framework) @ framework_bytes framework)"

definition sections_fit :: "anchor_node \<Rightarrow> bool" where
  "sections_fit n \<longleftrightarrow> framework_ok (an_framework n) \<and> encoded_len (an_framework n) < 2 ^ 32"

lemma emits_frame:
  assumes "framework_ok fw" "encoded_len fw < 2 ^ 32"
  shows "emits (frame_bytes shape fw) (write_frame shape fw)"
proof -
  have m: "ANCHOR_BLOB_MAGIC \<noteq> []" "ANCHOR_BLOB_MAGIC_V2 \<noteq> []"
    by (simp_all add: ANCHOR_BLOB_MAGIC_def ANCHOR_BLOB_MAGIC_V2_def)
  have "emits (ANCHOR_BLOB_MAGIC @ le64 shape) (write_header shape)"
    unfolding write_header_def by (intro emits_and_then emits_put m to_le_4_nonempty)
  moreover have "emits (ANCHOR_BLOB_MAGIC_V2 @ le64 shape @ to_le 4 (encoded_len fw) @ framework_bytes fw)
      (write_header_with_framework shape fw)"
    using emits_framework [OF assms(1)] assms(2) unfolding write_header_with_framework_def write_u32_put [OF assms(2)]
    by (intro emits_and_then emits_put m to_le_4_nonempty) (simp_all add: to_le_numeral)
  ultimately show ?thesis by (simp add: frame_bytes_def write_frame_def)
qed

lemma part_writes_frame:
  assumes "sections_fit n"
  shows "part_writes shape (an_framework n) payload = [frame_bytes shape (an_framework n), payload]"
  using emits_frame [of "an_framework n" shape] assms
  by (simp add: sections_fit_def part_writes_def emits_def emits_live_def vec_sink_def has_room_def appended_def)

lemma length_frame: "length (frame_bytes shape fw) = (if framework_is_empty fw then 16 else 20 + encoded_len fw)"
  by (simp add: frame_bytes_def ANCHOR_BLOB_MAGIC_def ANCHOR_BLOB_MAGIC_V2_def le64_def length_framework_bytes)

lemma published_part:
  assumes "sections_fit (nodes ! i)"
  shows "publish_anchor_part ring step nodes (i, payload) =
    (case an_shape (nodes ! i) of None \<Rightarrow> []
     | Some shape \<Rightarrow> map Some (blob_records (new_chunker (ar_run_id ring) step (an_node_idx (nodes ! i)) (ar_rank ring))
         (frame_bytes shape (an_framework (nodes ! i)) @ payload)))"
  using part_writes_frame [OF assms, of _ payload]
  by (simp add: publish_anchor_part_def Let_def sink_records_blob new_chunker_def split: option.splits)

lemma length_blob_records: "length (blob_records c blob) = parts_for_len (length blob)"
proof -
  have "0 < length (pieces blob)" by simp
  then show ?thesis by (simp add: blob_records_def Let_def length_pieces)
qed

lemma length_published_part:
  assumes "sections_fit (nodes ! fst part)"
  shows "length (publish_anchor_part ring step nodes part) \<le>
    parts_for_len ((if framework_is_empty (an_framework (nodes ! fst part)) then 16
      else 20 + encoded_len (an_framework (nodes ! fst part))) + length (snd part))"
  using published_part [of nodes "fst part" ring step "snd part"] assms
  by (simp add: length_blob_records length_frame split: option.splits)

text \<open>
  C24. An anchor that is taken never waits for its recorder: over any nodes, whatever their encoders do to the
  sink, the records of its parts fit the room that was checked before the walk, with the margin to spare.
\<close>

theorem anchor_fits_the_ring:
  assumes "take_anchor busy ours ring step arena_len nodes = Captured w records"
    and "list_all (\<lambda>n. behaves (an_target n) \<and> sections_fit n) nodes"
  shows "length records + ANCHOR_RING_HEADROOM_RECORDS \<le> anchor_needs arena_len nodes \<and>
    (\<forall>free. ar_free_records ring = Some free \<longrightarrow> length records + ANCHOR_RING_HEADROOM_RECORDS \<le> free)"
proof -
  let ?parts = "iw_parts w"
  let ?frame = "\<lambda>n. if framework_is_empty (an_framework n) then 16 else 20 + encoded_len (an_framework n)"
  have w: "w = walk_inline arena_len (map an_target nodes)"
    and r: "records = concat (map (publish_anchor_part ring step nodes) ?parts)"
    and room: "\<forall>free. ar_free_records ring = Some free \<longrightarrow> anchor_needs arena_len nodes \<le> free"
    using assms(1) by (auto simp: take_anchor_def Let_def not_less split: if_splits option.splits)
  have "walk_books arena_len (length nodes) w"
    using walk_from_books [of "map an_target nodes" arena_len 0 start_walk] start_walk_books(1) assms(2)
    by (simp add: w walk_inline_def list_all_iff)
  then have used: "(\<Sum>p \<leftarrow> ?parts. length (snd p)) \<le> arena_len"
    and m: "mset (map fst ?parts @ map fst (iw_fork_set w)) = mset [0 ..< length nodes]"
    by (auto simp: walk_books_def)
  have "distinct (map fst ?parts @ map fst (iw_fork_set w))" using m by (metis distinct_upt mset_eq_imp_distinct_iff)
  then have d: "distinct (map fst ?parts)" by simp
  have "set (map fst ?parts @ map fst (iw_fork_set w)) = {0 ..< length nodes}" using mset_eq_setD [OF m] by simp
  then have i: "set (map fst ?parts) \<subseteq> {..< length nodes}" unfolding set_append by (metis Un_subset_iff atLeast0LessThan order_refl)
  have "length records = (\<Sum>p \<leftarrow> ?parts. length (publish_anchor_part ring step nodes p))"
    by (simp add: r length_concat comp_def)
  also have "\<dots> \<le> (\<Sum>p \<leftarrow> ?parts. parts_for_len (?frame (nodes ! fst p) + length (snd p)))"
  proof (rule sum_list_mono)
    fix p assume "p \<in> set ?parts"
    then have "sections_fit (nodes ! fst p)" using assms(2) i by (auto simp: list_all_length)
    then show "length (publish_anchor_part ring step nodes p) \<le> parts_for_len (?frame (nodes ! fst p) + length (snd p))"
      using length_published_part [of nodes p ring step] by simp
  qed
  also have "\<dots> \<le> (\<Sum>p \<leftarrow> ?parts. ?frame (nodes ! fst p) + length (snd p)) div STATE_RECORD_PAYLOAD + length ?parts"
    by (rule sum_parts_le)
  finally have a: "length records \<le> (\<Sum>p \<leftarrow> ?parts. ?frame (nodes ! fst p) + length (snd p)) div STATE_RECORD_PAYLOAD + length ?parts" .
  have "(\<Sum>p \<leftarrow> ?parts. ?frame (nodes ! fst p)) \<le> anchor_framing_bytes (map an_framework nodes)"
    using sum_list_sub_distinct [OF d i, of ?frame] by (simp add: anchor_framing_bytes_def comp_def)
  moreover have "(\<Sum>p \<leftarrow> ?parts. ?frame (nodes ! fst p) + length (snd p)) =
      (\<Sum>p \<leftarrow> ?parts. ?frame (nodes ! fst p)) + (\<Sum>p \<leftarrow> ?parts. length (snd p))"
    by (rule sum_list_addf)
  ultimately have "(\<Sum>p \<leftarrow> ?parts. ?frame (nodes ! fst p) + length (snd p)) \<le> anchor_framing_bytes (map an_framework nodes) + arena_len"
    using used by linarith
  also have "\<dots> \<le> STATE_RECORD_PAYLOAD * (parts_for_len arena_len +
      (if anchor_framing_bytes (map an_framework nodes) = 0 then 0 else parts_for_len (anchor_framing_bytes (map an_framework nodes))))"
    using parts_for_len_ge [of arena_len] parts_for_len_ge [of "anchor_framing_bytes (map an_framework nodes)"]
    by (simp add: distrib_left)
  finally have b: "(\<Sum>p \<leftarrow> ?parts. ?frame (nodes ! fst p) + length (snd p)) div STATE_RECORD_PAYLOAD \<le> parts_for_len arena_len +
      (if anchor_framing_bytes (map an_framework nodes) = 0 then 0 else parts_for_len (anchor_framing_bytes (map an_framework nodes)))"
    by (simp add: STATE_RECORD_PAYLOAD_def div_le_mono [of _ "472 * k" 472 for k, simplified])
  have "length ?parts \<le> length nodes" using mset_eq_length [OF m] by simp
  with a b room show ?thesis by (force simp: anchor_needs_def anchor_ring_records_needed_def)
qed

definition sample_ring :: anchor_ring where
  "sample_ring = \<lparr>ar_run_id = 1, ar_rank = 0, ar_free_records = Some 67, ar_room = (\<lambda>_. True)\<rparr>"

definition sample_anchor_node :: "inline_target \<Rightarrow> anchor_node" where
  "sample_anchor_node target = \<lparr>an_node_idx = 7, an_locked = False, an_target = target, an_shape = Some 9,
     an_framework = sample_framework\<rparr>"

lemma sample_fits: "sections_fit (sample_anchor_node target)" "encoded_len sample_framework = 72"
proof -
  show "encoded_len sample_framework = 72"
    by (simp add: encoded_len_def sample_framework_def default_framework_state_def wire_version_def has_capture_tail_def
        table_len_def)
  then show "sections_fit (sample_anchor_node target)"
    using sample_framework_ok by (simp add: sections_fit_def sample_anchor_node_def)
qed

lemma sample_framework_stated: "\<not> framework_is_empty sample_framework"
  by (simp add: framework_is_empty_def sample_framework_def default_framework_state_def has_capture_tail_def)

lemma sample_needs: "anchor_needs 10 [sample_anchor_node target] = 67"
  using sample_fits(2) sample_framework_stated
  by (simp add: anchor_needs_def anchor_ring_records_needed_def anchor_framing_bytes_def sample_anchor_node_def
      ANCHOR_RING_HEADROOM_RECORDS_def parts_for_len_def STATE_RECORD_PAYLOAD_def)

lemma sample_taken:
  assumes "it_probe target"
  shows "\<exists>records. take_anchor False True sample_ring 100 10 [sample_anchor_node target] = Captured (walk_inline 10 [target]) records"
  using assms sample_needs [of target]
  by (simp add: take_anchor_def sample_ring_def Let_def) (simp add: sample_anchor_node_def)

theorem anchor_fits_the_ring_witness:
  "\<exists>w records. take_anchor False True sample_ring 100 10 [sample_anchor_node panicking_node] = Captured w records \<and>
     length records + 64 \<le> 67"
proof -
  obtain records where t: "take_anchor False True sample_ring 100 10 [sample_anchor_node panicking_node] =
      Captured (walk_inline 10 [panicking_node]) records"
    using sample_taken [of panicking_node] by (auto simp: panicking_node_def)
  have "sink_run s (snd (sink_write [1, 2] s))" for s by (intro sr_write sr_done)
  then have "behaves panicking_node" by (simp add: behaves_def panicking_node_def)
  then have "list_all (\<lambda>n. behaves (an_target n) \<and> sections_fit n) [sample_anchor_node panicking_node]"
    using sample_fits by (simp add: sample_anchor_node_def)
  from anchor_fits_the_ring [OF t this] show ?thesis
    using t sample_needs by (auto simp: ANCHOR_RING_HEADROOM_RECORDS_def)
qed

section \<open>What is taken comes back\<close>

lemma in_order_completes:
  assumes "filter (record_of (chunker_key c)) rs = blob_records c blob" "parts_for_len (length blob) < 2 ^ 32"
    and "\<not> sa_armed a" "sa_open a (chunker_key c) = None"
  shows "events_of (chunker_key c) (fst (feed_all rs a)) =
    [Complete (chunker_key c) (of_nat (parts_for_len (length blob))) blob]"
  using rest_completes [of c rs "[]" "pieces blob" a] assms pieces_sizes [of blob]
  by (simp add: blob_records_def Let_def length_pieces pieces_concat)

lemma blob_records_key: "r \<in> set (blob_records c blob) \<Longrightarrow> record_of (chunker_key c) r"
  using blob_records_nth [of r c blob] piece_sizes(1) chunk_record_of by fastforce

lemma filter_concat_single:
  assumes "distinct (map fst ps)" "(i, x) \<in> set ps" "\<And>r. r \<in> set (f (i, x)) \<Longrightarrow> P r"
    and "\<And>j y r. (j, y) \<in> set ps \<Longrightarrow> j \<noteq> i \<Longrightarrow> r \<in> set (f (j, y)) \<Longrightarrow> \<not> P r"
  shows "filter P (concat (map f ps)) = f (i, x)"
  using assms
proof (induction ps)
  case (Cons q ps)
  obtain j y where q: "q = (j, y)" by force
  have none: "filter P (concat (map f qs)) = []" if "set qs \<subseteq> set (q # ps)" "i \<notin> fst ` set qs" for qs
    using that Cons.prems(4) by (force simp: filter_empty_conv)
  show ?case
  proof (cases "q = (i, x)")
    case True
    then have "filter P (concat (map f ps)) = []" using Cons.prems(1) by (intro none) auto
    then show ?thesis using True Cons.prems(3) by (simp add: filter_id_conv)
  next
    case False
    then have "(i, x) \<in> set ps" using Cons.prems(2) by simp
    then have "j \<noteq> i" using Cons.prems(1) q by force
    then have "filter P (f q) = []" using Cons.prems(4) q by (force simp: filter_empty_conv)
    moreover have "filter P (concat (map f ps)) = f (i, x)"
      using Cons.prems \<open>(i, x) \<in> set ps\<close> by (intro Cons.IH) auto
    ultimately show ?thesis by simp
  qed
qed simp

lemma walk_carriers:
  "distinct (map fst (iw_parts w)) \<Longrightarrow> \<forall>p \<in> set (iw_parts w). fst p < n \<Longrightarrow>
    distinct (map fst (iw_parts (walk_from arena_len n nodes w)))"
proof (induction nodes arbitrary: n w)
  case (Cons node nodes)
  have "iw_parts (walk_node arena_len n node w) = iw_parts w \<or>
      (\<exists>payload. iw_parts (walk_node arena_len n node w) = iw_parts w @ [(n, payload)])"
  proof (cases "it_capture node (bounded_sink (arena_len - bytes_used (iw_stats w)) (arena_len - bytes_used (iw_stats w)))")
    case (Pair outcome sink)
    then show ?thesis
      by (simp add: walk_node_def Let_def defer_node_def publish_part_def split: unwind_outcome.split sum.split)
  qed
  then show ?case using Cons.prems by (fastforce intro!: Cons.IH simp: less_Suc_eq)
qed simp

lemma framed_blob_decodes:
  assumes "sections_fit n"
  shows "\<exists>ab. decode_anchor (frame_bytes shape (an_framework n) @ payload) = Inr ab \<and>
    ab_state_shape ab = shape \<and> ab_payload ab = payload \<and>
    anchor_framework_state ab = Inr (if framework_is_empty (an_framework n) then None else Some (as_stated (an_framework n)))"
proof (cases "framework_is_empty (an_framework n)")
  case True
  then show ?thesis by (simp add: frame_bytes_def decode_anchor_plain anchor_framework_state_def)
next
  case False
  let ?fw = "an_framework n"
  have l: "length (framework_bytes ?fw) = encoded_len ?fw" "25 \<le> encoded_len ?fw"
    by (simp_all add: length_framework_bytes encoded_len_def)
  then have "framework_bytes ?fw \<noteq> []" by (metis list.size(3) not_numeral_le_zero)
  then show ?thesis
    using False assms l decode_anchor_framed [of "framework_bytes ?fw" shape payload]
      decode_framework_bytes [of ?fw "[]"]
    by (simp add: frame_bytes_def sections_fit_def anchor_framework_state_def)
qed

text \<open>A node of a state type, captured by the encoder of its type; \<open>s\<close> is the type and the value it holds.\<close>

definition holds_state :: "hash_order \<Rightarrow> nat \<Rightarrow> anchor_node \<Rightarrow> state_type \<times> state_value \<Rightarrow> bool" where
  "holds_state iter host n s \<longleftrightarrow> an_target n = node_capture_view iter s \<and>
     has_type host (fst s) (snd s) \<and> floored (fst s) \<and> sections_fit n"

lemma taken_parts:
  assumes "orders iter" "host \<le> 64" "list_all2 (holds_state iter host) nodes states"
    and "take_anchor busy ours ring step arena_len nodes = Captured w records"
  shows "records = concat (map (publish_anchor_part ring step nodes) (iw_parts w))" "distinct (map fst (iw_parts w))"
    and "(i, payload) \<in> set (iw_parts w) \<Longrightarrow>
      i < length nodes \<and> holds_state iter host (nodes ! i) (states ! i) \<and>
      payload = venc (fst (states ! i)) (snd (states ! i))"
proof -
  have t: "map an_target nodes = map (node_capture_view iter) states"
    using assms(3) by (auto simp: list_all2_conv_all_nth holds_state_def intro!: nth_equalityI)
  then have w: "w = walk_inline arena_len (map (node_capture_view iter) states)"
    and r: "records = concat (map (publish_anchor_part ring step nodes) (iw_parts w))"
    using assms(4) by (auto simp: take_anchor_def Let_def split: if_splits option.splits)
  show "records = concat (map (publish_anchor_part ring step nodes) (iw_parts w))" by (rule r)
  have typed: "\<forall>(t, v) \<in> set states. has_type host t v"
    using assms(3) by (fastforce simp: list_all2_conv_all_nth holds_state_def in_set_conv_nth)
  have walk: "typed_walk arena_len states (length states) w"
    using typed_walk_from [OF assms(1,2) typed, of 0 "length states" arena_len start_walk] start_walk_books
    by (force simp: w walk_inline_def start_walk_def)
  then show "(i, payload) \<in> set (iw_parts w) \<Longrightarrow>
      i < length nodes \<and> holds_state iter host (nodes ! i) (states ! i) \<and>
      payload = venc (fst (states ! i)) (snd (states ! i))"
    using assms(3) by (fastforce simp: typed_walk_def list_all2_conv_all_nth)
  show "distinct (map fst (iw_parts w))"
    using walk_carriers [of start_walk] by (simp add: w walk_inline_def start_walk_def)
qed

text \<open>
  C6. From the anchor that is taken to the state that is restored: when a reader drains the records that a
  boundary published for a node, all of them, once and in order, whatever it reads of other anchors in between, it
  hands out one blob, and the blob's shape is the node's, its section states the node's framework state, and its
  payload restores to the value that the node held.
  Each node holds a value of a type of the modelled fragment whose sequences have elements of a positive floor, with
  its locks free, and a framework state that fits its section (\<open>holds_state\<close>); the nodes have distinct indices; the blob
  has fewer than 2^32 parts; the reader is not armed for a join in the middle and has not begun this anchor.
\<close>

theorem captured_anchor_is_restored:
  assumes "orders iter" "host \<le> 64" "list_all2 (holds_state iter host) nodes states" "distinct (map an_node_idx nodes)"
    and "take_anchor busy ours ring step arena_len nodes = Captured w records"
    and "(i, payload) \<in> set (iw_parts w)" "an_shape (nodes ! i) = Some shape"
  defines "n \<equiv> nodes ! i" and "key \<equiv> (ar_run_id ring, step, an_node_idx (nodes ! i))"
  assumes "filter (record_of key) received = filter (record_of key) (map the records)"
    and "parts_for_len (20 + encoded_len (an_framework n) + length payload) < 2 ^ 32"
    and "\<not> sa_armed a" "sa_open a key = None"
  shows "\<exists>parts blob ab. events_of key (fst (feed_all received a)) = [Complete key parts blob] \<and>
    decode_anchor blob = Inr ab \<and> ab_state_shape ab = shape \<and>
    anchor_framework_state ab = Inr (if framework_is_empty (an_framework n) then None else Some (as_stated (an_framework n))) \<and>
    restore_blob (vread host (fst (states ! i))) (ab_payload ab) = Inr (snd (states ! i))"
proof -
  note taken = taken_parts [OF assms(1-3,5)]
  let ?c = "\<lambda>j. new_chunker (ar_run_id ring) step (an_node_idx (nodes ! j)) (ar_rank ring)"
  let ?blob = "frame_bytes shape (an_framework n) @ payload"
  have key: "chunker_key (?c j) = (ar_run_id ring, step, an_node_idx (nodes ! j))" for j
    by (simp add: chunker_key_def new_chunker_def)
  have i: "i < length nodes" "holds_state iter host n (states ! i)" "payload = venc (fst (states ! i)) (snd (states ! i))"
    using taken(3) [OF assms(6)] by (simp_all add: n_def)
  have fit: "sections_fit (nodes ! j)" "j < length nodes" if "(j, x) \<in> set (iw_parts w)" for j x
    using taken(3) [OF that] by (simp_all add: holds_state_def)
  let ?sent = "\<lambda>p. map the (publish_anchor_part ring step nodes p)"
  have sent: "r \<in> set (?sent (j, x)) \<Longrightarrow> record_of (chunker_key (?c j)) r" if "(j, x) \<in> set (iw_parts w)" for j x r
    using published_part [OF fit(1) [OF that], of ring step x] blob_records_key by (auto split: option.splits)
  have mine: "?sent (i, payload) = blob_records (?c i) ?blob"
    using published_part [OF fit(1) [OF assms(6)], of ring step payload] assms(7) by (simp add: comp_def n_def)
  have "filter (record_of key) (concat (map ?sent (iw_parts w))) = ?sent (i, payload)"
  proof (rule filter_concat_single [OF taken(2) assms(6)])
    show "r \<in> set (?sent (i, payload)) \<Longrightarrow> record_of key r" for r
      using sent [OF assms(6)] by (simp add: key key_def)
    show "\<not> record_of key r" if "(j, y) \<in> set (iw_parts w)" "j \<noteq> i" "r \<in> set (?sent (j, y))" for j y r
    proof -
      have "an_node_idx (nodes ! j) \<noteq> an_node_idx (nodes ! i)"
        using assms(4) that(2) fit(2) [OF that(1)] i(1) by (simp add: distinct_conv_nth)
      then show ?thesis using sent [OF that(1,3)] record_of_key [of _ r key] by (auto simp: key key_def)
    qed
  qed
  then have "filter (record_of (chunker_key (?c i))) received = blob_records (?c i) ?blob"
    using assms(10) taken(1) by (simp add: mine map_concat comp_def key flip: key_def)
  moreover have "parts_for_len (length ?blob) < 2 ^ 32"
  proof -
    have "length ?blob \<le> 20 + encoded_len (an_framework n) + length payload" by (simp add: length_frame)
    then have "parts_for_len (length ?blob) \<le> parts_for_len (20 + encoded_len (an_framework n) + length payload)"
      by (rule parts_for_len_mono)
    then show ?thesis using assms(11) by simp
  qed
  ultimately have e: "events_of key (fst (feed_all received a)) = [Complete key (of_nat (parts_for_len (length ?blob))) ?blob]"
    using in_order_completes [of "?c i" received ?blob a] assms(12,13) by (simp add: key flip: key_def)
  have "restore_blob (vread host (fst (states ! i))) payload = Inr (snd (states ! i))"
    using i paid_codec.restores [OF paid_type [OF assms(1,2)]] by (simp add: holds_state_def)
  then show ?thesis
    using e framed_blob_decodes [of n shape payload] i(2) by (auto simp: holds_state_def)
qed

theorem captured_anchor_is_restored_witness:
  "\<exists>w records parts blob ab.
     take_anchor False True sample_ring 100 10 [sample_anchor_node (node_capture_view sorted_order (TU8, VU8 5))] = Captured w records \<and>
     events_of (1, 100, 7) (fst (feed_all (map the records @ [[]]) passthrough)) = [Complete (1, 100, 7) parts blob] \<and>
     decode_anchor blob = Inr ab \<and> ab_state_shape ab = 9 \<and>
     anchor_framework_state ab = Inr (Some (sample_framework\<lparr>nf_input_service := Some []\<rparr>)) \<and>
     restore_blob (vread 64 TU8) (ab_payload ab) = Inr (VU8 5)"
proof -
  let ?n = "sample_anchor_node (node_capture_view sorted_order (TU8, VU8 5))"
  let ?w = "walk_inline 10 [node_capture_view sorted_order (TU8, VU8 5)]"
  obtain records where t: "take_anchor False True sample_ring 100 10 [?n] = Captured ?w records"
    using sample_taken [of "node_capture_view sorted_order (TU8, VU8 5)"] by (auto simp: node_capture_view_def)
  have p: "(0, [5]) \<in> set (iw_parts ?w)"
    by (simp add: walk_inline_def walk_node_def node_capture_view_def start_walk_def publish_part_def Let_def
        scalar_capture_def put_def sink_write_def bounded_sink_def has_room_def to_le_numeral)
  have h: "list_all2 (holds_state sorted_order 64) [?n] [(TU8, VU8 5)]"
    using sample_fits(1) by (simp add: holds_state_def) (simp add: sample_anchor_node_def)
  have "\<not> record_of (1, 100, 7) []" by (simp add: record_of_def)
  then show ?thesis
    using captured_anchor_is_restored [OF sorted_orders _ h _ t p, of 9 "map the records @ [[]]" passthrough] t
      sample_fits(2) sample_framework_stated
    by (simp add: sample_anchor_node_def sample_ring_def passthrough_def parts_for_len_def STATE_RECORD_PAYLOAD_def
        as_stated_def has_capture_tail_def) (simp add: sample_framework_def default_framework_state_def)
qed

end
