(* ===== verification/ShmRing.thy ===== *)
theory ShmRing
  imports Prelude Wire
begin

text \<open>
  The shared-memory ring of fixed-size records (\<open>shm_ring.rs\<close>): its header, creating and opening one, the
  producer with its two policies, a consumer's drain and commit, and then both as an interleaving: a record
  is copied into its slot one byte at a time, and read out of it one byte at a time.

  The interleaving is of accesses to a sequentially consistent memory. The mapping, its name and the clock of
  a wait are not modelled; whether a wait has expired is a choice of the run. \<open>MAGIC\<close> is there or not.
\<close>

section \<open>The segment\<close>

datatype overrun_policy = FailLoud | Backpressure

fun policy_as_wire :: "overrun_policy \<Rightarrow> u32" where
  "policy_as_wire FailLoud = 0"
| "policy_as_wire Backpressure = 1"

definition policy_from_wire :: "u32 \<Rightarrow> overrun_policy option" where
  "policy_from_wire raw = (if raw = 0 then Some FailLoud else if raw = 1 then Some Backpressure else None)"

definition MANIFEST_CAPACITY :: nat where "MANIFEST_CAPACITY = 64 * 1024"

definition RING_HEADER_SIZE :: nat where "RING_HEADER_SIZE = 64 + MANIFEST_CAPACITY"

definition RING_MAGIC :: u64 where "RING_MAGIC = 0x4345525F52494E47"

definition RING_VERSION :: u32 where "RING_VERSION = 1"

record shm_ring =
  sh_magic :: u64
  sh_version :: u32
  sh_record_size :: u32
  sh_capacity :: u32
  sh_rank :: u32
  sh_overrun_policy :: u32
  sh_generation :: u64
  sh_write_cursor :: u64
  sh_manifest :: bytes
  sh_degraded_sections :: u32
  sh_read_cursor :: u64
  sh_data :: bytes

datatype ring_error =
    RecordSizeZero | CapacityZero | CapacityNotPowerOfTwo u32 | ManifestTooLong nat
  | SegmentTooSmall nat | BadMagic u64 | UnsupportedVersion u32
  | CommitBeyondAvailable u64 u64
  | Overrun u64 u64 u64 u64

definition is_power_of_two :: "u32 \<Rightarrow> bool" where
  "is_power_of_two n \<longleftrightarrow> n \<noteq> 0 \<and> and n (n - 1) = 0"

definition segment_size :: "u32 \<Rightarrow> u32 \<Rightarrow> nat" where
  "segment_size record_size capacity = RING_HEADER_SIZE + unat record_size * unat capacity"

definition create_ring :: "u32 \<Rightarrow> u32 \<Rightarrow> u32 \<Rightarrow> bytes \<Rightarrow> overrun_policy \<Rightarrow> u32 \<Rightarrow> u64 \<Rightarrow> ring_error + shm_ring" where
  "create_ring record_size capacity rank manifest policy degraded_sections generation =
     (if record_size = 0 then Inl RecordSizeZero
      else if capacity = 0 then Inl CapacityZero
      else if \<not> is_power_of_two capacity then Inl (CapacityNotPowerOfTwo capacity)
      else if MANIFEST_CAPACITY < length manifest then Inl (ManifestTooLong (length manifest))
      else Inr \<lparr>sh_magic = RING_MAGIC, sh_version = RING_VERSION, sh_record_size = record_size,
        sh_capacity = capacity, sh_rank = rank, sh_overrun_policy = policy_as_wire policy,
        sh_generation = generation, sh_write_cursor = 0, sh_manifest = manifest,
        sh_degraded_sections = degraded_sections, sh_read_cursor = 0,
        sh_data = replicate (unat capacity * unat record_size) 0\<rparr>)"

text \<open>What an opener checks of a segment of \<open>mapped\<close> bytes before it trusts the header.\<close>

definition check_segment :: "nat \<Rightarrow> shm_ring \<Rightarrow> ring_error + unit" where
  "check_segment mapped r =
     (if mapped < RING_HEADER_SIZE then Inl (SegmentTooSmall mapped)
      else if sh_magic r \<noteq> RING_MAGIC then Inl (BadMagic (sh_magic r))
      else if sh_version r \<noteq> RING_VERSION then Inl (UnsupportedVersion (sh_version r))
      else if sh_record_size r = 0 then Inl RecordSizeZero
      else if sh_capacity r = 0 \<or> \<not> is_power_of_two (sh_capacity r) then Inl (CapacityNotPowerOfTwo (sh_capacity r))
      else if mapped < segment_size (sh_record_size r) (sh_capacity r) then Inl (SegmentTooSmall mapped)
      else if MANIFEST_CAPACITY < length (sh_manifest r) then Inl (ManifestTooLong (length (sh_manifest r)))
      else Inr ())"

section \<open>Room\<close>

definition backpressure_must_wait :: "u64 \<Rightarrow> u64 \<Rightarrow> u64 \<Rightarrow> bool" where
  "backpressure_must_wait local_write read_cursor capacity \<longleftrightarrow> capacity \<le> sat_sub local_write read_cursor"

definition backpressure_free_records :: "u64 \<Rightarrow> u64 \<Rightarrow> u64 \<Rightarrow> u64" where
  "backpressure_free_records local_write read_cursor capacity = sat_sub capacity (sat_sub local_write read_cursor)"

section \<open>The producer\<close>

datatype push_phase = PIdle | PAwait bytes | PCopy bytes nat

record shm_producer =
  pd_local_write :: u64
  pd_waits :: u64
  pd_wait_timeouts :: u64
  pd_phase :: push_phase

definition ring_capacity :: "shm_ring \<Rightarrow> u64" where
  "ring_capacity r = ucast (sh_capacity r)"

definition blocks :: "shm_ring \<Rightarrow> bool" where
  "blocks r \<longleftrightarrow> policy_from_wire (sh_overrun_policy r) = Some Backpressure"

definition must_wait :: "shm_ring \<Rightarrow> shm_producer \<Rightarrow> bool" where
  "must_wait r p \<longleftrightarrow> blocks r \<and> backpressure_must_wait (pd_local_write p) (sh_read_cursor r) (ring_capacity r)"

definition free_records :: "shm_ring \<Rightarrow> shm_producer \<Rightarrow> u64 option" where
  "free_records r p =
     (if \<not> blocks r then None
      else Some (backpressure_free_records (pd_local_write p) (sh_read_cursor r) (ring_capacity r)))"

text \<open>The entry of \<open>push\<close> (a record of another size is a panic), the tries of \<open>try_push\<close>, the repair after a fork.\<close>

definition push_record :: "bytes \<Rightarrow> shm_ring \<Rightarrow> shm_producer \<Rightarrow> shm_producer option" where
  "push_record rec r p =
     (if length rec \<noteq> unat (sh_record_size r) then None
      else Some (p\<lparr>pd_phase := (if must_wait r p then PAwait rec else PCopy rec 0)\<rparr>))"

definition try_push_record :: "bytes \<Rightarrow> shm_ring \<Rightarrow> shm_producer \<Rightarrow> (bool \<times> shm_producer) option" where
  "try_push_record rec r p =
     (if length rec \<noteq> unat (sh_record_size r) then None
      else if must_wait r p then Some (False, p)
      else map_option (Pair True) (push_record rec r p))"

definition resync_after_fork :: "shm_ring \<Rightarrow> shm_producer \<Rightarrow> u64 \<times> shm_producer" where
  "resync_after_fork r p = (sh_write_cursor r, p\<lparr>pd_local_write := sh_write_cursor r\<rparr>)"

text \<open>One access of a push: a check of the room, a byte of the copy, or the cursor.\<close>

definition await_room :: "bool \<Rightarrow> bytes \<Rightarrow> shm_ring \<Rightarrow> shm_producer \<Rightarrow> shm_producer" where
  "await_room expired rec r p =
     (if \<not> must_wait r p then p\<lparr>pd_waits := pd_waits p + 1, pd_phase := PCopy rec 0\<rparr>
      else if expired
      then p\<lparr>pd_wait_timeouts := pd_wait_timeouts p + 1, pd_waits := pd_waits p + 1, pd_phase := PCopy rec 0\<rparr>
      else p)"

definition push_access :: "bool \<Rightarrow> shm_ring \<Rightarrow> shm_producer \<Rightarrow> shm_ring \<times> shm_producer" where
  "push_access expired r p =
     (case pd_phase p of
        PIdle \<Rightarrow> (r, p)
      | PAwait rec \<Rightarrow> (r, await_room expired rec r p)
      | PCopy rec n \<Rightarrow>
          let record_size = unat (sh_record_size r); idx = unat (pd_local_write p mod ring_capacity r)
          in if n < record_size
             then (r\<lparr>sh_data := (sh_data r)[idx * record_size + n := rec ! n]\<rparr>, p\<lparr>pd_phase := PCopy rec (n + 1)\<rparr>)
             else (r\<lparr>sh_write_cursor := pd_local_write p + 1\<rparr>,
                   p\<lparr>pd_local_write := pd_local_write p + 1, pd_phase := PIdle\<rparr>))"

section \<open>The consumer\<close>

definition overrun :: "u64 \<Rightarrow> u64 \<Rightarrow> u64 \<Rightarrow> ring_error" where
  "overrun read write capacity = Overrun (sat_sub (write - read) capacity) read write capacity"

definition unread_regions :: "u64 \<Rightarrow> shm_ring \<Rightarrow> ring_error + u64 \<times> nat \<times> nat \<times> nat" where
  "unread_regions read r =
     (let write = sh_write_cursor r; unread = write - read; capacity = ring_capacity r;
          record_size = unat (sh_record_size r)
      in if capacity < unread then Inl (overrun read write capacity)
         else
           let start_idx = unat (read mod capacity); count = unat unread;
               first = min count (unat capacity - start_idx); second = count - first
           in Inr (write, start_idx * record_size, first * record_size, second * record_size))"

definition commit_drain :: "u64 \<Rightarrow> u64 \<Rightarrow> shm_ring \<Rightarrow> ring_error + u64" where
  "commit_drain n_records read r =
     (let write = sh_write_cursor r; capacity = ring_capacity r
      in if capacity < write - read then Inl (overrun read write capacity)
         else if write - read < n_records then Inl (CommitBeyondAvailable n_records (write - read))
         else Inr (read + n_records))"

definition publish_read_cursor :: "u64 \<Rightarrow> shm_ring \<Rightarrow> shm_ring" where
  "publish_read_cursor read r = (if blocks r then r\<lparr>sh_read_cursor := read\<rparr> else r)"

section \<open>Producer and consumer interleaved\<close>

text \<open>
  A consumer between calls, on its way through an attach or a commit, or with the slices of a drain in hand,
  of which it has read the bytes \<open>taken\<close>. A detached one has not opened the ring.
\<close>

datatype drain_phase =
    Detached
  | Opened bool
  | ReadLive
  | Publishing
  | Ready
  | Draining u64 nat nat nat bytes

record shm_consumer =
  cn_read_cursor :: u64
  cn_phase :: drain_phase

datatype drain_move = Attach bool | Go | Commit u64

text \<open>The \<open>j\<close>-th byte of the two slices of a drain.\<close>

definition slice_byte :: "shm_ring \<Rightarrow> nat \<Rightarrow> nat \<Rightarrow> nat \<Rightarrow> u8" where
  "slice_byte r off1 len1 j = (if j < len1 then sh_data r ! (off1 + j) else sh_data r ! (j - len1))"

definition drain_access :: "drain_move \<Rightarrow> shm_ring \<Rightarrow> shm_consumer \<Rightarrow> shm_ring \<times> shm_consumer" where
  "drain_access move r c =
     (case (move, cn_phase c) of
        (Attach live, Detached) \<Rightarrow> (r, c\<lparr>cn_read_cursor := 0, cn_phase := Opened live\<rparr>)
      | (Go, Opened live) \<Rightarrow>
          (publish_read_cursor (cn_read_cursor c) r, c\<lparr>cn_phase := (if live then ReadLive else Ready)\<rparr>)
      | (Go, ReadLive) \<Rightarrow> (r, c\<lparr>cn_read_cursor := sh_write_cursor r, cn_phase := Publishing\<rparr>)
      | (Go, Publishing) \<Rightarrow> (publish_read_cursor (cn_read_cursor c) r, c\<lparr>cn_phase := Ready\<rparr>)
      | (Go, Ready) \<Rightarrow>
          (case unread_regions (cn_read_cursor c) r of
             Inl e \<Rightarrow> (r, c)
           | Inr (seen, off1, len1, len2) \<Rightarrow> (r, c\<lparr>cn_phase := Draining seen off1 len1 len2 []\<rparr>))
      | (Go, Draining seen off1 len1 len2 taken) \<Rightarrow>
          if length taken < len1 + len2
          then (r, c\<lparr>cn_phase := Draining seen off1 len1 len2 (taken @ [slice_byte r off1 len1 (length taken)])\<rparr>)
          else (r, c)
      | (Commit n, Draining seen off1 len1 len2 taken) \<Rightarrow>
          if unat n * unat (sh_record_size r) \<le> length taken
          then (case commit_drain n (cn_read_cursor c) r of
                  Inl e \<Rightarrow> (r, c\<lparr>cn_phase := Ready\<rparr>)
                | Inr read \<Rightarrow> (r, c\<lparr>cn_read_cursor := read, cn_phase := Publishing\<rparr>))
          else (r, c)
      | _ \<Rightarrow> (r, c))"

text \<open>
  The two over one ring; \<open>rs_pushed\<close> are the records published so far, \<open>rs_start\<close> how many of them precede
  the consumer's attach, \<open>rs_handed\<close> the bytes of the drains it committed.
\<close>

record ring_system =
  rs_ring :: shm_ring
  rs_producer :: shm_producer
  rs_consumer :: shm_consumer
  rs_pushed :: "bytes list"
  rs_start :: nat
  rs_handed :: bytes

datatype ring_move = Push bytes | Produce bool | Consume drain_move

definition produce :: "bool \<Rightarrow> ring_system \<Rightarrow> ring_system" where
  "produce expired s =
     (case push_access expired (rs_ring s) (rs_producer s) of (r, p) \<Rightarrow>
        s\<lparr>rs_ring := r, rs_producer := p,
          rs_pushed := (case pd_phase (rs_producer s) of
              PCopy rec n \<Rightarrow> if pd_phase p = PIdle then rs_pushed s @ [rec] else rs_pushed s
            | _ \<Rightarrow> rs_pushed s)\<rparr>)"

definition start_push :: "bytes \<Rightarrow> ring_system \<Rightarrow> ring_system" where
  "start_push rec s =
     (if pd_phase (rs_producer s) \<noteq> PIdle then s
      else case push_record rec (rs_ring s) (rs_producer s) of None \<Rightarrow> s | Some p \<Rightarrow> s\<lparr>rs_producer := p\<rparr>)"

definition consume :: "drain_move \<Rightarrow> ring_system \<Rightarrow> ring_system" where
  "consume move s =
     (case drain_access move (rs_ring s) (rs_consumer s) of (r, c) \<Rightarrow>
        s\<lparr>rs_ring := r, rs_consumer := c,
          rs_start := (if cn_phase (rs_consumer s) = ReadLive \<and> move = Go then unat (cn_read_cursor c) else rs_start s),
          rs_handed := (case (move, cn_phase (rs_consumer s)) of
              (Commit n, Draining seen off1 len1 len2 taken) \<Rightarrow>
                if cn_phase c = Publishing then rs_handed s @ take (unat n * unat (sh_record_size r)) taken else rs_handed s
            | _ \<Rightarrow> rs_handed s)\<rparr>)"

definition ring_step :: "ring_move \<Rightarrow> ring_system \<Rightarrow> ring_system" where
  "ring_step m s = (case m of Push rec \<Rightarrow> start_push rec s | Produce expired \<Rightarrow> produce expired s | Consume move \<Rightarrow> consume move s)"

definition new_ring_system :: "shm_ring \<Rightarrow> ring_system" where
  "new_ring_system r = \<lparr>rs_ring = r,
     rs_producer = \<lparr>pd_local_write = 0, pd_waits = 0, pd_wait_timeouts = 0, pd_phase = PIdle\<rparr>,
     rs_consumer = \<lparr>cn_read_cursor = 0, cn_phase = Detached\<rparr>, rs_pushed = [], rs_start = 0, rs_handed = []\<rparr>"

inductive ring_run :: "shm_ring \<Rightarrow> nat \<Rightarrow> ring_system \<Rightarrow> bool" for r0 :: shm_ring where
  Created: "ring_run r0 0 (new_ring_system r0)"
| Access: "ring_run r0 k s \<Longrightarrow> ring_run r0 (Suc k) (ring_step m s)"

section \<open>The slots hold what was pushed\<close>

definition cell :: "nat \<Rightarrow> nat \<Rightarrow> shm_ring \<Rightarrow> nat \<Rightarrow> nat \<Rightarrow> u8" where
  "cell C R r i b = sh_data r ! (i mod C * R + b)"

text \<open>
  After \<open>W\<close> pushes, byte \<open>b\<close> of record \<open>i\<close> is still in its slot: the record a capacity later has not been
  started, or its copy has not come to that byte.
\<close>

definition untouched :: "nat \<Rightarrow> nat \<Rightarrow> push_phase \<Rightarrow> nat \<Rightarrow> nat \<Rightarrow> bool" where
  "untouched C W ph i b \<longleftrightarrow> W < i + C \<or> W = i + C \<and> (case ph of PCopy rec n \<Rightarrow> n \<le> b | _ \<Rightarrow> True)"

definition writer_ok :: "nat \<Rightarrow> nat \<Rightarrow> shm_ring \<Rightarrow> shm_producer \<Rightarrow> bytes list \<Rightarrow> bool" where
  "writer_ok C R r p ps \<longleftrightarrow>
     unat (sh_capacity r) = C \<and> unat (sh_record_size r) = R \<and> length (sh_data r) = C * R \<and>
     pd_local_write p = of_nat (length ps) \<and> sh_write_cursor r = of_nat (length ps) \<and>
     (\<forall>x \<in> set ps. length x = R) \<and>
     (case pd_phase p of PIdle \<Rightarrow> True | PAwait rec \<Rightarrow> length rec = R
      | PCopy rec n \<Rightarrow> length rec = R \<and> n \<le> R \<and> (\<forall>b < n. cell C R r (length ps) b = rec ! b)) \<and>
     (\<forall>i < length ps. \<forall>b < R. untouched C (length ps) (pd_phase p) i b \<longrightarrow> cell C R r i b = ps ! i ! b)"

lemma same_cell: "a * R + b = c * R + d \<Longrightarrow> b < R \<Longrightarrow> d < R \<Longrightarrow> a = c \<and> b = (d :: nat)"
proof -
  assume e: "a * R + b = c * R + d" and "b < R" "d < R"
  have "(a * R + b) div R = (c * R + d) div R" "(a * R + b) mod R = (c * R + d) mod R" by (simp_all only: e)
  then show ?thesis using \<open>b < R\<close> \<open>d < R\<close> by simp
qed

lemma cell_update:
  assumes "length (sh_data r) = C * R" "0 < C" "n < R" "b < R"
  shows "cell C R (r\<lparr>sh_data := (sh_data r)[w mod C * R + n := x]\<rparr>) i b =
    (if i mod C = w mod C \<and> b = n then x else cell C R r i b)"
proof -
  have "w mod C * R + n < C * R"
  proof -
    have "Suc (w mod C) * R \<le> C * R" using assms(2) by (intro mult_le_mono1) (simp add: Suc_le_eq)
    then show ?thesis using assms(3) by simp
  qed
  then show ?thesis
    using assms(1) same_cell [OF _ assms(4,3), of "i mod C" "w mod C"] by (auto simp: cell_def nth_list_update)
qed

lemma same_slot: "i < w \<Longrightarrow> w \<le> i + C \<Longrightarrow> 0 < C \<Longrightarrow> i mod C = w mod C \<Longrightarrow> w = i + (C :: nat)"
proof -
  assume a: "i < w" "w \<le> i + C" "0 < C" "i mod C = w mod C"
  then have "C dvd w - i" using mod_eq_dvd_iff_nat [of i w C] by simp
  then have "C \<le> w - i" using a by (intro dvd_imp_le) simp_all
  then show ?thesis using a by simp
qed

lemma unat_slot: "n < 2 ^ 64 \<Longrightarrow> unat ((of_nat n :: u64) mod ring_capacity r) = n mod unat (sh_capacity r)"
  by (simp add: ring_capacity_def unat_mod unat_of_nat_eq unat_ucast_mod order_less_trans [OF unat_lt_2p])

lemma writer_access:
  assumes ok: "writer_ok C R r p ps" and C: "0 < C" and few: "length ps < 2 ^ 64"
    and a: "push_access expired r p = (r', p')"
  defines "ps' \<equiv> (case pd_phase p of PCopy rec n \<Rightarrow> if pd_phase p' = PIdle then ps @ [rec] else ps | _ \<Rightarrow> ps)"
  shows "writer_ok C R r' p' ps'"
proof (cases "pd_phase p")
  case (PCopy rec n)
  note ok = ok [unfolded writer_ok_def PCopy push_phase.case]
  have idx: "unat (pd_local_write p mod ring_capacity r) = length ps mod C" using ok few by (simp add: unat_slot)
  show ?thesis
  proof (cases "n < R")
    case True
    then have r': "r' = r\<lparr>sh_data := (sh_data r)[length ps mod C * R + n := rec ! n]\<rparr>" "p' = p\<lparr>pd_phase := PCopy rec (n + 1)\<rparr>"
      using a ok idx by (simp_all add: push_access_def PCopy Let_def)
    have upd: "cell C R r' i b = (if i mod C = length ps mod C \<and> b = n then rec ! n else cell C R r i b)" if "b < R" for i b
      unfolding r' by (rule cell_update) (use ok C True that in simp_all)
    have "cell C R r' i b = ps ! i ! b" if "i < length ps" "b < R" "untouched C (length ps) (PCopy rec (n + 1)) i b" for i b
    proof -
      have "untouched C (length ps) (PCopy rec n) i b" using that(3) by (auto simp: untouched_def)
      then have "cell C R r i b = ps ! i ! b" using ok that(1,2) by blast
      moreover have "\<not> (i mod C = length ps mod C \<and> b = n)"
      proof
        assume e: "i mod C = length ps mod C \<and> b = n"
        have "length ps \<le> i + C" using that(3) by (auto simp: untouched_def)
        then have "length ps = i + C" using same_slot [OF that(1) _ C] e by simp
        then show False using that(3) e by (simp add: untouched_def)
      qed
      ultimately show ?thesis unfolding upd [OF that(2), of i] by (simp only: if_False)
    qed
    moreover have "cell C R r' (length ps) b = rec ! b" if "b < n + 1" for b
      using that ok True upd [of b "length ps"] by (auto simp: less_Suc_eq)
    ultimately show ?thesis using ok True by (simp add: writer_ok_def ps'_def PCopy r')
  next
    case False
    then have r': "r' = r\<lparr>sh_write_cursor := of_nat (length ps) + 1\<rparr>"
        "p' = p\<lparr>pd_local_write := of_nat (length ps) + 1, pd_phase := PIdle\<rparr>"
      using a ok by (simp_all add: push_access_def PCopy Let_def)
    have n: "n = R" using False ok by simp
    have same: "cell C R r' = cell C R r" by (simp add: r' cell_def fun_eq_iff)
    have "cell C R r' i b = (ps @ [rec]) ! i ! b" if "i < Suc (length ps)" "b < R" "untouched C (Suc (length ps)) PIdle i b" for i b
    proof (cases "i = length ps")
      case True
      then show ?thesis using ok that(2) by (simp add: n same)
    next
      case False
      then have "i < length ps" "untouched C (length ps) (PCopy rec n) i b" using that by (auto simp: untouched_def)
      then show ?thesis using ok that(2) by (simp add: same nth_append)
    qed
    then show ?thesis using ok by (simp add: writer_ok_def ps'_def PCopy r' add.commute)
  qed
next
  case (PAwait rec)
  then show ?thesis using ok a
    by (auto simp: push_access_def await_room_def ps'_def writer_ok_def untouched_def split: if_splits)
qed (use ok a in \<open>simp add: push_access_def ps'_def\<close>)

section \<open>A drain reads what the slots hold\<close>

definition drain_ok :: "nat \<Rightarrow> nat \<Rightarrow> push_phase \<Rightarrow> bytes list \<Rightarrow> shm_consumer \<Rightarrow> bool" where
  "drain_ok C R ph ps c \<longleftrightarrow>
     (let a = unat (cn_read_cursor c) in a \<le> length ps \<and>
       (case cn_phase c of
          Detached \<Rightarrow> a = 0
        | Opened live \<Rightarrow> a = 0
        | Draining seen off1 len1 len2 taken \<Rightarrow>
            a \<le> unat seen \<and> unat seen \<le> length ps \<and> unat seen \<le> a + C \<and>
            off1 = a mod C * R \<and> len1 = min (unat seen - a) (C - a mod C) * R \<and> len1 + len2 = (unat seen - a) * R \<and>
            length taken \<le> len1 + len2 \<and>
            (\<forall>j < length taken. untouched C (length ps) ph (a + j div R) (j mod R) \<longrightarrow>
               taken ! j = ps ! (a + j div R) ! (j mod R))
        | _ \<Rightarrow> True))"

lemma drain_ok_draining:
  "drain_ok C R ph ps (c\<lparr>cn_phase := Draining seen off1 len1 len2 taken\<rparr>) \<longleftrightarrow>
     unat (cn_read_cursor c) \<le> length ps \<and> unat (cn_read_cursor c) \<le> unat seen \<and> unat seen \<le> length ps \<and>
     unat seen \<le> unat (cn_read_cursor c) + C \<and> off1 = unat (cn_read_cursor c) mod C * R \<and>
     len1 = min (unat seen - unat (cn_read_cursor c)) (C - unat (cn_read_cursor c) mod C) * R \<and>
     len1 + len2 = (unat seen - unat (cn_read_cursor c)) * R \<and> length taken \<le> len1 + len2 \<and>
     (\<forall>j < length taken. untouched C (length ps) ph (unat (cn_read_cursor c) + j div R) (j mod R) \<longrightarrow>
        taken ! j = ps ! (unat (cn_read_cursor c) + j div R) ! (j mod R))"
  by (simp add: drain_ok_def Let_def)

text \<open>Where a byte of the slices lies in the ring.\<close>

lemma slice_byte_cell:
  assumes "0 < R" "0 < C" "j < m * R" "m \<le> C" "off1 = a mod C * R" "len1 = min m (C - a mod C) * R"
  shows "slice_byte r off1 len1 j = cell C R r (a + j div R) (j mod R)"
proof -
  have k: "j div R < m" using assms(1,3) by (simp add: less_mult_imp_div_less)
  have j: "j = j div R * R + j mod R" by simp
  have lt: "j < len1 \<longleftrightarrow> j div R < min m (C - a mod C)"
    unfolding assms(6) using assms(1) by (metis div_less_iff_less_mult)
  show ?thesis
  proof (cases "j div R < C - a mod C")
    case True
    then have "(a + j div R) mod C = a mod C + j div R"
      using mod_add_left_eq [of a C "j div R"] by (metis less_diff_conv add.commute mod_less)
    moreover have "j < len1" using lt True k by simp
    ultimately show ?thesis using assms(5) by (simp add: slice_byte_def cell_def distrib_right add.commute)
  next
    case False
    then have "C - a mod C \<le> j div R" by simp
    then have m: "min m (C - a mod C) = C - a mod C" using k by simp
    have c: "a mod C < C" using assms(2) by simp
    let ?d = "j div R - (C - a mod C)"
    have "a mod C + j div R = C + ?d" using False c by simp
    moreover have "?d < C" using k assms(4) c by linarith
    ultimately have "(a + j div R) mod C = ?d" by (metis mod_add_left_eq mod_add_self1 mod_less)
    moreover have "j - len1 = ?d * R + j mod R"
    proof -
      have "len1 \<le> j div R * R" using False m assms(6) by simp
      then show ?thesis using j m assms(6) by (simp add: diff_mult_distrib)
    qed
    ultimately show ?thesis using lt False by (simp add: slice_byte_def cell_def)
  qed
qed

lemma untouched_back:
  assumes "push_access expired r p = (r', p')" "writer_ok C R r p ps"
    and "untouched C (length (case pd_phase p of PCopy rec n \<Rightarrow> if pd_phase p' = PIdle then ps @ [rec] else ps | _ \<Rightarrow> ps)) (pd_phase p') i b"
  shows "untouched C (length ps) (pd_phase p) i b"
  using assms by (cases "pd_phase p") (auto simp: push_access_def await_room_def untouched_def Let_def split: if_splits)

lemma drain_ok_mono:
  assumes "drain_ok C R ph ps c" "\<And>i b. untouched C (length (ps @ qs)) ph' i b \<Longrightarrow> untouched C (length ps) ph i b" "0 < R"
  shows "drain_ok C R ph' (ps @ qs) c"
proof (cases "cn_phase c")
  case (Draining seen off1 len1 len2 taken)
  let ?a = "unat (cn_read_cursor c)"
  note ok = assms(1) [unfolded drain_ok_def Draining drain_phase.case Let_def]
  have "taken ! j = (ps @ qs) ! (?a + j div R) ! (j mod R)"
    if "j < length taken" "untouched C (length (ps @ qs)) ph' (?a + j div R) (j mod R)" for j
  proof -
    have "j < (unat seen - ?a) * R" using ok that(1) by simp
    then have "j div R < unat seen - ?a" by (rule less_mult_imp_div_less)
    moreover have "?a \<le> unat seen" "unat seen \<le> length ps" using ok by simp_all
    ultimately have "?a + j div R < length ps" by linarith
    then show ?thesis using ok that(1) assms(2) [OF that(2)] by (simp add: nth_append)
  qed
  then show ?thesis using ok by (simp add: drain_ok_def Draining)
qed (use assms(1) in \<open>auto simp: drain_ok_def Let_def\<close>)

lemma publish_same [simp]:
  "sh_capacity (publish_read_cursor v r) = sh_capacity r" "sh_record_size (publish_read_cursor v r) = sh_record_size r"
  "sh_data (publish_read_cursor v r) = sh_data r" "sh_write_cursor (publish_read_cursor v r) = sh_write_cursor r"
  "sh_overrun_policy (publish_read_cursor v r) = sh_overrun_policy r" "blocks (publish_read_cursor v r) = blocks r"
  "ring_capacity (publish_read_cursor v r) = ring_capacity r"
  by (simp_all add: publish_read_cursor_def blocks_def ring_capacity_def)

lemma writer_publish: "writer_ok C R r p ps \<Longrightarrow> writer_ok C R (publish_read_cursor v r) p ps"
proof -
  have "cell C R (publish_read_cursor v r) = cell C R r" by (simp add: cell_def fun_eq_iff)
  then show "writer_ok C R r p ps \<Longrightarrow> writer_ok C R (publish_read_cursor v r) p ps"
    by (simp add: writer_ok_def split: push_phase.splits)
qed

lemma unread_unat:
  assumes "writer_ok C R r p ps" "unat a \<le> length ps" "length ps < 2 ^ 64"
  shows "unat (sh_write_cursor r) = length ps" "unat (sh_write_cursor r - a) = length ps - unat a"
    "unat (ring_capacity r) = C" "(ring_capacity r < sh_write_cursor r - a) = (C < length ps - unat a)"
proof -
  show w: "unat (sh_write_cursor r) = length ps" using assms(1,3) by (simp add: writer_ok_def unat_of_nat_eq)
  then have "a \<le> sh_write_cursor r" using assms(2) by (simp add: word_le_nat_alt)
  then show d: "unat (sh_write_cursor r - a) = length ps - unat a" by (simp add: unat_sub w)
  show c: "unat (ring_capacity r) = C"
    using assms(1) unat_lt_2p [of "sh_capacity r"] by (simp add: writer_ok_def ring_capacity_def unat_ucast_mod)
  show "(ring_capacity r < sh_write_cursor r - a) = (C < length ps - unat a)"
    by (simp add: word_less_nat_alt d c)
qed

lemma drain_access_ok:
  assumes w: "writer_ok C R r p ps" and c: "drain_ok C R (pd_phase p) ps c" and few: "length ps < 2 ^ 64" "0 < R" "0 < C"
    and a: "drain_access move r c = (r', c')"
  shows "writer_ok C R r' p ps \<and> drain_ok C R (pd_phase p) ps c'"
proof -
  have rc: "unat (cn_read_cursor c) \<le> length ps" using c by (simp add: drain_ok_def Let_def)
  note un = unread_unat [OF w rc few(1)]
  have size: "unat (sh_record_size r) = R" using w by (simp add: writer_ok_def)
  consider live where "move = Attach live" "cn_phase c = Detached" | live where "move = Go" "cn_phase c = Opened live"
    | "move = Go" "cn_phase c = ReadLive" | "move = Go" "cn_phase c = Publishing" | "move = Go" "cn_phase c = Ready"
    | seen off1 len1 len2 taken where "move = Go" "cn_phase c = Draining seen off1 len1 len2 taken"
    | n seen off1 len1 len2 taken where "move = Commit n" "cn_phase c = Draining seen off1 len1 len2 taken"
    | "r' = r" "c' = c"
    using a by (cases move; cases "cn_phase c") (auto simp: drain_access_def)
  then show ?thesis
  proof cases
    case 5
    show ?thesis
    proof (cases "unread_regions (cn_read_cursor c) r")
      case (Inl e)
      then show ?thesis using a w c 5 by (simp add: drain_access_def)
    next
      case (Inr q)
      obtain seen off1 len1 len2 where q: "q = (seen, off1, len1, len2)" by (cases q)
      have e: "seen = sh_write_cursor r" "\<not> C < length ps - unat (cn_read_cursor c)"
        "off1 = unat (cn_read_cursor c) mod C * R"
        "len1 = min (length ps - unat (cn_read_cursor c)) (C - unat (cn_read_cursor c) mod C) * R"
        "len2 = (length ps - unat (cn_read_cursor c) - min (length ps - unat (cn_read_cursor c)) (C - unat (cn_read_cursor c) mod C)) * R"
        using Inr un size by (auto simp: q unread_regions_def Let_def unat_mod split: if_splits)
      have r': "r' = r" "c' = c\<lparr>cn_phase := Draining seen off1 len1 len2 []\<rparr>"
        using a 5 Inr by (simp_all add: drain_access_def q)
      have seen: "unat seen = length ps" using un(1) by (simp only: e(1))
      have "length ps \<le> unat (cn_read_cursor c) + C" using e(2) by linarith
      moreover have "len1 + len2 = (length ps - unat (cn_read_cursor c)) * R"
      proof -
        have m: "min d e + (d - min d e) = d" for d e :: nat by simp
        show ?thesis unfolding e(4,5) distrib_right [symmetric] m ..
      qed
      ultimately have "drain_ok C R (pd_phase p) ps c'"
        unfolding r' drain_ok_draining by (simp only: seen rc e(3,4) list.size simp_thms not_less0 le0 order_refl)
      then show ?thesis using w by (simp only: r' simp_thms)
    qed
  next
    case (6 seen off1 len1 len2 taken)
    let ?a = "unat (cn_read_cursor c)"
    note ok = c [unfolded drain_ok_def 6(2) drain_phase.case Let_def]
    show ?thesis
    proof (cases "length taken < len1 + len2")
      case True
      let ?j = "length taken"
      have r': "r' = r" "c' = c\<lparr>cn_phase := Draining seen off1 len1 len2 (taken @ [slice_byte r off1 len1 ?j])\<rparr>"
        using a 6 True by (auto simp: drain_access_def)
      have "?j < (unat seen - ?a) * R" using ok True by simp
      then have k: "?j div R < unat seen - ?a" by (rule less_mult_imp_div_less)
      have b: "slice_byte r off1 len1 ?j = cell C R r (?a + ?j div R) (?j mod R)"
        by (rule slice_byte_cell [where m = "unat seen - ?a"]) (use ok True few in auto)
      have "?a + ?j div R < length ps" using k ok by auto
      then have "slice_byte r off1 len1 ?j = ps ! (?a + ?j div R) ! (?j mod R)"
        if "untouched C (length ps) (pd_phase p) (?a + ?j div R) (?j mod R)"
        using w that few(2) unfolding b by (simp add: writer_ok_def)
      then show ?thesis using w ok True unfolding r' drain_ok_draining by (auto simp: nth_append less_Suc_eq)
    next
      case False
      then show ?thesis using a 6 w c by (simp add: drain_access_def)
    qed
  next
    case (7 n seen off1 len1 len2 taken)
    have "unat (cn_read_cursor c + n) \<le> length ps" if "\<not> sh_write_cursor r - cn_read_cursor c < n"
    proof -
      have "unat n \<le> length ps - unat (cn_read_cursor c)" using that un(2) by (simp add: word_less_nat_alt)
      moreover have "unat (cn_read_cursor c + n) \<le> unat (cn_read_cursor c) + unat n" by (simp add: unat_word_ariths)
      ultimately show ?thesis using rc by linarith
    qed
    then show ?thesis using a 7 w c rc
      by (auto simp: drain_access_def commit_drain_def Let_def drain_ok_def split: if_splits)
  next
    case 3
    then show ?thesis using a w un(1) by (auto simp: drain_access_def drain_ok_def)
  next
    case 8
    then show ?thesis using w c by simp
  qed (use a w c rc in \<open>auto simp: drain_access_def drain_ok_def writer_publish\<close>)
qed

section \<open>The whole system\<close>

definition ring_ok :: "nat \<Rightarrow> nat \<Rightarrow> nat \<Rightarrow> ring_system \<Rightarrow> bool" where
  "ring_ok C R k s \<longleftrightarrow>
     writer_ok C R (rs_ring s) (rs_producer s) (rs_pushed s) \<and>
     drain_ok C R (pd_phase (rs_producer s)) (rs_pushed s) (rs_consumer s) \<and>
     length (rs_pushed s) \<le> k \<and> unat (pd_wait_timeouts (rs_producer s)) \<le> k"

lemma start_push_ok:
  assumes "ring_ok C R k s" "0 < R"
  shows "ring_ok C R k (start_push rec s)"
proof (cases "start_push rec s = s")
  case False
  then have p: "pd_phase (rs_producer s) = PIdle"
    "start_push rec s = s\<lparr>rs_producer := (rs_producer s)\<lparr>pd_phase := (if must_wait (rs_ring s) (rs_producer s) then PAwait rec else PCopy rec 0)\<rparr>\<rparr>"
    "length rec = unat (sh_record_size (rs_ring s))"
    by (auto simp: start_push_def push_record_def split: if_splits)
  let ?ph = "if must_wait (rs_ring s) (rs_producer s) then PAwait rec else PCopy rec 0"
  have same: "untouched C n ?ph i b = untouched C n PIdle i b" for n i b by (simp add: untouched_def)
  have "drain_ok C R ?ph (rs_pushed s @ []) (rs_consumer s)"
    using assms p(1) by (intro drain_ok_mono [of C R PIdle]) (simp_all add: ring_ok_def same)
  moreover have "writer_ok C R (rs_ring s) (rs_producer (start_push rec s)) (rs_pushed s)"
    using assms(1) p by (auto simp: ring_ok_def writer_ok_def same)
  ultimately show ?thesis using assms(1) p(2) by (simp add: ring_ok_def)
qed (use assms in simp)

lemma produce_ok:
  assumes "ring_ok C R k s" "0 < R" "0 < C" "Suc k < 2 ^ 64"
  shows "ring_ok C R (Suc k) (produce expired s)"
proof -
  obtain r' p' where a: "push_access expired (rs_ring s) (rs_producer s) = (r', p')" by force
  let ?ps = "case pd_phase (rs_producer s) of PCopy rec n \<Rightarrow> if pd_phase p' = PIdle then rs_pushed s @ [rec] else rs_pushed s
    | _ \<Rightarrow> rs_pushed s"
  have w: "writer_ok C R (rs_ring s) (rs_producer s) (rs_pushed s)" "length (rs_pushed s) < 2 ^ 64"
    and d: "drain_ok C R (pd_phase (rs_producer s)) (rs_pushed s) (rs_consumer s)"
    using assms by (simp_all add: ring_ok_def)
  obtain qs where qs: "?ps = rs_pushed s @ qs" "length qs \<le> 1"
    by (cases "pd_phase (rs_producer s)") (force split: if_splits)+
  have "drain_ok C R (pd_phase p') (rs_pushed s @ qs) (rs_consumer s)"
    using untouched_back [OF a w(1)] unfolding qs(1) by (intro drain_ok_mono [OF d _ assms(2)])
  moreover have "writer_ok C R r' p' (rs_pushed s @ qs)"
    using writer_access [OF w(1) assms(3) w(2) a] by (simp only: qs(1))
  moreover have "unat (pd_wait_timeouts p') \<le> Suc k"
  proof -
    have "pd_wait_timeouts p' = pd_wait_timeouts (rs_producer s) \<or> pd_wait_timeouts p' = pd_wait_timeouts (rs_producer s) + 1"
      using a by (auto simp: push_access_def await_room_def Let_def split: push_phase.splits if_splits)
    moreover have "unat (pd_wait_timeouts (rs_producer s) + 1) = unat (pd_wait_timeouts (rs_producer s)) + 1"
      using assms(1,4) by (intro unat_add_1) (simp add: ring_ok_def)
    ultimately show ?thesis using assms(1) by (auto simp: ring_ok_def)
  qed
  ultimately show ?thesis using qs assms(1) by (simp add: ring_ok_def produce_def a)
qed

lemma consume_ok:
  assumes "ring_ok C R k s" "0 < R" "0 < C" "k < 2 ^ 64"
  shows "ring_ok C R k (consume move s)"
proof -
  obtain r' c' where a: "drain_access move (rs_ring s) (rs_consumer s) = (r', c')" by force
  show ?thesis using drain_access_ok [OF _ _ _ assms(2,3) a] assms(1,4) by (simp add: ring_ok_def consume_def a)
qed

lemma ring_ok_Suc: "ring_ok C R k s \<Longrightarrow> ring_ok C R (Suc k) s"
  by (auto simp: ring_ok_def)

lemma ring_step_ok:
  assumes "ring_ok C R k s" "0 < R" "0 < C" "Suc k < 2 ^ 64"
  shows "ring_ok C R (Suc k) (ring_step m s)"
  using assms start_push_ok produce_ok consume_ok ring_ok_Suc by (cases m) (auto simp: ring_step_def)

lemma created:
  assumes "create_ring record_size capacity rank manifest policy degraded generation = Inr r"
  shows "sh_capacity r = capacity" "sh_record_size r = record_size" "0 < unat capacity" "0 < unat record_size"
    "blocks r = (policy = Backpressure)" "sh_read_cursor r = 0"
    "ring_ok (unat capacity) (unat record_size) 0 (new_ring_system r)"
  using assms
  by (cases policy; auto simp: create_ring_def blocks_def policy_from_wire_def ring_ok_def writer_ok_def drain_ok_def
      new_ring_system_def unat_gt_0 split: if_splits)+

lemma ring_run_ok:
  assumes "create_ring record_size capacity rank manifest policy degraded generation = Inr r0" "ring_run r0 k s" "k < 2 ^ 64"
  shows "ring_ok (unat capacity) (unat record_size) k s"
  using assms(2,3)
proof (induction rule: ring_run.induct)
  case Created
  then show ?case using created [OF assms(1)] by simp
next
  case (Access k s m)
  then show ?case using created [OF assms(1)] by (intro ring_step_ok) simp_all
qed

section \<open>What a consumer is handed\<close>

text \<open>
  C21. The records of a drain whose commit is accepted are the ones that were pushed, whatever the producer did
  while they were read, with one exception: the oldest record of a ring that is full to its capacity, when the
  producer is already copying the next record into its slot. The write cursor cannot show that copy.
\<close>

theorem drained_records_are_whole:
  assumes "create_ring record_size capacity rank manifest policy degraded generation = Inr r0" "ring_run r0 k s" "k < 2 ^ 64"
    and "cn_phase (rs_consumer s) = Draining seen off1 len1 len2 taken" "length taken = len1 + len2"
    and "commit_drain n (cn_read_cursor (rs_consumer s)) (rs_ring s) = Inr cursor"
    and "unat (cn_read_cursor (rs_consumer s)) \<le> i" "i < unat seen"
  shows "take (unat record_size) (drop ((i - unat (cn_read_cursor (rs_consumer s))) * unat record_size) taken) = rs_pushed s ! i \<or>
    i = unat (cn_read_cursor (rs_consumer s)) \<and> length (rs_pushed s) = i + unat capacity \<and>
    (\<exists>rec b. pd_phase (rs_producer s) = PCopy rec b \<and> 0 < b)"
proof -
  let ?a = "unat (cn_read_cursor (rs_consumer s))" and ?C = "unat capacity" and ?R = "unat record_size" and ?W = "length (rs_pushed s)"
  have ok: "ring_ok ?C ?R k s" by (rule ring_run_ok [OF assms(1-3)])
  then have w: "writer_ok ?C ?R (rs_ring s) (rs_producer s) (rs_pushed s)" "?W < 2 ^ 64"
    and d: "drain_ok ?C ?R (pd_phase (rs_producer s)) (rs_pushed s) (rs_consumer s)"
    using assms(3) by (simp_all add: ring_ok_def)
  note d = d [unfolded drain_ok_def assms(4) drain_phase.case Let_def]
  have "?W \<le> ?a + ?C"
    using assms(6) unread_unat(4) [OF w(1) _ w(2), of "cn_read_cursor (rs_consumer s)"] d
    by (auto simp: commit_drain_def Let_def split: if_splits)
  show ?thesis
  proof (cases "\<forall>b < ?R. untouched ?C ?W (pd_phase (rs_producer s)) i b")
    case True
    have "(i - ?a) * ?R + ?R \<le> (unat seen - ?a) * ?R"
      using assms(7,8) mult_le_mono1 [of "Suc (i - ?a)" "unat seen - ?a" ?R] by (simp add: add.commute)
    then have l: "(i - ?a) * ?R + ?R \<le> length taken" using d assms(5) by simp
    have "take ?R (drop ((i - ?a) * ?R) taken) ! b = rs_pushed s ! i ! b" if "b < ?R" for b
    proof -
      let ?j = "(i - ?a) * ?R + b"
      have j: "?j div ?R = i - ?a" "?j mod ?R = b" "?j < length taken" using that l by simp_all
      then have "taken ! ?j = rs_pushed s ! (?a + ?j div ?R) ! (?j mod ?R)"
        using d True that assms(7) by (metis le_add_diff_inverse)
      then show ?thesis using that l j assms(7) by (simp add: add.commute)
    qed
    moreover have "length (rs_pushed s ! i) = ?R" using w(1) d assms(8) by (auto simp: writer_ok_def)
    ultimately have "take ?R (drop ((i - ?a) * ?R) taken) = rs_pushed s ! i" using l by (intro nth_equalityI) simp_all
    then show ?thesis by simp
  next
    case False
    then show ?thesis using \<open>?W \<le> ?a + ?C\<close> assms(7)
      by (cases "pd_phase (rs_producer s)") (auto simp: untouched_def)
  qed
qed

section \<open>A ring that blocks is a queue\<close>

text \<open>
  The cursor the producer waits on never runs ahead of the consumer; while no wait has expired, the producer
  never runs a capacity ahead of it, and what was handed out is what was pushed.
\<close>

definition cursor_ok :: "ring_system \<Rightarrow> bool" where
  "cursor_ok s \<longleftrightarrow> sh_read_cursor (rs_ring s) \<le> cn_read_cursor (rs_consumer s) \<and>
     (cn_phase (rs_consumer s) = ReadLive \<longrightarrow> cn_read_cursor (rs_consumer s) = 0) \<and>
     (cn_phase (rs_consumer s) \<in> {Detached, ReadLive} \<union> range Opened \<longrightarrow> rs_start s = 0 \<and> rs_handed s = [])"

definition fifo_ok :: "nat \<Rightarrow> ring_system \<Rightarrow> bool" where
  "fifo_ok C s \<longleftrightarrow>
     (case pd_phase (rs_producer s) of PCopy rec n \<Rightarrow> length (rs_pushed s) < unat (sh_read_cursor (rs_ring s)) + C
      | _ \<Rightarrow> length (rs_pushed s) \<le> unat (sh_read_cursor (rs_ring s)) + C) \<and>
     rs_start s \<le> unat (cn_read_cursor (rs_consumer s)) \<and>
     rs_handed s = concat (take (unat (cn_read_cursor (rs_consumer s)) - rs_start s) (drop (rs_start s) (rs_pushed s)))"

lemma must_wait_iff:
  assumes "writer_ok C R r p ps" "length ps < 2 ^ 64" "blocks r"
  shows "must_wait r p \<longleftrightarrow> C \<le> length ps - unat (sh_read_cursor r)"
proof -
  have "unat (ring_capacity r) = C" using unread_unat(3) [OF assms(1) _ assms(2), of 0] by simp
  then show ?thesis using assms
    by (simp add: must_wait_def backpressure_must_wait_def word_le_nat_alt unat_sat_sub writer_ok_def unat_of_nat_eq)
qed

lemma produce_shared:
  "sh_read_cursor (rs_ring (produce expired s)) = sh_read_cursor (rs_ring s)"
  "blocks (rs_ring (produce expired s)) = blocks (rs_ring s)"
  "rs_consumer (produce expired s) = rs_consumer s" "rs_start (produce expired s) = rs_start s"
  "rs_handed (produce expired s) = rs_handed s"
  by (auto simp: produce_def push_access_def blocks_def Let_def split: push_phase.splits prod.splits)

lemma start_push_shared:
  "rs_ring (start_push rec s) = rs_ring s" "rs_consumer (start_push rec s) = rs_consumer s"
  "rs_start (start_push rec s) = rs_start s" "rs_handed (start_push rec s) = rs_handed s"
  "rs_pushed (start_push rec s) = rs_pushed s"
  "pd_wait_timeouts (rs_producer (start_push rec s)) = pd_wait_timeouts (rs_producer s)"
  by (auto simp: start_push_def push_record_def split: option.splits)

lemma consume_shared:
  "blocks (rs_ring (consume move s)) = blocks (rs_ring s)" "rs_producer (consume move s) = rs_producer s"
  "rs_pushed (consume move s) = rs_pushed s"
  by (auto simp: consume_def drain_access_def split: prod.splits drain_phase.splits drain_move.splits sum.splits)

lemma consume_cases:
  obtains live where "move = Attach live" "cn_phase (rs_consumer s) = Detached"
      "consume move s = s\<lparr>rs_consumer := \<lparr>cn_read_cursor = 0, cn_phase = Opened live\<rparr>\<rparr>"
  | live where "move = Go" "cn_phase (rs_consumer s) = Opened live"
      "consume move s = s\<lparr>rs_ring := publish_read_cursor (cn_read_cursor (rs_consumer s)) (rs_ring s),
         rs_consumer := (rs_consumer s)\<lparr>cn_phase := (if live then ReadLive else Ready)\<rparr>\<rparr>"
  | "move = Go" "cn_phase (rs_consumer s) = ReadLive"
      "consume move s = s\<lparr>rs_consumer := \<lparr>cn_read_cursor = sh_write_cursor (rs_ring s), cn_phase = Publishing\<rparr>,
         rs_start := unat (sh_write_cursor (rs_ring s))\<rparr>"
  | "move = Go" "cn_phase (rs_consumer s) = Publishing"
      "consume move s = s\<lparr>rs_ring := publish_read_cursor (cn_read_cursor (rs_consumer s)) (rs_ring s),
         rs_consumer := (rs_consumer s)\<lparr>cn_phase := Ready\<rparr>\<rparr>"
  | n seen off1 len1 len2 taken where "move = Commit n" "cn_phase (rs_consumer s) = Draining seen off1 len1 len2 taken"
      "unat n * unat (sh_record_size (rs_ring s)) \<le> length taken"
      "commit_drain n (cn_read_cursor (rs_consumer s)) (rs_ring s) = Inr (cn_read_cursor (rs_consumer s) + n)"
      "consume move s = s\<lparr>rs_consumer := \<lparr>cn_read_cursor = cn_read_cursor (rs_consumer s) + n, cn_phase = Publishing\<rparr>,
         rs_handed := rs_handed s @ take (unat n * unat (sh_record_size (rs_ring s))) taken\<rparr>"
  | phase where "consume move s = s\<lparr>rs_consumer := (rs_consumer s)\<lparr>cn_phase := phase\<rparr>\<rparr>"
      "phase = cn_phase (rs_consumer s) \<or>
         phase \<notin> {Detached, ReadLive} \<union> range Opened \<and> cn_phase (rs_consumer s) \<notin> {Detached, ReadLive} \<union> range Opened"
proof -
  let ?c = "rs_consumer s"
  note to = that
  have same: ?thesis if "consume move s = s" by (rule to(6) [of "cn_phase ?c"]) (simp_all add: \<open>consume move s = s\<close>)
  note defs = consume_def drain_access_def
  show ?thesis
  proof (cases "cn_phase ?c")
    case Detached
    then show ?thesis using to(1) same by (cases move) (simp_all add: defs)
  next
    case (Opened live)
    then show ?thesis using to(2) same by (cases move) (simp_all add: defs)
  next
    case ReadLive
    then show ?thesis using to(3) same by (cases move) (simp_all add: defs)
  next
    case Publishing
    then show ?thesis using to(4) same by (cases move) (simp_all add: defs)
  next
    case Ready
    show ?thesis
    proof (cases "move = Go")
      case True
      then show ?thesis using Ready to(6) same
        by (cases "unread_regions (cn_read_cursor ?c) (rs_ring s)") (force simp: defs)+
    qed (use Ready same in \<open>cases move; simp add: defs\<close>)
  next
    case (Draining seen off1 len1 len2 taken)
    show ?thesis
    proof (cases move)
      case Go
      then show ?thesis using Draining to(6) same by (cases "length taken < len1 + len2") (force simp: defs)+
    next
      case (Commit n)
      show ?thesis
      proof (cases "unat n * unat (sh_record_size (rs_ring s)) \<le> length taken")
        case True
        show ?thesis
        proof (cases "commit_drain n (cn_read_cursor ?c) (rs_ring s)")
          case (Inl e)
          then show ?thesis using True Commit Draining to(6) [of Ready] by (auto simp: defs)
        next
          case (Inr v)
          then have "v = cn_read_cursor ?c + n" by (auto simp: commit_drain_def Let_def split: if_splits)
          then show ?thesis using True Commit Draining Inr to(5) by (simp add: defs)
        qed
      next
        case False
        then show ?thesis using Commit Draining same by (simp add: defs)
      qed
    qed (use Draining same in \<open>simp add: defs\<close>)
  qed
qed

lemma cursor_ok_step:
  assumes "cursor_ok s" "ring_ok C R k s" "k < 2 ^ 64"
  shows "cursor_ok (ring_step m s) \<and> sh_read_cursor (rs_ring s) \<le> sh_read_cursor (rs_ring (ring_step m s))"
proof (cases m)
  case (Consume move)
  have zero: "cn_read_cursor (rs_consumer s) = 0" if "cn_phase (rs_consumer s) \<in> {Detached} \<union> range Opened"
    using assms(2) that by (auto simp: ring_ok_def drain_ok_def Let_def unat_eq_0)
  show ?thesis
  proof (cases rule: consume_cases [of move s])
    case (5 n seen off1 len1 len2 taken)
    have w: "writer_ok C R (rs_ring s) (rs_producer s) (rs_pushed s)" "length (rs_pushed s) < 2 ^ 64"
      and a: "unat (cn_read_cursor (rs_consumer s)) \<le> length (rs_pushed s)"
      using assms(2,3) by (simp_all add: ring_ok_def drain_ok_def Let_def)
    have "unat n \<le> length (rs_pushed s) - unat (cn_read_cursor (rs_consumer s))"
      using 5(4) unread_unat(2) [OF w(1) a w(2)] by (auto simp: commit_drain_def Let_def word_less_nat_alt split: if_splits)
    then have "unat (cn_read_cursor (rs_consumer s)) + unat n < 2 ^ 64" using a w(2) by linarith
    then have "cn_read_cursor (rs_consumer s) \<le> cn_read_cursor (rs_consumer s) + n"
      by (simp add: word_le_nat_alt unat_word_ariths)
    then show ?thesis using assms(1) 5 by (auto simp: Consume ring_step_def cursor_ok_def)
  next
    case (2 live)
    then show ?thesis using assms(1) zero by (auto simp: Consume ring_step_def cursor_ok_def publish_read_cursor_def)
  next
    case (6 phase)
    then show ?thesis using assms(1) by (auto simp: Consume ring_step_def cursor_ok_def)
  qed (use assms(1) zero in \<open>auto simp: Consume ring_step_def cursor_ok_def publish_read_cursor_def\<close>)
qed (use assms(1) in \<open>simp_all add: ring_step_def cursor_ok_def produce_shared start_push_shared\<close>)

lemma room_to_copy:
  assumes "ring_ok C R k s" "k < 2 ^ 64" "0 < C" "\<not> must_wait (rs_ring s) (rs_producer s)" "blocks (rs_ring s)"
  shows "length (rs_pushed s) < unat (sh_read_cursor (rs_ring s)) + C"
  using assms must_wait_iff [of C R "rs_ring s" "rs_producer s" "rs_pushed s"] by (auto simp: ring_ok_def)

lemma fifo_ok_produce:
  assumes "fifo_ok C s" "ring_ok C R k s" "Suc k < 2 ^ 64" "0 < C" "blocks (rs_ring s)"
    and "pd_wait_timeouts (rs_producer (produce expired s)) = 0"
  shows "fifo_ok C (produce expired s)"
proof -
  obtain r' p' where a: "push_access expired (rs_ring s) (rs_producer s) = (r', p')" by force
  have rc: "unat (cn_read_cursor (rs_consumer s)) \<le> length (rs_pushed s)" using assms(2) by (simp add: ring_ok_def drain_ok_def Let_def)
  have never: "pd_wait_timeouts (rs_producer s) + 1 \<noteq> 0"
  proof -
    have "unat (pd_wait_timeouts (rs_producer s)) + 1 < 2 ^ 64" using assms(2,3) by (simp add: ring_ok_def)
    then have "unat (pd_wait_timeouts (rs_producer s) + 1) = unat (pd_wait_timeouts (rs_producer s)) + 1"
      by (intro unat_add_1) simp
    then show ?thesis by (metis Suc_eq_plus1 nat.distinct(1) unat_0)
  qed
  have r: "sh_read_cursor r' = sh_read_cursor (rs_ring s)"
    using produce_shared(1) [of expired s] by (simp add: produce_def a)
  show ?thesis
  proof (cases "pd_phase (rs_producer s)")
    case PIdle
    then have "produce expired s = s" using a by (simp add: produce_def push_access_def)
    then show ?thesis using assms(1) by simp
  next
    case (PAwait rec)
    have "length (rs_pushed s) < unat (sh_read_cursor (rs_ring s)) + C" if "pd_phase p' = PCopy rec 0"
      using room_to_copy [OF assms(2) _ assms(4) _ assms(5)] that a PAwait assms(3,6) never
      by (auto simp: push_access_def await_room_def produce_def split: if_splits)
    then show ?thesis using assms(1) a PAwait r
      by (auto simp: fifo_ok_def produce_def push_access_def await_room_def split: if_splits)
  next
    case (PCopy rec n)
    have "drop (rs_start s) (rs_pushed s @ [rec]) = drop (rs_start s) (rs_pushed s) @ [rec]"
      "unat (cn_read_cursor (rs_consumer s)) - rs_start s \<le> length (drop (rs_start s) (rs_pushed s))"
      using assms(1) rc by (simp_all add: fifo_ok_def)
    then show ?thesis using assms(1) a PCopy r
      by (auto simp: fifo_ok_def produce_def push_access_def Let_def split: if_splits)
  qed
qed

lemma concat_blocks:
  "0 < R \<Longrightarrow> \<forall>x \<in> set xs. length x = R \<Longrightarrow> length (concat xs) = length xs * R \<and>
     (\<forall>j < length xs * R. concat xs ! j = xs ! (j div R) ! (j mod R))"
proof (induction xs)
  case (Cons x xs)
  have "concat (x # xs) ! j = (x # xs) ! (j div R) ! (j mod R)" if "j < length (x # xs) * R" for j
  proof (cases "j < R")
    case False
    then have "j div R = Suc ((j - R) div R)" "j mod R = (j - R) mod R" using Cons.prems(1) by (simp_all add: le_div_geq le_mod_geq)
    then show ?thesis using Cons False that by (simp add: nth_append)
  qed (use Cons.prems in \<open>simp add: nth_append\<close>)
  then show ?case using Cons by simp
qed simp

lemma fifo_ok_handed:
  "fifo_ok C s \<Longrightarrow> rs_start s \<le> unat a \<Longrightarrow> b = concat (take (unat a - rs_start s) (drop (rs_start s) (rs_pushed s))) \<Longrightarrow>
    fifo_ok C (s\<lparr>rs_consumer := \<lparr>cn_read_cursor = a, cn_phase = ph\<rparr>, rs_handed := b\<rparr>)"
  by (simp add: fifo_ok_def cong: push_phase.case_cong)

lemma fifo_ok_consume:
  assumes "fifo_ok C s" "cursor_ok s" "ring_ok C R k s" "k < 2 ^ 64" "0 < R" "0 < C"
  shows "fifo_ok C (consume move s)"
proof -
  have w: "writer_ok C R (rs_ring s) (rs_producer s) (rs_pushed s)" "length (rs_pushed s) < 2 ^ 64"
    and d: "drain_ok C R (pd_phase (rs_producer s)) (rs_pushed s) (rs_consumer s)"
    using assms(3,4) by (simp_all add: ring_ok_def)
  have a: "unat (cn_read_cursor (rs_consumer s)) \<le> length (rs_pushed s)" using d by (simp add: drain_ok_def Let_def)
  have word: "unat (sh_read_cursor (rs_ring s)) \<le> unat (cn_read_cursor (rs_consumer s))"
    using assms(2) by (simp add: cursor_ok_def word_le_nat_alt)
  have pub: "fifo_ok C (s\<lparr>rs_ring := publish_read_cursor (cn_read_cursor (rs_consumer s)) (rs_ring s),
      rs_consumer := (rs_consumer s)\<lparr>cn_phase := ph\<rparr>\<rparr>)" for ph
    using assms(1) word by (auto simp: fifo_ok_def publish_read_cursor_def split: push_phase.splits)
  show ?thesis
  proof (cases rule: consume_cases [of move s])
    case (1 live)
    then have "cn_read_cursor (rs_consumer s) = 0" using d by (simp add: drain_ok_def Let_def unat_eq_0)
    then show ?thesis using assms(1) 1 by (simp add: fifo_ok_def cong: push_phase.case_cong)
  next
    case 3
    then have "rs_handed s = []" using assms(2) by (simp add: cursor_ok_def)
    then show ?thesis using assms(1) 3 by (simp add: fifo_ok_def cong: push_phase.case_cong)
  next
    case (5 n seen off1 len1 len2 taken)
    let ?a = "unat (cn_read_cursor (rs_consumer s))" and ?ps = "rs_pushed s"
    note ok = d [unfolded drain_ok_def 5(2) drain_phase.case Let_def]
    have R: "unat (sh_record_size (rs_ring s)) = R" using w by (simp add: writer_ok_def)
    have avail: "unat n \<le> length ?ps - ?a"
      using 5(4) unread_unat(2) [OF w(1) a w(2)] by (auto simp: commit_drain_def Let_def word_less_nat_alt split: if_splits)
    then have sum: "unat (cn_read_cursor (rs_consumer s) + n) = ?a + unat n" using a w(2) by (simp add: unat_word_ariths)
    have "unat n * R \<le> length taken" "length taken \<le> (unat seen - ?a) * R" using 5(3) ok by (simp_all add: R)
    then have "unat n * R \<le> (unat seen - ?a) * R" by (rule order_trans)
    then have n: "unat n \<le> unat seen - ?a" using assms(5) by (simp only: mult_le_cancel2)
    have free: "untouched C (length ?ps) (pd_phase (rs_producer s)) i b" if "?a \<le> i" for i b
      using assms(1) word that by (auto simp: fifo_ok_def untouched_def split: push_phase.splits)
    let ?sent = "take (unat n) (drop ?a ?ps)"
    have "\<forall>x \<in> set ?sent. length x = R"
      using w(1) by (auto simp: writer_ok_def dest!: in_set_takeD in_set_dropD)
    moreover have len: "length ?sent = unat n" using avail by simp
    ultimately have blocks: "length (concat ?sent) = unat n * R"
      "\<And>j. j < unat n * R \<Longrightarrow> concat ?sent ! j = ?sent ! (j div R) ! (j mod R)"
      using concat_blocks [OF assms(5), of ?sent] by simp_all
    have taken: "take (unat n * R) taken = concat ?sent"
    proof (rule nth_equalityI)
      show "length (take (unat n * R) taken) = length (concat ?sent)" using \<open>unat n * R \<le> length taken\<close> blocks(1) by simp
      fix j assume "j < length (take (unat n * R) taken)"
      then have j: "j < unat n * R" "j < length taken" by simp_all
      have "untouched C (length ?ps) (pd_phase (rs_producer s)) (?a + j div R) (j mod R)" by (rule free) simp
      moreover have "\<forall>j < length taken. untouched C (length ?ps) (pd_phase (rs_producer s)) (?a + j div R) (j mod R) \<longrightarrow>
          taken ! j = ?ps ! (?a + j div R) ! (j mod R)" using ok by (elim conjE)
      ultimately have "taken ! j = ?ps ! (?a + j div R) ! (j mod R)" using j(2) by simp
      moreover have "j div R < unat n" using j(1) by (rule less_mult_imp_div_less)
      ultimately show "take (unat n * R) taken ! j = concat ?sent ! j" using blocks(2) [OF j(1)] j(1) a by (simp add: nth_drop)
    qed
    have start: "rs_start s \<le> ?a" and handed: "rs_handed s = concat (take (?a - rs_start s) (drop (rs_start s) ?ps))"
      using assms(1) by (simp_all add: fifo_ok_def)
    have "?a + unat n - rs_start s = ?a - rs_start s + unat n" "?a - rs_start s + rs_start s = ?a" using start by simp_all
    then have "take (?a + unat n - rs_start s) (drop (rs_start s) ?ps) = take (?a - rs_start s) (drop (rs_start s) ?ps) @ ?sent"
      by (simp only: take_add drop_drop)
    then have "rs_handed s @ concat ?sent =
        concat (take (unat (cn_read_cursor (rs_consumer s) + n) - rs_start s) (drop (rs_start s) ?ps))"
      by (simp only: sum handed concat_append)
    moreover have "rs_start s \<le> unat (cn_read_cursor (rs_consumer s) + n)" using start by (simp only: sum trans_le_add1)
    ultimately show ?thesis unfolding 5(5) R taken by (intro fifo_ok_handed [OF assms(1)])
  next
    case (6 phase)
    then show ?thesis using assms(1) by (simp add: fifo_ok_def cong: push_phase.case_cong)
  qed (simp_all add: pub)
qed

lemma cursor_ok_run:
  assumes "create_ring record_size capacity rank manifest policy degraded generation = Inr r0" "ring_run r0 k s" "k < 2 ^ 64"
  shows "cursor_ok s \<and> blocks (rs_ring s) = (policy = Backpressure)"
  using assms(2,3)
proof (induction rule: ring_run.induct)
  case Created
  then show ?case using created [OF assms(1)] by (simp add: cursor_ok_def new_ring_system_def)
next
  case (Access k s m)
  then have "cursor_ok (ring_step m s)" using cursor_ok_step ring_run_ok [OF assms(1) Access.hyps(1)] by simp
  moreover have "blocks (rs_ring (ring_step m s)) = blocks (rs_ring s)"
    by (cases m) (simp_all add: ring_step_def produce_shared start_push_shared consume_shared)
  ultimately show ?case using Access by simp
qed

lemma fifo_ok_start: "fifo_ok C s \<Longrightarrow> cursor_ok s \<Longrightarrow> ring_ok C R k s \<Longrightarrow> k < 2 ^ 64 \<Longrightarrow> 0 < C \<Longrightarrow> blocks (rs_ring s) \<Longrightarrow>
    fifo_ok C (start_push rec s)"
  using room_to_copy [of C R k s]
  by (auto simp: start_push_def push_record_def fifo_ok_def split: push_phase.splits)

text \<open>
  C20. On a ring that blocks, as long as no wait has expired, the ring is a queue: the bytes a consumer was
  handed since it attached are those of the records pushed since then, in their order, none missing, doubled
  or torn; the producer is never more than the capacity ahead, and no drain meets an overrun.
\<close>

theorem backpressure_ring_is_a_queue:
  assumes "create_ring record_size capacity rank manifest Backpressure degraded generation = Inr r0" "ring_run r0 k s" "k < 2 ^ 64"
    and "pd_wait_timeouts (rs_producer s) = 0"
  defines "a \<equiv> unat (cn_read_cursor (rs_consumer s))"
  shows "rs_handed s = concat (take (a - rs_start s) (drop (rs_start s) (rs_pushed s))) \<and>
    rs_start s \<le> a \<and> a \<le> length (rs_pushed s) \<and> length (rs_pushed s) \<le> a + unat capacity \<and>
    (\<exists>regions. unread_regions (cn_read_cursor (rs_consumer s)) (rs_ring s) = Inr regions)"
proof -
  let ?C = "unat capacity" and ?R = "unat record_size"
  note C = created [OF assms(1)]
  have fifo: "fifo_ok ?C s" using assms(2,3,4)
  proof (induction rule: ring_run.induct)
    case Created
    then show ?case by (simp add: fifo_ok_def new_ring_system_def)
  next
    case (Access k s m)
    have ok: "ring_ok ?C ?R k s" "cursor_ok s" "blocks (rs_ring s)"
      using ring_run_ok [OF assms(1) Access.hyps(1)] cursor_ok_run [OF assms(1) Access.hyps(1)] Access.prems(1) by simp_all
    have "pd_wait_timeouts (rs_producer s) = 0"
    proof (rule ccontr)
      assume n: "pd_wait_timeouts (rs_producer s) \<noteq> 0"
      have "unat (pd_wait_timeouts (rs_producer s)) + 1 < 2 ^ 64" using ok(1) Access.prems(1) by (simp add: ring_ok_def)
      then have "unat (pd_wait_timeouts (rs_producer s) + 1) = unat (pd_wait_timeouts (rs_producer s)) + 1"
        by (intro unat_add_1) simp
      then have "pd_wait_timeouts (rs_producer s) + 1 \<noteq> 0" by (metis Suc_eq_plus1 nat.distinct(1) unat_0)
      then show False using Access.prems(2) n
        by (cases m) (auto simp: ring_step_def start_push_shared consume_shared produce_def push_access_def
            await_room_def Let_def split: push_phase.splits if_splits)
    qed
    then have "fifo_ok ?C s" using Access by simp
    then show ?case using ok Access.prems C(3,4) fifo_ok_start fifo_ok_produce fifo_ok_consume
      by (cases m) (auto simp: ring_step_def)
  qed
  have ok: "ring_ok ?C ?R k s" "cursor_ok s"
    using ring_run_ok [OF assms(1-3)] cursor_ok_run [OF assms(1-3)] by simp_all
  have w: "writer_ok ?C ?R (rs_ring s) (rs_producer s) (rs_pushed s)" "length (rs_pushed s) < 2 ^ 64" "a \<le> length (rs_pushed s)"
    using ok(1) assms(3) by (simp_all add: ring_ok_def drain_ok_def Let_def a_def)
  have "length (rs_pushed s) \<le> a + ?C"
    using fifo ok(2) by (auto simp: fifo_ok_def cursor_ok_def a_def word_le_nat_alt split: push_phase.splits)
  moreover from this have "\<exists>regions. unread_regions (cn_read_cursor (rs_consumer s)) (rs_ring s) = Inr regions"
    using unread_unat(4) [OF w(1) _ w(2), of "cn_read_cursor (rs_consumer s)"] w(3)
    by (auto simp: unread_regions_def Let_def a_def)
  ultimately show ?thesis using fifo w(3) by (simp add: fifo_ok_def a_def)
qed

text \<open>
  C25. The room that a producer sees is there: whatever the consumer does, and from whatever moment it was
  asked, no push waits before that many records have been published.
\<close>

theorem checked_room_stays:
  assumes "create_ring record_size capacity rank manifest policy degraded generation = Inr r0" "ring_run r0 k s"
    and "free_records (rs_ring s) (rs_producer s) = Some room" "k + length ms < 2 ^ 64"
    and "length (rs_pushed (fold ring_step ms s)) < length (rs_pushed s) + unat room"
  shows "\<not> must_wait (rs_ring (fold ring_step ms s)) (rs_producer (fold ring_step ms s))"
proof -
  let ?C = "unat capacity" and ?R = "unat record_size"
  have run: "ring_run r0 (k + length ms) (fold ring_step ms s) \<and>
      length (rs_pushed s) \<le> length (rs_pushed (fold ring_step ms s)) \<and>
      sh_read_cursor (rs_ring s) \<le> sh_read_cursor (rs_ring (fold ring_step ms s))"
    using assms(2,4)
  proof (induction ms arbitrary: k s)
    case (Cons m ms)
    have "cursor_ok s" "ring_ok ?C ?R k s"
      using cursor_ok_run [OF assms(1) Cons.prems(1)] ring_run_ok [OF assms(1) Cons.prems(1)] Cons.prems(2) by simp_all
    then have "sh_read_cursor (rs_ring s) \<le> sh_read_cursor (rs_ring (ring_step m s))"
      using cursor_ok_step Cons.prems(2) by simp
    moreover have "length (rs_pushed s) \<le> length (rs_pushed (ring_step m s))"
      by (cases m) (auto simp: ring_step_def start_push_shared consume_shared produce_def split: push_phase.split prod.split)
    moreover have "ring_run r0 (Suc k + length ms) (fold ring_step ms (ring_step m s)) \<and>
        length (rs_pushed (ring_step m s)) \<le> length (rs_pushed (fold ring_step ms (ring_step m s))) \<and>
        sh_read_cursor (rs_ring (ring_step m s)) \<le> sh_read_cursor (rs_ring (fold ring_step ms (ring_step m s)))"
      using Cons.prems by (intro Cons.IH ring_run.Access) simp_all
    ultimately show ?case by (auto intro: order_trans)
  qed simp
  let ?t = "fold ring_step ms s"
  have ok: "ring_ok ?C ?R k s" "ring_ok ?C ?R (k + length ms) ?t"
    using ring_run_ok [OF assms(1)] assms(2,4) run by simp_all
  have b: "blocks (rs_ring s)" using assms(3) by (auto simp: free_records_def split: if_splits)
  then have bt: "blocks (rs_ring ?t)"
    using cursor_ok_run [OF assms(1) assms(2)] cursor_ok_run [OF assms(1)] run assms(4) by auto
  have w: "writer_ok ?C ?R (rs_ring s) (rs_producer s) (rs_pushed s)" "length (rs_pushed s) < 2 ^ 64"
    "writer_ok ?C ?R (rs_ring ?t) (rs_producer ?t) (rs_pushed ?t)" "length (rs_pushed ?t) < 2 ^ 64"
    using ok assms(4) by (simp_all add: ring_ok_def)
  have "unat (ring_capacity (rs_ring s)) = ?C" using unread_unat(3) [OF w(1) _ w(2), of 0] by simp
  then have "unat room = ?C - (length (rs_pushed s) - unat (sh_read_cursor (rs_ring s)))"
    using assms(3) b w(1,2)
    by (auto simp: free_records_def backpressure_free_records_def unat_sat_sub writer_ok_def unat_of_nat_eq)
  moreover have "unat (sh_read_cursor (rs_ring s)) \<le> unat (sh_read_cursor (rs_ring ?t))"
    using run by (simp add: word_le_nat_alt)
  ultimately have "\<not> ?C \<le> length (rs_pushed ?t) - unat (sh_read_cursor (rs_ring ?t))"
    using run assms(5) created(3) [OF assms(1)] by linarith
  then show ?thesis by (simp add: must_wait_iff [OF w(3,4) bt])
qed

section \<open>Runs\<close>

lemma fold_run: "ring_run r0 k s \<Longrightarrow> ring_run r0 (k + length ms) (fold ring_step ms s)"
proof (induction ms arbitrary: k s)
  case (Cons m ms)
  from Cons.IH [OF ring_run.Access [OF Cons.prems]] show ?case by simp
qed simp

lemma moves_run: "ring_run r0 (length ms) (fold ring_step ms (new_ring_system r0))"
  using fold_run [OF ring_run.Created, of r0 ms] by simp

definition small_ring :: "u32 \<Rightarrow> overrun_policy \<Rightarrow> shm_ring" where
  "small_ring capacity policy = (case create_ring 2 capacity 0 [] policy 0 0 of Inr r \<Rightarrow> r)"

lemma small_ring_created:
  "create_ring 2 1 0 [] policy 0 0 = Inr (small_ring 1 policy)" "create_ring 2 2 0 [] policy 0 0 = Inr (small_ring 2 policy)"
  by (simp_all add: small_ring_def create_ring_def is_power_of_two_def)

lemmas ring_run_simps = small_ring_def create_ring_def is_power_of_two_def new_ring_system_def ring_step_def start_push_def
  push_record_def produce_def push_access_def await_room_def must_wait_def blocks_def policy_from_wire_def consume_def drain_access_def
  unread_regions_def commit_drain_def publish_read_cursor_def ring_capacity_def slice_byte_def Let_def
  backpressure_must_wait_def sat_sub_def unat_mod

text \<open>
  The exception is real. A ring of one slot is full; its consumer has the record's slice in hand when the
  producer copies the first byte of the next record over it; the commit is accepted, and the consumer was
  handed bytes of both records.
\<close>

definition torn_moves :: "ring_move list" where
  "torn_moves = [Push [1, 1], Produce False, Produce False, Produce False, Consume (Attach False), Consume Go, Consume Go,
     Push [2, 2], Produce False, Consume Go, Consume Go, Consume (Commit 1)]"

lemma full_ring_hands_out_a_torn_record:
  fixes s :: ring_system
  defines "s \<equiv> fold ring_step torn_moves (new_ring_system (small_ring 1 FailLoud))"
  shows "ring_run (small_ring 1 FailLoud) (length torn_moves) s \<and> rs_handed s = [2, 1] \<and> rs_pushed s = [[1, 1]] \<and>
    cn_read_cursor (rs_consumer s) = 1"
proof -
  have "rs_handed s = [2, 1] \<and> rs_pushed s = [[1, 1]] \<and> cn_read_cursor (rs_consumer s) = 1"
    by (simp add: s_def torn_moves_def ring_run_simps)
  then show ?thesis using moves_run [of "small_ring 1 FailLoud" torn_moves] by (simp add: s_def)
qed

definition whole_moves :: "ring_move list" where
  "whole_moves = [Push [1, 1], Produce False, Produce False, Produce False, Push [2, 2], Produce False, Produce False,
     Produce False, Consume (Attach False), Consume Go, Consume Go, Consume Go, Consume Go, Consume Go, Consume Go]"

theorem drained_records_are_whole_witness:
  "\<exists>s taken. ring_run (small_ring 2 FailLoud) 15 s \<and> cn_phase (rs_consumer s) = Draining 2 0 4 0 taken \<and>
     commit_drain 2 (cn_read_cursor (rs_consumer s)) (rs_ring s) = Inr 2 \<and> take 2 (drop 2 taken) = rs_pushed s ! 1"
proof -
  define s where "s = fold ring_step whole_moves (new_ring_system (small_ring 2 FailLoud))"
  have "length whole_moves = 15" by (simp add: whole_moves_def)
  then have run: "ring_run (small_ring 2 FailLoud) 15 s"
    using moves_run [of "small_ring 2 FailLoud" whole_moves] by (simp add: s_def)
  have at: "cn_phase (rs_consumer s) = Draining 2 0 4 0 [1, 1, 2, 2]" "cn_read_cursor (rs_consumer s) = 0"
    "commit_drain 2 (cn_read_cursor (rs_consumer s)) (rs_ring s) = Inr 2"
    by (simp_all add: s_def whole_moves_def ring_run_simps nth_list_update)
  have "take (unat (2 :: u32)) (drop ((1 - unat (cn_read_cursor (rs_consumer s))) * unat (2 :: u32)) [1, 1, 2, 2]) = rs_pushed s ! 1 \<or>
      1 = unat (cn_read_cursor (rs_consumer s)) \<and> length (rs_pushed s) = 1 + unat (2 :: u32) \<and>
      (\<exists>rec b. pd_phase (rs_producer s) = PCopy rec b \<and> 0 < b)"
    by (rule drained_records_are_whole [OF small_ring_created(2) run _ at(1) _ at(3)]) (simp_all add: at(2))
  then have "rs_pushed s ! 1 = [2, 2]" by (simp add: at(2))
  then have "take 2 (drop 2 [1, 1, 2, 2]) = rs_pushed s ! 1" by simp
  then show ?thesis using run at by blast
qed

definition queue_moves :: "ring_move list" where
  "queue_moves = [Push [1, 1], Produce False, Produce False, Produce False, Push [2, 2], Produce False,
     Consume (Attach False), Consume Go, Consume Go, Consume Go, Consume Go, Consume (Commit 1), Consume Go, Produce False]"

theorem backpressure_ring_is_a_queue_witness:
  "\<exists>s. ring_run (small_ring 1 Backpressure) 14 s \<and> pd_phase (rs_producer s) = PCopy [2, 2] 0 \<and> pd_waits (rs_producer s) = 1 \<and>
     rs_handed s = concat [[1, 1]] \<and> (\<exists>regions. unread_regions 1 (rs_ring s) = Inr regions)"
proof -
  define s where "s = fold ring_step queue_moves (new_ring_system (small_ring 1 Backpressure))"
  have "length queue_moves = 14" by (simp add: queue_moves_def)
  then have run: "ring_run (small_ring 1 Backpressure) 14 s"
    using moves_run [of "small_ring 1 Backpressure" queue_moves] by (simp add: s_def)
  have at: "pd_phase (rs_producer s) = PCopy [2, 2] 0" "pd_waits (rs_producer s) = 1" "pd_wait_timeouts (rs_producer s) = 0"
    "cn_read_cursor (rs_consumer s) = 1" "rs_start s = 0" "rs_pushed s = [[1, 1]]"
    by (simp_all add: s_def queue_moves_def ring_run_simps)
  show ?thesis using backpressure_ring_is_a_queue [OF small_ring_created(1) run _ at(3)] run at by auto
qed

theorem checked_room_stays_witness:
  "free_records (rs_ring (new_ring_system (small_ring 2 Backpressure))) (rs_producer (new_ring_system (small_ring 2 Backpressure))) = Some 2 \<and>
   \<not> must_wait (rs_ring (fold ring_step (take 4 queue_moves) (new_ring_system (small_ring 2 Backpressure))))
      (rs_producer (fold ring_step (take 4 queue_moves) (new_ring_system (small_ring 2 Backpressure))))"
proof -
  let ?s = "new_ring_system (small_ring 2 Backpressure)"
  have f: "free_records (rs_ring ?s) (rs_producer ?s) = Some 2"
    by (simp add: free_records_def backpressure_free_records_def ring_run_simps)
  have p: "length (rs_pushed (fold ring_step (take 4 queue_moves) ?s)) = 1" "length (rs_pushed ?s) = 0"
    by (simp_all add: queue_moves_def ring_run_simps)
  have "\<not> must_wait (rs_ring (fold ring_step (take 4 queue_moves) ?s)) (rs_producer (fold ring_step (take 4 queue_moves) ?s))"
    by (rule checked_room_stays [OF small_ring_created(2) ring_run.Created f]) (simp add: queue_moves_def, simp add: p)
  then show ?thesis using f by simp
qed

text \<open>A segment that was created is opened, whatever else was mapped after it; one byte short of it is refused.\<close>

lemma created_ring_opens:
  assumes "create_ring record_size capacity rank manifest policy degraded generation = Inr r"
  shows "check_segment (segment_size record_size capacity + extra) r = Inr ()"
    "check_segment (segment_size record_size capacity - 1) r = Inl (SegmentTooSmall (segment_size record_size capacity - 1))"
  using assms by (auto simp: create_ring_def check_segment_def segment_size_def unat_gt_0 split: if_splits)

end
