(* ===== verification/ControlLease.thy ===== *)
theory ControlLease
  imports Prelude Wire
begin

text \<open>
  The lease of a robot's controls (\<open>cerud/src/lease.rs\<close>): one holder at a time, who must renew within the
  deadman window, can be displaced by a higher role, and is overruled by the emergency stop. Every operation
  takes the time it happens at; a session is the bytes of its name. Then the lease behind its lock, shared by
  the threads that engage the stop and those that send (\<open>cerulion_remoted/src/estop_lease.rs\<close>,
  \<open>act_verbs.rs\<close>), in any interleaving and with a lock that queues nobody. Poisoned locks are not modelled.
\<close>

section \<open>The machine\<close>

datatype lease_role = Operator | Supervisor | Safety

fun role_rank :: "lease_role \<Rightarrow> u8" where
  "role_rank Operator = 1"
| "role_rank Supervisor = 2"
| "role_rank Safety = 3"

record lease_holder =
  lh_session :: bytes
  lh_role :: lease_role
  lh_acquired_at_ns :: u64
  lh_last_renew_ns :: u64

datatype estop_state = EstopClear | EstopEngaged bytes

record control_lease =
  cl_holder :: "lease_holder option"
  cl_estop :: estop_state
  cl_deadman_window_ns :: u64

datatype acquire_outcome = Granted | Renewed | Stolen bytes | Busy bytes

datatype lease_violation = NotHolder bytes bytes | NoHolder bytes

definition new_lease :: "u64 \<Rightarrow> control_lease" where
  "new_lease window = \<lparr>cl_holder = None, cl_estop = EstopClear, cl_deadman_window_ns = window\<rparr>"

definition LEASE_DEADMAN_WINDOW_MS :: u64 where "LEASE_DEADMAN_WINDOW_MS = 500"

definition lease_with_default_window :: control_lease where
  "lease_with_default_window = new_lease (LEASE_DEADMAN_WINDOW_MS * 1000000)"

definition acquire_lease :: "bytes \<Rightarrow> lease_role \<Rightarrow> u64 \<Rightarrow> control_lease \<Rightarrow> acquire_outcome \<times> control_lease" where
  "acquire_lease session role now l =
     (let fresh = \<lparr>lh_session = session, lh_role = role, lh_acquired_at_ns = now, lh_last_renew_ns = now\<rparr>
      in case cl_holder l of
           None \<Rightarrow> (Granted, l\<lparr>cl_holder := Some fresh\<rparr>)
         | Some h \<Rightarrow>
             if lh_session h = session then (Renewed, l\<lparr>cl_holder := Some (h\<lparr>lh_last_renew_ns := now\<rparr>)\<rparr>)
             else if role_rank (lh_role h) < role_rank role
             then (Stolen (lh_session h), l\<lparr>cl_holder := Some fresh\<rparr>)
             else (Busy (lh_session h), l))"

definition renew_lease :: "bytes \<Rightarrow> u64 \<Rightarrow> control_lease \<Rightarrow> (lease_violation + unit) \<times> control_lease" where
  "renew_lease session now l =
     (case cl_holder l of
        Some h \<Rightarrow>
          if lh_session h = session then (Inr (), l\<lparr>cl_holder := Some (h\<lparr>lh_last_renew_ns := now\<rparr>)\<rparr>)
          else (Inl (NotHolder session (lh_session h)), l)
      | None \<Rightarrow> (Inl (NoHolder session), l))"

definition release_lease :: "bytes \<Rightarrow> control_lease \<Rightarrow> (lease_violation + unit) \<times> control_lease" where
  "release_lease session l =
     (case cl_holder l of
        Some h \<Rightarrow>
          if lh_session h = session then (Inr (), l\<lparr>cl_holder := None\<rparr>)
          else (Inl (NotHolder session (lh_session h)), l)
      | None \<Rightarrow> (Inl (NoHolder session), l))"

text \<open>The deadman names the session that lapsed; the safe frame it enters is a fixed marker.\<close>

definition poll_deadman :: "u64 \<Rightarrow> control_lease \<Rightarrow> bytes option \<times> control_lease" where
  "poll_deadman now l =
     (case cl_holder l of
        Some h \<Rightarrow>
          if cl_deadman_window_ns l < sat_sub now (lh_last_renew_ns h)
          then (Some (lh_session h), l\<lparr>cl_holder := None\<rparr>) else (None, l)
      | None \<Rightarrow> (None, l))"

definition engage_estop :: "bytes \<Rightarrow> control_lease \<Rightarrow> control_lease" where
  "engage_estop session l = (if cl_estop l = EstopClear then l\<lparr>cl_estop := EstopEngaged session\<rparr> else l)"

definition clear_estop :: "control_lease \<Rightarrow> control_lease" where
  "clear_estop l = l\<lparr>cl_estop := EstopClear\<rparr>"

definition may_actuate :: "u64 \<Rightarrow> control_lease \<Rightarrow> bool" where
  "may_actuate now l \<longleftrightarrow> cl_estop l = EstopClear \<and>
     (case cl_holder l of
        Some h \<Rightarrow> sat_sub now (lh_last_renew_ns h) \<le> cl_deadman_window_ns l
      | None \<Rightarrow> False)"

section \<open>Histories\<close>

datatype lease_op =
    OpAcquire bytes lease_role u64 | OpRenew bytes u64 | OpRelease bytes | OpPoll u64
  | OpEngage bytes | OpClear

fun lease_step :: "lease_op \<Rightarrow> control_lease \<Rightarrow> control_lease" where
  "lease_step (OpAcquire s role now) l = snd (acquire_lease s role now l)"
| "lease_step (OpRenew s now) l = snd (renew_lease s now l)"
| "lease_step (OpRelease s) l = snd (release_lease s l)"
| "lease_step (OpPoll now) l = snd (poll_deadman now l)"
| "lease_step (OpEngage s) l = engage_estop s l"
| "lease_step OpClear l = clear_estop l"

lemmas lease_defs = acquire_lease_def renew_lease_def release_lease_def poll_deadman_def engage_estop_def clear_estop_def

text \<open>An operation by which \<open>s\<close> shows at \<open>t\<close> that it is alive, and one that can take the lease from it.\<close>

fun shows_alive :: "bytes \<Rightarrow> u64 \<Rightarrow> lease_op \<Rightarrow> bool" where
  "shows_alive s t (OpAcquire s' role now) = (s' = s \<and> now = t)"
| "shows_alive s t (OpRenew s' now) = (s' = s \<and> now = t)"
| "shows_alive s t _ = False"

lemma window_kept [simp]: "cl_deadman_window_ns (lease_step op l) = cl_deadman_window_ns l"
  by (cases op) (auto simp: lease_defs Let_def split: option.split)

lemma window_kept_run [simp]: "cl_deadman_window_ns (fold lease_step ops l) = cl_deadman_window_ns l"
  by (induction ops arbitrary: l) simp_all

lemma holder_step:
  assumes "cl_holder (lease_step op l) = Some h"
  shows "cl_holder l = Some h \<or> shows_alive (lh_session h) (lh_last_renew_ns h) op"
  using assms by (cases op) (auto simp: lease_defs Let_def split: option.splits if_splits)

lemma holder_was_alive:
  assumes "cl_holder (fold lease_step ops (new_lease window)) = Some h"
  shows "\<exists>before op after. ops = before @ op # after \<and> shows_alive (lh_session h) (lh_last_renew_ns h) op \<and>
    (\<forall>k \<le> length after. cl_holder (fold lease_step (before @ op # take k after) (new_lease window)) = Some h)"
  using assms
proof (induction ops rule: rev_induct)
  case Nil
  then show ?case by (simp add: new_lease_def)
next
  case (snoc op ops)
  show ?case
  proof (cases "cl_holder (fold lease_step ops (new_lease window)) = Some h")
    case True
    then obtain before op' after where b: "ops = before @ op' # after" "shows_alive (lh_session h) (lh_last_renew_ns h) op'"
      "\<forall>k \<le> length after. cl_holder (fold lease_step (before @ op' # take k after) (new_lease window)) = Some h"
      using snoc.IH by blast
    have "cl_holder (fold lease_step (before @ op' # take k (after @ [op])) (new_lease window)) = Some h"
      if "k \<le> length (after @ [op])" for k
      using that b(1,3) snoc.prems by (cases "k \<le> length after") (auto simp: le_Suc_eq)
    then show ?thesis using b(1,2) by (intro exI [of _ before] exI [of _ op'] exI [of _ "after @ [op]"]) simp
  next
    case False
    then have "shows_alive (lh_session h) (lh_last_renew_ns h) op" using holder_step [of op] snoc.prems by fastforce
    then show ?thesis using snoc.prems by (intro exI [of _ ops] exI [of _ op] exI [of _ "[]"]) simp
  qed
qed

lemma estop_stays: "OpClear \<notin> set ops \<Longrightarrow> cl_estop l \<noteq> EstopClear \<Longrightarrow> cl_estop (fold lease_step ops l) \<noteq> EstopClear"
proof (induction ops arbitrary: l)
  case (Cons op ops)
  have "cl_estop (lease_step op l) \<noteq> EstopClear"
    using Cons.prems by (cases op) (auto simp: lease_defs Let_def split: option.split)
  then show ?case using Cons by simp
qed simp

section \<open>Properties\<close>

text \<open>
  C17. Whatever was asked of a lease, in whatever order and at whatever times: the controls are free only for a
  session that itself acquired or renewed within the deadman window and has held the lease ever since, and
  never between an emergency stop and the clearing of it.
\<close>

theorem actuation_is_held_and_recent:
  assumes "may_actuate now (fold lease_step ops (new_lease window))"
  shows "(\<exists>h before op after. ops = before @ op # after \<and> shows_alive (lh_session h) (lh_last_renew_ns h) op \<and>
      unat now - unat (lh_last_renew_ns h) \<le> unat window \<and>
      (\<forall>k \<le> length after. cl_holder (fold lease_step (before @ op # take k after) (new_lease window)) = Some h)) \<and>
    (\<forall>before s after. ops = before @ OpEngage s # after \<longrightarrow> OpClear \<in> set after)"
proof
  obtain h where h: "cl_holder (fold lease_step ops (new_lease window)) = Some h"
    "sat_sub now (lh_last_renew_ns h) \<le> cl_deadman_window_ns (fold lease_step ops (new_lease window))"
    using assms by (auto simp: may_actuate_def split: option.splits)
  from h(2) have "unat now - unat (lh_last_renew_ns h) \<le> unat window"
    by (simp add: new_lease_def word_le_nat_alt unat_sat_sub)
  with holder_was_alive [OF h(1)] show "\<exists>h before op after. ops = before @ op # after \<and>
      shows_alive (lh_session h) (lh_last_renew_ns h) op \<and> unat now - unat (lh_last_renew_ns h) \<le> unat window \<and>
      (\<forall>k \<le> length after. cl_holder (fold lease_step (before @ op # take k after) (new_lease window)) = Some h)"
    by blast
  show "\<forall>before s after. ops = before @ OpEngage s # after \<longrightarrow> OpClear \<in> set after"
  proof (intro allI impI)
    fix before s after
    assume ops: "ops = before @ OpEngage s # after"
    have "cl_estop (engage_estop s l) \<noteq> EstopClear" for l by (simp add: engage_estop_def)
    then show "OpClear \<in> set after"
      using assms estop_stays [of after] by (auto simp: ops may_actuate_def)
  qed
qed

theorem actuation_is_held_and_recent_witness:
  "\<exists>h :: lease_holder. may_actuate 12 (fold lease_step [OpAcquire [1] Operator 5, OpAcquire [2] Safety 9] (new_lease 4)) \<and>
     lh_session h = [2] \<and> unat (12 :: u64) - unat (lh_last_renew_ns h) \<le> unat (4 :: u64)"
proof -
  have m: "may_actuate 12 (fold lease_step [OpAcquire [1] Operator 5, OpAcquire [2] Safety 9] (new_lease 4))"
    by (simp add: acquire_lease_def may_actuate_def new_lease_def sat_sub_def)
  from actuation_is_held_and_recent [OF m] obtain h before op after where
    h: "[OpAcquire [1] Operator 5, OpAcquire [2] Safety 9] = before @ op # after"
      "unat (12 :: u64) - unat (lh_last_renew_ns h) \<le> unat (4 :: u64)"
      "\<forall>k \<le> length after. cl_holder (fold lease_step (before @ op # take k after) (new_lease 4)) = Some h"
    by blast
  from h(3) have "cl_holder (fold lease_step (before @ op # after) (new_lease 4)) = Some h" by (metis order_refl take_all)
  then have "lh_session h = [2]" by (auto simp: acquire_lease_def new_lease_def simp flip: h(1))
  with m h(2) have "may_actuate 12 (fold lease_step [OpAcquire [1] Operator 5, OpAcquire [2] Safety 9] (new_lease 4)) \<and>
      lh_session h = [2] \<and> unat (12 :: u64) - unat (lh_last_renew_ns h) \<le> unat (4 :: u64)" by blast
  then show ?thesis ..
qed

text \<open>
  Nobody raises a role in place: while a lease is held, its role changes only with its holder, and then to
  a strictly higher one.
\<close>

theorem role_rises_only_by_theft:
  assumes "cl_holder l = Some h" "cl_holder (lease_step op l) = Some h'"
  shows "if lh_session h' = lh_session h then lh_role h' = lh_role h \<and> lh_acquired_at_ns h' = lh_acquired_at_ns h
    else role_rank (lh_role h) < role_rank (lh_role h') \<and> (\<exists>now. op = OpAcquire (lh_session h') (lh_role h') now)"
  using assms by (cases op) (auto simp: lease_defs Let_def split: option.splits if_splits)

theorem role_rises_only_by_theft_witness:
  "cl_holder (lease_step (OpAcquire [2] Safety 9) (lease_step (OpAcquire [1] Operator 5) (new_lease 4))) =
     Some \<lparr>lh_session = [2], lh_role = Safety, lh_acquired_at_ns = 9, lh_last_renew_ns = 9\<rparr> \<and>
   role_rank Operator < role_rank Safety"
  using role_rises_only_by_theft [of "lease_step (OpAcquire [1] Operator 5) (new_lease 4)"
      "\<lparr>lh_session = [1], lh_role = Operator, lh_acquired_at_ns = 5, lh_last_renew_ns = 5\<rparr>" "OpAcquire [2] Safety 9"]
  by (simp add: acquire_lease_def new_lease_def)

text \<open>
  The deadman fires when it is polled, not when the window ends: a holder that is late and renews, or acquires
  again, before the next poll is taken back as if it had never lapsed.
\<close>

lemma late_renewal_revives:
  fixes l :: control_lease
  defines "l \<equiv> fold lease_step [OpAcquire [1] Operator 0, OpRenew [1] 100] (new_lease 4)"
  shows "\<not> may_actuate 99 (lease_step (OpAcquire [1] Operator 0) (new_lease 4)) \<and>
    fst (poll_deadman 100 l) = None \<and> may_actuate 100 l"
  by (simp add: l_def acquire_lease_def renew_lease_def poll_deadman_def may_actuate_def new_lease_def sat_sub_def)

section \<open>The stop against the senders\<close>

text \<open>
  Where a thread that engages the stop stands: not begun, counted in, holding the lock, with the latch engaged,
  with the lock released, counted out. A sender: idle, holding the lock, with the latch read clear, sending,
  about to unlock.
\<close>

datatype engage_phase = EIdle | ECounted | ELocked | EEngaged | EReleased | EDone

datatype send_phase = SIdle | SLocked | SReadClear | SSending | SUnlock

datatype lock_owner = Free | ByEngager nat | BySender nat

record estop_lease =
  el_lease :: control_lease
  el_lock :: lock_owner
  el_engaging :: nat
  el_engagers :: "engage_phase list"
  el_senders :: "send_phase list"
  el_sent :: nat

definition engage_pending :: "estop_lease \<Rightarrow> bool" where
  "engage_pending s \<longleftrightarrow> 0 < el_engaging s"

definition engage_access :: "nat \<Rightarrow> estop_lease \<Rightarrow> estop_lease" where
  "engage_access i s =
     (case el_engagers s ! i of
        EIdle \<Rightarrow> s\<lparr>el_engaging := el_engaging s + 1, el_engagers := (el_engagers s)[i := ECounted]\<rparr>
      | ECounted \<Rightarrow>
          if el_lock s = Free then s\<lparr>el_lock := ByEngager i, el_engagers := (el_engagers s)[i := ELocked]\<rparr> else s
      | ELocked \<Rightarrow> s\<lparr>el_lease := engage_estop [] (el_lease s), el_engagers := (el_engagers s)[i := EEngaged]\<rparr>
      | EEngaged \<Rightarrow> s\<lparr>el_lock := Free, el_engagers := (el_engagers s)[i := EReleased]\<rparr>
      | EReleased \<Rightarrow> s\<lparr>el_engaging := el_engaging s - 1, el_engagers := (el_engagers s)[i := EDone]\<rparr>
      | EDone \<Rightarrow> s)"

definition send_unless_estop :: "nat \<Rightarrow> estop_lease \<Rightarrow> estop_lease" where
  "send_unless_estop j s =
     (case el_senders s ! j of
        SIdle \<Rightarrow>
          if el_lock s = Free then s\<lparr>el_lock := BySender j, el_senders := (el_senders s)[j := SLocked]\<rparr> else s
      | SLocked \<Rightarrow>
          s\<lparr>el_senders := (el_senders s)[j := if cl_estop (el_lease s) = EstopClear then SReadClear else SUnlock]\<rparr>
      | SReadClear \<Rightarrow> s\<lparr>el_senders := (el_senders s)[j := if engage_pending s then SUnlock else SSending]\<rparr>
      | SSending \<Rightarrow> s\<lparr>el_sent := el_sent s + 1, el_senders := (el_senders s)[j := SUnlock]\<rparr>
      | SUnlock \<Rightarrow> s\<lparr>el_lock := Free, el_senders := (el_senders s)[j := SIdle]\<rparr>)"

text \<open>Any other use of the lease takes the lock, applies one operation and releases it.\<close>

datatype stop_move = EngageMove nat | SendMove nat | LeaseMove lease_op

fun stop_step :: "stop_move \<Rightarrow> estop_lease \<Rightarrow> estop_lease" where
  "stop_step (EngageMove i) s = (if i < length (el_engagers s) then engage_access i s else s)"
| "stop_step (SendMove j) s = (if j < length (el_senders s) then send_unless_estop j s else s)"
| "stop_step (LeaseMove op) s = (if el_lock s = Free then s\<lparr>el_lease := lease_step op (el_lease s)\<rparr> else s)"

definition new_estop_lease :: "control_lease \<Rightarrow> nat \<Rightarrow> nat \<Rightarrow> estop_lease" where
  "new_estop_lease l engagers senders = \<lparr>el_lease = l, el_lock = Free, el_engaging = 0,
     el_engagers = replicate engagers EIdle, el_senders = replicate senders SIdle, el_sent = 0\<rparr>"

definition engage_counted :: "engage_phase \<Rightarrow> bool" where
  "engage_counted e \<longleftrightarrow> e \<noteq> EIdle \<and> e \<noteq> EDone"

definition stop_ok :: "estop_lease \<Rightarrow> bool" where
  "stop_ok s \<longleftrightarrow>
     el_engaging s = length (filter engage_counted (el_engagers s)) \<and>
     (\<forall>i < length (el_engagers s). el_engagers s ! i \<in> {ELocked, EEngaged} \<longleftrightarrow> el_lock s = ByEngager i) \<and>
     (\<forall>j < length (el_senders s). el_senders s ! j \<noteq> SIdle \<longleftrightarrow> el_lock s = BySender j) \<and>
     (\<forall>j < length (el_senders s). el_senders s ! j \<in> {SReadClear, SSending} \<longrightarrow> cl_estop (el_lease s) = EstopClear) \<and>
     (\<forall>i < length (el_engagers s). el_engagers s ! i = EEngaged \<longrightarrow> cl_estop (el_lease s) \<noteq> EstopClear)"

lemma counted_update:
  "i < length xs \<Longrightarrow> length (filter P (xs[i := y])) = length (filter P xs) + (if P y then 1 else 0) - (if P (xs ! i) then 1 else 0)"
proof (induction xs arbitrary: i)
  case (Cons x xs)
  have "0 < length (filter P xs)" if "i < length xs" "P (xs ! i)" for i using that by (auto simp: filter_empty_conv)
  then show ?case using Cons by (cases i) (auto simp: Suc_diff_le)
qed simp

lemma stop_ok_engage:
  assumes "stop_ok s" "i < length (el_engagers s)"
  shows "stop_ok (engage_access i s)"
proof -
  note ok = assms(1) [unfolded stop_ok_def] and count = counted_update [OF assms(2), of engage_counted]
  have mine: "el_lock s = ByEngager i" if "el_engagers s ! i \<in> {ELocked, EEngaged}" using ok assms(2) that by blast
  show ?thesis
  proof (cases "el_engagers s ! i")
    case EEngaged
    then have "el_lock s = ByEngager i" using mine by simp
    then show ?thesis using ok assms(2) EEngaged by (auto simp: stop_ok_def engage_access_def count engage_counted_def nth_list_update)
  next
    case ELocked
    then have "el_lock s = ByEngager i" using mine by simp
    then show ?thesis using ok assms(2) ELocked
      by (auto simp: stop_ok_def engage_access_def count engage_counted_def nth_list_update engage_estop_def)
  qed (use ok assms in \<open>auto simp: stop_ok_def engage_access_def count engage_counted_def nth_list_update\<close>)
qed

lemma stop_ok_send:
  assumes "stop_ok s" "j < length (el_senders s)"
  shows "stop_ok (send_unless_estop j s)"
proof -
  note ok = assms(1) [unfolded stop_ok_def]
  have "el_senders s ! j = SIdle \<or> el_lock s = BySender j" using ok assms(2) by blast
  then show ?thesis using ok assms(2)
    by (cases "el_senders s ! j") (auto simp: stop_ok_def send_unless_estop_def nth_list_update)
qed

lemma stop_ok_step: "stop_ok s \<Longrightarrow> stop_ok (stop_step m s)"
  by (cases m) (auto simp: stop_ok_engage stop_ok_send, force simp: stop_ok_def)

lemma stop_ok_run: "stop_ok s \<Longrightarrow> stop_ok (fold stop_step ms s)"
  by (induction ms arbitrary: s) (simp_all add: stop_ok_step)

lemma new_stop_ok: "stop_ok (new_estop_lease l n m)"
  by (auto simp: stop_ok_def new_estop_lease_def engage_counted_def)

text \<open>From where an engage waits, and until somebody clears the stop.\<close>

definition stopping :: "nat \<Rightarrow> estop_lease \<Rightarrow> bool" where
  "stopping i s \<longleftrightarrow> i < length (el_engagers s) \<and>
     (el_engagers s ! i \<in> {ECounted, ELocked} \<or> cl_estop (el_lease s) \<noteq> EstopClear)"

definition sending :: "estop_lease \<Rightarrow> bool" where
  "sending s \<longleftrightarrow> SSending \<in> set (el_senders s)"

lemma stopping_step:
  assumes "stop_ok s" "stopping i s" "m \<noteq> LeaseMove OpClear"
  shows "stopping i (stop_step m s)"
proof (cases m)
  case (EngageMove k)
  then show ?thesis using assms(2)
    by (cases "el_engagers s ! k") (auto simp: stopping_def engage_access_def nth_list_update engage_estop_def)
next
  case (SendMove j)
  then show ?thesis using assms(2)
    by (cases "el_senders s ! j") (auto simp: stopping_def send_unless_estop_def)
next
  case (LeaseMove op)
  have "cl_estop (lease_step op (el_lease s)) \<noteq> EstopClear" if "cl_estop (el_lease s) \<noteq> EstopClear"
    using estop_stays [of "[op]"] that assms(3) LeaseMove by simp
  then show ?thesis using assms(2) LeaseMove by (auto simp: stopping_def)
qed

lemma pending_while_waiting:
  assumes "stop_ok s" "i < length (el_engagers s)" "engage_counted (el_engagers s ! i)"
  shows "engage_pending s"
  using assms by (auto simp: stop_ok_def engage_pending_def filter_empty_conv)

lemma no_new_send:
  assumes "stop_ok s" "stopping i s"
  shows "el_sent (stop_step m s) + of_bool (sending (stop_step m s)) \<le> el_sent s + of_bool (sending s)"
proof (cases m)
  case (EngageMove k)
  then show ?thesis
    by (cases "el_engagers s ! k") (auto simp: engage_access_def sending_def)
next
  case (SendMove j)
  show ?thesis
  proof (cases "j < length (el_senders s)")
    case True
    note ok = assms(1) [unfolded stop_ok_def]
    have only: "x \<noteq> SSending" if "x \<in> set ((el_senders s)[j := y])" "y \<noteq> SSending" "el_senders s ! j \<noteq> SIdle" for x y
    proof
      assume "x = SSending"
      with that(1) have "SSending \<in> set ((el_senders s)[j := y])" by simp
      then obtain k where k: "k < length (el_senders s)" "(el_senders s)[j := y] ! k = SSending"
        by (auto simp: in_set_conv_nth)
      then have "k \<noteq> j" using that(2) True by auto
      then have "el_senders s ! k = SSending" using k(2) by simp
      then have "el_lock s = BySender k" "el_lock s = BySender j" using ok k(1) True that(3) by auto
      then show False using \<open>k \<noteq> j\<close> by simp
    qed
    show ?thesis
    proof (cases "el_senders s ! j")
      case SReadClear
      then have "cl_estop (el_lease s) = EstopClear" using ok True by blast
      then have "engage_pending s"
        using assms(2) pending_while_waiting [OF assms(1), of i] by (auto simp: stopping_def engage_counted_def)
      then show ?thesis using SendMove True SReadClear only [of _ SUnlock]
        by (auto simp: send_unless_estop_def sending_def)
    next
      case SSending
      then have "SSending \<in> set (el_senders s)" using True by (metis nth_mem)
      then show ?thesis using SendMove True SSending only [of _ SUnlock]
        by (auto simp: send_unless_estop_def sending_def)
    next
      case SIdle
      have "x \<in> set (el_senders s)" if "x \<in> set ((el_senders s)[j := SLocked])" "x = SSending" for x
        using that by (auto dest!: set_update_subset_insert [THEN subsetD])
      then show ?thesis using SendMove True SIdle by (auto simp: send_unless_estop_def sending_def)
    next
      case SLocked
      then show ?thesis using SendMove True only [of _ SReadClear] only [of _ SUnlock]
        by (auto simp: send_unless_estop_def sending_def)
    next
      case SUnlock
      then show ?thesis using SendMove True only [of _ SIdle]
        by (auto simp: send_unless_estop_def sending_def)
    qed
  qed (use SendMove in simp)
next
  case (LeaseMove op)
  then show ?thesis by (simp add: sending_def)
qed

text \<open>
  C18. The emergency stop does not starve: once a thread that engages it waits for the lock, then whatever the
  senders and everyone else do, and however unfairly the lock is passed on, at most the one send that is
  running then still happens, and none if none is running, until somebody clears the stop.
\<close>

theorem engage_waits_for_one_send:
  fixes before after :: "stop_move list" and l :: control_lease and engagers senders :: nat
  defines "s \<equiv> fold stop_step before (new_estop_lease l engagers senders)"
  assumes "i < engagers" "el_engagers s ! i = ECounted" "LeaseMove OpClear \<notin> set after"
  shows "el_sent (fold stop_step after s) \<le> el_sent s + of_bool (sending s)"
proof -
  have len: "length (el_engagers (fold stop_step ms x)) = length (el_engagers x)" for ms x
  proof (induction ms arbitrary: x)
    case (Cons m ms)
    have "length (el_engagers (stop_step m x)) = length (el_engagers x)"
      by (cases m) (auto simp: engage_access_def send_unless_estop_def split: engage_phase.split send_phase.split)
    then show ?case using Cons by simp
  qed simp
  have "stop_ok s" unfolding s_def by (intro stop_ok_run new_stop_ok)
  moreover have "stopping i s"
    using assms(2,3) len [of before "new_estop_lease l engagers senders"]
    by (simp add: stopping_def s_def new_estop_lease_def)
  moreover have "stop_ok x \<Longrightarrow> stopping i x \<Longrightarrow> LeaseMove OpClear \<notin> set ms \<Longrightarrow>
      el_sent (fold stop_step ms x) + of_bool (sending (fold stop_step ms x)) \<le> el_sent x + of_bool (sending x)" for ms x
  proof (induction ms arbitrary: x)
    case (Cons m ms)
    have "stop_ok (stop_step m x)" "stopping i (stop_step m x)"
      using Cons.prems stop_ok_step stopping_step [of x i m] by auto
    from Cons.IH [OF this] Cons.prems(3) no_new_send [OF Cons.prems(1,2), of m] show ?case by simp
  qed simp
  ultimately show ?thesis using assms(4) by fastforce
qed

theorem engage_waits_for_one_send_witness:
  "el_sent (fold stop_step (concat (replicate 9 [SendMove 0, EngageMove 0]))
     (fold stop_step [SendMove 0, SendMove 0, SendMove 0, EngageMove 0] (new_estop_lease (new_lease 4) 1 1))) \<le> 1 \<and>
   el_sent (fold stop_step (concat (replicate 9 [SendMove 0]))
     (fold stop_step [SendMove 0, SendMove 0, SendMove 0] (new_estop_lease (new_lease 4) 1 1))) = 2"
proof
  let ?before = "[SendMove 0, SendMove 0, SendMove 0, EngageMove 0]"
  let ?s = "fold stop_step ?before (new_estop_lease (new_lease 4) 1 1)"
  have e: "el_engagers ?s ! 0 = ECounted" "el_sent ?s = 0"
    by (simp_all add: new_estop_lease_def send_unless_estop_def engage_access_def engage_pending_def new_lease_def)
  have "LeaseMove OpClear \<notin> set (concat (replicate 9 [SendMove 0, EngageMove 0]))" by simp
  from engage_waits_for_one_send [OF zero_less_one e(1) this] e(2)
  show "el_sent (fold stop_step (concat (replicate 9 [SendMove 0, EngageMove 0])) ?s) \<le> 1"
    by (simp add: of_bool_def split: if_splits)
  show "el_sent (fold stop_step (concat (replicate 9 [SendMove 0]))
     (fold stop_step [SendMove 0, SendMove 0, SendMove 0] (new_estop_lease (new_lease 4) 1 1))) = 2"
    by (simp add: numeral_eq_Suc new_estop_lease_def send_unless_estop_def engage_pending_def new_lease_def)
qed

end
