(* ===== verification/Receipts.thy ===== *)
theory Receipts
  imports StateContainers "HOL-Library.List_Lexorder" "HOL-Library.Sublist"
begin

text \<open>
  The hash-chained receipt log of the operations service (\<open>cerud/src/receipt.rs\<close>, \<open>hash.rs\<close>): entries and
  their hashes, verification, appending with its rollbacks, rotation, and recovery after a crash.

  JSON text of scalars and of a whole receipt is \<open>serde_json\<close>'s and the digest is \<open>sha2\<close>'s: both are
  parameters (\<open>receipt_codec\<close>). A file is its bytes, found through an inode, so that an open handle follows a
  rename; the log and each rotated \<open>log.i\<close> name at most one inode. Which system calls fail is given.
\<close>

section \<open>Canonical JSON\<close>

datatype json = JScalar bytes | JString bytes | JArray "json list" | JObject "(bytes \<times> json) list"

text \<open>What is not in the repository: the JSON text of a string and of a number, the digest, the line of a receipt.\<close>

datatype receipt_outcome = ROk | RDenied | RIntent | RError bytes

record receipt =
  rc_seq :: u64
  rc_timestamp_ns :: u64
  rc_caller :: bytes
  rc_verb :: bytes
  rc_args_digest :: bytes
  rc_outcome :: receipt_outcome
  rc_prev_hash :: bytes
  rc_entry_hash :: bytes

record receipt_codec =
  cd_string :: "bytes \<Rightarrow> bytes"
  cd_number :: "u64 \<Rightarrow> bytes"
  cd_sha256_hex :: "bytes \<Rightarrow> bytes"
  cd_line :: "receipt \<Rightarrow> bytes"
  cd_parse :: "bytes \<Rightarrow> receipt option"

definition ascii :: "string \<Rightarrow> bytes" where
  "ascii s = map of_char s"

fun separated :: "bytes \<Rightarrow> bytes list \<Rightarrow> bytes" where
  "separated sep [] = []"
| "separated sep [x] = x"
| "separated sep (x # xs) = x @ sep @ separated sep xs"

primrec write_canonical :: "(bytes \<Rightarrow> bytes) \<Rightarrow> json \<Rightarrow> bytes" where
  "write_canonical str (JScalar s) = s"
| "write_canonical str (JString s) = str s"
| "write_canonical str (JArray items) = ascii ''['' @ separated (ascii '','') (map (write_canonical str) items) @ ascii '']''"
| "write_canonical str (JObject entries) =
     ascii ''{'' @ separated (ascii '','')
       (map (\<lambda>e. str (fst e) @ ascii '':'' @ snd e) (sort_key fst (map (map_prod id (write_canonical str)) entries))) @
     ascii ''}''"

section \<open>The chain\<close>

definition GENESIS_HASH :: bytes where
  "GENESIS_HASH = replicate 64 48"

definition ROTATION_VERB :: bytes where
  "ROTATION_VERB = ascii ''__rotation__''"

fun hash_tag :: "receipt_outcome \<Rightarrow> bytes" where
  "hash_tag ROk = ascii ''ok''"
| "hash_tag RDenied = ascii ''denied''"
| "hash_tag RIntent = ascii ''intent''"
| "hash_tag (RError detail) = ascii ''error:'' @ detail"

definition args_digest :: "receipt_codec \<Rightarrow> json \<Rightarrow> bytes" where
  "args_digest cd args = cd_sha256_hex cd (write_canonical (cd_string cd) args)"

definition entry_preimage :: "receipt_codec \<Rightarrow> bytes \<Rightarrow> u64 \<Rightarrow> u64 \<Rightarrow> bytes \<Rightarrow> bytes \<Rightarrow> bytes \<Rightarrow> receipt_outcome \<Rightarrow> bytes" where
  "entry_preimage cd prev_hash seq timestamp_ns caller verb digest outcome =
     write_canonical (cd_string cd) (JObject
       [(ascii ''prev_hash'', JString prev_hash), (ascii ''seq'', JScalar (cd_number cd seq)),
        (ascii ''timestamp_ns'', JScalar (cd_number cd timestamp_ns)), (ascii ''caller'', JString caller),
        (ascii ''verb'', JString verb), (ascii ''args_digest'', JString digest),
        (ascii ''outcome'', JString (hash_tag outcome))])"

definition compute_entry_hash :: "receipt_codec \<Rightarrow> bytes \<Rightarrow> u64 \<Rightarrow> u64 \<Rightarrow> bytes \<Rightarrow> bytes \<Rightarrow> bytes \<Rightarrow> receipt_outcome \<Rightarrow> bytes" where
  "compute_entry_hash cd prev_hash seq timestamp_ns caller verb digest outcome =
     cd_sha256_hex cd (entry_preimage cd prev_hash seq timestamp_ns caller verb digest outcome)"

definition recomputed :: "receipt_codec \<Rightarrow> receipt \<Rightarrow> bytes" where
  "recomputed cd r = compute_entry_hash cd (rc_prev_hash r) (rc_seq r) (rc_timestamp_ns r) (rc_caller r) (rc_verb r)
     (rc_args_digest r) (rc_outcome r)"

datatype chain_error = BrokenLink nat bytes bytes | Tampered nat

fun verify_from :: "receipt_codec \<Rightarrow> nat \<Rightarrow> bytes \<Rightarrow> receipt list \<Rightarrow> chain_error + unit" where
  "verify_from cd index expected_prev [] = Inr ()"
| "verify_from cd index expected_prev (r # rs) =
     (if rc_prev_hash r \<noteq> expected_prev then Inl (BrokenLink index expected_prev (rc_prev_hash r))
      else if recomputed cd r \<noteq> rc_entry_hash r then Inl (Tampered index)
      else verify_from cd (Suc index) (rc_entry_hash r) rs)"

definition verify_chain :: "receipt_codec \<Rightarrow> receipt list \<Rightarrow> chain_error + unit" where
  "verify_chain cd entries = verify_from cd 0 GENESIS_HASH entries"

section \<open>The log and its files\<close>

record log_fs =
  fs_live :: "nat option"
  fs_rotated :: "nat \<Rightarrow> nat option"
  fs_data :: "nat \<Rightarrow> bytes"
  fs_fresh :: nat

record receipt_log =
  rl_file :: nat
  rl_first_rotated :: bytes
  rl_next_seq :: u64
  rl_prev_hash :: bytes
  rl_current_bytes :: nat
  rl_max_bytes :: nat
  rl_max_rotations :: nat

datatype receipt_error = IoError | CorruptLine | NotUtf8 | NoLineBoundary | SealedFragment

definition build_entry :: "receipt_codec \<Rightarrow> receipt_log \<Rightarrow> bytes \<Rightarrow> bytes \<Rightarrow> bytes \<Rightarrow> receipt_outcome \<Rightarrow> u64 \<Rightarrow> receipt" where
  "build_entry cd log caller verb digest outcome timestamp_ns =
     \<lparr>rc_seq = rl_next_seq log, rc_timestamp_ns = timestamp_ns, rc_caller = caller, rc_verb = verb,
      rc_args_digest = digest, rc_outcome = outcome, rc_prev_hash = rl_prev_hash log,
      rc_entry_hash = compute_entry_hash cd (rl_prev_hash log) (rl_next_seq log) timestamp_ns caller verb digest outcome\<rparr>"

text \<open>
  How an append fails: the write after \<open>n\<close> bytes, or the sync after all of them; the flag is whether the
  truncation that undoes it works, which the code does not check.
\<close>

datatype write_fault = WriteOk | WriteFails nat bool | SyncFails bool

definition undo :: "bool \<Rightarrow> nat \<Rightarrow> bytes \<Rightarrow> bytes" where
  "undo works pre_len d = (if works then take pre_len d else d)"

definition append_entry :: "receipt_codec \<Rightarrow> write_fault \<Rightarrow> receipt \<Rightarrow> log_fs \<times> receipt_log \<Rightarrow>
    (receipt_error + unit) \<times> log_fs \<times> receipt_log" where
  "append_entry cd fault entry st =
     (case st of (fs, log) \<Rightarrow>
        let line = cd_line cd entry @ [10]; pre_len = rl_current_bytes log; file = rl_file log;
            set = (\<lambda>d. fs\<lparr>fs_data := (fs_data fs)(file := d)\<rparr>)
        in case fault of
             WriteFails n works \<Rightarrow> (Inl IoError, set (undo works pre_len (fs_data fs file @ take n line)), log)
           | SyncFails works \<Rightarrow> (Inl IoError, set (undo works pre_len (fs_data fs file @ line)), log)
           | WriteOk \<Rightarrow> (Inr (), set (fs_data fs file @ line),
               log\<lparr>rl_prev_hash := rc_entry_hash entry, rl_next_seq := rl_next_seq log + 1,
                   rl_current_bytes := rl_current_bytes log + length line\<rparr>))"

text \<open>Which calls of a rotation fail: the sync, the removal, the rename of one rotated file, of the log, the open.\<close>

record rotate_faults =
  rf_sync :: bool
  rf_remove :: bool
  rf_shift :: "nat option"
  rf_move :: bool
  rf_open :: bool
  rf_anchor :: write_fault

definition no_rotate_faults :: rotate_faults where
  "no_rotate_faults = \<lparr>rf_sync = False, rf_remove = False, rf_shift = None, rf_move = False, rf_open = False, rf_anchor = WriteOk\<rparr>"

text \<open>Renaming \<open>log.i\<close> to \<open>log.(i+1)\<close>, from \<open>i\<close> down to 1.\<close>

fun shift_up :: "nat option \<Rightarrow> nat \<Rightarrow> (nat \<Rightarrow> nat option) \<Rightarrow> (receipt_error + unit) \<times> (nat \<Rightarrow> nat option)" where
  "shift_up fails 0 names = (Inr (), names)"
| "shift_up fails (Suc i) names =
     (if names (Suc i) = None then shift_up fails i names
      else if fails = Some (Suc i) then (Inl IoError, names)
      else shift_up fails i (names(Suc (Suc i) := names (Suc i), Suc i := None)))"

definition rotate :: "receipt_codec \<Rightarrow> rotate_faults \<Rightarrow> u64 \<Rightarrow> log_fs \<times> receipt_log \<Rightarrow>
    (receipt_error + unit) \<times> log_fs \<times> receipt_log" where
  "rotate cd rf now st =
     (case st of (fs, log) \<Rightarrow>
        let oldest = rl_max_rotations log in
        if rf_sync rf then (Inl IoError, st)
        else if fs_rotated fs oldest \<noteq> None \<and> rf_remove rf then (Inl IoError, st)
        else
          case shift_up (rf_shift rf) (oldest - 1) ((fs_rotated fs)(oldest := None)) of
            (Inl e, names) \<Rightarrow> (Inl e, fs\<lparr>fs_rotated := names\<rparr>, log)
          | (Inr _, names) \<Rightarrow>
              if rf_move rf \<or> fs_live fs = None then (Inl IoError, fs\<lparr>fs_rotated := names\<rparr>, log)
              else if rf_open rf
              then (Inl IoError, fs\<lparr>fs_rotated := names(1 := fs_live fs), fs_live := None\<rparr>, log)
              else
                let file = fs_fresh fs;
                    fs1 = fs\<lparr>fs_rotated := names(1 := fs_live fs), fs_live := Some file,
                             fs_data := (fs_data fs)(file := []), fs_fresh := file + 1\<rparr>;
                    log1 = log\<lparr>rl_file := file, rl_current_bytes := 0\<rparr>;
                    digest = args_digest cd (JObject [(ascii ''rotated_to'', JString (rl_first_rotated log))])
                in append_entry cd (rf_anchor rf) (build_entry cd log1 (ascii ''cerud'') ROTATION_VERB digest ROk now) (fs1, log1))"

definition maybe_rotate :: "receipt_codec \<Rightarrow> rotate_faults \<Rightarrow> u64 \<Rightarrow> log_fs \<times> receipt_log \<Rightarrow>
    (receipt_error + unit) \<times> log_fs \<times> receipt_log" where
  "maybe_rotate cd rf now st =
     (if rl_max_bytes (snd st) = 0 \<or> rl_current_bytes (snd st) < rl_max_bytes (snd st) then (Inr (), st)
      else rotate cd rf now st)"

definition record_at :: "receipt_codec \<Rightarrow> rotate_faults \<Rightarrow> write_fault \<Rightarrow> bytes \<Rightarrow> bytes \<Rightarrow> bytes \<Rightarrow> receipt_outcome \<Rightarrow> u64 \<Rightarrow>
    log_fs \<times> receipt_log \<Rightarrow> (receipt_error + receipt) \<times> log_fs \<times> receipt_log" where
  "record_at cd rf fault caller verb digest outcome now st =
     (case maybe_rotate cd rf now st of
        (Inl e, st1) \<Rightarrow> (Inl e, st1)
      | (Inr _, st1) \<Rightarrow>
          let entry = build_entry cd (snd st1) caller verb digest outcome now
          in case append_entry cd fault entry st1 of
               (Inl e, st2) \<Rightarrow> (Inl e, st2)
             | (Inr _, st2) \<Rightarrow> (Inr entry, st2))"

section \<open>Lines of a file\<close>

text \<open>\<open>slice::split\<close> at newlines, \<open>str::lines\<close>, and \<open>str::trim\<close> on the bytes of well-formed UTF-8.\<close>

fun split_lines :: "bytes \<Rightarrow> bytes list" where
  "split_lines [] = [[]]"
| "split_lines (b # bs) = (if b = 10 then [] # split_lines bs else (b # hd (split_lines bs)) # tl (split_lines bs))"

definition strip_cr :: "bytes \<Rightarrow> bytes" where
  "strip_cr l = (if l \<noteq> [] \<and> last l = 13 then butlast l else l)"

definition text_lines :: "bytes \<Rightarrow> bytes list" where
  "text_lines d = map strip_cr (butlast (split_lines d)) @ (let l = last (split_lines d) in if l = [] then [] else [l])"

definition white_space :: "bytes list" where
  "white_space = [[9], [10], [11], [12], [13], [32], [0xC2, 0x85], [0xC2, 0xA0], [0xE1, 0x9A, 0x80]] @
     map (\<lambda>b. [0xE2, 0x80, b]) [0x80, 0x81, 0x82, 0x83, 0x84, 0x85, 0x86, 0x87, 0x88, 0x89, 0x8A, 0xA8, 0xA9, 0xAF] @
     [[0xE2, 0x81, 0x9F], [0xE3, 0x80, 0x80]]"

definition space_len :: "bytes list \<Rightarrow> bytes \<Rightarrow> nat" where
  "space_len spaces t = (case List.find (\<lambda>w. take (length w) t = w) spaces of Some w \<Rightarrow> length w | None \<Rightarrow> 0)"

fun trim_start :: "bytes list \<Rightarrow> bytes \<Rightarrow> bytes" where
  "trim_start spaces t =
     (if t = [] \<or> space_len spaces t = 0 then t else trim_start spaces (drop (space_len spaces t) t))"

declare trim_start.simps [simp del]

definition trim :: "bytes \<Rightarrow> bytes" where
  "trim t = rev (trim_start (map rev white_space) (rev (trim_start white_space t)))"

section \<open>Reading the log\<close>

fun read_lines :: "receipt_codec \<Rightarrow> bool \<Rightarrow> bytes list \<Rightarrow> receipt_error + receipt list" where
  "read_lines cd ends_with_newline [] = Inr []"
| "read_lines cd ends_with_newline (l # ls) =
     (if trim l = [] then read_lines cd ends_with_newline ls
      else case cd_parse cd l of
             Some r \<Rightarrow> map_sum id (Cons r) (read_lines cd ends_with_newline ls)
           | None \<Rightarrow> if ls = [] \<and> \<not> ends_with_newline then Inr [] else Inl CorruptLine)"

definition read_all :: "receipt_codec \<Rightarrow> bytes \<Rightarrow> receipt_error + receipt list" where
  "read_all cd content =
     (if \<not> is_utf8 content then Inl IoError
      else read_lines cd (content \<noteq> [] \<and> last content = 10) (text_lines content))"

section \<open>Recovery\<close>

definition OPEN_TAIL_BUDGET :: nat where
  "OPEN_TAIL_BUDGET = 256 * 1024"

definition fragment_is_sealed_entry :: "receipt_codec \<Rightarrow> bytes \<Rightarrow> bytes \<Rightarrow> bool" where
  "fragment_is_sealed_entry cd fragment prior_hash =
     (is_utf8 fragment \<and> trim fragment \<noteq> [] \<and>
      (case cd_parse cd (trim fragment) of
         None \<Rightarrow> False
       | Some r \<Rightarrow> recomputed cd r = rc_entry_hash r \<and> rc_prev_hash r = prior_hash))"

text \<open>The complete lines of the tail, each parsed; the result is the last entry.\<close>

fun last_entry :: "receipt_codec \<Rightarrow> receipt option \<Rightarrow> bytes list \<Rightarrow> receipt_error + receipt option" where
  "last_entry cd prior [] = Inr prior"
| "last_entry cd prior (l # ls) =
     (if l = [] then last_entry cd prior ls
      else if \<not> is_utf8 l then Inl NotUtf8
      else if trim l = [] then last_entry cd prior ls
      else case cd_parse cd l of
             None \<Rightarrow> Inl CorruptLine
           | Some r \<Rightarrow> last_entry cd (Some r) ls)"

definition complete_part :: "bytes \<Rightarrow> bytes" where
  "complete_part buf = rev (dropWhile (\<lambda>b. b \<noteq> 10) (rev buf))"

definition after_first_line :: "bytes \<Rightarrow> bytes" where
  "after_first_line buf = drop 1 (dropWhile (\<lambda>b. b \<noteq> 10) buf)"

definition recover_chain_tail :: "receipt_codec \<Rightarrow> bytes \<Rightarrow> (receipt_error + u64 \<times> bytes) \<times> bytes" where
  "recover_chain_tail cd d =
     (if d = [] then (Inr (0, GENESIS_HASH), d)
      else
        let start = length d - OPEN_TAIL_BUDGET; buf = drop start d;
            complete = complete_part buf; fragment = drop (length complete) buf
        in if complete = [] \<and> 0 < start then (Inl NoLineBoundary, d)
           else
             let scanned = (if start = 0 then complete else after_first_line complete) in
             case last_entry cd None (split_lines scanned) of
               Inl e \<Rightarrow> (Inl e, d)
             | Inr prior \<Rightarrow>
                 let prior_hash = (case prior of Some r \<Rightarrow> rc_entry_hash r | None \<Rightarrow> GENESIS_HASH);
                     recovered = (case prior of Some r \<Rightarrow> (rc_seq r + 1, rc_entry_hash r) | None \<Rightarrow> (0, GENESIS_HASH))
                 in if fragment = [] then (Inr recovered, d)
                    else if fragment_is_sealed_entry cd fragment prior_hash then (Inl SealedFragment, d)
                    else (Inr recovered, take (start + length complete) d))"

definition open_with_limits :: "receipt_codec \<Rightarrow> bytes \<Rightarrow> nat \<Rightarrow> nat \<Rightarrow> log_fs \<Rightarrow> (receipt_error + receipt_log) \<times> log_fs" where
  "open_with_limits cd first_rotated max_bytes max_rotations fs =
     (let opened = (\<lambda>fs file chain.
            (Inr \<lparr>rl_file = file, rl_first_rotated = first_rotated, rl_next_seq = fst chain, rl_prev_hash = snd chain,
                  rl_current_bytes = length (fs_data fs file), rl_max_bytes = max_bytes,
                  rl_max_rotations = max_rotations\<rparr>, fs))
      in case fs_live fs of
           None \<Rightarrow>
             opened (fs\<lparr>fs_live := Some (fs_fresh fs), fs_data := (fs_data fs)(fs_fresh fs := []), fs_fresh := fs_fresh fs + 1\<rparr>)
               (fs_fresh fs) (0, GENESIS_HASH)
         | Some file \<Rightarrow>
             case recover_chain_tail cd (fs_data fs file) of
               (Inl e, d) \<Rightarrow> (Inl e, fs\<lparr>fs_data := (fs_data fs)(file := d)\<rparr>)
             | (Inr chain, d) \<Rightarrow> opened (fs\<lparr>fs_data := (fs_data fs)(file := d)\<rparr>) file chain)"

definition DEFAULT_MAX_LOG_BYTES :: nat where
  "DEFAULT_MAX_LOG_BYTES = 8 * 1024 * 1024"

definition DEFAULT_MAX_ROTATIONS :: nat where
  "DEFAULT_MAX_ROTATIONS = 4"

definition open_log :: "receipt_codec \<Rightarrow> bytes \<Rightarrow> log_fs \<Rightarrow> (receipt_error + receipt_log) \<times> log_fs" where
  "open_log cd first_rotated fs = open_with_limits cd first_rotated DEFAULT_MAX_LOG_BYTES DEFAULT_MAX_ROTATIONS fs"

section \<open>The text of a log\<close>

definition lines_text :: "receipt_codec \<Rightarrow> receipt list \<Rightarrow> bytes" where
  "lines_text cd rs = concat (map (\<lambda>r. cd_line cd r @ [10]) rs)"

definition utf8_receipt :: "receipt \<Rightarrow> bool" where
  "utf8_receipt r =
     (is_utf8 (rc_caller r) \<and> is_utf8 (rc_verb r) \<and> is_utf8 (rc_args_digest r) \<and> is_utf8 (rc_prev_hash r) \<and>
      is_utf8 (rc_entry_hash r) \<and> is_utf8 (hash_tag (rc_outcome r)))"

text \<open>What \<open>serde_json\<close> documents: the text of a struct is one object on one line, and parses only when whole.\<close>

definition line_laws :: "receipt_codec \<Rightarrow> bool" where
  "line_laws cd =
     ((\<forall>r. utf8_receipt r \<longrightarrow>
         cd_line cd r \<noteq> [] \<and> hd (cd_line cd r) = 123 \<and> last (cd_line cd r) = 125 \<and> 10 \<notin> set (cd_line cd r) \<and>
         is_utf8 (cd_line cd r) \<and> cd_parse cd (cd_line cd r) = Some r \<and>
         (\<forall>k < length (cd_line cd r). cd_parse cd (take k (cd_line cd r)) = None)) \<and>
      (\<forall>x. is_utf8 (cd_sha256_hex cd x)))"

lemma split_lines_nonempty [simp]: "split_lines d \<noteq> []"
  by (induction d) auto

lemma split_lines_line [simp]: "10 \<notin> set l \<Longrightarrow> split_lines (l @ 10 # rest) = l # split_lines rest"
  by (induction l) auto

lemma split_lines_end [simp]: "10 \<notin> set l \<Longrightarrow> split_lines l = [l]"
  by (induction l) auto

lemma lines_text_simps [simp]:
  "lines_text cd [] = []"
  "lines_text cd (r # rs) = cd_line cd r @ 10 # lines_text cd rs"
  "lines_text cd (rs @ qs) = lines_text cd rs @ lines_text cd qs"
  by (simp_all add: lines_text_def)

lemma is_utf8_append: "is_utf8 a \<Longrightarrow> is_utf8 (a @ b) = is_utf8 b"
proof (induction a rule: is_utf8.induct)
  case (2 a bs)
  note ih = "2.IH"
  show ?case
  proof (cases "a < 0x80")
    case True
    then show ?thesis using 2 by simp
  next
    case False
    then show ?thesis
      using "2.prems" ih(2-4) by (subst (asm) is_utf8.simps, subst append_Cons, subst is_utf8.simps)
        (simp split: list.split_asm if_split_asm add: is_utf8.simps(2)[of a] del: is_utf8.simps, (blast | simp)+)
  qed
qed simp

lemma line_lawsD:
  assumes "line_laws cd" "utf8_receipt r"
  shows "cd_line cd r \<noteq> []" "hd (cd_line cd r) = 123" "last (cd_line cd r) = 125" "10 \<notin> set (cd_line cd r)"
    "is_utf8 (cd_line cd r)" "cd_parse cd (cd_line cd r) = Some r"
    "k < length (cd_line cd r) \<Longrightarrow> cd_parse cd (take k (cd_line cd r)) = None"
  using assms by (auto simp: line_laws_def)

lemma is_utf8_lines:
  "line_laws cd \<Longrightarrow> list_all utf8_receipt rs \<Longrightarrow> is_utf8 (lines_text cd rs)"
  by (induction rs) (auto simp: is_utf8_append line_lawsD)

lemma space_len_brace [simp]:
  "space_len white_space (123 # t) = 0" "space_len (map rev white_space) (125 # t) = 0"
  "space_len (map rev white_space) (123 # t) = 0"
  by (simp_all add: space_len_def white_space_def)

lemma trim_start_drop: "\<exists>n. trim_start spaces t = drop n t"
proof (induction spaces t rule: trim_start.induct)
  case (1 spaces t)
  show ?case
  proof (cases "t = [] \<or> space_len spaces t = 0")
    case True
    then show ?thesis by (metis trim_start.simps drop0)
  next
    case False
    then show ?thesis using 1 by (metis trim_start.simps drop_drop)
  qed
qed

lemma trim_start_brace [simp]: "trim_start white_space (123 # t) = 123 # t"
  "trim_start (map rev white_space) (125 # t) = 125 # t"
  by (simp_all add: trim_start.simps)

lemma trim_prefix:
  assumes "t \<noteq> []" "hd t = 123"
  shows "\<exists>k \<le> length t. trim t = take k t"
proof -
  obtain u where t: "t = 123 # u" using assms by (cases t) auto
  obtain n where "trim_start (map rev white_space) (rev t) = drop n (rev t)" using trim_start_drop by blast
  then have "trim t = take (length t - n) t" by (simp add: trim_def t rev_drop del: rev.simps)
  then show ?thesis by (metis diff_le_self)
qed

lemma trim_object:
  assumes "t \<noteq> []" "hd t = 123" "last t = 125"
  shows "trim t = t"
proof -
  obtain u v where t: "t = 123 # u" "rev t = 125 # v"
    using assms by (metis hd_Cons_tl hd_rev rev_is_Nil_conv list.collapse)
  then have "trim t = rev (rev t)" by (simp add: trim_def)
  then show ?thesis by simp
qed

lemma trim_line [simp]:
  "line_laws cd \<Longrightarrow> utf8_receipt r \<Longrightarrow> trim (cd_line cd r) = cd_line cd r"
  by (rule trim_object) (auto simp: line_lawsD)

lemma last_entry_lines:
  assumes "line_laws cd"
  shows "list_all utf8_receipt rs \<Longrightarrow>
    last_entry cd prior (split_lines (lines_text cd rs)) = Inr (if rs = [] then prior else Some (last rs))"
  by (induction rs arbitrary: prior) (auto simp: assms line_lawsD)

lemma text_lines_of_lines:
  assumes "line_laws cd" "list_all utf8_receipt rs"
  shows "text_lines (lines_text cd rs) = map (cd_line cd) rs"
proof -
  have s: "split_lines (lines_text cd rs) = map (cd_line cd) rs @ [[]]"
    using assms(2) by (induction rs) (auto simp: line_lawsD assms(1))
  have "map strip_cr (map (cd_line cd) rs) = map (cd_line cd) rs"
    using assms(2) by (induction rs) (auto simp: strip_cr_def line_lawsD assms(1))
  then show ?thesis by (simp add: text_lines_def s)
qed

lemma read_all_lines:
  assumes laws: "line_laws cd" and "list_all utf8_receipt rs"
  shows "read_all cd (lines_text cd rs) = Inr rs"
proof -
  have "read_lines cd b (map (cd_line cd) rs) = Inr rs" for b
    using assms(2) by (induction rs) (auto simp: laws line_lawsD)
  then show ?thesis using assms by (simp add: read_all_def is_utf8_lines text_lines_of_lines)
qed

section \<open>What recovery returns\<close>

definition chain_head :: "receipt list \<Rightarrow> bytes" where
  "chain_head rs = (if rs = [] then GENESIS_HASH else rc_entry_hash (last rs))"

definition chain_seq :: "receipt list \<Rightarrow> u64" where
  "chain_seq rs = (if rs = [] then 0 else rc_seq (last rs) + 1)"

lemma complete_part_append [simp]:
  assumes "10 \<notin> set frag" "a = [] \<or> last a = 10"
  shows "complete_part (a @ frag) = a"
proof -
  have "dropWhile (\<lambda>b. b \<noteq> 10) (rev frag @ rev a) = dropWhile (\<lambda>b. b \<noteq> 10) (rev a)"
    using assms(1) by (intro dropWhile_append2) auto
  moreover have "dropWhile (\<lambda>b. b \<noteq> 10) (rev a) = rev a"
    using assms(2) by (cases a rule: rev_cases) auto
  ultimately show ?thesis by (simp add: complete_part_def)
qed

lemma after_first_line_line: "10 \<notin> set l \<Longrightarrow> after_first_line (l @ 10 # rest) = rest"
  unfolding after_first_line_def by (subst dropWhile_append2) auto

lemma after_first_line_drop:
  assumes laws: "line_laws cd"
  shows "list_all utf8_receipt rs \<Longrightarrow> \<exists>qs. suffix qs rs \<and> after_first_line (drop n (lines_text cd rs)) = lines_text cd qs \<and>
    (n < length (lines_text cd (butlast rs)) \<longrightarrow> qs \<noteq> [])"
proof (induction rs arbitrary: n)
  case Nil
  then show ?case by (auto simp: after_first_line_def)
next
  case (Cons r rs)
  let ?l = "cd_line cd r"
  have l: "10 \<notin> set ?l" using Cons.prems laws by (simp add: line_lawsD)
  show ?case
  proof (cases "n \<le> length ?l")
    case True
    have "10 \<notin> set (drop n ?l)" using l by (meson in_set_dropD)
    then have "after_first_line (drop n (lines_text cd (r # rs))) = lines_text cd rs"
      using True by (simp add: after_first_line_line)
    then show ?thesis by (intro exI[of _ rs]) (simp add: suffix_ConsI)
  next
    case False
    obtain qs where qs: "suffix qs rs"
        "after_first_line (drop (n - length ?l - 1) (lines_text cd rs)) = lines_text cd qs"
        "n - length ?l - 1 < length (lines_text cd (butlast rs)) \<longrightarrow> qs \<noteq> []"
      using Cons.IH Cons.prems by (metis list.pred_inject(2))
    have "drop n (lines_text cd (r # rs)) = drop (n - length ?l - 1) (lines_text cd rs)"
      using False by (cases "n - length ?l") auto
    then show ?thesis using qs False by (intro exI[of _ qs]) (auto simp: suffix_ConsI)
  qed
qed

lemma lines_text_last: "rs \<noteq> [] \<Longrightarrow> last (lines_text cd rs) = 10"
  by (induction rs) (auto simp: lines_text_def)

lemma lines_text_Nil [simp]: "lines_text cd rs = [] \<longleftrightarrow> rs = []"
  by (cases rs) auto

lemma recover_parts:
  assumes "d \<noteq> []" "start = length d - OPEN_TAIL_BUDGET" "complete = complete_part (drop start d)"
    "scanned = (if start = 0 then complete else after_first_line complete)"
    "fragment = drop (length complete) (drop start d)"
    "\<not> (complete = [] \<and> 0 < start)" "last_entry cd None (split_lines scanned) = Inr prior"
  shows "recover_chain_tail cd d =
    (if fragment = []
     then (Inr (case prior of Some r \<Rightarrow> (rc_seq r + 1, rc_entry_hash r) | None \<Rightarrow> (0, GENESIS_HASH)), d)
     else if fragment_is_sealed_entry cd fragment (case prior of Some r \<Rightarrow> rc_entry_hash r | None \<Rightarrow> GENESIS_HASH)
     then (Inl SealedFragment, d)
     else (Inr (case prior of Some r \<Rightarrow> (rc_seq r + 1, rc_entry_hash r) | None \<Rightarrow> (0, GENESIS_HASH)),
           take (start + length complete) d))"
  using assms(1,6,7) unfolding recover_chain_tail_def Let_def assms(2)[symmetric] assms(3)[symmetric] assms(4)[symmetric]
    assms(5)[symmetric] by simp

lemma recover_tail:
  assumes laws: "line_laws cd" and utf8: "list_all utf8_receipt rs" and frag: "10 \<notin> set frag"
    and fits: "(if rs = [] then 0 else length (cd_line cd (last rs)) + 1) + length frag < OPEN_TAIL_BUDGET"
  shows "recover_chain_tail cd (lines_text cd rs @ frag) =
    (if frag = [] \<or> \<not> fragment_is_sealed_entry cd frag (chain_head rs)
     then (Inr (chain_seq rs, chain_head rs), lines_text cd rs)
     else (Inl SealedFragment, lines_text cd rs @ frag))"
proof (cases "lines_text cd rs @ frag = []")
  case True
  then show ?thesis by (simp add: recover_chain_tail_def chain_head_def chain_seq_def)
next
  case nonempty: False
  let ?d = "lines_text cd rs @ frag"
  let ?start = "length ?d - OPEN_TAIL_BUDGET"
  have split: "rs \<noteq> [] \<Longrightarrow> length (lines_text cd rs) = length (lines_text cd (butlast rs)) + length (cd_line cd (last rs)) + 1"
    by (cases rs rule: rev_cases) auto
  have start: "?start = 0 \<or> (rs \<noteq> [] \<and> ?start < length (lines_text cd (butlast rs)))"
    using fits split by (cases "rs = []") auto
  then have le: "?start < length (lines_text cd rs) \<or> ?start = 0" using split by auto
  have complete: "complete_part (drop ?start ?d) = drop ?start (lines_text cd rs)"
  proof -
    have "drop ?start ?d = drop ?start (lines_text cd rs) @ frag" using le by auto
    moreover have "drop ?start (lines_text cd rs) = [] \<or> last (drop ?start (lines_text cd rs)) = 10"
      using lines_text_last by (metis drop_Nil last_drop leI lines_text_Nil drop_all)
    ultimately show ?thesis using frag by simp
  qed
  define scanned where "scanned = (if ?start = 0 then drop ?start (lines_text cd rs) else after_first_line (drop ?start (lines_text cd rs)))"
  have prior: "last_entry cd None (split_lines scanned) = Inr (if rs = [] then None else Some (last rs))"
  proof (cases "?start = 0")
    case True
    then show ?thesis using last_entry_lines[OF laws utf8] by (simp add: scanned_def)
  next
    case False
    then obtain qs where qs: "suffix qs rs" "scanned = lines_text cd qs" "qs \<noteq> []"
      using after_first_line_drop[OF laws utf8] start unfolding scanned_def by (metis (no_types, lifting))
    have "list_all utf8_receipt qs" using qs(1) utf8 by (auto simp: suffix_def)
    moreover have "last qs = last rs" "rs \<noteq> []" using qs by (auto simp: suffix_def)
    ultimately show ?thesis using last_entry_lines[OF laws] qs by simp
  qed
  have ne: "\<not> (drop ?start (lines_text cd rs) = [] \<and> 0 < ?start)" using le by auto
  have fragment: "drop (length (drop ?start (lines_text cd rs))) (drop ?start ?d) = frag"
    "take (?start + length (drop ?start (lines_text cd rs))) ?d = lines_text cd rs"
    using le by auto
  have p: "(case (if rs = [] then None else Some (last rs)) of Some r \<Rightarrow> rc_entry_hash r | None \<Rightarrow> GENESIS_HASH) = chain_head rs"
    "(case (if rs = [] then None else Some (last rs)) of Some r \<Rightarrow> (rc_seq r + 1, rc_entry_hash r) | None \<Rightarrow> (0, GENESIS_HASH)) =
       (chain_seq rs, chain_head rs)"
    by (simp_all add: chain_head_def chain_seq_def)
  have s: "(if ?start = 0 then drop ?start (lines_text cd rs) else after_first_line (drop ?start (lines_text cd rs))) = scanned"
    by (simp add: scanned_def)
  show ?thesis
    using recover_parts[OF nonempty refl complete[symmetric], unfolded s fragment, OF refl refl ne prior]
    unfolding p by (cases "frag = []") auto
qed

lemma oversized_line_restarts_chain:
  assumes "pre \<noteq> []" "10 \<notin> set l" "OPEN_TAIL_BUDGET \<le> length l + 1"
  shows "recover_chain_tail cd (pre @ l @ [10]) = (Inr (0, GENESIS_HASH), pre @ l @ [10])"
proof -
  let ?d = "pre @ l @ [10]"
  let ?start = "length ?d - OPEN_TAIL_BUDGET"
  obtain y where y: "drop ?start ?d = y @ [10]" "10 \<notin> set y"
  proof
    show "drop ?start ?d = drop (?start - length pre) l @ [10]" using assms(3) by (simp add: OPEN_TAIL_BUDGET_def)
    show "10 \<notin> set (drop (?start - length pre) l)" using assms(2) by (meson in_set_dropD)
  qed
  have "complete_part (drop ?start ?d) = y @ [10]"
    using complete_part_append[of "[]" "y @ [10]"] y by simp
  moreover have "after_first_line (y @ [10]) = []" using after_first_line_line[OF y(2), of "[]"] by simp
  moreover have "0 < ?start" using assms by (cases pre) auto
  moreover have "drop (length (y @ [10])) (drop ?start ?d) = []" unfolding y(1) by simp
  ultimately show ?thesis
    using recover_parts[OF _ refl, of ?d "y @ [10]" "[]" "[]" cd None] assms(1)
    by (metis (no_types, lifting) append_is_Nil_conv last_entry.simps not_less_iff_gr_or_eq not_Cons_self2 option.simps(4)
        split_lines.simps(1) less_numeral_extra(3))
qed

lemma torn_line_is_not_sealed:
  assumes "line_laws cd" "utf8_receipt r" "k < length (cd_line cd r)"
  shows "\<not> fragment_is_sealed_entry cd (take k (cd_line cd r)) prior"
proof (cases "k = 0")
  case True
  then show ?thesis by (simp add: fragment_is_sealed_entry_def trim_def trim_start.simps)
next
  case False
  let ?t = "take k (cd_line cd r)"
  have "?t \<noteq> []" "hd ?t = 123" using False assms by (auto simp: line_lawsD)
  then obtain m where "m \<le> length ?t" "trim ?t = take m ?t" using trim_prefix by blast
  then have "trim ?t = take m (cd_line cd r)" "m < length (cd_line cd r)" using assms(3) by (auto simp: min_def)
  then show ?thesis using assms by (simp add: fragment_is_sealed_entry_def line_lawsD)
qed

text \<open>
  Where the torn line is the first of its file, as the anchor of a rotation is, recovery finds no entry and starts
  a new chain, although the rotated file before it holds the head of the old one.
\<close>

lemma torn_rotation_restarts_chain:
  assumes "line_laws cd" "utf8_receipt r" "k < length (cd_line cd r)" "length (cd_line cd r) < OPEN_TAIL_BUDGET"
  shows "recover_chain_tail cd (take k (cd_line cd r)) = (Inr (0, GENESIS_HASH), [])"
proof -
  have "10 \<notin> set (take k (cd_line cd r))" using line_lawsD(4) [OF assms(1,2)] by (meson in_set_takeD)
  then show ?thesis
    using recover_tail [OF assms(1), of "[]" "take k (cd_line cd r)"] torn_line_is_not_sealed [OF assms(1,2,3)] assms(3,4)
    by (simp add: chain_seq_def chain_head_def min_def)
qed

text \<open>
  C30. A crash in the middle of an append costs at most the entry being appended: whatever part of its line
  reached the disk, reopening the file gives back the state of the entries before it, with the torn line cut off, or the
  state after it. The one exception is a line whole but for its newline, where it continues the chain of the file:
  recovery takes it for tampering and refuses to open the log. \<open>rs\<close> are the entries that the file holds; those of
  rotated files count for nothing, so for a torn first line of a fresh file the state is the one of an empty log.
  The last entry and the appended line have to fit in the 256 KiB that recovery reads.
\<close>

theorem crash_costs_only_the_torn_entry:
  assumes laws: "line_laws cd" and utf8: "list_all utf8_receipt (rs @ [r])"
    and fits: "(if rs = [] then 0 else length (cd_line cd (last rs)) + 1) + length (cd_line cd r) + 1 < OPEN_TAIL_BUDGET"
    and sealed: "recomputed cd r = rc_entry_hash r"
    and crash: "k \<le> length (cd_line cd r) + 1"
    and disk: "d = lines_text cd rs @ take k (cd_line cd r @ [10])"
  shows "recover_chain_tail cd d =
    (if k = length (cd_line cd r) + 1 then (Inr (rc_seq r + 1, rc_entry_hash r), lines_text cd (rs @ [r]))
     else if k = length (cd_line cd r) \<and> rc_prev_hash r = chain_head rs then (Inl SealedFragment, d)
     else (Inr (chain_seq rs, chain_head rs), lines_text cd rs))"
proof -
  let ?l = "cd_line cd r"
  have r: "utf8_receipt r" and l: "10 \<notin> set ?l" using utf8 laws by (auto simp: line_lawsD)
  note tail = recover_tail[OF laws]
  consider "k < length ?l" | "k = length ?l" | "k = length ?l + 1" using crash by linarith
  then show ?thesis
  proof cases
    case 1
    moreover have "10 \<notin> set (take k ?l)" using l by (meson in_set_takeD)
    moreover have "(if rs = [] then 0 else length (cd_line cd (last rs)) + 1) + length (take k ?l) < OPEN_TAIL_BUDGET"
      using fits 1 by simp
    ultimately show ?thesis
      using tail[of rs "take k ?l"] utf8 torn_line_is_not_sealed[OF laws r 1] by (simp add: disk)
  next
    case 2
    have "fragment_is_sealed_entry cd ?l (chain_head rs) \<longleftrightarrow> rc_prev_hash r = chain_head rs"
      using laws r sealed by (simp add: fragment_is_sealed_entry_def line_lawsD)
    moreover have "(if rs = [] then 0 else length (cd_line cd (last rs)) + 1) + length ?l < OPEN_TAIL_BUDGET"
      using fits by simp
    ultimately show ?thesis using tail[of rs ?l] utf8 l 2 laws r by (simp add: disk line_lawsD)
  next
    case 3
    then show ?thesis using tail[of "rs @ [r]" "[]"] utf8 fits by (simp add: disk chain_seq_def chain_head_def split: if_splits)
  qed
qed
section \<open>The chain commits to its history\<close>

text \<open>What JSON documents of scalars: a string's text ends where its closing quote is, a number's holds no comma.\<close>

definition text_laws :: "receipt_codec \<Rightarrow> bool" where
  "text_laws cd =
     ((\<forall>a b x y. cd_string cd a @ x = cd_string cd b @ y \<longrightarrow> a = b \<and> x = y) \<and>
      inj (cd_number cd) \<and> (\<forall>n. 44 \<notin> set (cd_number cd n)))"

lemma entry_preimage_text:
  "entry_preimage cd p q t c v g u =
     ascii ''{'' @ cd_string cd (ascii ''args_digest'') @ ascii '':'' @ cd_string cd g @
     ascii '','' @ cd_string cd (ascii ''caller'') @ ascii '':'' @ cd_string cd c @
     ascii '','' @ cd_string cd (ascii ''outcome'') @ ascii '':'' @ cd_string cd (hash_tag u) @
     ascii '','' @ cd_string cd (ascii ''prev_hash'') @ ascii '':'' @ cd_string cd p @
     ascii '','' @ cd_string cd (ascii ''seq'') @ ascii '':'' @ cd_number cd q @
     ascii '','' @ cd_string cd (ascii ''timestamp_ns'') @ ascii '':'' @ cd_number cd t @
     ascii '','' @ cd_string cd (ascii ''verb'') @ ascii '':'' @ cd_string cd v @ ascii ''}''"
  by (simp add: entry_preimage_def sort_key_def ascii_def)

lemma hash_tag_inj: "hash_tag a = hash_tag b \<Longrightarrow> a = b"
  by (cases a; cases b) (simp_all add: ascii_def)

lemma comma_split: "44 \<notin> set a \<Longrightarrow> 44 \<notin> set b \<Longrightarrow> a @ ascii '','' @ x = b @ ascii '','' @ y \<Longrightarrow> a = b \<and> x = y"
proof (induction a arbitrary: b)
  case Nil
  then show ?case by (cases b) (auto simp: ascii_def)
next
  case (Cons c a)
  then show ?case by (cases b) (auto simp: ascii_def)
qed

lemma entry_preimage_inj:
  assumes "text_laws cd" "entry_preimage cd p q t c v g u = entry_preimage cd p' q' t' c' v' g' u'"
  shows "p = p' \<and> q = q' \<and> t = t' \<and> c = c' \<and> v = v' \<and> g = g' \<and> u = u'"
proof -
  have str: "cd_string cd a @ x = cd_string cd b @ y \<longleftrightarrow> a = b \<and> x = y" for a b x y
    using assms(1) unfolding text_laws_def by blast
  have comma: "44 \<notin> set (cd_number cd n)" and inj: "cd_number cd m = cd_number cd n \<Longrightarrow> m = n" for m n
    using assms(1) unfolding text_laws_def by (blast dest: injD)+
  have num: "cd_number cd m @ ascii '','' @ x = cd_number cd n @ ascii '','' @ y \<longleftrightarrow> m = n \<and> x = y" for m n x y
    using comma_split[OF comma comma, of m x n y] inj[of m n] by auto
  show ?thesis
    using assms(2) hash_tag_inj[of u u'] str[of v "[]" v' "[]"] unfolding entry_preimage_text by (simp add: str num)
qed

lemma verify_from_append:
  "verify_from cd i p (rs @ [r]) = Inr () \<longleftrightarrow>
     verify_from cd i p rs = Inr () \<and> rc_prev_hash r = (if rs = [] then p else rc_entry_hash (last rs)) \<and>
     recomputed cd r = rc_entry_hash r"
  by (induction rs arbitrary: i p) auto

lemma verify_chain_append:
  "verify_chain cd (rs @ [r]) = Inr () \<longleftrightarrow>
     verify_chain cd rs = Inr () \<and> rc_prev_hash r = chain_head rs \<and> recomputed cd r = rc_entry_hash r"
  by (simp add: verify_chain_def verify_from_append chain_head_def)

lemma verify_chain_Nil [simp]: "verify_chain cd [] = Inr ()"
  by (simp add: verify_chain_def)

definition receipt_preimage :: "receipt_codec \<Rightarrow> receipt \<Rightarrow> bytes" where
  "receipt_preimage cd r = entry_preimage cd (rc_prev_hash r) (rc_seq r) (rc_timestamp_ns r) (rc_caller r) (rc_verb r)
     (rc_args_digest r) (rc_outcome r)"

lemma receipt_preimage_inj:
  fixes r q :: receipt
  assumes "text_laws cd" "receipt_preimage cd r = receipt_preimage cd q" "rc_entry_hash r = rc_entry_hash q"
  shows "r = q"
proof -
  note entry_preimage_inj[OF assms(1) assms(2)[unfolded receipt_preimage_def]]
  then show ?thesis using assms(3) by (intro receipt.equality) simp_all
qed

lemma recomputed_preimage: "recomputed cd r = cd_sha256_hex cd (receipt_preimage cd r)"
  by (simp add: recomputed_def compute_entry_hash_def receipt_preimage_def)

text \<open>
  C12. The hash of the newest entry commits to the whole log: two logs that verify and end in the same hash
  are the same entry for entry, every field of every entry included, as long as the digest does not
  collide on what they hash. So no entry can be changed, dropped or reordered under a head one remembers.
\<close>

theorem chain_commits_to_history:
  assumes "text_laws cd" "verify_chain cd rs = Inr ()" "verify_chain cd qs = Inr ()" "chain_head rs = chain_head qs"
    and "inj_on (cd_sha256_hex cd) (receipt_preimage cd ` (set rs \<union> set qs))"
    and "GENESIS_HASH \<notin> cd_sha256_hex cd ` receipt_preimage cd ` (set rs \<union> set qs)"
  shows "rs = qs"
  using assms(2-)
proof (induction rs arbitrary: qs rule: rev_induct)
  case Nil
  show ?case
  proof (cases qs rule: rev_cases)
    case (snoc qs' q)
    then have "cd_sha256_hex cd (receipt_preimage cd q) = GENESIS_HASH"
      using Nil by (simp add: verify_chain_append recomputed_preimage chain_head_def)
    then show ?thesis using Nil(5) snoc by simp
  qed simp
next
  case (snoc r rs)
  have r: "cd_sha256_hex cd (receipt_preimage cd r) = chain_head (rs @ [r])" "rc_entry_hash r = chain_head (rs @ [r])"
    using snoc.prems(1) by (simp_all add: verify_chain_append recomputed_preimage chain_head_def)
  show ?case
  proof (cases qs rule: rev_cases)
    case Nil
    then have "cd_sha256_hex cd (receipt_preimage cd r) = GENESIS_HASH"
      using r(1) snoc.prems(3) unfolding chain_head_def[of qs] by (metis (full_types))
    moreover have "r \<in> set (rs @ [r]) \<union> set qs" by simp
    ultimately show ?thesis using snoc.prems(5) by (metis imageI)
  next
    case q: (snoc qs' q)
    have hq: "cd_sha256_hex cd (receipt_preimage cd q) = chain_head qs" "rc_entry_hash q = chain_head qs"
      using snoc.prems(2) q by (simp_all add: verify_chain_append recomputed_preimage chain_head_def)
    have "receipt_preimage cd r = receipt_preimage cd q"
    proof (rule inj_onD[OF snoc.prems(4)])
      show "cd_sha256_hex cd (receipt_preimage cd r) = cd_sha256_hex cd (receipt_preimage cd q)"
        using snoc.prems(3) r(1) hq(1) by simp
    qed (simp_all add: q)
    then have "r = q"
      by (rule receipt_preimage_inj[OF assms(1)]) (metis r(2) hq(2) snoc.prems(3))
    moreover have "rs = qs'"
    proof (rule snoc.IH)
      show "chain_head rs = chain_head qs'"
        using snoc.prems(1,2) q \<open>r = q\<close> by (metis verify_chain_append)
      show "inj_on (cd_sha256_hex cd) (receipt_preimage cd ` (set rs \<union> set qs'))"
        using snoc.prems(4) q by (elim inj_on_subset) auto
    qed (use snoc.prems q in \<open>auto simp: verify_chain_append\<close>)
    ultimately show ?thesis using q by simp
  qed
qed

section \<open>A codec with these laws\<close>

text \<open>For the witnesses: strings as pairs of letters up to a comma, numbers as their 64 bits, the digest injective.\<close>

definition nibbles :: "u8 \<Rightarrow> bytes" where
  "nibbles b = [of_nat (65 + unat b div 16), of_nat (65 + unat b mod 16)]"

definition plain_text :: "bytes \<Rightarrow> bytes" where
  "plain_text t = concat (map nibbles t) @ [44]"

fun read_plain :: "bytes \<Rightarrow> (bytes \<times> bytes) option" where
  "read_plain (c # d # rest) =
     (if c = 44 then Some ([], d # rest)
      else map_option (apfst (Cons (of_nat (16 * (unat c - 65) + (unat d - 65))))) (read_plain rest))"
| "read_plain [c] = (if c = 44 then Some ([], []) else None)"
| "read_plain [] = None"

definition plain_number :: "u64 \<Rightarrow> bytes" where
  "plain_number n = map (\<lambda>i. if bit n i then 49 else 48) [0..<64]"

definition read_number :: "bytes \<Rightarrow> u64" where
  "read_number t = horner_sum of_bool 2 (map (\<lambda>c. c = 49) t)"

definition read_tag :: "bytes \<Rightarrow> receipt_outcome" where
  "read_tag t = (if t = hash_tag ROk then ROk else if t = hash_tag RDenied then RDenied
     else if t = hash_tag RIntent then RIntent else RError (drop 6 t))"

definition plain_line :: "receipt \<Rightarrow> bytes" where
  "plain_line r = 123 # plain_number (rc_seq r) @ plain_number (rc_timestamp_ns r) @ plain_text (rc_caller r) @
     plain_text (rc_verb r) @ plain_text (rc_args_digest r) @ plain_text (hash_tag (rc_outcome r)) @
     plain_text (rc_prev_hash r) @ plain_text (rc_entry_hash r) @ [125]"

definition read_fields :: "u64 \<Rightarrow> u64 \<Rightarrow> bytes \<Rightarrow> receipt option" where
  "read_fields seq ts t =
     Option.bind (read_plain t) (\<lambda>(caller, t). Option.bind (read_plain t) (\<lambda>(verb, t).
       Option.bind (read_plain t) (\<lambda>(digest, t). Option.bind (read_plain t) (\<lambda>(outcome, t).
         Option.bind (read_plain t) (\<lambda>(prev, t). map_option (\<lambda>(entry, t).
           \<lparr>rc_seq = seq, rc_timestamp_ns = ts, rc_caller = caller, rc_verb = verb, rc_args_digest = digest,
            rc_outcome = read_tag outcome, rc_prev_hash = prev, rc_entry_hash = entry\<rparr>) (read_plain t))))))"

definition plain_parse :: "bytes \<Rightarrow> receipt option" where
  "plain_parse t =
     (if t = [] \<or> last t \<noteq> 125 then None
      else read_fields (read_number (take 64 (drop 1 t))) (read_number (take 64 (drop 65 t))) (drop 129 t))"

definition plain_codec :: receipt_codec where
  "plain_codec = \<lparr>cd_string = plain_text, cd_number = plain_number, cd_sha256_hex = plain_text,
     cd_line = plain_line, cd_parse = plain_parse\<rparr>"

lemma nibble_bounds: "unat (b :: u8) div 16 < 16" "unat (b :: u8) mod 16 < 16"
  using unat_lt_2p[of b] by auto

lemma unat_letter: "n < 16 \<Longrightarrow> unat (of_nat (65 + n) :: u8) = 65 + n"
  by (rule unat_of_nat_eq) simp

lemma read_plain_text [simp]: "read_plain (plain_text t @ rest) = Some (t, rest)"
proof (induction t)
  case Nil
  then show ?case by (cases rest) (auto simp: plain_text_def)
next
  case (Cons b t)
  note letters = unat_letter[OF nibble_bounds(1)[of b]] unat_letter[OF nibble_bounds(2)[of b]]
  have "unat (of_nat (65 + unat b div 16) :: u8) \<noteq> unat (44 :: u8)" unfolding letters by simp
  then have c: "(of_nat (65 + unat b div 16) :: u8) \<noteq> 44" by metis
  have "(of_nat (16 * (unat b div 16) + unat b mod 16) :: u8) = b" by simp
  then have d: "(of_nat (16 * (unat (of_nat (65 + unat b div 16) :: u8) - 65) + (unat (of_nat (65 + unat b mod 16) :: u8) - 65)) :: u8) = b"
    unfolding letters by simp
  have "plain_text (b # t) @ rest = of_nat (65 + unat b div 16) # of_nat (65 + unat b mod 16) # plain_text t @ rest"
    by (simp add: plain_text_def nibbles_def)
  then show ?case using Cons by (simp only: read_plain.simps c d if_False) simp
qed

lemma read_plain_number [simp]: "read_number (plain_number n) = n"
proof -
  have "map (\<lambda>c. c = (49 :: u8)) (plain_number n) = map (bit n) [0..<64]"
    by (simp add: plain_number_def)
  then show ?thesis
    using horner_sum_bit_eq_take_bit[of n 64] by (simp add: read_number_def take_bit_word_eq_self)
qed

lemma length_plain_number [simp]: "length (plain_number n) = 64"
  by (simp add: plain_number_def)

lemma read_tag_hash_tag [simp]: "read_tag (hash_tag u) = u"
  by (cases u) (simp_all add: read_tag_def ascii_def)

lemma plain_parse_line: "plain_parse (plain_line r) = Some r"
proof -
  define rest where "rest = plain_text (rc_caller r) @ plain_text (rc_verb r) @ plain_text (rc_args_digest r) @
    plain_text (hash_tag (rc_outcome r)) @ plain_text (rc_prev_hash r) @ plain_text (rc_entry_hash r) @ [125]"
  have line: "plain_line r = 123 # plain_number (rc_seq r) @ plain_number (rc_timestamp_ns r) @ rest"
    by (simp add: plain_line_def rest_def)
  have "take 64 (plain_number n @ x) = plain_number n" "drop 64 (plain_number n @ x) = x" for n x by simp_all
  moreover have "drop 65 t = drop 64 (drop 1 t)" "drop 129 t = drop 64 (drop 64 (drop 1 t))" for t :: bytes by simp_all
  moreover have "drop 1 (plain_line r) = plain_number (rc_seq r) @ plain_number (rc_timestamp_ns r) @ rest"
    by (simp add: line)
  moreover have "last (plain_line r) = 125" "plain_line r \<noteq> []" by (simp_all add: plain_line_def)
  ultimately have "plain_parse (plain_line r) = read_fields (rc_seq r) (rc_timestamp_ns r) rest"
    unfolding plain_parse_def by (simp only: read_plain_number if_False simp_thms)
  also have "\<dots> = Some r" by (simp add: read_fields_def rest_def)
  finally show ?thesis .
qed

text \<open>All bytes before the last are letters, digits and commas.\<close>

definition plain_byte :: "u8 \<Rightarrow> bool" where
  "plain_byte b = (b < 0x80 \<and> b \<noteq> 10 \<and> b \<noteq> 125)"

lemma plain_bytes: "list_all plain_byte (plain_text t)" "list_all plain_byte (plain_number n)"
proof -
  have byte: "plain_byte b \<longleftrightarrow> unat b < 128 \<and> unat b \<noteq> 10 \<and> unat b \<noteq> 125" for b
    by (simp add: plain_byte_def word_less_nat_alt word_unat_eq_iff)
  have "plain_byte (of_nat (65 + n))" if "n < 16" for n
    unfolding byte unat_letter[OF that] using that by simp
  then have "list_all plain_byte (nibbles b)" for b
    using nibble_bounds[of b] by (simp add: nibbles_def)
  then show "list_all plain_byte (plain_text t)"
    by (induction t) (auto simp: plain_text_def plain_byte_def)
  show "list_all plain_byte (plain_number n)"
    by (auto simp: plain_number_def plain_byte_def list_all_iff)
qed

lemma plain_utf8: "list_all (\<lambda>b. b < 0x80) t \<Longrightarrow> is_utf8 t"
  by (induction t) auto

lemma plain_codec_lines: "line_laws plain_codec"
  unfolding line_laws_def
proof (intro conjI allI impI)
  fix r :: receipt and k
  obtain body where body: "plain_line r = 123 # body @ [125]" "list_all plain_byte body"
    by (rule that[of "plain_number (rc_seq r) @ plain_number (rc_timestamp_ns r) @ plain_text (rc_caller r) @
      plain_text (rc_verb r) @ plain_text (rc_args_digest r) @ plain_text (hash_tag (rc_outcome r)) @
      plain_text (rc_prev_hash r) @ plain_text (rc_entry_hash r)"]) (simp_all add: plain_line_def plain_bytes)
  have l: "cd_line plain_codec r = plain_line r" by (simp add: plain_codec_def)
  show "cd_line plain_codec r \<noteq> []" "hd (cd_line plain_codec r) = 123" "last (cd_line plain_codec r) = 125"
    unfolding l by (simp_all add: body)
  show "10 \<notin> set (cd_line plain_codec r)"
    unfolding l using body by (auto simp: plain_byte_def list_all_iff)
  show "is_utf8 (cd_line plain_codec r)"
    unfolding l by (rule plain_utf8) (use body in \<open>auto simp: plain_byte_def list_all_iff\<close>)
  show "cd_parse plain_codec (cd_line plain_codec r) = Some r"
    by (simp add: plain_codec_def plain_parse_line)
  show "cd_parse plain_codec (take k (cd_line plain_codec r)) = None" if "k < length (cd_line plain_codec r)"
  proof (cases "k = 0")
    case False
    then have "take k (plain_line r) = 123 # take (k - 1) body"
      using that unfolding l body by (cases k) auto
    moreover have "b \<in> set (take (k - 1) body) \<Longrightarrow> b \<noteq> 125" for b
      using body(2) by (meson in_set_takeD list_all_iff plain_byte_def)
    ultimately have "take k (plain_line r) \<noteq> []" "last (take k (plain_line r)) \<noteq> 125"
      by (auto simp: last_ConsL last_ConsR)
    then show ?thesis by (simp add: plain_codec_def plain_parse_def)
  qed (simp add: plain_codec_def plain_parse_def)
next
  show "is_utf8 (cd_sha256_hex plain_codec x)" for x
    unfolding plain_codec_def by simp (rule plain_utf8, use plain_bytes(1)[of x] in \<open>auto simp: plain_byte_def list_all_iff\<close>)
qed

lemma plain_codec_text: "text_laws plain_codec"
  unfolding text_laws_def plain_codec_def receipt_codec.simps
proof (intro conjI allI impI)
  show "a = b" "x = y" if "plain_text a @ x = plain_text b @ y" for a b x y
    using read_plain_text[of a x] unfolding that by simp_all
  show "inj plain_number" by (rule inj_on_inverseI[of _ read_number]) (rule read_plain_number)
  show "44 \<notin> set (plain_number n)" for n by (simp only: plain_number_def set_map) auto
qed

definition sample_receipt :: "bytes \<Rightarrow> receipt" where
  "sample_receipt caller = \<lparr>rc_seq = 0, rc_timestamp_ns = 7, rc_caller = caller, rc_verb = [], rc_args_digest = [], rc_outcome = ROk,
     rc_prev_hash = GENESIS_HASH,
     rc_entry_hash = compute_entry_hash plain_codec GENESIS_HASH 0 7 caller [] [] ROk\<rparr>"

lemma sample_receipt_verifies: "verify_chain plain_codec [sample_receipt c] = Inr ()"
  by (simp add: verify_chain_def sample_receipt_def recomputed_def)

lemma plain_digest_is_no_genesis: "GENESIS_HASH \<noteq> plain_text x"
proof -
  have "last GENESIS_HASH = 48" by (simp add: GENESIS_HASH_def)
  moreover have "last (plain_text x) = 44" by (simp add: plain_text_def)
  ultimately show ?thesis by auto
qed

lemma plain_text_inj: "inj plain_text"
  by (rule inj_on_inverseI[of _ "\<lambda>t. fst (the (read_plain t))"]) (use read_plain_text[of _ "[]"] in simp)

theorem chain_commits_to_history_witness:
  "verify_chain plain_codec [sample_receipt []] = Inr () \<and> text_laws plain_codec \<and> [sample_receipt []] = [sample_receipt []]"
proof (intro conjI plain_codec_text sample_receipt_verifies,
    rule chain_commits_to_history[OF plain_codec_text sample_receipt_verifies sample_receipt_verifies refl])
  show "inj_on (cd_sha256_hex plain_codec) (receipt_preimage plain_codec ` (set [sample_receipt []] \<union> set [sample_receipt []]))"
    using inj_on_subset[OF plain_text_inj] by (simp add: plain_codec_def)
  show "GENESIS_HASH \<notin> cd_sha256_hex plain_codec ` receipt_preimage plain_codec ` (set [sample_receipt []] \<union> set [sample_receipt []])"
    using plain_digest_is_no_genesis by (simp add: plain_codec_def)
qed

lemma length_plain_text [simp]: "length (plain_text t) = 2 * length t + 1"
proof -
  have "length (concat (map nibbles t)) = 2 * length t" by (induction t) (auto simp: nibbles_def)
  then show ?thesis by (simp add: plain_text_def)
qed

lemma plain_text_utf8 [simp]: "is_utf8 (plain_text t)"
  by (rule plain_utf8) (use plain_bytes(1)[of t] in \<open>auto simp: plain_byte_def list_all_iff\<close>)

lemma GENESIS_HASH_utf8 [simp]: "is_utf8 GENESIS_HASH"
  by (rule plain_utf8) (simp add: GENESIS_HASH_def list_all_iff)

lemma sample_receipt_utf8: "is_utf8 c \<Longrightarrow> utf8_receipt (sample_receipt c)"
  by (simp add: utf8_receipt_def sample_receipt_def compute_entry_hash_def plain_codec_def ascii_def)

lemma sample_line_length: "100 < length (plain_line (sample_receipt []))" "length (plain_line (sample_receipt [])) < 10000"
  by (simp_all add: plain_line_def sample_receipt_def compute_entry_hash_def entry_preimage_text plain_codec_def ascii_def
      GENESIS_HASH_def)

theorem crash_costs_only_the_torn_entry_witness:
  "recover_chain_tail plain_codec (take 100 (plain_line (sample_receipt []))) = (Inr (0, GENESIS_HASH), [])"
proof -
  let ?r = "sample_receipt []"
  have l: "cd_line plain_codec ?r = plain_line ?r" by (simp add: plain_codec_def)
  have "recover_chain_tail plain_codec (take 100 (plain_line ?r)) =
    (if 100 = length (cd_line plain_codec ?r) + 1 then (Inr (rc_seq ?r + 1, rc_entry_hash ?r), lines_text plain_codec ([] @ [?r]))
     else if 100 = length (cd_line plain_codec ?r) \<and> rc_prev_hash ?r = chain_head []
     then (Inl SealedFragment, take 100 (plain_line ?r))
     else (Inr (chain_seq [], chain_head []), lines_text plain_codec []))"
    by (rule crash_costs_only_the_torn_entry[OF plain_codec_lines])
      (use sample_receipt_verifies[of "[]"] sample_line_length in \<open>simp_all add: l sample_receipt_utf8 OPEN_TAIL_BUDGET_def
         verify_chain_def chain_head_def split: if_splits\<close>)
  then show ?thesis using sample_line_length by (simp add: l chain_seq_def chain_head_def)
qed

end
