(* ===== verification/ReceiptTrail.thy ===== *)
theory ReceiptTrail
  imports Receipts
begin

text \<open>
  The receipt log over its life (\<open>cerud/src/receipt.rs\<close>): a sequence of records, each with its own failures
  of the append and of the rotation it may trigger, and what the files on disk hold together afterwards.
\<close>

section \<open>The files of a log, oldest first\<close>

primrec names_down :: "(nat \<Rightarrow> nat option) \<Rightarrow> nat \<Rightarrow> nat list" where
  "names_down names 0 = []"
| "names_down names (Suc i) = (case names (Suc i) of Some f \<Rightarrow> [f] | None \<Rightarrow> []) @ names_down names i"

definition trail :: "log_fs \<Rightarrow> nat \<Rightarrow> nat list" where
  "trail fs n = names_down (fs_rotated fs) n @ (case fs_live fs of Some f \<Rightarrow> [f] | None \<Rightarrow> [])"

lemma names_down_cong: "(\<And>i. 0 < i \<Longrightarrow> i \<le> n \<Longrightarrow> names i = names' i) \<Longrightarrow> names_down names n = names_down names' n"
  by (induction n) auto

lemma names_down_beyond [simp]: "n < i \<Longrightarrow> names_down (names(i := x)) n = names_down names n"
  by (rule names_down_cong) auto

lemma names_down_first: "names 1 = None \<Longrightarrow> 0 < n \<Longrightarrow> names_down (names(1 := Some f)) n = names_down names n @ [f]"
proof (induction n)
  case (Suc n)
  then show ?case by (cases "n = 0") auto
qed simp

lemma names_down_remove:
  assumes "0 < n"
  shows "\<exists>gone. names_down names n = gone @ names_down (names(n := None)) n"
  using assms by (cases n) (auto split: option.split)

lemma shift_up_keeps:
  assumes "names (Suc i) = None" "shift_up f i names = (r, names')"
  shows "names_down names' (Suc i) = names_down names (Suc i) \<and> (\<forall>j > Suc i. names' j = names j) \<and>
    (r = Inr () \<longrightarrow> names' 1 = None)"
  using assms
proof (induction i arbitrary: names)
  case (Suc i)
  show ?case
  proof (cases "names (Suc i) = None")
    case True
    then show ?thesis using Suc.IH [of names] Suc.prems by auto
  next
    case filled: False
    show ?thesis
    proof (cases "f = Some (Suc i)")
      case True
      then show ?thesis using Suc.prems filled by auto
    next
      case False
      let ?m = "names(Suc (Suc i) := names (Suc i), Suc i := None)"
      have run: "shift_up f i ?m = (r, names')" using Suc.prems(2) False filled by simp
      have "names_down names' (Suc i) = names_down ?m (Suc i)" "\<forall>j > Suc i. names' j = ?m j" "r = Inr () \<longrightarrow> names' 1 = None"
        using Suc.IH [OF fun_upd_same run] by blast+
      moreover have "names_down ?m (Suc i) = names_down names i"
        by (simp add: names_down_beyond del: fun_upd_apply) (simp add: fun_upd_apply)
      ultimately show ?thesis using Suc.prems(1) filled by (auto split: option.split)
    qed
  qed
qed simp

section \<open>The invariant\<close>

definition trail_ok :: "receipt_codec \<Rightarrow> receipt list \<Rightarrow> receipt list list \<Rightarrow> log_fs \<times> receipt_log \<Rightarrow> bool" where
  "trail_ok cd hist files st =
     (case st of (fs, log) \<Rightarrow>
        0 < rl_max_rotations log \<and>
        list_all2 (\<lambda>f rs. fs_data fs f = lines_text cd rs) (trail fs (rl_max_rotations log)) files \<and>
        distinct (trail fs (rl_max_rotations log)) \<and> list_all (\<lambda>f. f < fs_fresh fs) (trail fs (rl_max_rotations log)) \<and>
        suffix (concat files) hist \<and> (rl_max_bytes log = 0 \<longrightarrow> concat files = hist) \<and>
        verify_chain cd hist = Inr () \<and> list_all utf8_receipt hist \<and>
        rl_prev_hash log = chain_head hist \<and> rl_next_seq log = of_nat (length hist) \<and>
        map rc_seq hist = map of_nat [0..<length hist] \<and>
        (case fs_live fs of
           Some f \<Rightarrow> rl_file log = f \<and> rl_current_bytes log = length (fs_data fs f)
         | None \<Rightarrow> 0 < rl_max_bytes log \<and> rl_max_bytes log \<le> rl_current_bytes log))"

definition undone :: "write_fault \<Rightarrow> bool" where
  "undone fault = (case fault of WriteOk \<Rightarrow> True | WriteFails n works \<Rightarrow> works | SyncFails works \<Rightarrow> works)"

lemma build_entry_next:
  assumes "line_laws cd" "trail_ok cd hist files (fs, log)" "is_utf8 caller" "is_utf8 verb" "is_utf8 digest" "is_utf8 (hash_tag u)"
  shows "verify_chain cd (hist @ [build_entry cd log caller verb digest u now]) = Inr ()"
    "utf8_receipt (build_entry cd log caller verb digest u now)"
proof -
  let ?e = "build_entry cd log caller verb digest u now"
  have "is_utf8 (rl_prev_hash log)"
    using assms(2) by (cases hist rule: rev_cases) (auto simp: trail_ok_def chain_head_def utf8_receipt_def)
  moreover have "is_utf8 (rc_entry_hash ?e)" using assms(1) by (simp add: build_entry_def compute_entry_hash_def line_laws_def)
  ultimately show "utf8_receipt ?e" using assms(3-) by (simp add: utf8_receipt_def build_entry_def)
  show "verify_chain cd (hist @ [?e]) = Inr ()"
    using assms(2) by (simp add: verify_chain_append trail_ok_def build_entry_def recomputed_def)
qed

lemma append_entry_ok:
  assumes laws: "line_laws cd" and ok: "trail_ok cd hist files (fs, log)" and live: "fs_live fs = Some f" and "undone fault"
    and e: "e = build_entry cd log caller verb digest u now" "is_utf8 caller" "is_utf8 verb" "is_utf8 digest" "is_utf8 (hash_tag u)"
    and run: "append_entry cd fault e (fs, log) = (r, st')"
  shows "case r of Inl _ \<Rightarrow> st' = (fs, log)
    | Inr _ \<Rightarrow> (\<exists>files'. trail_ok cd (hist @ [e]) files' st') \<and> fs_live (fst st') = Some f \<and>
        rl_max_bytes (snd st') = rl_max_bytes log \<and> rl_max_rotations (snd st') = rl_max_rotations log"
proof (cases r)
  case (Inl err)
  have "rl_file log = f" "rl_current_bytes log = length (fs_data fs f)" using ok live by (auto simp: trail_ok_def)
  then show ?thesis
    using run \<open>undone fault\<close> Inl by (auto simp: append_entry_def Let_def undo_def undone_def split: write_fault.splits)
next
  case (Inr x)
  let ?line = "cd_line cd e @ [10]" and ?n = "rl_max_rotations log"
  have handle: "rl_file log = f" "rl_current_bytes log = length (fs_data fs f)" using ok live by (auto simp: trail_ok_def)
  have st': "st' = (fs\<lparr>fs_data := (fs_data fs)(f := fs_data fs f @ ?line)\<rparr>,
      log\<lparr>rl_prev_hash := rc_entry_hash e, rl_next_seq := rl_next_seq log + 1,
        rl_current_bytes := rl_current_bytes log + length ?line\<rparr>)"
    using run Inr handle by (auto simp: append_entry_def Let_def split: write_fault.splits)
  have trail: "trail fs ?n = names_down (fs_rotated fs) ?n @ [f]" using live by (simp add: trail_def)
  have l2: "list_all2 (\<lambda>f rs. fs_data fs f = lines_text cd rs) (names_down (fs_rotated fs) ?n @ [f]) files"
    and f: "f \<notin> set (names_down (fs_rotated fs) ?n)"
    using ok unfolding trail_ok_def trail [symmetric] by (auto simp: trail)
  obtain before rs where files: "files = before @ [rs]" "fs_data fs f = lines_text cd rs"
      "list_all2 (\<lambda>f rs. fs_data fs f = lines_text cd rs) (names_down (fs_rotated fs) ?n) before"
    using l2 by (auto simp: list_all2_append1 list_all2_Cons1)
  let ?files = "before @ [rs @ [e]]"
  have "list_all2 (\<lambda>g rs. ((fs_data fs)(f := fs_data fs f @ ?line)) g = lines_text cd rs) (names_down (fs_rotated fs) ?n) before"
    using files(3) f by (auto simp: list_all2_conv_all_nth)
  then have "list_all2 (\<lambda>f rs. fs_data (fst st') f = lines_text cd rs) (trail (fst st') ?n) ?files"
    by (simp add: st' trail_def live files) (auto intro!: list_all2_appendI)
  moreover have "rc_seq e = of_nat (length hist)" "chain_head (hist @ [e]) = rc_entry_hash e"
    using ok by (simp_all add: e(1) build_entry_def trail_ok_def chain_head_def)
  moreover have "suffix (concat ?files) (hist @ [e])" "rl_max_bytes log = 0 \<longrightarrow> concat ?files = hist @ [e]"
    using ok by (auto simp: trail_ok_def files suffix_def)
  ultimately have "trail_ok cd (hist @ [e]) ?files st'"
    using ok build_entry_next [OF laws ok e(2-5), of now] handle
    by (simp add: trail_ok_def st' trail_def live e(1))
  then show ?thesis using Inr live by (auto simp: st')
qed

section \<open>Rotation\<close>

lemma list_all2_mono':
  assumes "list_all2 P xs ys" "x \<notin> set xs" "\<And>a b. a \<noteq> x \<Longrightarrow> P a b \<Longrightarrow> Q a b"
  shows "list_all2 Q xs ys"
  using assms by (auto simp: list_all2_conv_all_nth) (metis nth_mem)

text \<open>Files may go from the front of the trail, and names may change, without hurting the invariant.\<close>

lemma drop_oldest:
  assumes "trail_ok cd hist files (fs, log)" "trail fs (rl_max_rotations log) = gone @ trail fs' (rl_max_rotations log)"
    and "fs_data fs' = fs_data fs" "fs_fresh fs' = fs_fresh fs" "0 < rl_max_bytes log"
    and "fs_live fs' = fs_live fs \<or> fs_live fs' = None \<and> rl_max_bytes log \<le> rl_current_bytes log"
  shows "\<exists>files'. trail_ok cd hist files' (fs', log)"
proof -
  have l2: "list_all2 (\<lambda>f rs. fs_data fs f = lines_text cd rs) (gone @ trail fs' (rl_max_rotations log)) files"
    using assms(1,2) by (simp add: trail_ok_def)
  then obtain a b where files: "files = a @ b" "list_all2 (\<lambda>f rs. fs_data fs f = lines_text cd rs) (trail fs' (rl_max_rotations log)) b"
    by (auto simp: list_all2_append1)
  have "suffix (concat b) hist" using assms(1) files(1) by (auto simp: trail_ok_def suffix_def)
  moreover have "case fs_live fs' of Some f \<Rightarrow> rl_file log = f \<and> rl_current_bytes log = length (fs_data fs' f)
      | None \<Rightarrow> 0 < rl_max_bytes log \<and> rl_max_bytes log \<le> rl_current_bytes log"
  proof (cases "fs_live fs' = fs_live fs")
    case True
    then show ?thesis using assms(1,3) by (cases "fs_live fs") (simp_all add: trail_ok_def)
  next
    case False
    then show ?thesis using assms(5,6) by simp
  qed
  ultimately have "trail_ok cd hist b (fs', log)"
    using assms(1-5) files by (simp add: trail_ok_def)
  then show ?thesis by blast
qed

lemma rotate_ok:
  assumes laws: "line_laws cd" and ok: "trail_ok cd hist files (fs, log)"
    and full: "0 < rl_max_bytes log" "rl_max_bytes log \<le> rl_current_bytes log" and "undone (rf_anchor rf)"
    and run: "rotate cd rf now (fs, log) = (r, st')"
  shows "\<exists>anchors files'. trail_ok cd (hist @ anchors) files' st' \<and> list_all (\<lambda>e. rc_verb e = ROTATION_VERB) anchors \<and>
    rl_max_bytes (snd st') = rl_max_bytes log \<and> rl_max_rotations (snd st') = rl_max_rotations log \<and>
    (r = Inr () \<longrightarrow> fs_live (fst st') \<noteq> None)"
proof -
  let ?n = "rl_max_rotations log"
  have n: "0 < ?n" using ok by (simp add: trail_ok_def)
  have stay: ?thesis if "\<exists>files'. trail_ok cd hist files' st'" "snd st' = log" "r = Inl err" for err
  proof -
    from that(1) obtain files' where "trail_ok cd hist files' st'" by blast
    then show ?thesis using that(2,3) by (intro exI [of _ "[]"] exI [of _ files']) simp
  qed
  obtain res names where shift: "shift_up (rf_shift rf) (?n - 1) ((fs_rotated fs)(?n := None)) = (res, names)" by fastforce
  have names: "names_down names ?n = names_down ((fs_rotated fs)(?n := None)) ?n" "res = Inr () \<longrightarrow> names 1 = None"
    using shift_up_keeps [OF _ shift] n by auto
  obtain gone where gone: "names_down (fs_rotated fs) ?n = gone @ names_down names ?n"
    using names_down_remove [OF n, of "fs_rotated fs"] names(1) by auto
  have dropped: "\<exists>files'. trail_ok cd hist files' (fs\<lparr>fs_rotated := names\<rparr>, log)"
    by (rule drop_oldest [OF ok, of gone]) (use full gone in \<open>simp_all add: trail_def\<close>)
  define early where "early \<longleftrightarrow> rf_sync rf \<or> (fs_rotated fs ?n \<noteq> None \<and> rf_remove rf)"
  have res: "res = Inr () \<or> (\<exists>e. res = Inl e)" by (cases res) auto
  consider "early"
    | "\<not> early" "\<exists>e. res = Inl e"
    | "\<not> early" "res = Inr ()" "rf_move rf \<or> fs_live fs = None"
    | f where "\<not> early" "res = Inr ()" "\<not> rf_move rf" "fs_live fs = Some f" "rf_open rf"
    | f where "\<not> early" "res = Inr ()" "\<not> rf_move rf" "fs_live fs = Some f" "\<not> rf_open rf"
    using res by (cases "fs_live fs") blast+
  then show ?thesis
  proof cases
    case 1
    then have "r = Inl IoError" "st' = (fs, log)" using run by (auto simp: rotate_def Let_def early_def split: if_splits)
    then show ?thesis using stay ok by auto
  next
    case 2
    then obtain e where "res = Inl e" by blast
    then have "r = Inl e" "st' = (fs\<lparr>fs_rotated := names\<rparr>, log)" using run 2(1) shift by (auto simp: rotate_def Let_def early_def split: if_splits)
    then show ?thesis using stay dropped by auto
  next
    case 3
    then have "r = Inl IoError" "st' = (fs\<lparr>fs_rotated := names\<rparr>, log)" using run shift by (auto simp: rotate_def Let_def early_def split: if_splits)
    then show ?thesis using stay dropped by auto
  next
    case (4 f)
    then have st': "r = Inl IoError" "st' = (fs\<lparr>fs_rotated := names(1 := Some f), fs_live := None\<rparr>, log)"
      using run shift by (auto simp: rotate_def Let_def early_def split: if_splits)
    have "\<exists>files'. trail_ok cd hist files' st'"
      unfolding st' by (rule drop_oldest [OF ok, of gone])
        (use full gone names 4 n names_down_first [of names ?n f] in \<open>simp_all add: trail_def\<close>)
    then show ?thesis using stay st' by auto
  next
    case (5 f)
    let ?fs0 = "fs\<lparr>fs_rotated := names(1 := Some f), fs_live := None\<rparr>"
    let ?fs1 = "fs\<lparr>fs_rotated := names(1 := Some f), fs_live := Some (fs_fresh fs),
      fs_data := (fs_data fs)(fs_fresh fs := []), fs_fresh := fs_fresh fs + 1\<rparr>"
    let ?log1 = "log\<lparr>rl_file := fs_fresh fs, rl_current_bytes := 0\<rparr>"
    let ?digest = "args_digest cd (JObject [(ascii ''rotated_to'', JString (rl_first_rotated log))])"
    let ?e = "build_entry cd ?log1 (ascii ''cerud'') ROTATION_VERB ?digest ROk now"
    have st': "append_entry cd (rf_anchor rf) ?e (?fs1, ?log1) = (r, st')"
      using run shift 5 by (auto simp: rotate_def Let_def early_def split: if_splits)
    have "\<exists>files'. trail_ok cd hist files' (?fs0, log)"
      by (rule drop_oldest [OF ok, of gone])
        (use full gone names 5 n names_down_first [of names ?n f] in \<open>simp_all add: trail_def\<close>)
    then obtain files0 where ok0: "trail_ok cd hist files0 (?fs0, log)" by blast
    have trail1: "trail ?fs1 ?n = trail ?fs0 ?n @ [fs_fresh fs]" by (simp add: trail_def)
    have fresh: "fs_fresh fs \<notin> set (trail ?fs0 ?n)" "list_all (\<lambda>f. f < fs_fresh fs) (trail ?fs0 ?n)"
      using ok0 by (auto simp: trail_ok_def list_all_iff)
    have "list_all2 (\<lambda>f rs. fs_data ?fs0 f = lines_text cd rs) (trail ?fs0 ?n) files0"
      using ok0 by (simp add: trail_ok_def)
    then have "list_all2 (\<lambda>f rs. fs_data ?fs1 f = lines_text cd rs) (trail ?fs0 ?n) files0"
      by (rule list_all2_mono' [OF _ fresh(1)]) simp
    then have "list_all2 (\<lambda>f rs. fs_data ?fs1 f = lines_text cd rs) (trail ?fs1 ?n) (files0 @ [[]])"
      unfolding trail1 by (auto intro!: list_all2_appendI)
    moreover have "distinct (trail ?fs1 ?n)" "list_all (\<lambda>f. f < fs_fresh ?fs1) (trail ?fs1 ?n)"
      unfolding trail1 using ok0 fresh by (auto simp: trail_ok_def list_all_iff intro: less_SucI)
    ultimately have ok1: "trail_ok cd hist (files0 @ [[]]) (?fs1, ?log1)"
      using ok0 by (simp add: trail_ok_def)
    have utf8: "is_utf8 (ascii ''cerud'')" "is_utf8 ROTATION_VERB" "is_utf8 ?digest" "is_utf8 (hash_tag ROk)"
      using laws by (simp_all add: ascii_def ROTATION_VERB_def args_digest_def line_laws_def)
    have verb: "rc_verb ?e = ROTATION_VERB" by (simp add: build_entry_def)
    note step = append_entry_ok [OF laws ok1 _ \<open>undone (rf_anchor rf)\<close> refl utf8 st', of "fs_fresh fs"]
    show ?thesis
    proof (cases r)
      case (Inl x)
      then show ?thesis using step ok1
        by (intro exI [of _ "[]"] exI [of _ "files0 @ [[]]"]) auto
    next
      case (Inr x)
      then show ?thesis using step verb
        by (intro exI [of _ "[?e]"]) auto
    qed
  qed
qed

section \<open>The life of a log\<close>

record audit_op =
  ao_rotate :: rotate_faults
  ao_append :: write_fault
  ao_caller :: bytes
  ao_verb :: bytes
  ao_digest :: bytes
  ao_outcome :: receipt_outcome
  ao_now :: u64

fun record_all :: "receipt_codec \<Rightarrow> audit_op list \<Rightarrow> log_fs \<times> receipt_log \<Rightarrow> (receipt_error + receipt) list \<times> log_fs \<times> receipt_log" where
  "record_all cd [] st = ([], st)"
| "record_all cd (a # ops) st =
     (let (r, st1) = record_at cd (ao_rotate a) (ao_append a) (ao_caller a) (ao_verb a) (ao_digest a) (ao_outcome a) (ao_now a) st;
          (rs, st2) = record_all cd ops st1
      in (r # rs, st2))"

text \<open>An operation whose strings are well-formed and whose failed appends are undone; any call of a rotation may fail.\<close>

definition op_ok :: "audit_op \<Rightarrow> bool" where
  "op_ok a = (undone (ao_append a) \<and> undone (rf_anchor (ao_rotate a)) \<and> is_utf8 (ao_caller a) \<and> is_utf8 (ao_verb a) \<and>
     is_utf8 (ao_digest a) \<and> is_utf8 (hash_tag (ao_outcome a)))"

definition recorded :: "(receipt_error + receipt) list \<Rightarrow> receipt list" where
  "recorded results = concat (map (\<lambda>r. case r of Inr e \<Rightarrow> [e] | Inl _ \<Rightarrow> []) results)"

lemma record_at_ok:
  assumes laws: "line_laws cd" and ok: "trail_ok cd hist files st" and a: "op_ok a"
    and run: "record_at cd (ao_rotate a) (ao_append a) (ao_caller a) (ao_verb a) (ao_digest a) (ao_outcome a) (ao_now a) st = (r, st')"
  shows "\<exists>anchors files'. trail_ok cd (hist @ anchors @ recorded [r]) files' st' \<and>
    list_all (\<lambda>e. rc_verb e = ROTATION_VERB) anchors \<and> list_all (\<lambda>e. rc_verb e = ao_verb a) (recorded [r]) \<and>
    rl_max_bytes (snd st') = rl_max_bytes (snd st) \<and> rl_max_rotations (snd st') = rl_max_rotations (snd st)"
proof -
  obtain fs log where st: "st = (fs, log)" by fastforce
  obtain r1 fs1 log1 where rot: "maybe_rotate cd (ao_rotate a) (ao_now a) st = (r1, fs1, log1)" by (metis prod_cases3)
  have "\<exists>anchors files'. trail_ok cd (hist @ anchors) files' (fs1, log1) \<and> list_all (\<lambda>e. rc_verb e = ROTATION_VERB) anchors \<and>
    rl_max_bytes log1 = rl_max_bytes log \<and> rl_max_rotations log1 = rl_max_rotations log \<and> (r1 = Inr () \<longrightarrow> fs_live fs1 \<noteq> None)"
  proof (cases "rl_max_bytes log = 0 \<or> rl_current_bytes log < rl_max_bytes log")
    case True
    then have "fs1 = fs" "log1 = log" using rot by (auto simp: maybe_rotate_def st)
    moreover have "fs_live fs \<noteq> None" using ok True by (auto simp: trail_ok_def st split: option.splits)
    ultimately show ?thesis using ok by (intro exI [of _ "[]"] exI [of _ files]) (simp add: st)
  next
    case False
    then have "rotate cd (ao_rotate a) (ao_now a) (fs, log) = (r1, fs1, log1)" using rot by (simp add: maybe_rotate_def st)
    from rotate_ok [OF laws ok [unfolded st] _ _ _ this] show ?thesis using False a by (simp add: op_ok_def)
  qed
  then obtain anchors files1 where ok1: "trail_ok cd (hist @ anchors) files1 (fs1, log1)"
      "list_all (\<lambda>e. rc_verb e = ROTATION_VERB) anchors" "rl_max_bytes log1 = rl_max_bytes log"
      "rl_max_rotations log1 = rl_max_rotations log" "r1 = Inr () \<longrightarrow> fs_live fs1 \<noteq> None" by blast
  show ?thesis
  proof (cases r1)
    case (Inl e)
    then have "r = Inl e" "st' = (fs1, log1)" using run rot by (simp_all add: record_at_def)
    then show ?thesis using ok1 by (intro exI [of _ anchors] exI [of _ files1]) (simp add: recorded_def st)
  next
    case (Inr u)
    then obtain f where live: "fs_live fs1 = Some f" using ok1(5) by auto
    let ?e = "build_entry cd log1 (ao_caller a) (ao_verb a) (ao_digest a) (ao_outcome a) (ao_now a)"
    obtain r2 st2 where app: "append_entry cd (ao_append a) ?e (fs1, log1) = (r2, st2)" by (rule prod.exhaust)
    have "undone (ao_append a)" "is_utf8 (ao_caller a)" "is_utf8 (ao_verb a)" "is_utf8 (ao_digest a)" "is_utf8 (hash_tag (ao_outcome a))"
      using a by (simp_all add: op_ok_def)
    note step = append_entry_ok [OF laws ok1(1) live this(1) refl this(2-5) app]
    show ?thesis
    proof (cases r2)
      case (Inl e)
      then have "r = Inl e" "st' = st2" using run rot Inr app by (simp_all add: record_at_def Let_def)
      then show ?thesis using ok1 step Inl by (intro exI [of _ anchors] exI [of _ files1]) (simp add: recorded_def st)
    next
      case (Inr v)
      then have r: "r = Inr ?e" "st' = st2" using run rot \<open>r1 = Inr u\<close> app by (simp_all add: record_at_def Let_def)
      have "rc_verb ?e = ao_verb a" by (simp add: build_entry_def)
      then show ?thesis using ok1 step Inr by (intro exI [of _ anchors]) (auto simp: recorded_def st r)
    qed
  qed
qed

lemma record_all_ok:
  assumes laws: "line_laws cd"
  shows "trail_ok cd hist files st \<Longrightarrow> list_all op_ok ops \<Longrightarrow> record_all cd ops st = (results, st') \<Longrightarrow>
    \<exists>more files'. trail_ok cd (hist @ more) files' st' \<and> subseq (recorded results) more \<and>
      (list_all (\<lambda>a. ao_verb a \<noteq> ROTATION_VERB) ops \<longrightarrow> filter (\<lambda>e. rc_verb e \<noteq> ROTATION_VERB) more = recorded results) \<and>
      rl_max_bytes (snd st') = rl_max_bytes (snd st) \<and> rl_max_rotations (snd st') = rl_max_rotations (snd st)"
proof (induction ops arbitrary: hist files st results)
  case Nil
  then show ?case by (intro exI [of _ "[]"] exI [of _ files]) (auto simp: recorded_def)
next
  case (Cons a ops)
  obtain r st1 where first: "record_at cd (ao_rotate a) (ao_append a) (ao_caller a) (ao_verb a) (ao_digest a) (ao_outcome a) (ao_now a) st = (r, st1)"
    by (rule prod.exhaust)
  obtain rs where rest: "record_all cd ops st1 = (rs, st')" "results = r # rs"
    using Cons.prems(3) first by (auto split: prod.splits)
  have a: "op_ok a" "list_all op_ok ops" using Cons.prems(2) by simp_all
  obtain anchors files1 where ok1: "trail_ok cd (hist @ anchors @ recorded [r]) files1 st1"
      "list_all (\<lambda>e. rc_verb e = ROTATION_VERB) anchors" "list_all (\<lambda>e. rc_verb e = ao_verb a) (recorded [r])"
      "rl_max_bytes (snd st1) = rl_max_bytes (snd st)" "rl_max_rotations (snd st1) = rl_max_rotations (snd st)"
    using record_at_ok [OF laws Cons.prems(1) a(1) first] by blast
  obtain more files2 where ok2: "trail_ok cd ((hist @ anchors @ recorded [r]) @ more) files2 st'" "subseq (recorded rs) more"
      "list_all (\<lambda>a. ao_verb a \<noteq> ROTATION_VERB) ops \<longrightarrow> filter (\<lambda>e. rc_verb e \<noteq> ROTATION_VERB) more = recorded rs"
      "rl_max_bytes (snd st') = rl_max_bytes (snd st1)" "rl_max_rotations (snd st') = rl_max_rotations (snd st1)"
    using Cons.IH [OF ok1(1) a(2) rest(1)] by blast
  have results: "recorded results = recorded [r] @ recorded rs" by (simp add: recorded_def rest(2))
  have none: "filter (\<lambda>e. rc_verb e \<noteq> ROTATION_VERB) anchors = []" using ok1(2) by (induction anchors) auto
  have own: "ao_verb a \<noteq> ROTATION_VERB \<Longrightarrow> filter (\<lambda>e. rc_verb e \<noteq> ROTATION_VERB) (recorded [r]) = recorded [r]"
    using ok1(3) by (simp add: filter_id_conv list_all_iff)
  have "subseq (recorded results) (anchors @ recorded [r] @ more)"
    unfolding results using ok2(2) by (simp add: subseq_drop_many list_emb_append_mono)
  then show ?case
    using ok1 ok2 none own by (intro exI [of _ "anchors @ recorded [r] @ more"] exI [of _ files2]) (simp add: results)
qed

text \<open>
  C13. Whatever is recorded on a new log, whichever appends fail and are undone, and whichever calls of the
  rotations fail: what was ever committed is one chain that verifies, numbered from 0; in it are the entries
  of the calls that succeeded, in their order, and besides them only the anchors of rotations; and the files
  left on disk, read from the oldest to the newest, hold an unbroken end of that chain, all of it when
  rotation is off.
\<close>

theorem audit_trail_is_one_chain:
  assumes laws: "line_laws cd" and ops: "list_all op_ok ops"
    and disk: "fs_live fs = None" "fs_rotated fs = (\<lambda>_. None)" and rotations: "0 < max_rotations"
    and opened: "open_with_limits cd first_rotated max_bytes max_rotations fs = (Inr log, fs1)"
    and run: "record_all cd ops (fs1, log) = (results, fs2, log2)"
  shows "\<exists>hist files. verify_chain cd hist = Inr () \<and> map rc_seq hist = map of_nat [0..<length hist] \<and>
    subseq (recorded results) hist \<and>
    (list_all (\<lambda>a. ao_verb a \<noteq> ROTATION_VERB) ops \<longrightarrow> filter (\<lambda>e. rc_verb e \<noteq> ROTATION_VERB) hist = recorded results) \<and>
    map (\<lambda>f. read_all cd (fs_data fs2 f)) (trail fs2 max_rotations) = map Inr files \<and>
    suffix (concat files) hist \<and> (max_bytes = 0 \<longrightarrow> concat files = hist)"
proof -
  have none: "names_down (\<lambda>_. None) n = []" for n by (induction n) auto
  have log: "rl_max_rotations log = max_rotations" "rl_max_bytes log = max_bytes"
    using opened disk by (auto simp: open_with_limits_def Let_def)
  have "trail_ok cd [] [[]] (fs1, log)"
    using opened disk rotations
    by (auto simp: open_with_limits_def Let_def trail_ok_def trail_def none chain_head_def)
  from record_all_ok [OF laws this ops run] obtain hist files where ok: "trail_ok cd hist files (fs2, log2)"
      "subseq (recorded results) hist"
      "list_all (\<lambda>a. ao_verb a \<noteq> ROTATION_VERB) ops \<longrightarrow> filter (\<lambda>e. rc_verb e \<noteq> ROTATION_VERB) hist = recorded results"
      "rl_max_bytes log2 = max_bytes" "rl_max_rotations log2 = max_rotations"
    using log by auto
  have utf8: "list_all utf8_receipt rs" if "rs \<in> set files" for rs
    using ok(1) that by (auto simp: trail_ok_def suffix_def list_all_iff)
  have "map (\<lambda>f. read_all cd (fs_data fs2 f)) (trail fs2 max_rotations) = map Inr files"
  proof (rule nth_equalityI)
    have l2: "list_all2 (\<lambda>f rs. fs_data fs2 f = lines_text cd rs) (trail fs2 max_rotations) files"
      using ok(1,5) by (simp add: trail_ok_def)
    then show "length (map (\<lambda>f. read_all cd (fs_data fs2 f)) (trail fs2 max_rotations)) = length (map Inr files)"
      by (simp add: list_all2_lengthD)
    show "map (\<lambda>f. read_all cd (fs_data fs2 f)) (trail fs2 max_rotations) ! i = map Inr files ! i"
      if "i < length (map (\<lambda>f. read_all cd (fs_data fs2 f)) (trail fs2 max_rotations))" for i
      using l2 that utf8 read_all_lines [OF laws] by (auto simp: list_all2_conv_all_nth)
  qed
  then show ?thesis using ok by (intro exI [of _ hist] exI [of _ files]) (simp add: trail_ok_def)
qed

definition sample_op :: "write_fault \<Rightarrow> audit_op" where
  "sample_op fault = \<lparr>ao_rotate = no_rotate_faults, ao_append = fault, ao_caller = [65], ao_verb = [66], ao_digest = [],
     ao_outcome = ROk, ao_now = 7\<rparr>"

definition empty_disk :: log_fs where
  "empty_disk = \<lparr>fs_live = None, fs_rotated = (\<lambda>_. None), fs_data = (\<lambda>_. []), fs_fresh = 0\<rparr>"

theorem audit_trail_is_one_chain_witness:
  "\<exists>log fs1 results fs2 log2 hist. open_with_limits plain_codec [] 1 2 empty_disk = (Inr log, fs1) \<and>
     record_all plain_codec [sample_op WriteOk, sample_op (WriteFails 5 True), sample_op WriteOk] (fs1, log) = (results, fs2, log2) \<and>
     verify_chain plain_codec hist = Inr () \<and> filter (\<lambda>e. rc_verb e \<noteq> ROTATION_VERB) hist = recorded results"
proof -
  let ?ops = "[sample_op WriteOk, sample_op (WriteFails 5 True), sample_op WriteOk]"
  obtain log fs1 where opened: "open_with_limits plain_codec [] 1 2 empty_disk = (Inr log, fs1)"
    by (simp add: open_with_limits_def empty_disk_def Let_def)
  obtain results fs2 log2 where run: "record_all plain_codec ?ops (fs1, log) = (results, fs2, log2)"
    by (metis prod_cases3)
  have "list_all op_ok ?ops"
    by (simp add: sample_op_def op_ok_def undone_def no_rotate_faults_def ascii_def)
  moreover have "list_all (\<lambda>a. ao_verb a \<noteq> ROTATION_VERB) ?ops" by (simp add: sample_op_def ROTATION_VERB_def ascii_def)
  ultimately show ?thesis
    using audit_trail_is_one_chain [OF plain_codec_lines _ _ _ _ opened run] opened run
    by (auto simp: empty_disk_def)
qed

section \<open>A rotation that cannot open the new file\<close>

text \<open>
  After it the log has no live file, so every later record rotates again: it removes the oldest file, shifts
  the others up, and fails on the missing log. The names on disk run out after as many calls as rotations are kept.
\<close>

lemma failed_open_erases_the_trail:
  assumes "fs_live fs = Some c" "fs_rotated fs = (\<lambda>_. None)(1 := Some b, 2 := Some a)" "rl_max_rotations log = 2"
    and "0 < rl_max_bytes log" "rl_max_bytes log \<le> rl_current_bytes log"
  shows "\<exists>fs2. record_all cd [sample_op WriteOk\<lparr>ao_rotate := no_rotate_faults\<lparr>rf_open := True\<rparr>\<rparr>, sample_op WriteOk, sample_op WriteOk] (fs, log) =
    ([Inl IoError, Inl IoError, Inl IoError], fs2, log) \<and> trail fs 2 = [a, b, c] \<and> trail fs2 2 = []"
  using assms by (simp add: record_at_def maybe_rotate_def rotate_def Let_def no_rotate_faults_def sample_op_def trail_def numeral_2_eq_2)

end
