(* ===== verification/Spec2Isabelle.thy ===== *)
theory Spec2Isabelle
  imports GraphStep SyncStamp ReceivePath Barrier TraceMerge StateCapture RestorePlan Credit AnchorPath
    ShmRing ControlLease Receipts ReceiptTrail
begin

text \<open>
  A verification development for the scheduling core of Cerulion, a robotics middleware written in Rust:
  a graph of nodes that exchange frames through shared memory, run step by step by a deterministic
  scheduler, possibly in several processes that keep in step through a barrier. All paths below are under
  \<open>src/crates/\<close>; unless a path says otherwise they are under \<open>src/crates/cerulion_core/src/\<close>.

  How the program works. A graph configuration names nodes with inputs and outputs. Building it gives a
  topology of topics, producers and consumers; the edges that trigger a node give it levels. A step
  advances the clock once and walks the levels. On a level the runtime drains the arrivals of its nodes
  into the scheduler, which decides for each node by its trigger policy (periodic, data, synchronised
  inputs, external) whether and how often it fires, freezes the inputs of those that do, and ticks them,
  in part on a thread pool. A node that fires may panic, be deferred by a check before each fire, or
  overrun; quality-of-service windows watch its inputs and outputs. A synchronised node asks its
  subscribers for the heads of their queues and advances them until they form a set inside its window.
  Processes that share a graph cross a barrier between levels, and their traces merge into one. At an
  anchor the state of every node is captured, in the step if it is cheap and in a forked child if not,
  framed, cut into the records of a ring, assembled by the recorder, and later restored by a replay.

  Theories, from the bottom:

  \<^item> \<open>Prelude\<close>: the machine integer types, saturating and checked arithmetic with their \<open>unat\<close>
    rules, positions in lists, insertion-ordered sets.
  \<^item> \<open>Wire\<close>: frame headers, step tags, the upgrade of old frames, slice and payload sizes, and the parser
    of untrusted frames (\<open>wire.rs\<close>, \<open>cerulion_wire/src/\<close>).
  \<^item> \<open>FloodLatch\<close>: the four rate-limiting latches behind one locale (\<open>transport/failure_regime_latch.rs\<close>,
    \<open>graph/drain_latch.rs\<close>, \<open>graph/tick_failure_latch.rs\<close>, \<open>transport/output_discard_latch.rs\<close>).
  \<^item> \<open>PeriodClamp\<close>: missed-interval arithmetic and the catch-up clamp (\<open>scheduler/catchup_clamp.rs\<close>).
  \<^item> \<open>SyncMatch\<close>: the verdict function of a synchronised node (\<open>scheduler/sync_match.rs\<close>).
  \<^item> \<open>SyncTransport\<close>: the two-slot subscriber the verdicts are carried out on
    (\<open>transport/subscriber.rs\<close>, \<open>graph/node.rs\<close>).
  \<^item> \<open>ReceivePath\<close>: one drain of the queue below its slots: the bound, corrupt frames and receive errors, the
    \<open>sample(N)\<close> gate, the eviction of a \<open>drop_oldest\<close> input and the replay gate
    (\<open>drain_with_accounting_impl\<close> and its body in \<open>transport/subscriber.rs\<close>).
  \<^item> \<open>SyncStamp\<close>: capture-time stamps read from inside a frame (\<open>scheduler/sync_stamp.rs\<close>).
  \<^item> \<open>Watchdog\<close>: one quality-of-service window (\<open>scheduler/mod.rs\<close>, \<open>scheduler/handle.rs\<close>).
  \<^item> \<open>SchedNode\<close>: the record of a scheduled node, its signals, its windows and its idle wait
    (\<open>ScheduledNode\<close> and the per-node functions of \<open>scheduler/mod.rs\<close>).
  \<^item> \<open>SyncAlign\<close>: the driver that aligns the heads of a node (\<open>align_sync_pass\<close> and below).
  \<^item> \<open>NodeFire\<close>: deciding and firing one node (\<open>decide_node\<close>, \<open>fire_node_into\<close> and the bursts).
  \<^item> \<open>Isolation\<close>: nodes whose code touches only its own part of the world, and why they commute.
  \<^item> \<open>SchedStep\<close>: the scheduler: its clock and trace, the serial step, deciding and ticking a level, and
    the two-pass executor with its choice of driver.
  \<^item> \<open>LevelFire\<close>: firing a level node by node against firing it in two phases.
  \<^item> \<open>GraphTopology\<close>: names, the topology of a configuration, its validation, credit
    (\<open>graph/topology.rs\<close>, \<open>graph/mod.rs\<close>, \<open>graph/config.rs\<close>).
  \<^item> \<open>GraphLevels\<close>: levels, rings and assigned levels (\<open>graph/topology.rs\<close>).
  \<^item> \<open>GraphStep\<close>: the runtime's step over its levels and through the barrier (\<open>graph/runtime.rs\<close>).
  \<^item> \<open>Barrier\<close>: the page of the step barrier, its routines, and their atomic accesses one at a time in any
    interleaving of the participants (\<open>barrier.rs\<close>).
  \<^item> \<open>Credit\<close>: the credit word of a blocking edge, the check before each fire that reads it, its stall
    detector, the park on it, and producer and consumer in any interleaving (\<open>credit.rs\<close>,
    \<open>graph/runtime.rs\<close>, \<open>transport/subscriber.rs\<close>).
  \<^item> \<open>TraceMerge\<close>: the merge of the traces of several processes (\<open>scheduler/trace_merge.rs\<close>).
  \<^item> \<open>StateCodec\<close>, \<open>StateImpls\<close>, \<open>StateContainers\<close>: sinks, the cursor with its element budget, and the
    capture and read of scalars, options, locks, tuples, strings, sequences and keyed containers, behind
    three locales (\<open>state/sink.rs\<close>, \<open>state/cursor.rs\<close>, \<open>state/impls.rs\<close>).
  \<^item> \<open>StateTypes\<close>: a fragment of the types built from these, which its own text delimits, and the trait's
    methods on them (\<open>state.rs\<close>).
  \<^item> \<open>StateCapture\<close>: the probe and the inline walk of an anchor (\<open>state_carrier/anchor.rs\<close>).
  \<^item> \<open>StateRing\<close>: the records of the state ring, the chunker that cuts a blob into them and the assembler
    that puts it together (\<open>state_ring.rs\<close>, \<open>state/skip_cause.rs\<close>).
  \<^item> \<open>AnchorBlob\<close>: the framing of a blob and the section of framework state in it (\<open>state_restore.rs\<close>).
  \<^item> \<open>RestorePlan\<close>: what a replay restores from and how its inputs and counters continue
    (\<open>state_restore.rs\<close>).
  \<^item> \<open>AnchorPath\<close>: the anchor boundary, from its refusals to the records it publishes, composed with the
    readers up to the restored value (\<open>take_anchor\<close> in \<open>graph/runtime.rs\<close>).
  \<^item> \<open>ShmRing\<close>: the single-producer single-consumer ring in shared memory that carries traces and state:
    its header, both overrun policies, and the two sides as single accesses in any interleaving
    (\<open>shm_ring.rs\<close>).
  \<^item> \<open>ControlLease\<close>: who may actuate a robot, its deadman and emergency stop, and the lock that the
    stop and the senders of commands contend for (\<open>cerud/src/lease.rs\<close>,
    \<open>cerulion_remoted/src/estop_lease.rs\<close>, \<open>send_unless_estop\<close> in \<open>cerulion_remoted/src/act_verbs.rs\<close>).
  \<^item> \<open>Receipts\<close>: the hash-chained log of what was asked of a robot: appending, rotation, verification
    and recovery (\<open>cerud/src/receipt.rs\<close>, \<open>cerud/src/hash.rs\<close>); \<open>ReceiptTrail\<close>: that log over its
    life, through failed appends and rotations.

  Correspondence. A struct is a record with the fields the modelled functions read or write, an enum a
  datatype, a Rust method a definition of the same name, with a word added
  where several types have it; an \<open>IndexMap\<close> is a list in insertion order, a
  map or a list of pairs; \<open>u32\<close> and \<open>u64\<close> are words and \<open>usize\<close> values that count list elements are
  naturals. Atomics shared with other threads are fields, read and written where the code does: every
  modelled operation runs on the scheduler's thread, apart from the thread pool of a level. Its order is a
  parameter there, any permutation of the nodes. A node's code, its checks and refills, the queues, the
  barrier and everything else outside the scheduler are functions on a world of any type \<open>'w\<close>, so what
  is proved holds for all of them; log lines are dropped, the decisions to emit them are kept.

  What the lemmas show. Per component: shape invariants under every operation, what each operation does
  on every branch, closed forms against the loops they replaced, order and conservation of frames and
  messages, round trips of codecs, bounds. Across components: that the order in which the nodes of a level
  run cannot be observed if their code does not interfere, whichever executor is chosen; that levels exist
  exactly for acyclic triggers and a built graph never panics while resolving them; that processes behind
  the barrier stay in step, and that one process alone behind it behaves as without it. For the barrier
  itself: that under every interleaving of single accesses nobody passes a boundary that a peer has not
  reached, one participant opens it, and it cannot hang. For credit: that no queue holds more than the
  depth of its edge, that across processes at most one frame more is unserved, and that no sleeping producer
  is forgotten. For an input: that it accounts for every frame it loses. For state: that what is captured restores, that
  what restores is of its type whatever the bytes were, that no short anchor is served as a whole one,
  and that a replay starts where its recording does. For the ring: that a producer that waits makes it a
  queue, and which records one that does not wait can tear. For the robot's operations: that actuation is
  held, recent and not stopped, that a stop waits for one send at most, that the newest receipt commits to
  all before it, that the files on disk hold one chain through every failure, and what a crash can cost it.

  Bounds and fuel. The align loop is structural in the operation budget the code itself counts down. The
  level peeling takes as fuel the number of nodes, one wave at least removing one node, which
  \<open>levels_exist_iff_acyclic\<close> shows to be enough. The ring search ends by a measure: every step advances
  the index of a stack frame or explores a node. Bursts are structural in the fire count, which the code
  caps. The capture loop is structural in its discard bound. A container's reader is structural in the
  count it read, which the element budget bounds; the chunker ends by the bytes still to cut. The words of
  the barrier are exact for fewer than \<open>2 ^ 32\<close> participants and \<open>2 ^ 64\<close> accesses,
  those of a credit word for fewer than \<open>2 ^ 32\<close> accesses, the cursors of a ring for fewer than
  \<open>2 ^ 64\<close>; the accesses of one word are taken to be sequentially consistent. Nothing returns a default for lack of fuel.

  Not modelled: replay (planned fires, pauses and injected frames; the answers of its read gate are a parameter
  of \<open>ReceivePath\<close>), restoring a captured schedule, the
  cost-driven level refinement, the trace ring, liveliness events, the tail of a runtime step but for its
  anchors (sweeps, death reports), building a runtime and loading nodes. The barrier's waits, which only
  poll or sleep; of the state codec the shape hashes, addresses, other key types
  than strings and restores in place; of a drain the counting of evictions and the events; the fork carrier; the key of an assembler has no rank, so the records of one ring are those of one process.
  Of the operations service the dispatch of requests, authorization and deploy bundles, which are I/O around
  the lease and the log; of the rings the trace records and the status pages.
  Outside the core: recording, the network gateway and daemons, pairing, code generation, the command line
  and the viewers; transforms are floating point, for which the allowed library has no rounding model.
\<close>

end
